(* ===== verification/CH_Prelude.thy ===== *)
theory CH_Prelude
  imports Main "HOL-Library.Word"
begin

text \<open>
  Shared vocabulary of the development.  Rust's unsigned integers are words of the same width;
  the overflow-aware operations of the standard library that the sources call
  (\<open>checked_add\<close>, \<open>checked_sub\<close>, \<open>saturating_sub\<close>, \<open>is_power_of_two\<close>) are defined here, and plain
  \<open>+\<close>, \<open>-\<close> and \<open>*\<close> are the wrapping operations of the release profile (\<^verbatim>\<open>src/Cargo.toml\<close> does
  not enable overflow checks).  The collection \<open>unat_simps\<close> moves goals about words to natural numbers.
\<close>

unbundle bit_operations_syntax

type_synonym u8 = "8 word"
type_synonym u16 = "16 word"
type_synonym u32 = "32 word"
type_synonym u64 = "64 word"

named_theorems unat_simps \<open>rules that read word comparisons and arithmetic as natural numbers\<close>

declare word_le_nat_alt [unat_simps] word_less_nat_alt [unat_simps] word_unat_eq_iff [unat_simps]

subsection \<open>Checked arithmetic\<close>

definition checked_add :: "'a::len word \<Rightarrow> 'a word \<Rightarrow> 'a word option" where
  "checked_add a b = (if unat a + unat b < 2 ^ LENGTH('a) then Some (a + b) else None)"

definition checked_sub :: "'a::len word \<Rightarrow> 'a word \<Rightarrow> 'a word option" where
  "checked_sub a b = (if b \<le> a then Some (a - b) else None)"

definition saturating_sub :: "'a::len word \<Rightarrow> 'a word \<Rightarrow> 'a word" where
  "saturating_sub a b = (if b \<le> a then a - b else 0)"

definition unwrap_or :: "'a option \<Rightarrow> 'a \<Rightarrow> 'a" where
  "unwrap_or x d = (case x of Some a \<Rightarrow> a | None \<Rightarrow> d)"

lemma unwrap_or_simps [simp]: "unwrap_or (Some a) d = a" "unwrap_or None d = d"
  by (simp_all add: unwrap_or_def)

definition is_power_of_two :: "'a::len word \<Rightarrow> bool" where
  "is_power_of_two a \<longleftrightarrow> (\<exists>k \<in> set [0..<LENGTH('a)]. a = 2 ^ k)"

lemma unat_lt_2p: "unat (a :: 'a::len word) < 2 ^ LENGTH('a)"
  by (rule unsigned_less)

lemma unat_add_small:
  fixes a b :: "'a::len word"
  shows "unat a + unat b < 2 ^ LENGTH('a) \<Longrightarrow> unat (a + b) = unat a + unat b"
  by (simp add: unat_add_lem)

lemma unat_sub_small [simp]:
  fixes a b :: "'a::len word"
  shows "b \<le> a \<Longrightarrow> unat (a - b) = unat a - unat b"
  by (rule unat_sub)

lemma unat_of_nat_small: "n < 2 ^ LENGTH('a) \<Longrightarrow> unat (of_nat n :: 'a::len word) = n"
  by (simp add: unat_of_nat)

lemma unat_ucast_up:
  fixes a :: "'a::len word"
  assumes "LENGTH('a) \<le> LENGTH('b::len)"
  shows "unat (ucast a :: 'b word) = unat a"
proof -
  have "unat a < 2 ^ LENGTH('b)"
    using unat_lt_2p [of a] assms by (meson less_le_trans one_le_numeral power_increasing)
  then show ?thesis by (simp add: unsigned_ucast_eq take_bit_nat_eq_self)
qed

lemma unat_ucast_mod:
  "unat (ucast (a :: 'a::len word) :: 'b::len word) = unat a mod 2 ^ LENGTH('b)"
  by (simp add: unsigned_ucast_eq take_bit_eq_mod)

lemma checked_add_Some:
  fixes a b :: "'a::len word"
  shows "checked_add a b = Some c \<longleftrightarrow> c = a + b \<and> unat a + unat b < 2 ^ LENGTH('a)"
  by (auto simp: checked_add_def)

lemma checked_sub_Some:
  "checked_sub a b = Some c \<longleftrightarrow> b \<le> a \<and> c = a - b"
  by (auto simp: checked_sub_def)

lemma unat_saturating_sub [unat_simps]:
  "unat (saturating_sub a b) = unat a - unat b"
  by (auto simp: saturating_sub_def word_le_nat_alt)

lemma is_power_of_two_iff:
  fixes a :: "'a::len word"
  shows "is_power_of_two a \<longleftrightarrow> (\<exists>k < LENGTH('a). a = 2 ^ k)"
  by (auto simp: is_power_of_two_def)

lemma is_power_of_twoI:
  "k < LENGTH('a) \<Longrightarrow> is_power_of_two (2 ^ k :: 'a::len word)"
  by (auto simp: is_power_of_two_iff)

lemma unat_2_power:
  "k < LENGTH('a) \<Longrightarrow> unat (2 ^ k :: 'a::len word) = 2 ^ k"
  using unat_of_nat [where 'a = 'a, of "2 ^ k"] by simp

lemma is_power_of_twoE:
  fixes a :: "'a::len word"
  assumes "is_power_of_two a"
  obtains k where "k < LENGTH('a)" "a = 2 ^ k" "unat a = 2 ^ k" "0 < unat a"
    "unat a dvd 2 ^ LENGTH('a)"
  using assms by (auto simp: is_power_of_two_iff unat_2_power le_imp_power_dvd)

subsection \<open>Rounding up to a multiple\<close>

definition round_up :: "nat \<Rightarrow> nat \<Rightarrow> nat" where
  "round_up n a = (if a mod n = 0 then a else a + (n - a mod n))"

lemma round_up_eq: "0 < n \<Longrightarrow> a mod n \<noteq> 0 \<Longrightarrow> round_up n a = n * (a div n + 1)"
proof -
  assume n: "0 < n" "a mod n \<noteq> 0"
  have "a mod n < n" using n by simp
  moreover have "a = n * (a div n) + a mod n" by simp
  moreover have "n * (a div n + 1) = n * (a div n) + n" by simp
  moreover have "round_up n a = a + (n - a mod n)" using n by (simp add: round_up_def)
  ultimately show ?thesis by linarith
qed

lemma round_up_dvd: "0 < n \<Longrightarrow> n dvd round_up n a"
  by (cases "a mod n = 0") (simp add: round_up_def dvd_eq_mod_eq_0, metis round_up_eq dvd_triv_left)

lemma round_up_ge: "a \<le> round_up n a"
  by (simp add: round_up_def)

lemma round_up_least:
  assumes "0 < n" "n dvd y" "a \<le> y"
  shows "round_up n a \<le> y"
proof (cases "a mod n = 0")
  case True
  with assms show ?thesis by (simp add: round_up_def)
next
  case False
  obtain q where q: "y = n * q" using assms by (auto elim: dvdE)
  have "a div n < q"
  proof (rule ccontr)
    assume "\<not> a div n < q"
    then have "n * q \<le> n * (a div n)" by simp
    moreover have "n * (a div n) + a mod n = a" by simp
    ultimately show False using assms(3) q False by linarith
  qed
  then have "n * (a div n + 1) \<le> n * q" by (intro mult_le_mono2) simp
  with False assms q show ?thesis by (simp add: round_up_eq)
qed

lemma round_up_minus:
  assumes "0 < n" "n - 1 \<le> a"
  shows "round_up n (a - (n - 1)) = a - a mod n"
proof -
  have "a - a mod n = n * (a div n)" by (simp add: minus_mod_eq_mult_div)
  moreover have lt: "a mod n < n" using assms by simp
  ultimately have ge: "a - (n - 1) \<le> n * (a div n)" by linarith
  have d: "n dvd a - a mod n" by (simp add: minus_mod_eq_mult_div)
  have le: "round_up n (a - (n - 1)) \<le> a - a mod n"
    using assms d ge by (intro round_up_least) (auto simp: minus_mod_eq_mult_div)
  have "a - (n - 1) \<le> round_up n (a - (n - 1))" by (rule round_up_ge)
  then have near: "a - a mod n < round_up n (a - (n - 1)) + n" using assms by linarith
  show ?thesis
  proof (rule antisym [OF le], rule ccontr)
    assume *: "\<not> a - a mod n \<le> round_up n (a - (n - 1))"
    have "n dvd (a - a mod n) - round_up n (a - (n - 1))"
      using assms by (intro dvd_diff_nat d round_up_dvd) auto
    then have "n \<le> (a - a mod n) - round_up n (a - (n - 1))" using * by (intro dvd_imp_le) auto
    then show False using * near by linarith
  qed
qed

lemma dvd_le_minus_mod:
  fixes d :: nat
  assumes "n dvd d" "d \<le> a"
  shows "d \<le> a - a mod n"
proof -
  obtain q where "d = n * q" using assms(1) by (elim dvdE)
  moreover have "q \<le> a div n" if "0 < n" using assms(2) that calculation
    by (metis div_le_mono nonzero_mult_div_cancel_left less_numeral_extra(3))
  ultimately show ?thesis by (cases "n = 0") (auto simp: minus_mod_eq_mult_div)
qed

subsection \<open>Bits of constants\<close>

lemma bit_pow2: "a = 2 ^ k \<Longrightarrow> bit (a :: 'a::len word) n \<longleftrightarrow> n = k \<and> n < LENGTH('a)"
  by (auto simp: bit_exp_iff)

lemma bit_mask_eq: "a = mask k \<Longrightarrow> bit (a :: 'a::len word) n \<longleftrightarrow> n < k \<and> n < LENGTH('a)"
  by (auto simp: bit_mask_iff)

lemma bit_not_mask_eq: "a = NOT (mask k) \<Longrightarrow> bit (a :: 'a::len word) n \<longleftrightarrow> k \<le> n \<and> n < LENGTH('a)"
  by (auto simp: bit_not_iff bit_mask_iff)

lemma bit_small:
  fixes a :: "'a::len word"
  assumes "unat a < 2 ^ k" "bit a n"
  shows "n < k"
proof -
  have "unat (take_bit k a) = unat a" using assms(1) by (simp add: unsigned_take_bit_eq take_bit_nat_eq_self)
  then have "take_bit k a = a" by (simp add: word_unat_eq_iff)
  then show ?thesis using assms(2) by (metis bit_take_bit_iff)
qed

lemma bit_test: "(drop_bit k r AND 1 = 1) = bit r k" for r :: "'a::len word"
  by (metis and_one_eq bit_iff_odd_drop_bit odd_iff_mod_2_eq_one even_iff_mod_2_eq_zero zero_neq_one)

end
