(* ===== verification/Rate_Limiter.thy ===== *)
theory Rate_Limiter
  imports CH_Prelude "HOL-Library.Monad_Syntax"
begin

text \<open>
  The token-bucket rate limiter of \<^verbatim>\<open>src/rate_limiter/src/lib.rs\<close>.  Clock readings are arguments, in
  nanoseconds: \<open>reduce\<close> reads the clock twice (\<open>elapsed()\<close>, then \<open>Instant::now()\<close>).  The floating
  point ratio of an over-consumption is an opaque value: \<open>ratio\<close> stands for the division of the two
  casts and \<open>scale\<close> for the multiplication and the cast back.  The timer descriptor is the state of
  its one-shot timer; the results of waiting on it are an argument.  A panic (the division by a zero
  \<open>processed_refill_time\<close>) is \<open>None\<close>.
\<close>

subsection \<open>Token buckets\<close>

function gcd_loop :: "u64 \<Rightarrow> u64 \<Rightarrow> u64" where
  "gcd_loop x y = (if y \<noteq> 0 then gcd_loop y (x mod y) else x)"
  by pat_completeness auto
termination
  by (relation "measure (\<lambda>(x, y). unat y)") (auto simp: unat_mod unat_gt_0)

declare gcd_loop.simps [simp del]

datatype 'f bucket_reduction = Failure | Success | OverConsumption 'f

record token_bucket =
  tb_size :: u64
  tb_one_time_burst :: u64
  tb_refill_time :: u64
  tb_budget :: u64
  tb_last_update :: nat
  tb_processed_capacity :: u64
  tb_processed_refill_time :: u64

definition NANOSEC_IN_ONE_MILLISEC :: u64 where
  "NANOSEC_IN_ONE_MILLISEC = 1000000"

definition token_bucket_new :: "nat \<Rightarrow> u64 \<Rightarrow> u64 \<Rightarrow> u64 \<Rightarrow> token_bucket option" where
  "token_bucket_new now sz one_time_burst complete_refill_time_ms =
     (if sz = 0 \<or> complete_refill_time_ms = 0 then None
      else
        let complete_refill_time_ns = complete_refill_time_ms * NANOSEC_IN_ONE_MILLISEC;
            common_factor = gcd_loop sz complete_refill_time_ns
        in Some \<lparr>tb_size = sz, tb_one_time_burst = one_time_burst,
                 tb_refill_time = complete_refill_time_ms, tb_budget = sz, tb_last_update = now,
                 tb_processed_capacity = sz div common_factor,
                 tb_processed_refill_time = complete_refill_time_ns div common_factor\<rparr>)"

definition refill :: "token_bucket \<Rightarrow> nat \<Rightarrow> nat \<Rightarrow> token_bucket" where
  "refill self t1 t2 =
     (let time_delta = word_of_nat (t1 - tb_last_update self);
          budget = tb_budget self +
            time_delta * tb_processed_capacity self div tb_processed_refill_time self;
          budget' = (if budget \<ge> tb_size self then tb_size self else budget)
      in self\<lparr>tb_last_update := t2, tb_budget := budget'\<rparr>)"

definition reduce ::
  "(u64 \<Rightarrow> u64 \<Rightarrow> 'f) \<Rightarrow> nat \<Rightarrow> nat \<Rightarrow> token_bucket \<Rightarrow> u64 \<Rightarrow> ('f bucket_reduction \<times> token_bucket) option"
where
  "reduce ratio t1 t2 self tokens =
     (if tb_one_time_burst self > 0 \<and> tb_one_time_burst self \<ge> tokens then
        Some (Success, self\<lparr>tb_one_time_burst := tb_one_time_burst self - tokens,
                            tb_last_update := t2\<rparr>)
      else
        let (tokens, self) =
          (if tb_one_time_burst self > 0
           then (tokens - tb_one_time_burst self, self\<lparr>tb_one_time_burst := 0\<rparr>)
           else (tokens, self))
        in if tb_processed_refill_time self = 0 then None
           else
             let self = refill self t1 t2 in
             if tokens > tb_budget self then
               (if tokens > tb_size self
                then Some (OverConsumption (ratio (tokens - tb_budget self) (tb_size self)),
                           self\<lparr>tb_budget := 0\<rparr>)
                else Some (Failure, self))
             else Some (Success, self\<lparr>tb_budget := tb_budget self - tokens\<rparr>))"

definition replenish :: "token_bucket \<Rightarrow> u64 \<Rightarrow> token_bucket" where
  "replenish self tokens =
     (if tb_one_time_burst self > 0
      then self\<lparr>tb_one_time_burst := tb_one_time_burst self + tokens\<rparr>
      else self\<lparr>tb_budget := min (tb_budget self + tokens) (tb_size self)\<rparr>)"

subsection \<open>The rate limiter\<close>

datatype token_type = Bytes | Ops

datatype bucket_update = NoUpdate | Disabled | Update token_bucket

text \<open>\<open>rl_timer\<close> is the duration in milliseconds the timer was last armed with.\<close>

record rate_limiter =
  rl_bandwidth :: "token_bucket option"
  rl_ops :: "token_bucket option"
  rl_timer :: "u64 option"
  rl_timer_active :: bool

definition REFILL_TIMER_INTERVAL_MS :: u64 where
  "REFILL_TIMER_INTERVAL_MS = 100"

text \<open>\<open>timer_ok\<close>: the timer descriptor was created and made non-blocking.\<close>

definition rate_limiter_new ::
  "bool \<Rightarrow> nat \<Rightarrow> u64 \<Rightarrow> u64 \<Rightarrow> u64 \<Rightarrow> u64 \<Rightarrow> u64 \<Rightarrow> u64 \<Rightarrow> rate_limiter option" where
  "rate_limiter_new timer_ok now bytes_cap bytes_burst bytes_refill ops_cap ops_burst ops_refill =
     (let bytes_token_bucket = token_bucket_new now bytes_cap bytes_burst bytes_refill;
          ops_token_bucket = token_bucket_new now ops_cap ops_burst ops_refill
      in if \<not> timer_ok then None
         else Some \<lparr>rl_bandwidth = bytes_token_bucket, rl_ops = ops_token_bucket,
                    rl_timer = None, rl_timer_active = False\<rparr>)"

definition activate_timer :: "rate_limiter \<Rightarrow> u64 \<Rightarrow> rate_limiter" where
  "activate_timer self dur = self\<lparr>rl_timer := Some dur, rl_timer_active := True\<rparr>"

definition bucket_of :: "rate_limiter \<Rightarrow> token_type \<Rightarrow> token_bucket option" where
  "bucket_of self ty = (case ty of Bytes \<Rightarrow> rl_bandwidth self | Ops \<Rightarrow> rl_ops self)"

definition set_bucket :: "rate_limiter \<Rightarrow> token_type \<Rightarrow> token_bucket \<Rightarrow> rate_limiter" where
  "set_bucket self ty b =
     (case ty of Bytes \<Rightarrow> self\<lparr>rl_bandwidth := Some b\<rparr> | Ops \<Rightarrow> self\<lparr>rl_ops := Some b\<rparr>)"

definition consume ::
  "(u64 \<Rightarrow> u64 \<Rightarrow> 'f) \<Rightarrow> ('f \<Rightarrow> u64 \<Rightarrow> u64) \<Rightarrow> nat \<Rightarrow> nat \<Rightarrow> rate_limiter \<Rightarrow> u64 \<Rightarrow> token_type \<Rightarrow>
     (bool \<times> rate_limiter) option" where
  "consume ratio scale t1 t2 self tokens ty =
     (if rl_timer_active self then Some (False, self)
      else case bucket_of self ty of
        Some bucket \<Rightarrow>
          (let refill_time = tb_refill_time bucket in
           case reduce ratio t1 t2 bucket tokens of
             None \<Rightarrow> None
           | Some (Failure, b) \<Rightarrow>
               (let self = set_bucket self ty b in
                Some (False, if \<not> rl_timer_active self
                             then activate_timer self REFILL_TIMER_INTERVAL_MS else self))
           | Some (Success, b) \<Rightarrow> Some (True, set_bucket self ty b)
           | Some (OverConsumption r, b) \<Rightarrow>
               Some (True, activate_timer (set_bucket self ty b) (scale r refill_time)))
      | None \<Rightarrow> Some (True, self))"

definition manual_replenish :: "rate_limiter \<Rightarrow> u64 \<Rightarrow> token_type \<Rightarrow> rate_limiter" where
  "manual_replenish self tokens ty =
     (case bucket_of self ty of
        Some bucket \<Rightarrow> set_bucket self ty (replenish bucket tokens)
      | None \<Rightarrow> self)"

definition is_blocked :: "rate_limiter \<Rightarrow> bool" where
  "is_blocked self = rl_timer_active self"

datatype wait_result = WaitOk | WaitInterrupted | WaitWouldBlock | WaitError

datatype rl_error = SpuriousRateLimiterEvent | TimerFdWaitError

text \<open>
  The loop of \<open>event_handler\<close> over the results of the successive waits; \<open>None\<close> when they run out
  while every one was interrupted.
\<close>

fun event_handler :: "wait_result list \<Rightarrow> rate_limiter \<Rightarrow> ((rl_error + unit) \<times> rate_limiter) option" where
  "event_handler [] self = None"
| "event_handler (WaitInterrupted # ws) self = event_handler ws self"
| "event_handler (WaitWouldBlock # ws) self = Some (Inl SpuriousRateLimiterEvent, self)"
| "event_handler (WaitError # ws) self = Some (Inl TimerFdWaitError, self)"
| "event_handler (WaitOk # ws) self = Some (Inr (), self\<lparr>rl_timer_active := False\<rparr>)"

definition update_buckets :: "rate_limiter \<Rightarrow> bucket_update \<Rightarrow> bucket_update \<Rightarrow> rate_limiter" where
  "update_buckets self bytes ops =
     (let self = (case bytes of Disabled \<Rightarrow> self\<lparr>rl_bandwidth := None\<rparr>
                  | Update tb \<Rightarrow> self\<lparr>rl_bandwidth := Some tb\<rparr> | NoUpdate \<Rightarrow> self)
      in (case ops of Disabled \<Rightarrow> self\<lparr>rl_ops := None\<rparr>
          | Update tb \<Rightarrow> self\<lparr>rl_ops := Some tb\<rparr> | NoUpdate \<Rightarrow> self))"

subsection \<open>The fraction of the refill rate\<close>

lemma gcd_loop_gcd: "unat (gcd_loop x y) = gcd (unat x) (unat y)"
proof (induction x y rule: gcd_loop.induct)
  case (1 x y)
  then show ?case
    by (subst gcd_loop.simps) (simp add: unat_mod gcd_red_nat [of "unat x" "unat y"])
qed

text \<open>
  A bucket that \<open>new\<close> can build and the operations keep: the budget within the size, and the
  simplified fraction equal to the refill rate \<open>size / refill time in nanoseconds\<close>.
\<close>

definition exact_rate :: "u64 \<Rightarrow> u64 \<Rightarrow> u64 \<Rightarrow> u64 \<Rightarrow> bool" where
  "exact_rate cap prt sz ms \<longleftrightarrow>
     (\<forall>d. d * unat cap div unat prt = d * unat sz div (unat ms * 1000000))"

definition bucket_inv :: "token_bucket \<Rightarrow> bool" where
  "bucket_inv b \<longleftrightarrow> tb_size b \<noteq> 0 \<and> tb_budget b \<le> tb_size b \<and> tb_processed_refill_time b \<noteq> 0 \<and>
     exact_rate (tb_processed_capacity b) (tb_processed_refill_time b) (tb_size b) (tb_refill_time b)"

lemma token_bucket_new_inv:
  assumes "token_bucket_new now sz burst ms = Some b" "unat ms * 1000000 < 2 ^ 64"
  shows "bucket_inv b \<and> tb_budget b = sz \<and> tb_size b = sz \<and> tb_one_time_burst b = burst \<and>
         tb_refill_time b = ms \<and> tb_last_update b = now"
proof -
  let ?ns = "ms * NANOSEC_IN_ONE_MILLISEC" and ?g = "gcd_loop sz (ms * NANOSEC_IN_ONE_MILLISEC)"
  have nz: "sz \<noteq> 0" "ms \<noteq> 0" and b: "b = \<lparr>tb_size = sz, tb_one_time_burst = burst,
      tb_refill_time = ms, tb_budget = sz, tb_last_update = now,
      tb_processed_capacity = sz div ?g, tb_processed_refill_time = ?ns div ?g\<rparr>"
    using assms(1) by (auto simp: token_bucket_new_def Let_def split: if_splits)
  have ns: "unat ?ns = unat ms * 1000000"
    using assms(2) unat_mult_lem [of ms "1000000"] by (simp add: NANOSEC_IN_ONE_MILLISEC_def)
  have pos: "0 < unat sz" "0 < unat ?ns" using nz ns by (auto simp: unat_gt_0)
  have g: "unat ?g = gcd (unat sz) (unat ?ns)" by (rule gcd_loop_gcd)
  then have gpos: "0 < unat ?g" using pos by (simp add: gcd_pos_nat)
  have dvd: "unat ?g dvd unat sz" "unat ?g dvd unat ?ns" using g by simp_all
  have "0 < unat ?ns div unat ?g" using dvd(2) pos(2) gpos by (simp add: div_greater_zero_iff dvd_imp_le)
  then have p: "?ns div ?g \<noteq> 0" by (simp add: unat_div flip: unat_gt_0)
  have "d * (unat sz div unat ?g) div (unat ?ns div unat ?g) = d * unat sz div unat ?ns" for d
  proof -
    obtain q r where "unat sz = unat ?g * q" "unat ?ns = unat ?g * r" using dvd by (auto elim!: dvdE)
    then show ?thesis using gpos by (simp add: mult.left_commute)
  qed
  then show ?thesis using nz p ns by (simp add: b bucket_inv_def exact_rate_def unat_div)
qed

text \<open>A refill never exceeds the exact amount, even where its 64-bit arithmetic wraps around.\<close>

lemma unat_add_le: "unat (a + b) \<le> unat a + unat (b :: 'a::len word)"
  by (simp add: unat_word_ariths)

lemma unat_mult_le: "unat (a * b) \<le> unat a * unat (b :: 'a::len word)"
  by (simp add: unat_word_ariths)

lemma unat_word_of_nat_le: "unat (word_of_nat n :: 'a::len word) \<le> n"
  by (simp add: unat_of_nat)

lemma refill_le:
  "unat (tb_budget (refill b t1 t2)) \<le> unat (tb_budget b) +
     (t1 - tb_last_update b) * unat (tb_processed_capacity b) div unat (tb_processed_refill_time b)"
proof -
  let ?d = "word_of_nat (t1 - tb_last_update b) :: u64"
  let ?x = "?d * tb_processed_capacity b div tb_processed_refill_time b"
  have "unat ?x \<le> unat ?d * unat (tb_processed_capacity b) div unat (tb_processed_refill_time b)"
    unfolding unat_div by (intro div_le_mono unat_mult_le)
  also have "\<dots> \<le> (t1 - tb_last_update b) * unat (tb_processed_capacity b) div
      unat (tb_processed_refill_time b)"
    by (intro div_le_mono mult_le_mono1 unat_word_of_nat_le)
  finally show ?thesis
    using unat_add_le [of "tb_budget b" ?x] by (auto simp: refill_def Let_def word_le_nat_alt)
qed

lemma refill_inv: "bucket_inv b \<Longrightarrow> bucket_inv (refill b t1 t2)"
  by (auto simp: bucket_inv_def refill_def Let_def)

lemma refill_fields [simp]:
  "tb_size (refill b t1 t2) = tb_size b"
  "tb_one_time_burst (refill b t1 t2) = tb_one_time_burst b"
  "tb_refill_time (refill b t1 t2) = tb_refill_time b"
  "tb_last_update (refill b t1 t2) = t2"
  by (simp_all add: refill_def Let_def)

text \<open>One request of at most the bucket size, with the tokens it was granted.\<close>

fun granted :: "'f bucket_reduction \<Rightarrow> u64 \<Rightarrow> nat" where
  "granted Failure tokens = 0"
| "granted Success tokens = unat tokens"
| "granted (OverConsumption r) tokens = unat tokens"

lemma reduce_step:
  assumes inv: "bucket_inv b" and le: "tokens \<le> tb_size b"
  obtains r b' where "reduce ratio t1 t2 b tokens = Some (r, b')" "bucket_inv b'"
    "r = Success \<or> r = Failure"
    "tb_size b' = tb_size b" "tb_refill_time b' = tb_refill_time b" "tb_last_update b' = t2"
    "granted r tokens + unat (tb_budget b') + unat (tb_one_time_burst b') \<le>
       unat (tb_budget b) + unat (tb_one_time_burst b) +
       (t1 - tb_last_update b) * unat (tb_size b) div (unat (tb_refill_time b) * 1000000)"
proof -
  have prt: "tb_processed_refill_time b \<noteq> 0" using inv by (simp add: bucket_inv_def)
  have rate: "(t1 - tb_last_update b) * unat (tb_processed_capacity b) div
      unat (tb_processed_refill_time b) =
      (t1 - tb_last_update b) * unat (tb_size b) div (unat (tb_refill_time b) * 1000000)"
    using inv unfolding bucket_inv_def exact_rate_def by blast
  show ?thesis
  proof (cases "tb_one_time_burst b > 0 \<and> tb_one_time_burst b \<ge> tokens")
    case True
    then have "reduce ratio t1 t2 b tokens = Some (Success,
        b\<lparr>tb_one_time_burst := tb_one_time_burst b - tokens, tb_last_update := t2\<rparr>)"
      by (simp add: reduce_def)
    then show ?thesis
      using that inv True by (auto simp: bucket_inv_def word_le_nat_alt)
  next
    case False
    define tk where "tk = (if tb_one_time_burst b > 0 then tokens - tb_one_time_burst b else tokens)"
    define c where "c = refill (b\<lparr>tb_one_time_burst := 0\<rparr>) t1 t2"
    have b0: "bucket_inv (b\<lparr>tb_one_time_burst := 0\<rparr>)" using inv by (simp add: bucket_inv_def)
    have c: "bucket_inv c" unfolding c_def using b0 by (rule refill_inv)
    have tk: "unat tk + unat (tb_one_time_burst b) = unat tokens"
      using False by (auto simp: tk_def word_le_nat_alt word_less_nat_alt unat_gt_0)
    then have tksz: "tk \<le> tb_size b" using le by (simp add: word_le_nat_alt)
    have bud: "unat (tb_budget c) \<le> unat (tb_budget b) +
        (t1 - tb_last_update b) * unat (tb_size b) div (unat (tb_refill_time b) * 1000000)"
      using refill_le [of "b\<lparr>tb_one_time_burst := 0\<rparr>" t1 t2] rate by (simp add: c_def)
    have small: "\<not> tb_size b < tk" using tksz by simp
    have red: "reduce ratio t1 t2 b tokens =
        (if tk > tb_budget c then Some (Failure, c)
         else Some (Success, c\<lparr>tb_budget := tb_budget c - tk\<rparr>))"
    proof (cases "tb_one_time_burst b = 0")
      case True
      then have eq: "b\<lparr>tb_one_time_burst := 0\<rparr> = b" by (cases b) simp
      have "c = refill b t1 t2" unfolding c_def eq ..
      moreover have "tk = tokens" using True by (simp add: tk_def)
      ultimately show ?thesis using True prt small by (simp add: reduce_def Let_def)
    next
      case burst: False
      then have gt: "0 < tb_one_time_burst b" by (simp add: word_gt_0)
      then have "tk = tokens - tb_one_time_burst b" by (simp add: tk_def)
      with gt False prt small show ?thesis by (simp add: reduce_def c_def Let_def)
    qed
    show ?thesis
    proof (cases "tk > tb_budget c")
      case True
      then show ?thesis using that [of Failure c] red c bud by (simp add: c_def)
    next
      case fit: False
      have le: "tk \<le> tb_budget c" using fit by simp
      then have "tb_budget c - tk \<le> tb_size c"
        using c by (auto simp: bucket_inv_def word_le_nat_alt)
      then have "bucket_inv (c\<lparr>tb_budget := tb_budget c - tk\<rparr>)"
        using c by (simp add: bucket_inv_def)
      moreover have "unat (tb_budget c - tk) + unat tk = unat (tb_budget c)"
        using le by (simp add: word_le_nat_alt)
      ultimately show ?thesis
        using that [of Success "c\<lparr>tb_budget := tb_budget c - tk\<rparr>"] red fit bud tk
        by (simp add: c_def del: unat_sub_small)
    qed
  qed
qed

subsection \<open>Runs of requests\<close>

text \<open>Requests as (tokens, clock at \<open>elapsed()\<close>, clock at \<open>Instant::now()\<close>), with the total granted.\<close>

fun reduce_run :: "(u64 \<Rightarrow> u64 \<Rightarrow> 'f) \<Rightarrow> token_bucket \<Rightarrow> (u64 \<times> nat \<times> nat) list \<Rightarrow> (nat \<times> token_bucket) option"
where
  "reduce_run ratio b [] = Some (0, b)"
| "reduce_run ratio b ((tokens, t1, t2) # reqs) =
     do {
       (r, b') \<leftarrow> reduce ratio t1 t2 b tokens;
       (n, b'') \<leftarrow> reduce_run ratio b' reqs;
       Some (granted r tokens + n, b'')
     }"

fun clock_ok :: "nat \<Rightarrow> (u64 \<times> nat \<times> nat) list \<Rightarrow> bool" where
  "clock_ok t [] = True"
| "clock_ok t ((_, t1, t2) # reqs) = (t \<le> t1 \<and> t1 \<le> t2 \<and> clock_ok t2 reqs)"

lemma div_add_le: "(x :: nat) div n + y div n \<le> (x + y) div n"
  using div_add1_eq [of x y n] by linarith

lemma reduce_run_bound:
  "bucket_inv b \<Longrightarrow> clock_ok (tb_last_update b) reqs \<Longrightarrow> \<forall>(tokens, _) \<in> set reqs. tokens \<le> tb_size b \<Longrightarrow>
   \<exists>n b'. reduce_run ratio b reqs = Some (n, b') \<and> bucket_inv b' \<and> tb_last_update b \<le> tb_last_update b' \<and>
     n + unat (tb_budget b') + unat (tb_one_time_burst b') \<le>
       unat (tb_budget b) + unat (tb_one_time_burst b) +
       (tb_last_update b' - tb_last_update b) * unat (tb_size b) div (unat (tb_refill_time b) * 1000000)"
proof (induction reqs arbitrary: b)
  case (Cons req reqs)
  obtain tokens t1 t2 where req: "req = (tokens, t1, t2)" by (cases req)
  let ?R = "unat (tb_refill_time b) * 1000000" and ?t0 = "tb_last_update b"
  have tk: "tokens \<le> tb_size b" using Cons.prems(3) by (simp add: req)
  obtain r b1 where st: "reduce ratio t1 t2 b tokens = Some (r, b1)" "bucket_inv b1"
    and f: "tb_size b1 = tb_size b" "tb_refill_time b1 = tb_refill_time b" "tb_last_update b1 = t2"
    and le: "granted r tokens + unat (tb_budget b1) + unat (tb_one_time_burst b1) \<le>
       unat (tb_budget b) + unat (tb_one_time_burst b) + (t1 - ?t0) * unat (tb_size b) div ?R"
    using reduce_step [OF Cons.prems(1) tk, of ratio t1 t2] by blast
  have t: "?t0 \<le> t1" "t1 \<le> t2" using Cons.prems(2) by (auto simp: req)
  obtain n b2 where run: "reduce_run ratio b1 reqs = Some (n, b2)" "bucket_inv b2"
    and u: "t2 \<le> tb_last_update b2"
    and le2: "n + unat (tb_budget b2) + unat (tb_one_time_burst b2) \<le>
       unat (tb_budget b1) + unat (tb_one_time_burst b1) +
       (tb_last_update b2 - t2) * unat (tb_size b) div ?R"
    using Cons.IH [OF st(2)] Cons.prems f by (auto simp: req)
  have "(t1 - ?t0) * unat (tb_size b) div ?R + (tb_last_update b2 - t2) * unat (tb_size b) div ?R \<le>
      ((t1 - ?t0) * unat (tb_size b) + (tb_last_update b2 - t2) * unat (tb_size b)) div ?R"
    by (rule div_add_le)
  also have "\<dots> \<le> (tb_last_update b2 - ?t0) * unat (tb_size b) div ?R"
    unfolding add_mult_distrib [symmetric] using t u by (intro div_le_mono mult_le_mono1) simp
  finally show ?case using st run u t le le2 by (auto simp: req)
qed auto

subsection \<open>The limiter as a state machine\<close>

lemma reduce_total:
  assumes inv: "bucket_inv b"
  obtains r b' where "reduce ratio t1 t2 b tokens = Some (r, b')" "bucket_inv b'"
    "\<forall>f. r = OverConsumption f \<longrightarrow> tb_size b < tokens \<and> tb_budget b' = 0"
proof (cases "tokens \<le> tb_size b")
  case True
  then show ?thesis using reduce_step [OF inv, of tokens ratio t1 t2] that by fastforce
next
  case big: False
  have b0: "bucket_inv (b\<lparr>tb_one_time_burst := n\<rparr>)" "bucket_inv (b\<lparr>tb_one_time_burst := n, tb_last_update := t\<rparr>)"
    for n t using inv by (simp_all add: bucket_inv_def)
  have c: "bucket_inv (refill b t1 t2)" "bucket_inv (refill (b\<lparr>tb_one_time_burst := 0\<rparr>) t1 t2)"
    using inv b0 refill_inv by blast+
  have keep: "bucket_inv (c\<lparr>tb_budget := 0\<rparr>)" if "bucket_inv c" for c
    using that by (auto simp: bucket_inv_def)
  have spend: "bucket_inv (c\<lparr>tb_budget := tb_budget c - tk\<rparr>)"
    if "bucket_inv c" "tk \<le> tb_budget c" for c tk
    using that by (auto simp: bucket_inv_def intro: order_trans [OF word_sub_le])
  have prt: "tb_processed_refill_time b \<noteq> 0" using inv by (simp add: bucket_inv_def)
  obtain r b' where red: "reduce ratio t1 t2 b tokens = Some (r, b')"
    using prt by (cases "reduce ratio t1 t2 b tokens") (auto simp: reduce_def Let_def split: if_splits)
  moreover have "bucket_inv b'"
    using red b0 c keep [OF c(1)] keep [OF c(2)] spend [OF c(1)] spend [OF c(2)]
    by (auto simp: reduce_def Let_def not_less split: if_splits)
  moreover have "tb_size b < tokens \<and> tb_budget b' = 0" if "r = OverConsumption f" for f
    using red that big by (auto simp: reduce_def Let_def split: if_splits)
  ultimately show ?thesis using that by blast
qed

lemma replenish_inv: "bucket_inv b \<Longrightarrow> bucket_inv (replenish b tokens)"
  by (auto simp: bucket_inv_def replenish_def min_def)

definition limiter_inv :: "rate_limiter \<Rightarrow> bool" where
  "limiter_inv rl \<longleftrightarrow> (\<forall>ty b. bucket_of rl ty = Some b \<longrightarrow> bucket_inv b) \<and>
     (rl_timer_active rl \<longrightarrow> rl_timer rl \<noteq> None)"

text \<open>New buckets come from the constructor, with a refill time that fits 64 bits in nanoseconds.\<close>

definition refill_fits :: "u64 \<Rightarrow> bool" where
  "refill_fits ms \<longleftrightarrow> unat ms * 1000000 < 2 ^ 64"

definition built :: "token_bucket \<Rightarrow> bool" where
  "built b \<longleftrightarrow> (\<exists>now sz burst ms. token_bucket_new now sz burst ms = Some b \<and> refill_fits ms)"

fun update_ok :: "bucket_update \<Rightarrow> bool" where
  "update_ok (Update b) = built b"
| "update_ok _ = True"

lemma built_inv: "built b \<Longrightarrow> bucket_inv b"
  using token_bucket_new_inv by (auto simp: built_def refill_fits_def)

lemma rate_limiter_new_inv:
  assumes "rate_limiter_new timer_ok now bytes_cap bytes_burst bytes_refill ops_cap ops_burst ops_refill = Some rl"
    and "refill_fits bytes_refill" "refill_fits ops_refill"
  shows "limiter_inv rl"
  using assms token_bucket_new_inv
  by (auto simp: rate_limiter_new_def limiter_inv_def bucket_of_def refill_fits_def Let_def
      split: if_splits token_type.splits)

text \<open>A refill time of \<open>2 ^ 58\<close> milliseconds is zero nanoseconds, and the first refill divides by it.\<close>

lemma refill_time_wraps:
  assumes "sz \<noteq> 0" "burst < tokens"
  shows "\<exists>b. token_bucket_new now sz burst (2 ^ 58) = Some b \<and> reduce ratio t1 t2 b tokens = None"
proof -
  have "(2 ^ 58 :: u64) * NANOSEC_IN_ONE_MILLISEC = 0" by (simp add: NANOSEC_IN_ONE_MILLISEC_def)
  then obtain b where "token_bucket_new now sz burst (2 ^ 58) = Some b" "tb_processed_refill_time b = 0" "tb_one_time_burst b = burst"
    using assms(1) by (auto simp: token_bucket_new_def Let_def)
  then show ?thesis using assms(2) by (auto simp: reduce_def Let_def)
qed

text \<open>The calls on a limiter; a step of \<open>event_handler\<close> is one that returned.\<close>

inductive rl_step ::
  "(u64 \<Rightarrow> u64 \<Rightarrow> 'f) \<Rightarrow> ('f \<Rightarrow> u64 \<Rightarrow> u64) \<Rightarrow> rate_limiter \<Rightarrow> rate_limiter \<Rightarrow> bool"
  for ratio scale where
  step_consume: "consume ratio scale t1 t2 rl tokens ty = Some (ok, rl') \<Longrightarrow> rl_step ratio scale rl rl'"
| step_replenish: "rl_step ratio scale rl (manual_replenish rl tokens ty)"
| step_event: "event_handler ws rl = Some (r, rl') \<Longrightarrow> rl_step ratio scale rl rl'"
| step_update: "update_ok bytes \<Longrightarrow> update_ok ops \<Longrightarrow> rl_step ratio scale rl (update_buckets rl bytes ops)"

inductive_cases rl_stepE: "rl_step ratio scale rl rl'"

lemma bucket_of_set:
  "bucket_of (set_bucket rl ty b) ty' = (if ty' = ty then Some b else bucket_of rl ty')"
  "rl_timer (set_bucket rl ty b) = rl_timer rl" "rl_timer_active (set_bucket rl ty b) = rl_timer_active rl"
  by (auto simp: bucket_of_def set_bucket_def split: token_type.splits)

lemma bucket_of_timer [simp]:
  "bucket_of (activate_timer rl d) = bucket_of rl"
  "bucket_of (rl\<lparr>rl_timer_active := a\<rparr>) = bucket_of rl"
  by (auto simp: bucket_of_def activate_timer_def fun_eq_iff split: token_type.splits)

lemma timer_fields:
  "rl_timer (activate_timer rl d) = Some d" "rl_timer_active (activate_timer rl d)"
  by (simp_all add: activate_timer_def)

lemma consume_inv:
  assumes inv: "limiter_inv rl"
  obtains ok rl' where "consume ratio scale t1 t2 rl tokens ty = Some (ok, rl')" "limiter_inv rl'"
    "\<not> ok \<longrightarrow> rl_timer_active rl'"
    "rl_timer_active rl \<longrightarrow> \<not> ok \<and> rl' = rl"
    "ok \<and> rl_timer_active rl' \<longrightarrow> (\<exists>b. bucket_of rl ty = Some b \<and> tb_size b < tokens)"
proof (cases "rl_timer_active rl \<or> bucket_of rl ty = None")
  case True
  then show ?thesis
    using that inv by (cases "rl_timer_active rl") (auto simp: consume_def)
next
  case False
  then obtain b where b: "bucket_of rl ty = Some b" "bucket_inv b"
    using inv by (auto simp: limiter_inv_def)
  obtain r b' where red: "reduce ratio t1 t2 b tokens = Some (r, b')" "bucket_inv b'"
    "\<forall>f. r = OverConsumption f \<longrightarrow> tb_size b < tokens \<and> tb_budget b' = 0"
    using reduce_total [OF b(2), of ratio t1 t2 tokens] by blast
  have *: "limiter_inv (set_bucket rl ty b')" "limiter_inv (activate_timer (set_bucket rl ty b') d)" for d
    using inv red(2) by (auto simp: limiter_inv_def bucket_of_set timer_fields split: if_splits)
  show ?thesis
    using that b red False * by (cases r) (auto simp: consume_def bucket_of_set timer_fields)
qed

lemma rl_step_inv: "rl_step ratio scale rl rl' \<Longrightarrow> limiter_inv rl \<Longrightarrow> limiter_inv rl'"
proof (erule rl_stepE, goal_cases)
  case (1 t1 t2 tokens ty ok)
  then show ?case using consume_inv [of rl ratio scale t1 t2 tokens ty] by auto
next
  case (2 tokens ty)
  then show ?case
    by (auto simp: limiter_inv_def manual_replenish_def bucket_of_set replenish_inv split: option.splits)
next
  case (3 ws r)
  then show ?case
    by (induction ws rl rule: event_handler.induct) (auto simp: limiter_inv_def)
next
  case (4 bytes ops)
  then show ?case
    by (cases bytes; cases ops)
      (auto simp: limiter_inv_def update_buckets_def bucket_of_def built_inv split: token_type.splits)
qed

subsection \<open>Properties\<close>

text \<open>The loop of \<open>gcd\<close> terminates with the greatest common divisor, so the simplified fraction
  of a new bucket is exactly its refill rate.\<close>

theorem gcd_loop_correct: "unat (gcd_loop x y) = gcd (unat x) (unat y)"
  by (rule gcd_loop_gcd)

text \<open>C10. The rate limit holds: for a bucket whose refill time in nanoseconds fits 64 bits and any
  sequence of requests of at most the bucket size at increasing clock times, every call returns, and
  the tokens granted plus the budget left never exceed the initial burst, the bucket size and the
  refill of the time passed.\<close>

theorem rate_limit_bound:
  assumes "token_bucket_new now sz burst ms = Some b" "unat ms * 1000000 < 2 ^ 64"
    and "clock_ok now reqs" "\<forall>(tokens, _) \<in> set reqs. tokens \<le> sz"
  shows "\<exists>n b'. reduce_run ratio b reqs = Some (n, b') \<and> tb_budget b' \<le> sz \<and>
    n + unat (tb_budget b') + unat (tb_one_time_burst b') \<le>
      unat burst + unat sz + (tb_last_update b' - now) * unat sz div (unat ms * 1000000)"
proof -
  note new = token_bucket_new_inv [OF assms(1,2)]
  have "tb_size b' = sz" if "reduce_run ratio b reqs = Some (n, b')" for n b'
  proof -
    have "tb_size b' = tb_size b" if "reduce_run ratio b reqs = Some (n, b')" for n b b'
      using that
    proof (induction reqs arbitrary: n b)
      case (Cons req reqs)
      obtain tokens t1 t2 where req: "req = (tokens, t1, t2)" by (cases req)
      have "tb_size b1 = tb_size b" if "reduce ratio t1 t2 b tokens = Some (r, b1)" for r b1
        using that by (auto simp: reduce_def Let_def split: if_splits)
      then show ?case using Cons by (auto simp: req split: bind_splits)
    qed simp
    then show ?thesis using that new by auto
  qed
  moreover obtain n b' where "reduce_run ratio b reqs = Some (n, b')" "bucket_inv b'"
    "n + unat (tb_budget b') + unat (tb_one_time_burst b') \<le> unat sz + unat burst +
       (tb_last_update b' - now) * unat sz div (unat ms * 1000000)"
    using reduce_run_bound [of b reqs ratio] new assms(3,4) by auto
  ultimately show ?thesis by (auto simp: bucket_inv_def)
qed

definition example_bucket :: token_bucket where
  "example_bucket = \<lparr>tb_size = 1000, tb_one_time_burst = 10, tb_refill_time = 1, tb_budget = 1000,
     tb_last_update = 0, tb_processed_capacity = 1, tb_processed_refill_time = 1000\<rparr>"

lemma example_bucket_new: "token_bucket_new 0 1000 10 1 = Some example_bucket"
proof -
  have "unat (gcd_loop 1000 1000000) = 1000"
    using gcd_loop_gcd [of 1000 1000000] by simp
  then have "gcd_loop 1000 1000000 = 1000" by (simp add: word_unat_eq_iff)
  then show ?thesis
    by (simp add: token_bucket_new_def NANOSEC_IN_ONE_MILLISEC_def example_bucket_def)
qed

theorem rate_limit_bound_witness:
  "\<exists>n b'. reduce_run (\<lambda>_ _. ()) example_bucket [(900, 0, 1), (600, 500000, 500001)] = Some (n, b') \<and>
     n \<le> 1510"
proof -
  have run: "reduce_run (\<lambda>_ _. ()) example_bucket [(900, 0, 1), (600, 500000, 500001)] =
      Some (1500, example_bucket\<lparr>tb_one_time_burst := 0, tb_budget := 9, tb_last_update := 500001\<rparr>)"
    by (simp add: example_bucket_def reduce_def refill_def)
  show ?thesis
    using rate_limit_bound [OF example_bucket_new, of "[(900, 0, 1), (600, 500000, 500001)]" "\<lambda>_ _. ()"]
    unfolding run by auto
qed

text \<open>C27. Whatever calls a limiter has served since it was created, a further \<open>consume\<close> returns, both budgets
  stay within their bucket size, a refusal leaves the limiter blocked, a blocked limiter refuses without changing, and
  a granted request leaves it blocked only if it asked for more than the bucket size.  The buckets, those of the
  constructor and those installed later, have refill times that fit 64 bits in nanoseconds; with a larger one the
  division in the refill can be by zero (\<open>refill_time_wraps\<close>).\<close>

theorem limiter_serves:
  assumes "rate_limiter_new timer_ok now bytes_cap bytes_burst bytes_refill ops_cap ops_burst ops_refill = Some rl0"
    and "refill_fits bytes_refill" "refill_fits ops_refill" and "(rl_step ratio scale)\<^sup>*\<^sup>* rl0 rl"
  shows "\<exists>ok rl'. consume ratio scale t1 t2 rl tokens ty = Some (ok, rl') \<and>
    (\<forall>ty b. bucket_of rl' ty = Some b \<longrightarrow> tb_budget b \<le> tb_size b) \<and>
    (\<not> ok \<longrightarrow> is_blocked rl') \<and> (is_blocked rl \<longrightarrow> \<not> ok \<and> rl' = rl) \<and>
    (ok \<and> is_blocked rl' \<longrightarrow> (\<exists>b. bucket_of rl ty = Some b \<and> tb_size b < tokens))"
proof -
  have "limiter_inv rl"
    using assms(4) rate_limiter_new_inv [OF assms(1-3)] by (induction rule: rtranclp_induct) (auto intro: rl_step_inv)
  then obtain ok rl' where "consume ratio scale t1 t2 rl tokens ty = Some (ok, rl')" "limiter_inv rl'"
    "\<not> ok \<longrightarrow> rl_timer_active rl'" "rl_timer_active rl \<longrightarrow> \<not> ok \<and> rl' = rl"
    "ok \<and> rl_timer_active rl' \<longrightarrow> (\<exists>b. bucket_of rl ty = Some b \<and> tb_size b < tokens)"
    using consume_inv [of rl ratio scale t1 t2 tokens ty] by blast
  then show ?thesis by (auto simp: is_blocked_def limiter_inv_def bucket_inv_def)
qed

definition example_limiter :: rate_limiter where
  "example_limiter = \<lparr>rl_bandwidth = Some example_bucket, rl_ops = None, rl_timer = None,
     rl_timer_active = False\<rparr>"

lemma example_limiter_new: "rate_limiter_new True 0 1000 10 1 0 0 0 = Some example_limiter"
  using example_bucket_new by (simp add: rate_limiter_new_def example_limiter_def token_bucket_new_def [of _ 0])

theorem limiter_serves_witness:
  "\<exists>ok rl'. consume (\<lambda>_ _. ()) (\<lambda>_ _. 7) 0 1 example_limiter 1005 Bytes = Some (ok, rl')"
proof -
  have "refill_fits 1" "refill_fits 0" by (simp_all add: refill_fits_def)
  from limiter_serves [OF example_limiter_new this rtranclp.rtrancl_refl, of "\<lambda>_ _. ()" "\<lambda>_ _. 7" 0 1 1005 Bytes]
  show ?thesis by blast
qed

end
