(* ===== verification/Byte_Order.thy ===== *)
theory Byte_Order
  imports CH_Prelude
begin

text \<open>
  Little-endian accesses to byte slices.  The sources convert with the \<open>byteorder\<close> crate, which is
  not part of the repository: the definitions that use it take its functions as a parameter
  (\<open>le_codec\<close>), and theorems that need its documented laws assume \<open>codec_ok\<close>.  \<open>write_at\<close> is the
  write into a sub-slice that both the packet accessors and the device models perform; \<open>le_impl\<close>
  is a codec that satisfies the laws and serves the concrete inputs.
\<close>

subsection \<open>Conversions and slice writes\<close>

text \<open>The byte order conversions of the \<open>byteorder\<close> crate, as functions from and to bytes.\<close>

record le_codec =
  read_u16 :: "u8 list \<Rightarrow> u16"
  read_u32 :: "u8 list \<Rightarrow> u32"
  read_u64 :: "u8 list \<Rightarrow> u64"
  enc_u16 :: "u16 \<Rightarrow> u8 list"
  enc_u32 :: "u32 \<Rightarrow> u8 list"
  enc_u64 :: "u64 \<Rightarrow> u8 list"

definition codec_ok :: "le_codec \<Rightarrow> bool" where
  "codec_ok c \<longleftrightarrow>
     (\<forall>v. length (enc_u16 c v) = 2) \<and> (\<forall>v. length (enc_u32 c v) = 4) \<and> (\<forall>v. length (enc_u64 c v) = 8) \<and>
     (\<forall>v. read_u16 c (enc_u16 c v) = v) \<and> (\<forall>v. read_u32 c (enc_u32 c v) = v) \<and>
     (\<forall>v. read_u64 c (enc_u64 c v) = v) \<and>
     (\<forall>bs. read_u16 c (take 2 bs) = read_u16 c bs) \<and> (\<forall>bs. read_u32 c (take 4 bs) = read_u32 c bs) \<and>
     (\<forall>bs. read_u64 c (take 8 bs) = read_u64 c bs)"

text \<open>Writing into the slice that starts at an offset replaces the bytes there.\<close>

definition write_at :: "nat \<Rightarrow> u8 list \<Rightarrow> u8 list \<Rightarrow> u8 list" where
  "write_at off bs hdr = take off hdr @ bs @ drop (off + length bs) hdr"

text \<open>Little-endian bytes, the encoding the crate documents, satisfy the laws.\<close>

definition le_bytes :: "nat \<Rightarrow> 'a::len word \<Rightarrow> u8 list" where
  "le_bytes n v = map (\<lambda>i. ucast (drop_bit (8 * i) v)) [0..<n]"

definition le_value :: "u8 list \<Rightarrow> 'a::len word" where
  "le_value bs = foldr (\<lambda>b acc. ucast b OR push_bit 8 acc) bs 0"

definition le_impl :: le_codec where
  "le_impl = \<lparr>read_u16 = (\<lambda>bs. le_value (take 2 bs)), read_u32 = (\<lambda>bs. le_value (take 4 bs)),
     read_u64 = (\<lambda>bs. le_value (take 8 bs)),
     enc_u16 = le_bytes 2, enc_u32 = le_bytes 4, enc_u64 = le_bytes 8\<rparr>"

subsection \<open>Laws\<close>

text \<open>A slice read is not touched by a write elsewhere and sees the bytes written there.\<close>

lemma length_write_at: "off + length bs \<le> length hdr \<Longrightarrow> length (write_at off bs hdr) = length hdr"
  by (simp add: write_at_def)

lemma nth_write_at:
  assumes "off + length bs \<le> length d" "j < length d"
  shows "write_at off bs d ! j = (if off \<le> j \<and> j < off + length bs then bs ! (j - off) else d ! j)"
  using assms by (auto simp: write_at_def nth_append min_def)

lemma take_drop_write_same:
  "off + length bs \<le> length hdr \<Longrightarrow> n = length bs \<Longrightarrow> take n (drop off (write_at off bs hdr)) = bs"
  by (simp add: write_at_def)

lemma take_drop_write_other:
  assumes "off + n \<le> off' \<or> off' + length bs \<le> off" "off' + length bs \<le> length hdr"
  shows "take n (drop off (write_at off' bs hdr)) = take n (drop off hdr)"
proof (cases "off + n \<le> off'")
  case True
  then have "min n (off' - off) = n" by simp
  then show ?thesis using True assms(2) by (simp add: write_at_def take_drop)
next
  case False
  then have le: "off' + length bs \<le> off" using assms(1) by simp
  then have "drop off (take off' hdr) = []" "drop (off - length (take off' hdr)) bs = []"
    using assms(2) by simp_all
  then show ?thesis using le assms(2) by (simp add: write_at_def)
qed

lemma codec_lens:
  assumes "codec_ok c"
  shows "length (enc_u16 c v16) = 2" "length (enc_u32 c v32) = 4" "length (enc_u64 c v64) = 8"
  using assms by (simp_all add: codec_ok_def)

lemma codec_take:
  assumes "codec_ok c"
  shows "read_u16 c b = read_u16 c (take 2 b)" "read_u32 c b = read_u32 c (take 4 b)"
    "read_u64 c b = read_u64 c (take 8 b)"
  using assms by (simp_all add: codec_ok_def)

lemma codec_read_same:
  assumes "codec_ok c"
  shows "off + 2 \<le> length h \<Longrightarrow> read_u16 c (drop off (write_at off (enc_u16 c v16) h)) = v16"
    and "off + 4 \<le> length h \<Longrightarrow> read_u32 c (drop off (write_at off (enc_u32 c v32) h)) = v32"
    and "off + 8 \<le> length h \<Longrightarrow> read_u64 c (drop off (write_at off (enc_u64 c v64) h)) = v64"
proof -
  have r: "read_u16 c (enc_u16 c v16) = v16" "read_u32 c (enc_u32 c v32) = v32"
    "read_u64 c (enc_u64 c v64) = v64"
    using assms by (simp_all add: codec_ok_def)
  show "off + 2 \<le> length h \<Longrightarrow> read_u16 c (drop off (write_at off (enc_u16 c v16) h)) = v16"
    by (subst codec_take [OF assms]) (simp add: take_drop_write_same codec_lens assms r)
  show "off + 4 \<le> length h \<Longrightarrow> read_u32 c (drop off (write_at off (enc_u32 c v32) h)) = v32"
    by (subst codec_take [OF assms]) (simp add: take_drop_write_same codec_lens assms r)
  show "off + 8 \<le> length h \<Longrightarrow> read_u64 c (drop off (write_at off (enc_u64 c v64) h)) = v64"
    by (subst codec_take [OF assms]) (simp add: take_drop_write_same codec_lens assms r)
qed

lemma codec_read_other:
  assumes "codec_ok c" "off' + length bs \<le> length h"
  shows "off + 2 \<le> off' \<or> off' + length bs \<le> off \<Longrightarrow> read_u16 c (drop off (write_at off' bs h)) = read_u16 c (drop off h)"
    and "off + 4 \<le> off' \<or> off' + length bs \<le> off \<Longrightarrow> read_u32 c (drop off (write_at off' bs h)) = read_u32 c (drop off h)"
    and "off + 8 \<le> off' \<or> off' + length bs \<le> off \<Longrightarrow> read_u64 c (drop off (write_at off' bs h)) = read_u64 c (drop off h)"
proof -
  note t = codec_take [OF assms(1)]
  show "off + 2 \<le> off' \<or> off' + length bs \<le> off \<Longrightarrow> read_u16 c (drop off (write_at off' bs h)) = read_u16 c (drop off h)"
    by (subst (1 2) t(1)) (simp add: take_drop_write_other assms(2))
  show "off + 4 \<le> off' \<or> off' + length bs \<le> off \<Longrightarrow> read_u32 c (drop off (write_at off' bs h)) = read_u32 c (drop off h)"
    by (subst (1 2) t(2)) (simp add: take_drop_write_other assms(2))
  show "off + 8 \<le> off' \<or> off' + length bs \<le> off \<Longrightarrow> read_u64 c (drop off (write_at off' bs h)) = read_u64 c (drop off h)"
    by (subst (1 2) t(3)) (simp add: take_drop_write_other assms(2))
qed

lemmas codec_simps = codec_lens codec_read_same codec_read_other length_write_at
  codec_read_same [where off = 0, simplified] codec_read_other [where off = 0, simplified]

lemma le_value_slice:
  fixes v :: "'a::len word"
  assumes "k \<le> n"
  shows "foldr (\<lambda>b acc. ucast b OR push_bit 8 acc) (map (\<lambda>i. ucast (drop_bit (8 * i) v) :: u8) [k..<n]) 0 =
    drop_bit (8 * k) (take_bit (8 * n) v)"
  using assms
proof (induction rule: inc_induct)
  case base
  show ?case by (auto intro!: bit_word_eqI simp: bit_simps)
next
  case (step k)
  show ?case
    unfolding upt_conv_Cons [OF step.hyps(2)] list.map foldr.simps comp_def step.IH
    using step.hyps by (auto intro!: bit_word_eqI simp: bit_simps) 
qed

lemma le_value_bytes: "le_value (le_bytes n v) = take_bit (8 * n) v"
  using le_value_slice [of 0 n v] by (simp add: le_value_def le_bytes_def)

lemma length_le_bytes [simp]: "length (le_bytes n v) = n"
  by (simp add: le_bytes_def)

lemma codec_ok_le_impl: "codec_ok le_impl"
  by (simp add: codec_ok_def le_impl_def le_value_bytes take_bit_word_eq_self)

end
