(* ===== verification/Vsock_Packet.thy ===== *)
theory Vsock_Packet
  imports Byte_Order
begin

text \<open>
  The vsock packet wrapper of \<^verbatim>\<open>virtio-devices/src/vsock/packet.rs\<close>.  A packet is a header of
  \<open>VSOCK_PKT_HDR_SIZE\<close> bytes and an optional data buffer, both in guest memory.  The byte-level
  accessors work on the header slice; the byte order conversions come from the \<open>byteorder\<close> crate
  and are the parameter \<open>le_codec\<close> of \<open>Byte_Order\<close>.  \<open>hdr_view\<close> reads a header
  as the C structure the source documents, from the widths of its fields, and \<open>packet_header_refines\<close> shows that
  every getter reads its field and every setter updates exactly its field.  The constructors take the descriptor chain as the list of
  descriptors its iterator yields, and guest memory (\<open>check_range\<close>, \<open>get_host_address\<close>) and the
  optional address translation as arguments.
\<close>

subsection \<open>Constants and errors\<close>

definition MAX_PKT_BUF_SIZE :: nat where "MAX_PKT_BUF_SIZE = 64 * 1024"

definition VSOCK_OP_REQUEST :: u16 where "VSOCK_OP_REQUEST = 1"
definition VSOCK_OP_RESPONSE :: u16 where "VSOCK_OP_RESPONSE = 2"
definition VSOCK_OP_RST :: u16 where "VSOCK_OP_RST = 3"
definition VSOCK_OP_SHUTDOWN :: u16 where "VSOCK_OP_SHUTDOWN = 4"
definition VSOCK_OP_RW :: u16 where "VSOCK_OP_RW = 5"
definition VSOCK_OP_CREDIT_UPDATE :: u16 where "VSOCK_OP_CREDIT_UPDATE = 6"
definition VSOCK_OP_CREDIT_REQUEST :: u16 where "VSOCK_OP_CREDIT_REQUEST = 7"
definition VSOCK_FLAGS_SHUTDOWN_RCV :: u32 where "VSOCK_FLAGS_SHUTDOWN_RCV = 1"
definition VSOCK_FLAGS_SHUTDOWN_SEND :: u32 where "VSOCK_FLAGS_SHUTDOWN_SEND = 2"
definition VSOCK_TYPE_STREAM :: u16 where "VSOCK_TYPE_STREAM = 1"
definition VSOCK_HOST_CID :: u64 where "VSOCK_HOST_CID = 2"

lemmas vsock_op_defs = VSOCK_OP_REQUEST_def VSOCK_OP_RESPONSE_def VSOCK_OP_RST_def
  VSOCK_OP_SHUTDOWN_def VSOCK_OP_RW_def VSOCK_OP_CREDIT_UPDATE_def VSOCK_OP_CREDIT_REQUEST_def

datatype vsock_error =
    BufDescTooSmall
  | BufDescMissing
  | GuestMemory
  | GuestMemoryBounds
  | HdrDescTooSmall u32
  | HdrDescMissing
  | InvalidPktLen u32
  | NoData
  | PktBufMissing
  | UnreadableDescriptor
  | UnwritableDescriptor

definition VSOCK_PKT_HDR_SIZE :: nat where "VSOCK_PKT_HDR_SIZE = 44"
definition HDROFF_SRC_CID :: nat where "HDROFF_SRC_CID = 0"
definition HDROFF_DST_CID :: nat where "HDROFF_DST_CID = 8"
definition HDROFF_SRC_PORT :: nat where "HDROFF_SRC_PORT = 16"
definition HDROFF_DST_PORT :: nat where "HDROFF_DST_PORT = 20"
definition HDROFF_LEN :: nat where "HDROFF_LEN = 24"
definition HDROFF_TYPE :: nat where "HDROFF_TYPE = 28"
definition HDROFF_OP :: nat where "HDROFF_OP = 30"
definition HDROFF_FLAGS :: nat where "HDROFF_FLAGS = 32"
definition HDROFF_BUF_ALLOC :: nat where "HDROFF_BUF_ALLOC = 36"
definition HDROFF_FWD_CNT :: nat where "HDROFF_FWD_CNT = 40"

lemmas hdroff_defs = VSOCK_PKT_HDR_SIZE_def HDROFF_SRC_CID_def HDROFF_DST_CID_def
  HDROFF_SRC_PORT_def HDROFF_DST_PORT_def HDROFF_LEN_def HDROFF_TYPE_def HDROFF_OP_def
  HDROFF_FLAGS_def HDROFF_BUF_ALLOC_def HDROFF_FWD_CNT_def

subsection \<open>Byte-level header accessors\<close>

definition src_cid :: "le_codec \<Rightarrow> u8 list \<Rightarrow> u64" where
  "src_cid c hdr = read_u64 c (drop HDROFF_SRC_CID hdr)"
definition set_src_cid :: "le_codec \<Rightarrow> u64 \<Rightarrow> u8 list \<Rightarrow> u8 list" where
  "set_src_cid c v hdr = write_at HDROFF_SRC_CID (enc_u64 c v) hdr"
definition dst_cid :: "le_codec \<Rightarrow> u8 list \<Rightarrow> u64" where
  "dst_cid c hdr = read_u64 c (drop HDROFF_DST_CID hdr)"
definition set_dst_cid :: "le_codec \<Rightarrow> u64 \<Rightarrow> u8 list \<Rightarrow> u8 list" where
  "set_dst_cid c v hdr = write_at HDROFF_DST_CID (enc_u64 c v) hdr"
definition src_port :: "le_codec \<Rightarrow> u8 list \<Rightarrow> u32" where
  "src_port c hdr = read_u32 c (drop HDROFF_SRC_PORT hdr)"
definition set_src_port :: "le_codec \<Rightarrow> u32 \<Rightarrow> u8 list \<Rightarrow> u8 list" where
  "set_src_port c v hdr = write_at HDROFF_SRC_PORT (enc_u32 c v) hdr"
definition dst_port :: "le_codec \<Rightarrow> u8 list \<Rightarrow> u32" where
  "dst_port c hdr = read_u32 c (drop HDROFF_DST_PORT hdr)"
definition set_dst_port :: "le_codec \<Rightarrow> u32 \<Rightarrow> u8 list \<Rightarrow> u8 list" where
  "set_dst_port c v hdr = write_at HDROFF_DST_PORT (enc_u32 c v) hdr"
definition pkt_len :: "le_codec \<Rightarrow> u8 list \<Rightarrow> u32" where
  "pkt_len c hdr = read_u32 c (drop HDROFF_LEN hdr)"
definition pkt_is_empty :: "le_codec \<Rightarrow> u8 list \<Rightarrow> bool" where
  "pkt_is_empty c hdr \<longleftrightarrow> pkt_len c hdr = 0"
definition set_len :: "le_codec \<Rightarrow> u32 \<Rightarrow> u8 list \<Rightarrow> u8 list" where
  "set_len c v hdr = write_at HDROFF_LEN (enc_u32 c v) hdr"
definition pkt_type :: "le_codec \<Rightarrow> u8 list \<Rightarrow> u16" where
  "pkt_type c hdr = read_u16 c (drop HDROFF_TYPE hdr)"
definition set_type :: "le_codec \<Rightarrow> u16 \<Rightarrow> u8 list \<Rightarrow> u8 list" where
  "set_type c v hdr = write_at HDROFF_TYPE (enc_u16 c v) hdr"
definition pkt_op :: "le_codec \<Rightarrow> u8 list \<Rightarrow> u16" where
  "pkt_op c hdr = read_u16 c (drop HDROFF_OP hdr)"
definition set_op :: "le_codec \<Rightarrow> u16 \<Rightarrow> u8 list \<Rightarrow> u8 list" where
  "set_op c v hdr = write_at HDROFF_OP (enc_u16 c v) hdr"
definition pkt_flags :: "le_codec \<Rightarrow> u8 list \<Rightarrow> u32" where
  "pkt_flags c hdr = read_u32 c (drop HDROFF_FLAGS hdr)"
definition set_flags :: "le_codec \<Rightarrow> u32 \<Rightarrow> u8 list \<Rightarrow> u8 list" where
  "set_flags c v hdr = write_at HDROFF_FLAGS (enc_u32 c v) hdr"
definition set_flag :: "le_codec \<Rightarrow> u32 \<Rightarrow> u8 list \<Rightarrow> u8 list" where
  "set_flag c v hdr = set_flags c (pkt_flags c hdr OR v) hdr"
definition buf_alloc :: "le_codec \<Rightarrow> u8 list \<Rightarrow> u32" where
  "buf_alloc c hdr = read_u32 c (drop HDROFF_BUF_ALLOC hdr)"
definition set_buf_alloc :: "le_codec \<Rightarrow> u32 \<Rightarrow> u8 list \<Rightarrow> u8 list" where
  "set_buf_alloc c v hdr = write_at HDROFF_BUF_ALLOC (enc_u32 c v) hdr"
definition fwd_cnt :: "le_codec \<Rightarrow> u8 list \<Rightarrow> u32" where
  "fwd_cnt c hdr = read_u32 c (drop HDROFF_FWD_CNT hdr)"
definition set_fwd_cnt :: "le_codec \<Rightarrow> u32 \<Rightarrow> u8 list \<Rightarrow> u8 list" where
  "set_fwd_cnt c v hdr = write_at HDROFF_FWD_CNT (enc_u32 c v) hdr"

lemmas getter_defs = src_cid_def dst_cid_def src_port_def dst_port_def pkt_len_def pkt_type_def
  pkt_op_def pkt_flags_def buf_alloc_def fwd_cnt_def
lemmas setter_defs = set_src_cid_def set_dst_cid_def set_src_port_def set_dst_port_def set_len_def
  set_type_def set_op_def set_flags_def set_buf_alloc_def set_fwd_cnt_def

subsection \<open>Packets on guest memory\<close>

text \<open>The pointers of the structure are host addresses.\<close>

record vsock_packet =
  vp_hdr :: u64
  vp_buf :: "u64 option"
  vp_buf_size :: u64

record descriptor =
  d_addr :: u64
  d_len :: u32
  d_write_only :: bool
  d_has_next :: bool

record guest_mem =
  check_range :: "u64 \<Rightarrow> u64 \<Rightarrow> bool"
  get_host_address :: "u64 \<Rightarrow> u64 option"

datatype 'a outcome = Done 'a | Fail vsock_error | Panic

fun bind_outcome :: "'a outcome \<Rightarrow> ('a \<Rightarrow> 'b outcome) \<Rightarrow> 'b outcome" where
  "bind_outcome (Done a) f = f a"
| "bind_outcome (Fail e) f = Fail e"
| "bind_outcome Panic f = Panic"

definition get_host_address_range :: "guest_mem \<Rightarrow> u64 \<Rightarrow> u64 \<Rightarrow> u64 option outcome" where
  "get_host_address_range mem addr sz =
     (if check_range mem addr sz then
        (case get_host_address mem addr of Some p \<Rightarrow> Done (Some p) | None \<Rightarrow> Panic)
      else Done None)"

definition translate_gva :: "(u64 \<Rightarrow> u64 \<Rightarrow> u64 option) option \<Rightarrow> u64 \<Rightarrow> u64 \<Rightarrow> u64 outcome" where
  "translate_gva access_platform addr len =
     (case access_platform of
        Some ap \<Rightarrow> (case ap addr len of Some gpa \<Rightarrow> Done gpa | None \<Rightarrow> Panic)
      | None \<Rightarrow> Done addr)"

text \<open>The mapping of one descriptor, as both constructors do it for the header and for the data.\<close>

definition map_desc ::
  "guest_mem \<Rightarrow> (u64 \<Rightarrow> u64 \<Rightarrow> u64 option) option \<Rightarrow> descriptor \<Rightarrow> u64 \<Rightarrow> u64 outcome" where
  "map_desc mem ap d sz =
     bind_outcome (translate_gva ap (d_addr d) (ucast (d_len d))) (\<lambda>gpa.
     bind_outcome (get_host_address_range mem gpa sz) (\<lambda>p.
       case p of Some h \<Rightarrow> Done h | None \<Rightarrow> Fail GuestMemory))"

definition hdr_bytes :: "(u64 \<Rightarrow> u8) \<Rightarrow> u64 \<Rightarrow> u8 list" where
  "hdr_bytes host p = map (\<lambda>i. host (p + of_nat i)) [0..<VSOCK_PKT_HDR_SIZE]"

definition buf_bytes :: "(u64 \<Rightarrow> u8) \<Rightarrow> vsock_packet \<Rightarrow> u8 list option" where
  "buf_bytes host pkt = map_option (\<lambda>p. map (\<lambda>i. host (p + of_nat i)) [0..<unat (vp_buf_size pkt)]) (vp_buf pkt)"

definition from_tx_virtq_head ::
  "le_codec \<Rightarrow> (u64 \<Rightarrow> u8) \<Rightarrow> guest_mem \<Rightarrow> (u64 \<Rightarrow> u64 \<Rightarrow> u64 option) option \<Rightarrow> descriptor list
     \<Rightarrow> vsock_packet outcome" where
  "from_tx_virtq_head c host mem ap chain =
     (case chain of
        [] \<Rightarrow> Fail HdrDescMissing
      | head # rest \<Rightarrow>
          if d_write_only head then Fail UnreadableDescriptor
          else if d_len head < of_nat VSOCK_PKT_HDR_SIZE then Fail (HdrDescTooSmall (d_len head))
          else bind_outcome (map_desc mem ap head (of_nat VSOCK_PKT_HDR_SIZE)) (\<lambda>h.
            let plen = pkt_len c (hdr_bytes host h)
            in if pkt_is_empty c (hdr_bytes host h)
               then Done \<lparr>vp_hdr = h, vp_buf = None, vp_buf_size = 0\<rparr>
               else if plen > of_nat MAX_PKT_BUF_SIZE then Fail (InvalidPktLen plen)
               else (case rest of
                  [] \<Rightarrow> Fail BufDescMissing
                | buf_desc # _ \<Rightarrow>
                    if d_write_only buf_desc then Fail UnreadableDescriptor
                    else if d_len buf_desc < plen then Fail BufDescTooSmall
                    else bind_outcome (map_desc mem ap buf_desc (ucast (d_len buf_desc))) (\<lambda>b.
                      Done \<lparr>vp_hdr = h, vp_buf = Some b, vp_buf_size = ucast (d_len buf_desc)\<rparr>))))"

definition from_rx_virtq_head ::
  "guest_mem \<Rightarrow> (u64 \<Rightarrow> u64 \<Rightarrow> u64 option) option \<Rightarrow> descriptor list \<Rightarrow> vsock_packet outcome" where
  "from_rx_virtq_head mem ap chain =
     (case chain of
        [] \<Rightarrow> Fail HdrDescMissing
      | head # rest \<Rightarrow>
          if \<not> d_write_only head then Fail UnwritableDescriptor
          else if d_len head < of_nat VSOCK_PKT_HDR_SIZE then Fail (HdrDescTooSmall (d_len head))
          else if \<not> d_has_next head then Fail BufDescMissing
          else (case rest of
             [] \<Rightarrow> Fail BufDescMissing
           | buf_desc # _ \<Rightarrow>
               bind_outcome (map_desc mem ap head (of_nat VSOCK_PKT_HDR_SIZE)) (\<lambda>h.
               bind_outcome (map_desc mem ap buf_desc (ucast (d_len buf_desc))) (\<lambda>b.
                 Done \<lparr>vp_hdr = h, vp_buf = Some b, vp_buf_size = ucast (d_len buf_desc)\<rparr>))))"

subsection \<open>The header as a structure\<close>

record vsock_hdr =
  ph_src_cid :: u64
  ph_dst_cid :: u64
  ph_src_port :: u32
  ph_dst_port :: u32
  ph_len :: u32
  ph_type :: u16
  ph_op :: u16
  ph_flags :: u32
  ph_buf_alloc :: u32
  ph_fwd_cnt :: u32

text \<open>
  The documented C structure: its fields in order, with their widths in bytes and no padding.  The
  view reads field \<open>i\<close> behind the fields before it; the offset constants of the accessors do not occur.
\<close>

definition hdr_widths :: "nat list" where
  "hdr_widths = [8, 8, 4, 4, 4, 2, 2, 4, 4, 4]"

definition hdr_field :: "nat \<Rightarrow> u8 list \<Rightarrow> u8 list" where
  "hdr_field i hdr = take (hdr_widths ! i) (drop (sum_list (take i hdr_widths)) hdr)"

definition hdr_view :: "le_codec \<Rightarrow> u8 list \<Rightarrow> vsock_hdr" where
  "hdr_view c hdr =
     \<lparr>ph_src_cid = read_u64 c (hdr_field 0 hdr), ph_dst_cid = read_u64 c (hdr_field 1 hdr),
      ph_src_port = read_u32 c (hdr_field 2 hdr), ph_dst_port = read_u32 c (hdr_field 3 hdr),
      ph_len = read_u32 c (hdr_field 4 hdr), ph_type = read_u16 c (hdr_field 5 hdr),
      ph_op = read_u16 c (hdr_field 6 hdr), ph_flags = read_u32 c (hdr_field 7 hdr),
      ph_buf_alloc = read_u32 c (hdr_field 8 hdr), ph_fwd_cnt = read_u32 c (hdr_field 9 hdr)\<rparr>"

lemma hdr_field_eqs:
  "hdr_field 0 h = take 8 h" "hdr_field (Suc 0) h = take 8 (drop 8 h)" "hdr_field 2 h = take 4 (drop 16 h)"
  "hdr_field 3 h = take 4 (drop 20 h)" "hdr_field 4 h = take 4 (drop 24 h)" "hdr_field 5 h = take 2 (drop 28 h)"
  "hdr_field 6 h = take 2 (drop 30 h)" "hdr_field 7 h = take 4 (drop 32 h)" "hdr_field 8 h = take 4 (drop 36 h)"
  "hdr_field 9 h = take 4 (drop 40 h)"
  by (simp_all add: hdr_field_def hdr_widths_def)

lemma getter_view:
  assumes "codec_ok c"
  shows "hdr_view c h =
     \<lparr>ph_src_cid = src_cid c h, ph_dst_cid = dst_cid c h, ph_src_port = src_port c h, ph_dst_port = dst_port c h,
      ph_len = pkt_len c h, ph_type = pkt_type c h, ph_op = pkt_op c h, ph_flags = pkt_flags c h,
      ph_buf_alloc = buf_alloc c h, ph_fwd_cnt = fwd_cnt c h\<rparr>"
  using assms by (simp add: hdr_view_def hdr_field_eqs getter_defs hdroff_defs codec_ok_def)

lemma setter_view:
  assumes "codec_ok c" "length h = VSOCK_PKT_HDR_SIZE"
  shows "hdr_view c (set_src_cid c v64 h) = (hdr_view c h)\<lparr>ph_src_cid := v64\<rparr>"
    and "hdr_view c (set_dst_cid c v64 h) = (hdr_view c h)\<lparr>ph_dst_cid := v64\<rparr>"
    and "hdr_view c (set_src_port c v32 h) = (hdr_view c h)\<lparr>ph_src_port := v32\<rparr>"
    and "hdr_view c (set_dst_port c v32 h) = (hdr_view c h)\<lparr>ph_dst_port := v32\<rparr>"
    and "hdr_view c (set_len c v32 h) = (hdr_view c h)\<lparr>ph_len := v32\<rparr>"
    and "hdr_view c (set_type c v16 h) = (hdr_view c h)\<lparr>ph_type := v16\<rparr>"
    and "hdr_view c (set_op c v16 h) = (hdr_view c h)\<lparr>ph_op := v16\<rparr>"
    and "hdr_view c (set_flags c v32 h) = (hdr_view c h)\<lparr>ph_flags := v32\<rparr>"
    and "hdr_view c (set_flag c v32 h) = (hdr_view c h)\<lparr>ph_flags := ph_flags (hdr_view c h) OR v32\<rparr>"
    and "hdr_view c (set_buf_alloc c v32 h) = (hdr_view c h)\<lparr>ph_buf_alloc := v32\<rparr>"
    and "hdr_view c (set_fwd_cnt c v32 h) = (hdr_view c h)\<lparr>ph_fwd_cnt := v32\<rparr>"
  using assms
  by (simp_all add: getter_view [OF assms(1)] getter_defs setter_defs set_flag_def hdroff_defs codec_simps)

text \<open>C28. The accessors implement the documented C structure: on every header of the documented size, split
  into the fields of the structure by their widths, each getter returns its field and each setter changes
  exactly its field; the flag setter adds the flag to those already there.\<close>

theorem packet_header_refines:
  assumes "codec_ok c" "length h = sum_list hdr_widths"
  shows "hdr_view c h =
      \<lparr>ph_src_cid = src_cid c h, ph_dst_cid = dst_cid c h, ph_src_port = src_port c h, ph_dst_port = dst_port c h,
       ph_len = pkt_len c h, ph_type = pkt_type c h, ph_op = pkt_op c h, ph_flags = pkt_flags c h,
       ph_buf_alloc = buf_alloc c h, ph_fwd_cnt = fwd_cnt c h\<rparr> \<and>
    hdr_view c (set_src_cid c v64 h) = (hdr_view c h)\<lparr>ph_src_cid := v64\<rparr> \<and>
    hdr_view c (set_dst_cid c v64 h) = (hdr_view c h)\<lparr>ph_dst_cid := v64\<rparr> \<and>
    hdr_view c (set_src_port c v32 h) = (hdr_view c h)\<lparr>ph_src_port := v32\<rparr> \<and>
    hdr_view c (set_dst_port c v32 h) = (hdr_view c h)\<lparr>ph_dst_port := v32\<rparr> \<and>
    hdr_view c (set_len c v32 h) = (hdr_view c h)\<lparr>ph_len := v32\<rparr> \<and>
    hdr_view c (set_type c v16 h) = (hdr_view c h)\<lparr>ph_type := v16\<rparr> \<and>
    hdr_view c (set_op c v16 h) = (hdr_view c h)\<lparr>ph_op := v16\<rparr> \<and>
    hdr_view c (set_flags c v32 h) = (hdr_view c h)\<lparr>ph_flags := v32\<rparr> \<and>
    hdr_view c (set_flag c v32 h) = (hdr_view c h)\<lparr>ph_flags := ph_flags (hdr_view c h) OR v32\<rparr> \<and>
    hdr_view c (set_buf_alloc c v32 h) = (hdr_view c h)\<lparr>ph_buf_alloc := v32\<rparr> \<and>
    hdr_view c (set_fwd_cnt c v32 h) = (hdr_view c h)\<lparr>ph_fwd_cnt := v32\<rparr>"
proof -
  have "length h = VSOCK_PKT_HDR_SIZE" using assms(2) by (simp add: hdr_widths_def VSOCK_PKT_HDR_SIZE_def)
  then show ?thesis using setter_view [OF assms(1), of h] getter_view [OF assms(1), of h] by blast
qed

theorem packet_header_refines_witness:
  "hdr_view le_impl (set_len le_impl 7 (replicate 44 0)) = (hdr_view le_impl (replicate 44 0))\<lparr>ph_len := 7\<rparr>"
proof -
  have "length (replicate 44 (0 :: u8)) = sum_list hdr_widths" by (simp add: hdr_widths_def)
  from packet_header_refines [OF codec_ok_le_impl this, of 0 7 0] show ?thesis by blast
qed

subsection \<open>Bounds of the wrapped buffers\<close>

lemma bind_Done [simp]: "bind_outcome x f = Done b \<longleftrightarrow> (\<exists>a. x = Done a \<and> f a = Done b)"
  by (cases x) auto

lemma map_desc_Done:
  "map_desc mem ap d sz = Done h \<longleftrightarrow>
     (\<exists>gpa. translate_gva ap (d_addr d) (ucast (d_len d)) = Done gpa \<and> check_range mem gpa sz \<and>
       get_host_address mem gpa = Some h)"
  by (auto simp: map_desc_def get_host_address_range_def split: option.splits if_splits)

text \<open>What the slices of a packet need: the range was checked by guest memory and the host address
  is the one guest memory gives for it.\<close>

definition mapped :: "guest_mem \<Rightarrow> u64 \<Rightarrow> u64 \<Rightarrow> bool" where
  "mapped mem h sz \<longleftrightarrow> (\<exists>gpa. check_range mem gpa sz \<and> get_host_address mem gpa = Some h)"

definition tx_packet_ok :: "le_codec \<Rightarrow> (u64 \<Rightarrow> u8) \<Rightarrow> guest_mem \<Rightarrow> vsock_packet \<Rightarrow> bool" where
  "tx_packet_ok c host mem pkt \<longleftrightarrow>
     mapped mem (vp_hdr pkt) (of_nat VSOCK_PKT_HDR_SIZE) \<and>
     (case vp_buf pkt of
        None \<Rightarrow> pkt_len c (hdr_bytes host (vp_hdr pkt)) = 0
      | Some b \<Rightarrow> mapped mem b (vp_buf_size pkt) \<and>
          0 < unat (pkt_len c (hdr_bytes host (vp_hdr pkt))) \<and>
          unat (pkt_len c (hdr_bytes host (vp_hdr pkt))) \<le> MAX_PKT_BUF_SIZE \<and>
          unat (pkt_len c (hdr_bytes host (vp_hdr pkt))) \<le> unat (vp_buf_size pkt))"

text \<open>C29. The bounds checks that the unsafe slice accessors rely on: a packet built from a TX chain
  has a mapped header; it has no data buffer exactly when its length field is zero, and otherwise
  the buffer is mapped for its whole size and holds the 1 to 65536 bytes the length field announces,
  so the slice \<open>buf[..len]\<close> that is forwarded to the host stays inside the buffer.\<close>

theorem from_tx_virtq_head_bounds:
  assumes "from_tx_virtq_head c host mem ap chain = Done pkt"
  shows "tx_packet_ok c host mem pkt \<and>
    (\<forall>bs. buf_bytes host pkt = Some bs \<longrightarrow>
       length (take (unat (pkt_len c (hdr_bytes host (vp_hdr pkt)))) bs) =
         unat (pkt_len c (hdr_bytes host (vp_hdr pkt))))"
proof -
  obtain hd rest where ch: "chain = hd # rest"
    using assms by (cases chain) (auto simp: from_tx_virtq_head_def)
  obtain h where h: "map_desc mem ap hd (of_nat VSOCK_PKT_HDR_SIZE) = Done h"
    using assms ch by (auto simp: from_tx_virtq_head_def split: if_splits)
  note unf = from_tx_virtq_head_def tx_packet_ok_def Let_def pkt_is_empty_def
  have "tx_packet_ok c host mem pkt"
  proof (cases rest)
    case Nil
    then show ?thesis using assms ch h
      by (auto simp: unf mapped_def map_desc_Done split: if_splits)
  next
    case (Cons b bs)
    then show ?thesis using assms ch h
      by (auto simp: unf mapped_def map_desc_Done MAX_PKT_BUF_SIZE_def word_less_nat_alt unat_gt_0
          unat_ucast_up split: if_splits)
  qed
  then show ?thesis
    by (auto simp: tx_packet_ok_def buf_bytes_def)
qed

theorem from_tx_virtq_head_bounds_witness:
  "let mem = \<lparr>check_range = (\<lambda>a n. a + n \<le> 4096), get_host_address = (\<lambda>a. Some (a + 4096))\<rparr>;
       host = (\<lambda>a. if a = 4096 + 24 then 5 else 0);
       hd = \<lparr>d_addr = 0, d_len = 44, d_write_only = False, d_has_next = True\<rparr>;
       buf = \<lparr>d_addr = 64, d_len = 16, d_write_only = False, d_has_next = False\<rparr>;
       pkt = \<lparr>vp_hdr = 4096, vp_buf = Some 4160, vp_buf_size = 16\<rparr>
   in from_tx_virtq_head le_impl host mem None [hd, buf] = Done pkt \<and>
      pkt_len le_impl (hdr_bytes host 4096) = 5 \<and> tx_packet_ok le_impl host mem pkt"
proof -
  let ?mem = "\<lparr>check_range = (\<lambda>a n. a + n \<le> 4096), get_host_address = (\<lambda>a. Some (a + 4096))\<rparr>"
  let ?host = "\<lambda>a :: u64. if a = 4096 + 24 then 5 else 0 :: u8"
  let ?hd = "\<lparr>d_addr = 0, d_len = 44, d_write_only = False, d_has_next = True\<rparr>"
  let ?buf = "\<lparr>d_addr = 64, d_len = 16, d_write_only = False, d_has_next = False\<rparr>"
  have l: "pkt_len le_impl (hdr_bytes ?host 4096) = 5"
    by (simp add: pkt_len_def hdr_bytes_def hdroff_defs le_impl_def le_value_def upt_rec)
  moreover have r: "from_tx_virtq_head le_impl ?host ?mem None [?hd, ?buf] =
      Done \<lparr>vp_hdr = 4096, vp_buf = Some 4160, vp_buf_size = 16\<rparr>"
    using l by (simp add: from_tx_virtq_head_def map_desc_def translate_gva_def Let_def
        get_host_address_range_def VSOCK_PKT_HDR_SIZE_def MAX_PKT_BUF_SIZE_def pkt_is_empty_def)
  ultimately show ?thesis
    using from_tx_virtq_head_bounds [OF r] by (simp add: Let_def)
qed

end
