(* ===== verification/Vsock_Txbuf.thy ===== *)
theory Vsock_Txbuf
  imports Vsock_Packet
begin

text \<open>
  The TX ring buffer of a vsock connection, \<^verbatim>\<open>virtio-devices/src/vsock/csm/txbuf.rs\<close>, and the
  host-side stream it is flushed to.  Head and tail are free-running 32-bit counters; offsets into
  the buffer are taken modulo its size.  The abstraction \<open>contents\<close> is the byte sequence between tail
  and head, and the locale \<open>byte_queue\<close> states what the connection relies on: a push appends all
  or nothing, a flush moves a prefix to the stream.

  The stream stands for the operating system: \<open>st_writes\<close> and \<open>st_in\<close> script how the next writes and
  reads go (a write takes any number of the bytes it is offered, or fails; a read yields available
  bytes, end of stream as no bytes, or an error), and \<open>st_out\<close> records every byte the stream took.
\<close>

subsection \<open>Host-side stream\<close>

datatype io_error = WouldBlock | OtherIo

datatype io_result = IoOk nat | IoErr io_error

record stream =
  st_fd :: nat
  st_writes :: "io_result list"
  st_out :: "u8 list"
  st_in :: "(io_error + u8 list) list"

definition stream_write :: "u8 list \<Rightarrow> stream \<Rightarrow> io_result \<times> stream" where
  "stream_write bs s =
     (case st_writes s of
        [] \<Rightarrow> (IoErr WouldBlock, s)
      | IoErr e # r \<Rightarrow> (IoErr e, s\<lparr>st_writes := r\<rparr>)
      | IoOk n # r \<Rightarrow> (IoOk (min n (length bs)), s\<lparr>st_writes := r, st_out := st_out s @ take n bs\<rparr>))"

definition stream_read :: "nat \<Rightarrow> stream \<Rightarrow> (io_error + u8 list) \<times> stream" where
  "stream_read n s =
     (case st_in s of
        [] \<Rightarrow> (Inl WouldBlock, s)
      | Inl e # r \<Rightarrow> (Inl e, s\<lparr>st_in := r\<rparr>)
      | Inr bs # r \<Rightarrow> (Inr (take n bs), s\<lparr>st_in := (if drop n bs = [] then r else Inr (drop n bs) # r)\<rparr>))"

lemma stream_write_ok:
  "stream_write bs s = (IoOk w, s') \<Longrightarrow>
     w \<le> length bs \<and> st_out s' = st_out s @ take w bs \<and> st_fd s' = st_fd s \<and> st_in s' = st_in s"
  by (auto simp: stream_write_def min_def split: list.splits io_result.splits)

lemma stream_write_err:
  "stream_write bs s = (IoErr e, s') \<Longrightarrow>
     st_out s' = st_out s \<and> st_fd s' = st_fd s \<and> st_in s' = st_in s"
  by (auto simp: stream_write_def split: list.splits io_result.splits)

lemma stream_read_frame:
  "stream_read n s = (r, s') \<Longrightarrow>
     st_out s' = st_out s \<and> st_fd s' = st_fd s \<and> st_writes s' = st_writes s \<and>
     (\<forall>bs. r = Inr bs \<longrightarrow> length bs \<le> n)"
  by (auto simp: stream_read_def split: list.splits sum.splits)

subsection \<open>The ring buffer\<close>

definition CONN_TX_BUF_SIZE :: u32 where "CONN_TX_BUF_SIZE = 64 * 1024"

datatype csm_error = TxBufFull | TxBufFlush io_error | StreamWrite io_error

record txbuf =
  tb_data :: "u8 list option"
  tb_head :: u32
  tb_tail :: u32

definition TXBUF_SIZE :: nat where "TXBUF_SIZE = unat CONN_TX_BUF_SIZE"

definition txbuf_new :: txbuf where
  "txbuf_new = \<lparr>tb_data = None, tb_head = 0, tb_tail = 0\<rparr>"

definition txbuf_len :: "txbuf \<Rightarrow> nat" where
  "txbuf_len b = unat (tb_head b - tb_tail b)"

definition txbuf_is_empty :: "txbuf \<Rightarrow> bool" where
  "txbuf_is_empty b \<longleftrightarrow> txbuf_len b = 0"

definition txbuf_push :: "u8 list \<Rightarrow> txbuf \<Rightarrow> csm_error + txbuf" where
  "txbuf_push src b =
     (if txbuf_len b + length src > TXBUF_SIZE then Inl TxBufFull
      else
        let data = (case tb_data b of Some d \<Rightarrow> d | None \<Rightarrow> replicate TXBUF_SIZE 0);
            head_ofs = unat (tb_head b) mod TXBUF_SIZE;
            len = min (TXBUF_SIZE - head_ofs) (length src);
            data1 = write_at head_ofs (take len src) data;
            data2 = (if len < length src then write_at 0 (drop len src) data1 else data1)
        in Inr (b\<lparr>tb_data := Some data2, tb_head := tb_head b + of_nat (length src)\<rparr>))"

lemma txbuf_len_advance:
  assumes "n \<le> txbuf_len b"
  shows "unat (tb_head b - (tb_tail b + of_nat n)) = txbuf_len b - n"
proof -
  have n: "unat (of_nat n :: u32) = n"
    using assms unat_lt_2p [of "tb_head b - tb_tail b"] by (intro unat_of_nat_small) (simp add: txbuf_len_def)
  have "tb_head b - (tb_tail b + of_nat n) = (tb_head b - tb_tail b) - of_nat n" by simp
  moreover have "unat ((tb_head b - tb_tail b) - of_nat n) = txbuf_len b - n"
    using assms n by (subst unat_sub_small) (simp_all add: word_le_nat_alt txbuf_len_def)
  ultimately show ?thesis by metis
qed

lemma TXBUF_SIZE_eq: "TXBUF_SIZE = 65536"
  by (simp add: TXBUF_SIZE_def CONN_TX_BUF_SIZE_def)

text \<open>The panic of \<open>self.data.as_ref().unwrap()\<close> is the result \<open>None\<close>.\<close>

function flush_to :: "txbuf \<Rightarrow> stream \<Rightarrow> ((csm_error + nat) \<times> txbuf \<times> stream) option" where
  "flush_to b sink =
     (if txbuf_is_empty b then Some (Inr 0, b, sink)
      else
        let tail_ofs = unat (tb_tail b) mod TXBUF_SIZE;
            len_to_write = min (TXBUF_SIZE - tail_ofs) (txbuf_len b)
        in case tb_data b of
             None \<Rightarrow> None
           | Some data \<Rightarrow>
               (case stream_write (take len_to_write (drop tail_ofs data)) sink of
                  (IoErr e, sink') \<Rightarrow> Some (Inl (TxBufFlush e), b, sink')
                | (IoOk written, sink') \<Rightarrow>
                    let b' = b\<lparr>tb_tail := tb_tail b + of_nat written\<rparr>
                    in if written < len_to_write then Some (Inr written, b', sink')
                       else (case flush_to b' sink' of
                               None \<Rightarrow> None
                             | Some (r, b'', sink'') \<Rightarrow>
                                 Some (Inr (written + (case r of Inr n \<Rightarrow> n | Inl _ \<Rightarrow> 0)), b'', sink''))))"
  by pat_completeness auto
termination
proof (relation "measure (\<lambda>(b, s). txbuf_len b)", goal_cases)
  case 1
  show ?case by simp
next
  case (2 b sink ofs lw data res sink' w b')
  have "w \<le> lw"
    using stream_write_ok [of "take lw (drop ofs data)" sink w sink'] 2 by simp
  moreover have "\<not> w < lw" using 2 by blast
  ultimately have "w = lw" by simp
  moreover have "0 < lw" "lw \<le> txbuf_len b"
    using 2 by (simp_all add: txbuf_is_empty_def TXBUF_SIZE_eq)
  ultimately have "txbuf_len b' = txbuf_len b - lw"
    using 2 txbuf_len_advance [of lw b] by (simp add: txbuf_len_def)
  with \<open>0 < lw\<close> \<open>lw \<le> txbuf_len b\<close> show ?case by simp
qed

declare flush_to.simps [simp del]

subsection \<open>Abstraction and invariant\<close>

definition txbuf_inv :: "txbuf \<Rightarrow> bool" where
  "txbuf_inv b \<longleftrightarrow> txbuf_len b \<le> TXBUF_SIZE \<and>
     (case tb_data b of None \<Rightarrow> tb_head b = tb_tail b | Some d \<Rightarrow> length d = TXBUF_SIZE)"

definition contents :: "txbuf \<Rightarrow> u8 list" where
  "contents b =
     (case tb_data b of
        None \<Rightarrow> []
      | Some d \<Rightarrow> map (\<lambda>i. d ! ((unat (tb_tail b) + i) mod TXBUF_SIZE)) [0..<txbuf_len b])"

lemma TXBUF_SIZE_pos [simp]: "0 < TXBUF_SIZE" by (simp add: TXBUF_SIZE_eq)

text \<open>The size divides \<open>2 ^ 32\<close>, so offsets are not disturbed when a counter wraps.\<close>

lemma ring_offset: "unat (t + of_nat k :: u32) mod TXBUF_SIZE = (unat t + k) mod TXBUF_SIZE"
proof -
  have d: "TXBUF_SIZE dvd 2 ^ LENGTH(32)" by (simp add: TXBUF_SIZE_eq)
  have "unat (t + of_nat k :: u32) = (unat t + k) mod 2 ^ LENGTH(32)"
    by (simp add: unat_word_ariths unat_of_nat mod_add_right_eq)
  then show ?thesis using mod_mod_cancel [OF d] by simp
qed

lemma length_contents: "txbuf_inv b \<Longrightarrow> length (contents b) = txbuf_len b"
  by (auto simp: txbuf_inv_def contents_def txbuf_len_def split: option.splits)

lemma txbuf_inv_new: "txbuf_inv txbuf_new" "contents txbuf_new = []"
  by (simp_all add: txbuf_inv_def txbuf_new_def contents_def txbuf_len_def)

lemma txbuf_empty_contents: "txbuf_inv b \<Longrightarrow> txbuf_is_empty b \<longleftrightarrow> contents b = []"
  using length_contents [of b] by (auto simp: txbuf_is_empty_def)

text \<open>The two copies of a push write the source to consecutive ring positions.\<close>

definition ring_write :: "nat \<Rightarrow> u8 list \<Rightarrow> u8 list \<Rightarrow> u8 list" where
  "ring_write h src data =
     (let len = min (length data - h) (length src);
          data1 = write_at h (take len src) data
      in if len < length src then write_at 0 (drop len src) data1 else data1)"

lemma ring_write_nth:
  assumes "h < length d" "length src \<le> length d" "j < length d"
  shows "ring_write h src d ! j =
    (let k = (if h \<le> j then j - h else j + length d - h)
     in if k < length src then src ! k else d ! j)"
proof (cases "length src \<le> length d - h")
  case True
  then show ?thesis using assms by (auto simp: ring_write_def Let_def nth_write_at min_def)
next
  case False
  let ?n = "length d - h"
  have len: "min ?n (length src) = ?n" using False by simp
  have l1: "length (write_at h (take ?n src) d) = length d"
    using assms False by (simp add: length_write_at)
  have "ring_write h src d = write_at 0 (drop ?n src) (write_at h (take ?n src) d)"
    using False by (simp add: ring_write_def len Let_def)
  then show ?thesis
    using assms False l1 by (auto simp: nth_write_at Let_def add.commute)
qed

lemma length_ring_write:
  "h < length d \<Longrightarrow> length src \<le> length d \<Longrightarrow> length (ring_write h src d) = length d"
  by (auto simp: ring_write_def Let_def write_at_def min_def)

lemma ring_distance:
  fixes S L i h t j :: nat
  assumes "0 < S" "L \<le> S" "i < S" "h = (t + L) mod S" "j = (t + i) mod S"
  shows "(if h \<le> j then j - h else j + S - h) = (if L \<le> i then i - L else i + S - L)"
proof -
  let ?t = "t mod S"
  have t: "?t < S" using assms(1) by simp
  have wrap: "(t + x) mod S = (if ?t + x < S then ?t + x else ?t + x - S)" if "x \<le> S" for x
  proof -
    have "?t + x - S < S" using t that by simp
    then have "(?t + x) mod S = (if ?t + x < S then ?t + x else ?t + x - S)"
      by (simp add: le_mod_geq)
    then show ?thesis by (simp only: mod_add_left_eq)
  qed
  have h: "h = (if ?t + L < S then ?t + L else ?t + L - S)"
    and j: "j = (if ?t + i < S then ?t + i else ?t + i - S)"
    using assms by (simp_all add: wrap)
  show ?thesis using h j t assms(2,3) by (auto split: if_splits)
qed

lemma txbuf_push_ring:
  assumes "txbuf_inv b"
  shows "txbuf_push src b =
    (if txbuf_len b + length src > TXBUF_SIZE then Inl TxBufFull
     else Inr (b\<lparr>tb_data := Some (ring_write (unat (tb_head b) mod TXBUF_SIZE) src
                   (case tb_data b of Some d \<Rightarrow> d | None \<Rightarrow> replicate TXBUF_SIZE 0)),
                 tb_head := tb_head b + of_nat (length src)\<rparr>))"
  using assms
  by (auto simp: txbuf_push_def ring_write_def txbuf_inv_def Let_def split: option.splits)

lemma head_offset:
  "unat (tb_head b) mod TXBUF_SIZE = (unat (tb_tail b) + txbuf_len b) mod TXBUF_SIZE"
  using ring_offset [of "tb_tail b" "txbuf_len b"] by (simp add: txbuf_len_def)

lemma txbuf_len_push:
  assumes "txbuf_len b + n \<le> TXBUF_SIZE"
  shows "unat (tb_head b + of_nat n - tb_tail b) = txbuf_len b + n"
proof -
  have "txbuf_len b + n < 2 ^ LENGTH(32)" using assms by (simp add: TXBUF_SIZE_eq)
  then have "unat ((tb_head b - tb_tail b) + of_nat n) = txbuf_len b + n"
    by (simp add: unat_add_small unat_of_nat_small txbuf_len_def)
  moreover have "tb_head b + of_nat n - tb_tail b = (tb_head b - tb_tail b) + of_nat n" by simp
  ultimately show ?thesis by metis
qed

lemma txbuf_push_ok:
  assumes "txbuf_inv b" "txbuf_len b + length src \<le> TXBUF_SIZE"
  obtains b' where "txbuf_push src b = Inr b'" "txbuf_inv b'" "contents b' = contents b @ src"
proof -
  define d where "d = (case tb_data b of Some d \<Rightarrow> d | None \<Rightarrow> replicate TXBUF_SIZE 0)"
  define h where "h = unat (tb_head b) mod TXBUF_SIZE"
  define b' where "b' = b\<lparr>tb_data := Some (ring_write h src d), tb_head := tb_head b + of_nat (length src)\<rparr>"
  let ?L = "txbuf_len b" and ?t = "unat (tb_tail b)"
  have push: "txbuf_push src b = Inr b'"
    using assms by (simp add: txbuf_push_ring b'_def d_def h_def)
  have ld: "length d = TXBUF_SIZE" using assms(1) by (auto simp: d_def txbuf_inv_def split: option.splits)
  have hS: "h < length d" by (simp add: ld h_def)
  have len': "txbuf_len b' = ?L + length src"
    using txbuf_len_push [OF assms(2)] by (simp add: txbuf_len_def b'_def)
  have nth: "ring_write h src d ! ((?t + i) mod TXBUF_SIZE) = (contents b @ src) ! i"
    if "i < ?L + length src" for i
  proof -
    let ?j = "(?t + i) mod TXBUF_SIZE"
    have j: "?j < length d" by (simp add: ld)
    have dist: "(if h \<le> ?j then ?j - h else ?j + TXBUF_SIZE - h) = (if ?L \<le> i then i - ?L else i + TXBUF_SIZE - ?L)"
      using that assms(2) head_offset [of b] by (intro ring_distance [where t = ?t]) (auto simp: h_def)
    have "i < ?L \<Longrightarrow> contents b ! i = d ! ?j"
      using assms(1) by (auto simp: contents_def d_def txbuf_inv_def txbuf_len_def split: option.splits)
    then show ?thesis
      using ring_write_nth [OF hS _ j, of src] dist that assms ld
      by (auto simp: Let_def nth_append length_contents)
  qed
  have "contents b' = map (\<lambda>i. ring_write h src d ! ((?t + i) mod TXBUF_SIZE)) [0..<?L + length src]"
    unfolding contents_def len' by (simp add: b'_def)
  then have "contents b' = contents b @ src"
    using nth assms(1) by (intro nth_equalityI) (simp_all add: length_contents)
  moreover have "txbuf_inv b'"
    using len' assms(2) length_ring_write [OF hS, of src] ld by (simp add: txbuf_inv_def b'_def)
  ultimately show thesis using push that by blast
qed

lemma txbuf_advance:
  assumes inv: "txbuf_inv b" and d: "tb_data b = Some d"
    and w: "w \<le> min (TXBUF_SIZE - unat (tb_tail b) mod TXBUF_SIZE) (txbuf_len b)"
    and b': "b' = b\<lparr>tb_tail := tb_tail b + of_nat w\<rparr>"
  shows "take w (drop (unat (tb_tail b) mod TXBUF_SIZE) d) = take w (contents b)"
    and "contents b' = drop w (contents b)" and "txbuf_inv b'" and "txbuf_len b' = txbuf_len b - w"
proof -
  let ?t = "unat (tb_tail b)"
  have ld: "length d = TXBUF_SIZE" using inv d by (simp add: txbuf_inv_def)
  have idx: "(?t + i) mod TXBUF_SIZE = ?t mod TXBUF_SIZE + i" if "i < w" for i
  proof -
    have "(?t mod TXBUF_SIZE + i) mod TXBUF_SIZE = ?t mod TXBUF_SIZE + i"
      using that w by (intro mod_less) linarith
    then show ?thesis by (simp only: mod_add_left_eq)
  qed
  have c: "contents b = map (\<lambda>i. d ! ((?t + i) mod TXBUF_SIZE)) [0..<txbuf_len b]"
    using d by (simp add: contents_def)
  show "take w (drop (?t mod TXBUF_SIZE) d) = take w (contents b)"
    using w ld idx by (intro nth_equalityI) (auto simp: c)
  show len: "txbuf_len b' = txbuf_len b - w"
    using txbuf_len_advance [of w b] w by (simp add: b' txbuf_len_def)
  have ofs: "(unat (tb_tail b + of_nat w) + i) mod TXBUF_SIZE = (?t + (w + i)) mod TXBUF_SIZE" for i
    by (metis ring_offset mod_add_left_eq add.assoc)
  have "contents b' = map (\<lambda>i. d ! ((?t + (w + i)) mod TXBUF_SIZE)) [0..<txbuf_len b - w]"
    using d ofs unfolding contents_def len by (simp add: b')
  then show "contents b' = drop w (contents b)"
    unfolding c by (intro nth_equalityI) (simp_all add: less_diff_conv add.commute)
  show "txbuf_inv b'"
    using inv d len by (auto simp: txbuf_inv_def b')
qed

text \<open>What a flush does to the stream: a prefix of the contents moves over, in order.\<close>

definition flush_post ::
  "u8 list \<Rightarrow> u8 list \<Rightarrow> stream \<Rightarrow> stream \<Rightarrow> csm_error + nat \<Rightarrow> bool" where
  "flush_post old new s s' r \<longleftrightarrow>
     (\<exists>w. old = w @ new \<and> st_out s' = st_out s @ w \<and> st_fd s' = st_fd s \<and> st_in s' = st_in s \<and>
        (case r of Inr n \<Rightarrow> n = length w | Inl e \<Rightarrow> w = [] \<and> (\<exists>io. e = TxBufFlush io)))"

lemma flush_post_trans:
  assumes "flush_post old mid s s1 (Inr n)" "flush_post mid new s1 s2 r"
  shows "flush_post old new s s2 (Inr (n + (case r of Inr m \<Rightarrow> m | Inl _ \<Rightarrow> 0)))"
  using assms by (auto simp: flush_post_def split: sum.splits)

lemma flush_to_spec:
  assumes "txbuf_inv b"
  shows "\<exists>r b' s'. flush_to b s = Some (r, b', s') \<and> txbuf_inv b' \<and>
    flush_post (contents b) (contents b') s s' r"
  using assms
proof (induction b s rule: flush_to.induct)
  case (1 b s)
  let ?ofs = "unat (tb_tail b) mod TXBUF_SIZE"
  let ?lw = "min (TXBUF_SIZE - ?ofs) (txbuf_len b)"
  show ?case
  proof (cases "txbuf_is_empty b")
    case True
    then show ?thesis using 1(2) by (simp add: flush_to.simps flush_post_def)
  next
    case False
    then obtain d where d: "tb_data b = Some d"
      using 1(2) by (auto simp: txbuf_inv_def txbuf_is_empty_def txbuf_len_def split: option.splits)
    let ?sl = "take ?lw (drop ?ofs d)"
    obtain res s1 where w: "stream_write ?sl s = (res, s1)" by fastforce
    show ?thesis
    proof (cases res)
      case (IoErr e)
      then show ?thesis using False d w 1(2) stream_write_err [of ?sl s e s1]
        by (simp add: flush_to.simps [of b s] Let_def flush_post_def)
    next
      case (IoOk n)
      let ?b1 = "b\<lparr>tb_tail := tb_tail b + of_nat n\<rparr>"
      note wr = stream_write_ok [of ?sl s n s1, unfolded w IoOk, simplified]
      have n: "n \<le> ?lw" using wr by simp
      note adv = txbuf_advance [OF 1(2) d n refl]
      have out: "st_out s1 = st_out s @ take n (contents b)"
        using wr n adv(1) by (simp add: min_def)
      have ln: "n \<le> length (contents b)" using n length_contents [OF 1(2)] by simp
      have post: "flush_post (contents b) (contents ?b1) s s1 (Inr n)"
        using out wr adv(2) ln by (auto simp: flush_post_def intro!: exI [of _ "take n (contents b)"])
      show ?thesis
      proof (cases "n < ?lw")
        case True
        then show ?thesis using False d w IoOk post adv(3)
          by (simp add: flush_to.simps [of b s] Let_def)
      next
        case nl: False
        obtain r b2 s2 where rec: "flush_to ?b1 s1 = Some (r, b2, s2)" "txbuf_inv b2"
          "flush_post (contents ?b1) (contents b2) s1 s2 r"
          using 1(1) [OF False refl refl d w [unfolded IoOk, symmetric] refl refl nl adv(3)] by blast
        have "flush_to b s = Some (Inr (n + (case r of Inr m \<Rightarrow> m | Inl _ \<Rightarrow> 0)), b2, s2)"
          using False d w IoOk nl rec(1) by (auto simp: flush_to.simps [of b s] Let_def)
        then show ?thesis using rec(2) flush_post_trans [OF post rec(3)] by blast
      qed
    qed
  qed
qed

text \<open>A write that takes all it is offered; two such writes empty the buffer.\<close>

lemma flush_to_full_write:
  assumes inv: "txbuf_inv b" and ne: "\<not> txbuf_is_empty b"
    and w: "st_writes s = IoOk n # rest" "TXBUF_SIZE \<le> n"
    and lw: "lw = min (TXBUF_SIZE - unat (tb_tail b) mod TXBUF_SIZE) (txbuf_len b)"
  shows "\<exists>s1. st_writes s1 = rest \<and>
    flush_to b s = map_option (\<lambda>(r, b'', s''). (Inr (lw + (case r of Inr n \<Rightarrow> n | Inl _ \<Rightarrow> 0)), b'', s''))
      (flush_to (b\<lparr>tb_tail := tb_tail b + of_nat lw\<rparr>) s1)"
proof -
  let ?ofs = "unat (tb_tail b) mod TXBUF_SIZE"
  obtain d where d: "tb_data b = Some d" "length d = TXBUF_SIZE"
    using inv ne by (auto simp: txbuf_inv_def txbuf_is_empty_def txbuf_len_def split: option.splits)
  let ?s1 = "s\<lparr>st_writes := rest, st_out := st_out s @ take n (take lw (drop ?ofs d))\<rparr>"
  have "length (take lw (drop ?ofs d)) = lw" using d lw by simp
  moreover have "lw \<le> n" using w(2) lw by simp
  ultimately have "stream_write (take lw (drop ?ofs d)) s = (IoOk lw, ?s1)"
    using w by (simp add: stream_write_def)
  then have "flush_to b s = map_option (\<lambda>(r, b'', s''). (Inr (lw + (case r of Inr n \<Rightarrow> n | Inl _ \<Rightarrow> 0)), b'', s''))
      (flush_to (b\<lparr>tb_tail := tb_tail b + of_nat lw\<rparr>) ?s1)"
    using ne d(1) lw by (simp add: flush_to.simps [of b s] Let_def split: option.splits)
  then show ?thesis by (intro exI [of _ ?s1]) simp
qed

lemma flush_drains:
  assumes inv: "txbuf_inv b" and w: "st_writes s = IoOk n # IoOk m # rest" "TXBUF_SIZE \<le> n" "TXBUF_SIZE \<le> m"
  shows "\<exists>k b' s'. flush_to b s = Some (Inr k, b', s') \<and> contents b' = []"
proof (cases "txbuf_is_empty b")
  case True
  then show ?thesis using txbuf_empty_contents [OF inv] by (simp add: flush_to.simps)
next
  case ne: False
  define lw where "lw = min (TXBUF_SIZE - unat (tb_tail b) mod TXBUF_SIZE) (txbuf_len b)"
  define b1 where "b1 = b\<lparr>tb_tail := tb_tail b + of_nat lw\<rparr>"
  obtain d where d: "tb_data b = Some d"
    using inv ne by (auto simp: txbuf_inv_def txbuf_is_empty_def txbuf_len_def split: option.splits)
  note adv = txbuf_advance [OF inv d _ b1_def, unfolded lw_def, OF order_refl, folded lw_def]
  obtain s1 where s1: "st_writes s1 = IoOk m # rest"
    "flush_to b s = map_option (\<lambda>(r, b'', s''). (Inr (lw + (case r of Inr n \<Rightarrow> n | Inl _ \<Rightarrow> 0)), b'', s'')) (flush_to b1 s1)"
    using flush_to_full_write [OF inv ne w(1,2) lw_def] unfolding b1_def by blast
  show ?thesis
  proof (cases "txbuf_is_empty b1")
    case True
    then show ?thesis using s1 txbuf_empty_contents [OF adv(3)] by (simp add: flush_to.simps [of b1])
  next
    case ne1: False
    then have "lw = TXBUF_SIZE - unat (tb_tail b) mod TXBUF_SIZE"
      using adv(4) by (auto simp: txbuf_is_empty_def lw_def)
    moreover have "unat (tb_tail b) mod TXBUF_SIZE < TXBUF_SIZE" by simp
    ultimately have "(unat (tb_tail b) mod TXBUF_SIZE + lw) mod TXBUF_SIZE = 0" by simp
    then have t: "unat (tb_tail b1) mod TXBUF_SIZE = 0"
      by (simp add: b1_def ring_offset mod_add_left_eq)
    define lw1 where "lw1 = min (TXBUF_SIZE - unat (tb_tail b1) mod TXBUF_SIZE) (txbuf_len b1)"
    have lw1: "lw1 = txbuf_len b1" using adv(3) by (simp add: lw1_def t txbuf_inv_def)
    define b2 where "b2 = b1\<lparr>tb_tail := tb_tail b1 + of_nat lw1\<rparr>"
    have d1: "tb_data b1 = Some d" using d by (simp add: b1_def)
    note adv1 = txbuf_advance [OF adv(3) d1 _ b2_def, unfolded lw1_def, OF order_refl, folded lw1_def]
    have "txbuf_is_empty b2" using adv1(4) lw1 by (simp add: txbuf_is_empty_def)
    then have "contents b2 = []" "flush_to b2 s2 = Some (Inr 0, b2, s2)" for s2
      using txbuf_empty_contents [OF adv1(3)] by (simp_all add: flush_to.simps [of b2])
    then show ?thesis
      using s1(2) flush_to_full_write [OF adv(3) ne1 s1(1) w(3) lw1_def] by (auto simp: b2_def)
  qed
qed

subsection \<open>The interface the connection relies on\<close>

datatype queue_op = Push "u8 list" | Flush

locale byte_queue =
  fixes q_inv :: "'q \<Rightarrow> bool"
    and q_abs :: "'q \<Rightarrow> u8 list"
    and capacity :: nat
    and push :: "u8 list \<Rightarrow> 'q \<Rightarrow> csm_error + 'q"
    and flush :: "'q \<Rightarrow> stream \<Rightarrow> ((csm_error + nat) \<times> 'q \<times> stream) option"
  assumes push_full: "q_inv q \<Longrightarrow> capacity < length (q_abs q) + length src \<Longrightarrow> push src q = Inl TxBufFull"
    and push_fits: "q_inv q \<Longrightarrow> length (q_abs q) + length src \<le> capacity \<Longrightarrow>
      \<exists>q'. push src q = Inr q' \<and> q_inv q' \<and> q_abs q' = q_abs q @ src"
    and flush_spec: "q_inv q \<Longrightarrow>
      \<exists>r q' s'. flush q s = Some (r, q', s') \<and> q_inv q' \<and> flush_post (q_abs q) (q_abs q') s s' r"
begin

fun queue_run :: "queue_op list \<Rightarrow> 'q \<Rightarrow> stream \<Rightarrow> u8 list \<Rightarrow> ('q \<times> stream \<times> u8 list) option" where
  "queue_run [] q s acc = Some (q, s, acc)"
| "queue_run (Push src # ops) q s acc =
     (case push src q of Inl _ \<Rightarrow> queue_run ops q s acc | Inr q' \<Rightarrow> queue_run ops q' s (acc @ src))"
| "queue_run (Flush # ops) q s acc =
     (case flush q s of None \<Rightarrow> None | Some (r, q', s') \<Rightarrow> queue_run ops q' s' acc)"

lemma push_cases:
  assumes "q_inv q"
  obtains "push src q = Inl TxBufFull" "capacity < length (q_abs q) + length src"
  | q' where "push src q = Inr q'" "q_inv q'" "q_abs q' = q_abs q @ src"
      "length (q_abs q) + length src \<le> capacity"
proof (cases "capacity < length (q_abs q) + length src")
  case True
  then show thesis using push_full [OF assms True] that(1) by blast
next
  case False
  then show thesis using push_fits [OF assms, of src] that(2) by force
qed

lemma queue_run_fifo:
  assumes "q_inv q" "st_out s @ q_abs q = acc"
  shows "\<exists>q' s' acc'. queue_run ops q s acc = Some (q', s', acc') \<and> q_inv q' \<and> st_out s' @ q_abs q' = acc'"
  using assms
proof (induction ops q s acc rule: queue_run.induct)
  case (1 q s acc)
  then show ?case by simp
next
  case (2 src ops q s acc)
  show ?case
    by (rule push_cases [OF 2(3), of src]) (use 2 in auto)
next
  case (3 ops q s acc)
  obtain r q' s' where f: "flush q s = Some (r, q', s')" "q_inv q'" "flush_post (q_abs q) (q_abs q') s s' r"
    using flush_spec [OF 3(2)] by blast
  then have "st_out s' @ q_abs q' = acc" using 3(3) by (auto simp: flush_post_def)
  then show ?case using 3(1) [OF f(1) refl refl f(2)] f(1) by simp
qed

end

interpretation tb: byte_queue txbuf_inv contents TXBUF_SIZE txbuf_push flush_to
proof (unfold_locales, goal_cases)
  case (1 q src)
  then show ?case by (simp add: txbuf_push_def length_contents)
next
  case (2 q src)
  then show ?case by (metis txbuf_push_ok length_contents)
next
  case (3 q s)
  then show ?case by (rule flush_to_spec)
qed

text \<open>C11. The ring buffer is a first-in first-out byte queue across counter wrap-around: over any
  sequence of pushes and flushes from an empty buffer no operation panics, and what the stream has
  received followed by what the buffer holds is exactly the concatenation of the accepted slices.
  At every such point a push is accepted, whole, exactly when the slice fits into the 65536 bytes,
  and a flush to a stream that takes all it is offered empties the buffer.\<close>

theorem txbuf_fifo:
  "\<exists>q' s' accepted. tb.queue_run ops txbuf_new s (st_out s) = Some (q', s', accepted) \<and>
    txbuf_inv q' \<and> st_out s' @ contents q' = accepted \<and>
    (\<forall>src. (\<exists>q''. txbuf_push src q' = Inr q'' \<and> contents q'' = contents q' @ src) \<longleftrightarrow>
       length (contents q') + length src \<le> TXBUF_SIZE) \<and>
    (\<exists>k q'' s''. flush_to q' (s'\<lparr>st_writes := [IoOk TXBUF_SIZE, IoOk TXBUF_SIZE]\<rparr>) = Some (Inr k, q'', s'') \<and>
       contents q'' = [])"
proof -
  obtain q' s' acc where run: "tb.queue_run ops txbuf_new s (st_out s) = Some (q', s', acc)"
    and inv: "txbuf_inv q'" and acc: "st_out s' @ contents q' = acc"
    using tb.queue_run_fifo [of txbuf_new s "st_out s" ops] by (auto simp: txbuf_inv_new)
  have "(\<exists>q''. txbuf_push src q' = Inr q'' \<and> contents q'' = contents q' @ src) \<longleftrightarrow>
      length (contents q') + length src \<le> TXBUF_SIZE" for src
    by (rule tb.push_cases [OF inv, of src]) auto
  moreover have "\<exists>k q'' s''. flush_to q' (s'\<lparr>st_writes := [IoOk TXBUF_SIZE, IoOk TXBUF_SIZE]\<rparr>) =
      Some (Inr k, q'', s'') \<and> contents q'' = []"
    by (rule flush_drains [OF inv, of _ TXBUF_SIZE TXBUF_SIZE "[]"]) simp_all
  ultimately show ?thesis using run inv acc by blast
qed

end
