(* ===== verification/Vsock_Connection.thy ===== *)
theory Vsock_Connection
  imports Vsock_Txbuf
begin

text \<open>
  The vsock connection state machine, \<^verbatim>\<open>virtio-devices/src/vsock/csm/mod.rs\<close> and
  \<^verbatim>\<open>csm/connection.rs\<close>.  The connection works on packets whose header is read as a structure
  (\<open>vsock_hdr\<close>, justified by \<open>packet_header_refines\<close>) and whose data buffer is a byte list.
  \<open>Instant::now()\<close> is an argument in nanoseconds; the two panics the code could raise (unwrapping the
  unallocated buffer, slicing the packet buffer beyond its end) are the result \<open>None\<close>.  The acknowledgement that
  \<open>apply_conn_mutation\<close> of \<^verbatim>\<open>unix/muxer.rs\<close> writes to the stream of a host-initiated connection is here too,
  since it is part of what that stream receives.
\<close>

subsection \<open>States and pending indications\<close>

definition CONN_CREDIT_UPDATE_THRESHOLD :: u32 where "CONN_CREDIT_UPDATE_THRESHOLD = 4 * 1024"
definition CONN_REQUEST_TIMEOUT_MS :: nat where "CONN_REQUEST_TIMEOUT_MS = 2000"
definition CONN_SHUTDOWN_TIMEOUT_MS :: nat where "CONN_SHUTDOWN_TIMEOUT_MS = 2000"

definition from_millis :: "nat \<Rightarrow> nat" where "from_millis ms = ms * 1000000"

datatype conn_state = LocalInit | PeerInit | Established | LocalClosed | PeerClosed bool bool | Killed

datatype pending_rx = Request | Response | Rst | Rw | CreditUpdate

fun into_mask :: "pending_rx \<Rightarrow> u16" where
  "into_mask Request = push_bit 0 1"
| "into_mask Response = push_bit 1 1"
| "into_mask Rst = push_bit 2 1"
| "into_mask Rw = push_bit 3 1"
| "into_mask CreditUpdate = push_bit 4 1"

type_synonym pending_rx_set = u16

definition prx_insert :: "pending_rx \<Rightarrow> pending_rx_set \<Rightarrow> pending_rx_set" where
  "prx_insert it s = s OR into_mask it"

definition prx_contains :: "pending_rx_set \<Rightarrow> pending_rx \<Rightarrow> bool" where
  "prx_contains s it \<longleftrightarrow> s AND into_mask it \<noteq> 0"

definition prx_remove :: "pending_rx \<Rightarrow> pending_rx_set \<Rightarrow> bool \<times> pending_rx_set" where
  "prx_remove it s = (prx_contains s it, s AND NOT (into_mask it))"

definition prx_is_empty :: "pending_rx_set \<Rightarrow> bool" where
  "prx_is_empty s \<longleftrightarrow> s = 0"

definition prx_from :: "pending_rx \<Rightarrow> pending_rx_set" where
  "prx_from it = into_mask it"

subsection \<open>Connection\<close>

record packet =
  pk_hdr :: vsock_hdr
  pk_buf :: "u8 list option"

record events =
  ev_in :: bool
  ev_out :: bool

record connection =
  vc_state :: conn_state
  vc_local_cid :: u64
  vc_peer_cid :: u64
  vc_local_port :: u32
  vc_peer_port :: u32
  vc_stream :: stream
  vc_tx_buf :: txbuf
  vc_fwd_cnt :: u32
  vc_peer_buf_alloc :: u32
  vc_peer_fwd_cnt :: u32
  vc_rx_cnt :: u32
  vc_last_fwd_cnt_to_peer :: u32
  vc_pending_rx :: pending_rx_set
  vc_expiry :: "nat option"

definition has_pending_rx :: "connection \<Rightarrow> bool" where
  "has_pending_rx c \<longleftrightarrow> \<not> prx_is_empty (vc_pending_rx c)"

definition pend :: "pending_rx \<Rightarrow> connection \<Rightarrow> connection" where
  "pend it c = c\<lparr>vc_pending_rx := prx_insert it (vc_pending_rx c)\<rparr>"

definition take_pending :: "pending_rx \<Rightarrow> connection \<Rightarrow> bool \<times> connection" where
  "take_pending it c =
     (let (was, s) = prx_remove it (vc_pending_rx c) in (was, c\<lparr>vc_pending_rx := s\<rparr>))"

definition new_peer_init :: "stream \<Rightarrow> u64 \<Rightarrow> u64 \<Rightarrow> u32 \<Rightarrow> u32 \<Rightarrow> u32 \<Rightarrow> connection" where
  "new_peer_init strm local_cid peer_cid local_port peer_port peer_buf_alloc =
     \<lparr>vc_state = PeerInit, vc_local_cid = local_cid, vc_peer_cid = peer_cid,
      vc_local_port = local_port, vc_peer_port = peer_port, vc_stream = strm,
      vc_tx_buf = txbuf_new, vc_fwd_cnt = 0, vc_peer_buf_alloc = peer_buf_alloc,
      vc_peer_fwd_cnt = 0, vc_rx_cnt = 0, vc_last_fwd_cnt_to_peer = 0,
      vc_pending_rx = prx_from Response, vc_expiry = None\<rparr>"

definition new_local_init :: "stream \<Rightarrow> u64 \<Rightarrow> u64 \<Rightarrow> u32 \<Rightarrow> u32 \<Rightarrow> connection" where
  "new_local_init strm local_cid peer_cid local_port peer_port =
     \<lparr>vc_state = LocalInit, vc_local_cid = local_cid, vc_peer_cid = peer_cid,
      vc_local_port = local_port, vc_peer_port = peer_port, vc_stream = strm,
      vc_tx_buf = txbuf_new, vc_fwd_cnt = 0, vc_peer_buf_alloc = 0,
      vc_peer_fwd_cnt = 0, vc_rx_cnt = 0, vc_last_fwd_cnt_to_peer = 0,
      vc_pending_rx = prx_from Request, vc_expiry = None\<rparr>"

definition will_expire :: "nat \<Rightarrow> connection \<Rightarrow> bool" where
  "will_expire now c = (case vc_expiry c of None \<Rightarrow> False | Some t \<Rightarrow> t > now)"

definition has_expired :: "nat \<Rightarrow> connection \<Rightarrow> bool" where
  "has_expired now c = (case vc_expiry c of None \<Rightarrow> False | Some t \<Rightarrow> t \<le> now)"

definition kill :: "connection \<Rightarrow> connection" where
  "kill c = pend Rst (c\<lparr>vc_state := Killed\<rparr>)"

definition peer_needs_credit_update :: "connection \<Rightarrow> bool" where
  "peer_needs_credit_update c \<longleftrightarrow>
     CONN_TX_BUF_SIZE - (vc_fwd_cnt c - vc_last_fwd_cnt_to_peer c) < CONN_CREDIT_UPDATE_THRESHOLD"

definition peer_avail_credit :: "connection \<Rightarrow> nat" where
  "peer_avail_credit c = unat (vc_peer_buf_alloc c - (vc_rx_cnt c - vc_peer_fwd_cnt c))"

definition need_credit_update_from_peer :: "connection \<Rightarrow> bool" where
  "need_credit_update_from_peer c \<longleftrightarrow> peer_avail_credit c = 0"

definition init_pkt :: "connection \<Rightarrow> packet \<Rightarrow> packet" where
  "init_pkt c pkt = pkt\<lparr>pk_hdr :=
     \<lparr>ph_src_cid = vc_local_cid c, ph_dst_cid = vc_peer_cid c,
      ph_src_port = vc_local_port c, ph_dst_port = vc_peer_port c,
      ph_len = 0, ph_type = VSOCK_TYPE_STREAM, ph_op = 0, ph_flags = 0,
      ph_buf_alloc = CONN_TX_BUF_SIZE, ph_fwd_cnt = vc_fwd_cnt c\<rparr>\<rparr>"

definition with_op :: "u16 \<Rightarrow> packet \<Rightarrow> packet" where
  "with_op v pkt = pkt\<lparr>pk_hdr := (pk_hdr pkt)\<lparr>ph_op := v\<rparr>\<rparr>"

definition send_bytes_raw :: "u8 list \<Rightarrow> connection \<Rightarrow> (csm_error + nat) \<times> connection" where
  "send_bytes_raw buf c =
     (case stream_write buf (vc_stream c) of
        (IoOk n, s) \<Rightarrow> (Inr n, c\<lparr>vc_stream := s\<rparr>)
      | (IoErr e, s) \<Rightarrow> (Inl (StreamWrite e), c\<lparr>vc_stream := s\<rparr>))"

definition push_tx :: "u8 list \<Rightarrow> connection \<Rightarrow> (csm_error + unit) \<times> connection" where
  "push_tx buf c =
     (case txbuf_push buf (vc_tx_buf c) of
        Inl e \<Rightarrow> (Inl e, c)
      | Inr b \<Rightarrow> (Inr (), c\<lparr>vc_tx_buf := b\<rparr>))"

definition send_bytes :: "u8 list \<Rightarrow> connection \<Rightarrow> (csm_error + unit) \<times> connection" where
  "send_bytes buf c =
     (if \<not> txbuf_is_empty (vc_tx_buf c) then push_tx buf c
      else
        let finish = (\<lambda>written c.
              let c = c\<lparr>vc_fwd_cnt := vc_fwd_cnt c + of_nat written\<rparr>
              in if written < length buf then push_tx (drop written buf) c else (Inr (), c))
        in case stream_write buf (vc_stream c) of
             (IoOk cnt, s) \<Rightarrow> finish cnt (c\<lparr>vc_stream := s\<rparr>)
           | (IoErr WouldBlock, s) \<Rightarrow> finish 0 (c\<lparr>vc_stream := s\<rparr>)
           | (IoErr e, s) \<Rightarrow> (Inl (StreamWrite e), c\<lparr>vc_stream := s\<rparr>))"

subsection \<open>Producing packets for the guest\<close>

definition recv_credit_update :: "connection \<Rightarrow> packet \<Rightarrow> (vsock_error + unit) \<times> connection \<times> packet" where
  "recv_credit_update c pkt =
     (let (was, c) = take_pending CreditUpdate c
      in if was \<and> \<not> has_pending_rx c
         then (Inr (), c\<lparr>vc_last_fwd_cnt_to_peer := vc_fwd_cnt c\<rparr>, with_op VSOCK_OP_CREDIT_UPDATE pkt)
         else (Inl NoData, c, pkt))"

definition rw_state_ok :: "conn_state \<Rightarrow> bool" where
  "rw_state_ok st = (case st of Established \<Rightarrow> True | PeerClosed recv_off _ \<Rightarrow> \<not> recv_off | _ \<Rightarrow> False)"

definition recv_rw :: "nat \<Rightarrow> connection \<Rightarrow> packet \<Rightarrow> (vsock_error + unit) \<times> connection \<times> packet" where
  "recv_rw now c pkt =
     (if \<not> rw_state_ok (vc_state c) then (Inr (), c, with_op VSOCK_OP_RST pkt)
      else if need_credit_update_from_peer c then
        (Inr (), c\<lparr>vc_last_fwd_cnt_to_peer := vc_fwd_cnt c\<rparr>, with_op VSOCK_OP_CREDIT_REQUEST pkt)
      else (case pk_buf pkt of
        None \<Rightarrow> (Inl PktBufMissing, c, pkt)
      | Some buf \<Rightarrow>
          let max_len = min (length buf) (peer_avail_credit c)
          in case stream_read max_len (vc_stream c) of
               (Inr data, s) \<Rightarrow>
                 let c = c\<lparr>vc_stream := s\<rparr>;
                     pkt = pkt\<lparr>pk_buf := Some (data @ drop (length data) buf)\<rparr>;
                     (c, pkt) =
                       (if length data = 0
                        then (c\<lparr>vc_state := LocalClosed,
                                vc_expiry := Some (now + from_millis CONN_SHUTDOWN_TIMEOUT_MS)\<rparr>,
                              (with_op VSOCK_OP_SHUTDOWN pkt)\<lparr>pk_hdr :=
                                (pk_hdr (with_op VSOCK_OP_SHUTDOWN pkt))\<lparr>ph_flags :=
                                  ph_flags (pk_hdr pkt) OR VSOCK_FLAGS_SHUTDOWN_RCV OR VSOCK_FLAGS_SHUTDOWN_SEND\<rparr>\<rparr>)
                        else (c, (with_op VSOCK_OP_RW pkt)\<lparr>pk_hdr :=
                                (pk_hdr (with_op VSOCK_OP_RW pkt))\<lparr>ph_len := of_nat (length data)\<rparr>\<rparr>))
                 in (Inr (), c\<lparr>vc_rx_cnt := vc_rx_cnt c + ph_len (pk_hdr pkt),
                               vc_last_fwd_cnt_to_peer := vc_fwd_cnt c\<rparr>, pkt)
             | (Inl WouldBlock, s) \<Rightarrow> recv_credit_update (c\<lparr>vc_stream := s\<rparr>) pkt
             | (Inl _, s) \<Rightarrow>
                 (Inr (), c\<lparr>vc_stream := s, vc_last_fwd_cnt_to_peer := vc_fwd_cnt c\<rparr>,
                  with_op VSOCK_OP_RST pkt)))"

definition conn_recv_pkt :: "nat \<Rightarrow> connection \<Rightarrow> packet \<Rightarrow> (vsock_error + unit) \<times> connection \<times> packet" where
  "conn_recv_pkt now c pkt0 =
     (let pkt = init_pkt c pkt0; (rst, c) = take_pending Rst c
      in if rst then (Inr (), c, with_op VSOCK_OP_RST pkt)
      else let (resp, c) = take_pending Response c
      in if resp then (Inr (), c\<lparr>vc_state := Established\<rparr>, with_op VSOCK_OP_RESPONSE pkt)
      else let (req, c) = take_pending Request c
      in if req then (Inr (), c\<lparr>vc_expiry := Some (now + from_millis CONN_REQUEST_TIMEOUT_MS)\<rparr>,
                      with_op VSOCK_OP_REQUEST pkt)
      else let (rw, c) = take_pending Rw c
      in if rw then recv_rw now c pkt
      else recv_credit_update c pkt)"

subsection \<open>Consuming packets from the guest\<close>

definition send_rw :: "connection \<Rightarrow> packet \<Rightarrow> connection option" where
  "send_rw c pkt =
     (case pk_buf pkt of
        None \<Rightarrow> Some c
      | Some buf \<Rightarrow>
          if length buf < unat (ph_len (pk_hdr pkt)) then None
          else (case send_bytes (take (unat (ph_len (pk_hdr pkt))) buf) c of
                  (Inl _, c) \<Rightarrow> Some (kill c)
                | (Inr _, c) \<Rightarrow>
                    Some (if peer_needs_credit_update c then pend CreditUpdate c else c)))"

definition shutdown_rcv :: "packet \<Rightarrow> bool" where
  "shutdown_rcv pkt \<longleftrightarrow> ph_flags (pk_hdr pkt) AND VSOCK_FLAGS_SHUTDOWN_RCV \<noteq> 0"

definition shutdown_send :: "packet \<Rightarrow> bool" where
  "shutdown_send pkt \<longleftrightarrow> ph_flags (pk_hdr pkt) AND VSOCK_FLAGS_SHUTDOWN_SEND \<noteq> 0"

definition conn_send_pkt :: "nat \<Rightarrow> connection \<Rightarrow> packet \<Rightarrow> connection option" where
  "conn_send_pkt now c0 pkt =
     (let c = c0\<lparr>vc_peer_buf_alloc := ph_buf_alloc (pk_hdr pkt), vc_peer_fwd_cnt := ph_fwd_cnt (pk_hdr pkt)\<rparr>;
          op' = ph_op (pk_hdr pkt)
      in case vc_state c of
           Established \<Rightarrow>
             if op' = VSOCK_OP_RW then send_rw c pkt
             else if op' = VSOCK_OP_SHUTDOWN then
               let recv_off = shutdown_rcv pkt; send_off = shutdown_send pkt;
                   c = c\<lparr>vc_state := PeerClosed recv_off send_off\<rparr>
               in Some (if recv_off \<and> send_off then
                          (if txbuf_is_empty (vc_tx_buf c) then pend Rst c
                           else c\<lparr>vc_expiry := Some (now + from_millis CONN_SHUTDOWN_TIMEOUT_MS)\<rparr>)
                        else c)
             else if op' = VSOCK_OP_CREDIT_UPDATE then Some c
             else if op' = VSOCK_OP_CREDIT_REQUEST then Some (pend CreditUpdate c)
             else Some c
         | PeerClosed recv_off send_off \<Rightarrow>
             if \<not> send_off \<and> op' = VSOCK_OP_RW then send_rw c pkt
             else if op' = VSOCK_OP_SHUTDOWN then
               let recv_off = (recv_off \<or> shutdown_rcv pkt); send_off = (send_off \<or> shutdown_send pkt);
                   c = c\<lparr>vc_state := PeerClosed recv_off send_off\<rparr>
               in Some (if recv_off \<and> send_off \<and> txbuf_is_empty (vc_tx_buf c) then pend Rst c else c)
             else if \<not> recv_off \<and> op' = VSOCK_OP_CREDIT_UPDATE then Some c
             else if \<not> send_off \<and> op' = VSOCK_OP_CREDIT_REQUEST then Some (pend CreditUpdate c)
             else Some c
         | LocalInit \<Rightarrow>
             if op' = VSOCK_OP_RESPONSE then Some (c\<lparr>vc_expiry := None, vc_state := Established\<rparr>)
             else Some c
         | PeerInit \<Rightarrow>
             if op' = VSOCK_OP_CREDIT_UPDATE then Some c
             else if op' = VSOCK_OP_CREDIT_REQUEST then Some (pend CreditUpdate c)
             else Some c
         | LocalClosed \<Rightarrow> Some c
         | Killed \<Rightarrow> Some c)"

subsection \<open>Acknowledging a host-initiated connection\<close>

text \<open>
  The multiplexer tells the host end of a connection it initiated that the guest has accepted it, in
  \<open>apply_conn_mutation\<close> of \<^verbatim>\<open>unix/muxer.rs\<close>: it writes the line "OK" with the local port past the state
  machine and kills the connection if that fails or is cut short.
\<close>

function decimal :: "nat \<Rightarrow> u8 list" where
  "decimal n = (if n < 10 then [of_nat (48 + n)] else decimal (n div 10) @ [of_nat (48 + n mod 10)])"
  by pat_completeness auto
termination by (relation "measure id") auto

declare decimal.simps [simp del]

definition ack_msg :: "u32 \<Rightarrow> u8 list" where
  "ack_msg port = [79, 75, 32] @ decimal (unat port) @ [10]"

definition ack_local_init :: "u32 \<Rightarrow> conn_state \<Rightarrow> connection \<Rightarrow> connection" where
  "ack_local_init local_port prev_state conn =
     (if prev_state = LocalInit \<and> vc_state conn = Established then
        (case send_bytes_raw (ack_msg local_port) conn of
           (Inr written, conn) \<Rightarrow> if written = length (ack_msg local_port) then conn else kill conn
         | (Inl _, conn) \<Rightarrow> kill conn)
      else conn)"

subsection \<open>Epoll interface\<close>

definition get_polled_fd :: "connection \<Rightarrow> nat" where
  "get_polled_fd c = st_fd (vc_stream c)"

definition get_polled_evset :: "connection \<Rightarrow> events" where
  "get_polled_evset c =
     \<lparr>ev_in = (case vc_state c of
        Killed \<Rightarrow> False | LocalClosed \<Rightarrow> False | PeerClosed True _ \<Rightarrow> False
      | _ \<Rightarrow> \<not> need_credit_update_from_peer c),
      ev_out = (\<not> txbuf_is_empty (vc_tx_buf c))\<rparr>"

definition conn_notify_out :: "connection \<Rightarrow> connection option" where
  "conn_notify_out c =
     (if txbuf_is_empty (vc_tx_buf c) then Some c
      else (case flush_to (vc_tx_buf c) (vc_stream c) of
         None \<Rightarrow> None
       | Some (r, b, s) \<Rightarrow>
           let c = c\<lparr>vc_tx_buf := b, vc_stream := s\<rparr>;
               (flushed, c) = (case r of
                   Inr n \<Rightarrow> (n, c)
                 | Inl (TxBufFlush WouldBlock) \<Rightarrow> (0, c)
                 | Inl _ \<Rightarrow> (0, kill c));
               c = c\<lparr>vc_fwd_cnt := vc_fwd_cnt c + of_nat flushed\<rparr>
           in Some (if vc_state c = PeerClosed True True \<and> txbuf_is_empty (vc_tx_buf c) then pend Rst c
                    else if peer_needs_credit_update c then pend CreditUpdate c
                    else c)))"

definition conn_notify :: "events \<Rightarrow> connection \<Rightarrow> connection option" where
  "conn_notify evset c =
     (let c = (if ev_in evset then pend Rw c else c)
      in if ev_out evset then conn_notify_out c else Some c)"

subsection \<open>Pending indications as a set\<close>

fun rx_index :: "pending_rx \<Rightarrow> nat" where
  "rx_index Request = 0" | "rx_index Response = 1" | "rx_index Rst = 2" | "rx_index Rw = 3"
| "rx_index CreditUpdate = 4"

lemma into_mask_eq: "into_mask it = 2 ^ rx_index it"
  by (cases it) simp_all

lemma rx_index_inj: "rx_index a = rx_index b \<longleftrightarrow> a = b"
  by (cases a; cases b) simp_all

lemma rx_index_less: "rx_index it < 16"
  by (cases it) simp_all

lemma prx_contains_bit: "prx_contains s it \<longleftrightarrow> bit s (rx_index it)"
  by (simp add: prx_contains_def into_mask_eq and_exp_eq_0_iff_not_bit)

lemma prx_insert_contains [simp]: "prx_contains (prx_insert a s) it \<longleftrightarrow> it = a \<or> prx_contains s it"
  using rx_index_inj [of it a] rx_index_less [of it]
  by (auto simp: prx_contains_bit prx_insert_def into_mask_eq bit_simps)

definition prx_del :: "pending_rx \<Rightarrow> pending_rx_set \<Rightarrow> pending_rx_set" where
  "prx_del it s = s AND NOT (into_mask it)"

lemma prx_del_contains [simp]: "prx_contains (prx_del a s) it \<longleftrightarrow> it \<noteq> a \<and> prx_contains s it"
  using rx_index_inj [of it a] rx_index_less [of it]
  by (auto simp: prx_contains_bit prx_del_def into_mask_eq bit_simps)

lemma prx_from_contains [simp]: "prx_contains (prx_from a) it \<longleftrightarrow> it = a"
  using rx_index_inj [of it a] rx_index_less [of it]
  by (auto simp: prx_contains_bit prx_from_def into_mask_eq bit_simps)

definition prx_wf :: "pending_rx_set \<Rightarrow> bool" where
  "prx_wf s \<longleftrightarrow> (\<forall>n \<ge> 5. \<not> bit s n)"

lemma rx_index_less5: "rx_index it < 5"
  by (cases it) simp_all

lemma prx_wf_ops [simp]:
  "prx_wf s \<Longrightarrow> prx_wf (prx_insert it s)" "prx_wf s \<Longrightarrow> prx_wf (prx_del it s)" "prx_wf (prx_from it)"
  using rx_index_less5 [of it]
  by (auto simp: prx_wf_def prx_insert_def prx_del_def prx_from_def into_mask_eq bit_or_iff bit_and_iff bit_exp_iff)

lemma prx_is_empty_iff: "prx_wf s \<Longrightarrow> prx_is_empty s \<longleftrightarrow> (\<forall>it. \<not> prx_contains s it)"
proof
  assume wf: "prx_wf s" and none: "\<forall>it. \<not> prx_contains s it"
  have "\<not> bit s n" for n
  proof (cases "n \<ge> 5")
    case True
    then show ?thesis using wf by (simp add: prx_wf_def)
  next
    case False
    then have "n \<in> rx_index ` {Request, Response, Rst, Rw, CreditUpdate}" by auto
    then show ?thesis using none unfolding prx_contains_bit by blast
  qed
  then show "prx_is_empty s" by (simp add: prx_is_empty_def bit_eq_iff)
qed (simp add: prx_is_empty_def prx_contains_def)

abbreviation pending :: "connection \<Rightarrow> pending_rx \<Rightarrow> bool" where
  "pending c it \<equiv> prx_contains (vc_pending_rx c) it"

lemma take_pending_eq: "take_pending it c = (pending c it, c\<lparr>vc_pending_rx := prx_del it (vc_pending_rx c)\<rparr>)"
  by (simp add: take_pending_def prx_remove_def prx_del_def)

text \<open>Scheduling and killing touch only the state and the pending set.\<close>

lemma pend_sel [simp]:
  "vc_state (pend it c) = vc_state c" "vc_stream (pend it c) = vc_stream c"
  "vc_tx_buf (pend it c) = vc_tx_buf c" "vc_fwd_cnt (pend it c) = vc_fwd_cnt c"
  "vc_last_fwd_cnt_to_peer (pend it c) = vc_last_fwd_cnt_to_peer c"
  "vc_expiry (pend it c) = vc_expiry c"
  "vc_pending_rx (pend it c) = prx_insert it (vc_pending_rx c)"
  "peer_avail_credit (pend it c) = peer_avail_credit c"
  by (simp_all add: pend_def peer_avail_credit_def)

lemma kill_sel [simp]:
  "vc_state (kill c) = Killed" "vc_stream (kill c) = vc_stream c"
  "vc_tx_buf (kill c) = vc_tx_buf c" "vc_fwd_cnt (kill c) = vc_fwd_cnt c"
  "vc_last_fwd_cnt_to_peer (kill c) = vc_last_fwd_cnt_to_peer c"
  "vc_expiry (kill c) = vc_expiry c"
  "vc_pending_rx (kill c) = prx_insert Rst (vc_pending_rx c)"
  by (simp_all add: kill_def)

subsection \<open>Invariant and byte flow\<close>

definition needs_credit_at :: "u32 \<Rightarrow> u32 \<Rightarrow> bool" where
  "needs_credit_at fwd seen \<longleftrightarrow> CONN_TX_BUF_SIZE - (fwd - seen) < CONN_CREDIT_UPDATE_THRESHOLD"

lemma peer_needs_eq: "peer_needs_credit_update c \<longleftrightarrow> needs_credit_at (vc_fwd_cnt c) (vc_last_fwd_cnt_to_peer c)"
  by (simp add: peer_needs_credit_update_def needs_credit_at_def)

lemma needs_credit_same [simp]: "\<not> needs_credit_at f f"
  by (simp add: needs_credit_at_def CONN_TX_BUF_SIZE_def CONN_CREDIT_UPDATE_THRESHOLD_def)

definition conn_inv :: "connection \<Rightarrow> bool" where
  "conn_inv c \<longleftrightarrow> txbuf_inv (vc_tx_buf c) \<and> prx_wf (vc_pending_rx c) \<and>
     (vc_state c = Killed \<longrightarrow> pending c Rst) \<and>
     (pending c Response \<longrightarrow> vc_state c = PeerInit \<or> vc_state c = Killed) \<and>
     (needs_credit_at (vc_fwd_cnt c) (vc_last_fwd_cnt_to_peer c) \<longrightarrow> pending c CreditUpdate \<or> pending c Rst) \<and>
     (vc_state c = PeerClosed True True \<and> txbuf_is_empty (vc_tx_buf c) \<longrightarrow> pending c Rst)"

definition flow :: "connection \<Rightarrow> u8 list" where
  "flow c = st_out (vc_stream c) @ contents (vc_tx_buf c)"

definition lag :: "connection \<Rightarrow> u32" where
  "lag c = vc_fwd_cnt c - of_nat (length (st_out (vc_stream c)))"

text \<open>What one operation that accepts \<open>data\<close> from the guest may do to the flow of bytes: append all
  of it, or append a prefix and kill the connection.\<close>

definition flow_step :: "connection \<Rightarrow> connection \<Rightarrow> u8 list \<Rightarrow> bool" where
  "flow_step c c' data \<longleftrightarrow> lag c' = lag c \<and>
     (flow c' = flow c @ data \<or> vc_state c' = Killed \<and> (\<exists>w z. data = w @ z \<and> flow c' = flow c @ w))"

lemma flow_simps [simp]:
  "flow (pend it c) = flow c" "lag (pend it c) = lag c" "flow (kill c) = flow c" "lag (kill c) = lag c"
  by (simp_all add: flow_def lag_def)

lemma conn_inv_new:
  "conn_inv (new_peer_init s lc pc lp pp ba)" "conn_inv (new_local_init s lc pc lp pp)"
  by (simp_all add: conn_inv_def new_peer_init_def new_local_init_def txbuf_inv_new)

subsection \<open>Operations keep the invariant and the flow\<close>

lemma push_tx_flow:
  assumes "txbuf_inv (vc_tx_buf c)"
  obtains e where "push_tx buf c = (Inl e, c)"
  | c' where "push_tx buf c = (Inr (), c')" "txbuf_inv (vc_tx_buf c')" "flow c' = flow c @ buf"
      "\<exists>b. c' = c\<lparr>vc_tx_buf := b\<rparr>" "buf \<noteq> [] \<longrightarrow> \<not> txbuf_is_empty (vc_tx_buf c')"
proof (cases "txbuf_push buf (vc_tx_buf c)")
  case (Inl e)
  then show thesis using that(1) by (simp add: push_tx_def)
next
  case (Inr b)
  then have "txbuf_inv b" "contents b = contents (vc_tx_buf c) @ buf"
    by (cases rule: tb.push_cases [OF assms, of buf]; simp)+
  then show thesis using Inr txbuf_empty_contents [of b]
    by (intro that(2) [of "c\<lparr>vc_tx_buf := b\<rparr>"]) (auto simp: push_tx_def flow_def)
qed

text \<open>The fields that sending bytes leaves alone.\<close>

definition same_ctl :: "connection \<Rightarrow> connection \<Rightarrow> bool" where
  "same_ctl c c' \<longleftrightarrow> vc_state c' = vc_state c \<and> vc_pending_rx c' = vc_pending_rx c \<and>
     vc_last_fwd_cnt_to_peer c' = vc_last_fwd_cnt_to_peer c \<and> vc_expiry c' = vc_expiry c \<and>
     vc_local_port c' = vc_local_port c \<and> vc_peer_port c' = vc_peer_port c \<and>
     st_fd (vc_stream c') = st_fd (vc_stream c)"

lemma send_bytes_flow:
  assumes inv: "txbuf_inv (vc_tx_buf c)" and s: "send_bytes buf c = (r, c')"
  shows "txbuf_inv (vc_tx_buf c') \<and> lag c' = lag c \<and> same_ctl c c' \<and>
    (case r of Inr _ \<Rightarrow> flow c' = flow c @ buf | Inl _ \<Rightarrow> \<exists>w z. buf = w @ z \<and> flow c' = flow c @ w)"
proof (cases "txbuf_is_empty (vc_tx_buf c)")
  case False
  then have "push_tx buf c = (r, c')" using s by (simp add: send_bytes_def)
  then show ?thesis using inv
    by (cases rule: push_tx_flow [OF inv, of buf])
      (auto simp: lag_def same_ctl_def intro: exI [of _ "[]"])
next
  case True
  then have e: "contents (vc_tx_buf c) = []" using txbuf_empty_contents [OF inv] by simp
  have fin: "txbuf_inv (vc_tx_buf c') \<and> lag c' = lag c \<and> same_ctl c c' \<and>
    (case r of Inr _ \<Rightarrow> flow c' = flow c @ buf | Inl _ \<Rightarrow> \<exists>w z. buf = w @ z \<and> flow c' = flow c @ w)"
    if out: "st_out st = st_out (vc_stream c) @ take n buf" "n \<le> length buf" "st_fd st = st_fd (vc_stream c)"
      and c1: "c1 = c\<lparr>vc_stream := st, vc_fwd_cnt := vc_fwd_cnt c + of_nat n\<rparr>"
      and r: "(r, c') = (if n < length buf then push_tx (drop n buf) c1 else (Inr (), c1))" for n st c1
  proof -
    have i1: "txbuf_inv (vc_tx_buf c1)" using inv c1 by simp
    have f1: "flow c1 = flow c @ take n buf" using out e by (simp add: flow_def c1)
    have l1: "lag c1 = lag c" using out by (simp add: lag_def c1)
    have s1: "same_ctl c c1" using out by (simp add: same_ctl_def c1)
    show ?thesis
    proof (cases "n < length buf")
      case True
      then have p: "push_tx (drop n buf) c1 = (r, c')" using r by simp
      show ?thesis
      proof (cases rule: push_tx_flow [OF i1, of "drop n buf"])
        case (1 e)
        then show ?thesis using p i1 f1 l1 s1 by (auto intro!: exI [of _ "take n buf"] exI [of _ "drop n buf"])
      next
        case (2 c2)
        then show ?thesis using p f1 l1 s1 by (auto simp: lag_def same_ctl_def)
      qed
    next
      case False
      then show ?thesis using r out i1 f1 l1 s1 by simp
    qed
  qed
  obtain res st where w: "stream_write buf (vc_stream c) = (res, st)" by fastforce
  show ?thesis
  proof (cases res)
    case (IoOk n)
    then show ?thesis
      using s [symmetric] True w stream_write_ok [of buf "vc_stream c" n st]
      by (intro fin [OF _ _ _ refl, of st n]) (simp_all add: send_bytes_def Let_def)
  next
    case (IoErr e)
    note wr = stream_write_err [of buf "vc_stream c" e st]
    show ?thesis
    proof (cases e)
      case WouldBlock
      then show ?thesis using s [symmetric] True w wr IoErr
        by (intro fin [OF _ _ _ refl, of st 0]) (simp_all add: send_bytes_def Let_def)
    next
      case OtherIo
      then have "r = Inl (StreamWrite OtherIo)" "c' = c\<lparr>vc_stream := st\<rparr>"
        using s True w IoErr by (auto simp: send_bytes_def Let_def)
      then show ?thesis using wr w IoErr inv
        by (auto simp: flow_def lag_def same_ctl_def intro: exI [of _ "[]"])
    qed
  qed
qed

definition packet_ok :: "packet \<Rightarrow> bool" where
  "packet_ok pkt \<longleftrightarrow> (case pk_buf pkt of None \<Rightarrow> True | Some b \<Rightarrow> unat (ph_len (pk_hdr pkt)) \<le> length b)"

definition takes_data :: "conn_state \<Rightarrow> bool" where
  "takes_data st = (case st of Established \<Rightarrow> True | PeerClosed _ send_off \<Rightarrow> \<not> send_off | _ \<Rightarrow> False)"

definition guest_data :: "connection \<Rightarrow> packet \<Rightarrow> u8 list" where
  "guest_data c pkt =
     (if takes_data (vc_state c) \<and> ph_op (pk_hdr pkt) = VSOCK_OP_RW
      then (case pk_buf pkt of None \<Rightarrow> [] | Some b \<Rightarrow> take (unat (ph_len (pk_hdr pkt))) b) else [])"

text \<open>The legal moves between connection states.\<close>

fun conn_edge :: "conn_state \<Rightarrow> conn_state \<Rightarrow> bool" where
  "conn_edge LocalInit Established = True"
| "conn_edge PeerInit Established = True"
| "conn_edge Established (PeerClosed _ _) = True"
| "conn_edge (PeerClosed r s) (PeerClosed r' s') = ((r \<longrightarrow> r') \<and> (s \<longrightarrow> s'))"
| "conn_edge Established LocalClosed = True"
| "conn_edge (PeerClosed r _) LocalClosed = (\<not> r)"
| "conn_edge _ Killed = True"
| "conn_edge a b = (a = b)"

lemma conn_edge_refl [simp]: "conn_edge st st"
  by (cases st) simp_all

lemma conn_edge_Killed [simp]: "conn_edge st Killed"
  by (cases st) simp_all

definition conn_ok :: "connection \<Rightarrow> connection \<Rightarrow> u8 list \<Rightarrow> bool" where
  "conn_ok c c' data \<longleftrightarrow> conn_inv c' \<and> flow_step c c' data \<and> conn_edge (vc_state c) (vc_state c')"

lemma send_rw_ok:
  assumes inv: "conn_inv c" and st: "takes_data (vc_state c)" and pk: "packet_ok pkt"
  shows "\<exists>c'. send_rw c pkt = Some c' \<and>
    conn_ok c c' (case pk_buf pkt of None \<Rightarrow> [] | Some b \<Rightarrow> take (unat (ph_len (pk_hdr pkt))) b)"
proof (cases "pk_buf pkt")
  case None
  then show ?thesis using inv by (simp add: send_rw_def conn_ok_def flow_step_def)
next
  case (Some buf)
  let ?d = "take (unat (ph_len (pk_hdr pkt))) buf"
  obtain r c1 where s: "send_bytes ?d c = (r, c1)" by fastforce
  note f = send_bytes_flow [OF _ s]
  have ti: "txbuf_inv (vc_tx_buf c)" using inv by (simp add: conn_inv_def)
  note f = send_bytes_flow [OF ti s]
  show ?thesis
  proof (cases r)
    case (Inl e)
    then have "send_rw c pkt = Some (kill c1)" using Some s pk by (simp add: send_rw_def packet_ok_def)
    moreover have "conn_ok c (kill c1) ?d"
      using f Inl inv by (auto simp: conn_ok_def conn_inv_def flow_step_def same_ctl_def)
    ultimately show ?thesis using Some by simp
  next
    case (Inr u)
    let ?c2 = "if peer_needs_credit_update c1 then pend CreditUpdate c1 else c1"
    have "send_rw c pkt = Some ?c2" using Some s pk Inr by (simp add: send_rw_def packet_ok_def)
    moreover have "conn_inv ?c2"
      using f Inr inv st
      by (auto simp: conn_inv_def peer_needs_eq same_ctl_def takes_data_def split: conn_state.splits)
    moreover have "flow_step c ?c2 ?d" "conn_edge (vc_state c) (vc_state ?c2)"
      using f Inr by (auto simp: flow_step_def same_ctl_def)
    ultimately show ?thesis using Some by (simp add: conn_ok_def)
  qed
qed

lemma credit_fields_inv [simp]:
  "conn_inv (c\<lparr>vc_peer_buf_alloc := a, vc_peer_fwd_cnt := f\<rparr>) = conn_inv c"
  "flow (c\<lparr>vc_peer_buf_alloc := a, vc_peer_fwd_cnt := f\<rparr>) = flow c"
  "lag (c\<lparr>vc_peer_buf_alloc := a, vc_peer_fwd_cnt := f\<rparr>) = lag c"
  by (simp_all add: conn_inv_def flow_def lag_def)

lemma conn_send_pkt_ok:
  assumes inv: "conn_inv c" and pk: "packet_ok pkt"
  shows "\<exists>c'. conn_send_pkt now c pkt = Some c' \<and> conn_ok c c' (guest_data c pkt)"
proof -
  let ?c = "c\<lparr>vc_peer_buf_alloc := ph_buf_alloc (pk_hdr pkt), vc_peer_fwd_cnt := ph_fwd_cnt (pk_hdr pkt)\<rparr>"
  have inv': "conn_inv ?c" using inv by simp
  show ?thesis
  proof (cases "takes_data (vc_state c) \<and> ph_op (pk_hdr pkt) = VSOCK_OP_RW")
    case True
    then obtain c' where "send_rw ?c pkt = Some c'" "conn_ok ?c c' (guest_data c pkt)"
      using send_rw_ok [OF inv' _ pk] by (auto simp: guest_data_def)
    then show ?thesis using True
      by (auto simp: conn_send_pkt_def Let_def takes_data_def conn_ok_def flow_step_def split: conn_state.splits)
  next
    case False
    then have "guest_data c pkt = []" by (auto simp: guest_data_def)
    then show ?thesis using False inv
      by (cases "vc_state c")
        (auto simp: conn_send_pkt_def Let_def takes_data_def conn_ok_def flow_step_def conn_inv_def
          flow_def lag_def vsock_op_defs)
  qed
qed

lemma recv_credit_update_ok:
  assumes inv: "conn_inv c" and none: "\<forall>it. it \<noteq> CreditUpdate \<longrightarrow> \<not> pending c it"
    and r: "recv_credit_update c pkt = (r, c', pkt')"
  shows "flow c' = flow c \<and> lag c' = lag c \<and> vc_state c' = vc_state c \<and> conn_inv c' \<and>
    (\<forall>it. \<not> pending c' it) \<and> (r = Inr () \<longleftrightarrow> pending c CreditUpdate)"
proof -
  have e: "prx_is_empty (prx_del CreditUpdate (vc_pending_rx c))"
    using inv none by (subst prx_is_empty_iff) (auto simp: conn_inv_def)
  show ?thesis using r inv none e
    by (auto simp: recv_credit_update_def take_pending_eq has_pending_rx_def conn_inv_def flow_def lag_def
        with_op_def split: if_splits)
qed

lemma recv_rw_ok:
  assumes inv: "conn_inv c" and only: "\<forall>it. it \<noteq> CreditUpdate \<longrightarrow> \<not> pending c it"
    and r: "recv_rw now c pkt = (r, c', pkt')"
  shows "flow c' = flow c \<and> lag c' = lag c \<and> conn_edge (vc_state c) (vc_state c') \<and>
    (conn_inv c' \<or> r = Inr () \<and> ph_op (pk_hdr pkt') = VSOCK_OP_RST)"
proof (cases "rw_state_ok (vc_state c) \<and> \<not> need_credit_update_from_peer c \<and> pk_buf pkt \<noteq> None")
  case False
  consider "\<not> rw_state_ok (vc_state c)" | "rw_state_ok (vc_state c)" "need_credit_update_from_peer c"
    | "rw_state_ok (vc_state c)" "\<not> need_credit_update_from_peer c" "pk_buf pkt = None"
    using False by blast
  then show ?thesis
  proof cases
    case 1
    then have "pkt' = with_op VSOCK_OP_RST pkt" "c' = c" "r = Inr ()" using r by (simp_all add: recv_rw_def)
    then show ?thesis by (simp add: with_op_def)
  next
    case 2
    then have "c' = c\<lparr>vc_last_fwd_cnt_to_peer := vc_fwd_cnt c\<rparr>" using r by (simp add: recv_rw_def)
    then show ?thesis using inv by (simp add: conn_inv_def flow_def lag_def)
  next
    case 3
    then show ?thesis using r inv by (simp add: recv_rw_def)
  qed
next
  case True
  have nr: "\<not> pending c Rst" "\<not> pending c Response" using only by auto
  from True obtain buf where b: "pk_buf pkt = Some buf" by auto
  obtain res st where rd: "stream_read (min (length buf) (peer_avail_credit c)) (vc_stream c) = (res, st)"
    by fastforce
  note fr = stream_read_frame [OF rd]
  have edge: "conn_edge (vc_state c) LocalClosed" using True by (auto simp: rw_state_ok_def split: conn_state.splits)
  show ?thesis
  proof (cases res)
    case (Inr data)
    have sel: "vc_stream c' = st \<and> vc_tx_buf c' = vc_tx_buf c \<and> vc_fwd_cnt c' = vc_fwd_cnt c \<and>
        vc_last_fwd_cnt_to_peer c' = vc_fwd_cnt c \<and> vc_pending_rx c' = vc_pending_rx c \<and>
        vc_state c' = (if data = [] then LocalClosed else vc_state c)"
      using True b rd r Inr by (cases "data = []") (clarsimp simp: recv_rw_def Let_def)+
    then have "conn_inv c'" using inv nr by (cases "data = []") (simp_all add: conn_inv_def)
    then show ?thesis using sel fr edge by (simp add: flow_def lag_def)
  next
    case (Inl e)
    let ?c = "c\<lparr>vc_stream := st\<rparr>"
    have same: "conn_inv ?c" "flow ?c = flow c" "lag ?c = lag c" "vc_state ?c = vc_state c"
      using inv fr by (simp_all add: conn_inv_def flow_def lag_def)
    show ?thesis
    proof (cases e)
      case WouldBlock
      then have "recv_credit_update ?c pkt = (r, c', pkt')"
        using True b rd r Inl by (simp add: recv_rw_def Let_def)
      then show ?thesis using recv_credit_update_ok [OF same(1)] same only by simp
    next
      case OtherIo
      then show ?thesis using True b rd r Inl same
        by (clarsimp simp: recv_rw_def Let_def with_op_def flow_def lag_def)
    qed
  qed
qed

lemma conn_inv_del_other:
  "conn_inv c \<Longrightarrow> it = Request \<or> it = Rw \<or> \<not> pending c it \<Longrightarrow> conn_inv (c\<lparr>vc_pending_rx := prx_del it (vc_pending_rx c)\<rparr>)"
  by (auto simp: conn_inv_def)

definition without :: "pending_rx list \<Rightarrow> connection \<Rightarrow> connection" where
  "without its c = c\<lparr>vc_pending_rx := fold prx_del its (vc_pending_rx c)\<rparr>"

lemma without_sel [simp]:
  "vc_state (without its c) = vc_state c" "vc_stream (without its c) = vc_stream c"
  "vc_tx_buf (without its c) = vc_tx_buf c" "vc_fwd_cnt (without its c) = vc_fwd_cnt c"
  "vc_last_fwd_cnt_to_peer (without its c) = vc_last_fwd_cnt_to_peer c"
  "vc_pending_rx (without its c) = fold prx_del its (vc_pending_rx c)"
  "flow (without its c) = flow c" "lag (without its c) = lag c"
  "peer_avail_credit (without its c) = peer_avail_credit c"
  "vc_rx_cnt (without its c) = vc_rx_cnt c" "vc_peer_buf_alloc (without its c) = vc_peer_buf_alloc c"
  "vc_peer_fwd_cnt (without its c) = vc_peer_fwd_cnt c"
  by (simp_all add: without_def flow_def lag_def peer_avail_credit_def)

lemma conn_recv_pkt_eq:
  "conn_recv_pkt now c pkt =
    (if pending c Rst then (Inr (), without [Rst] c, with_op VSOCK_OP_RST (init_pkt c pkt))
     else if pending c Response then
       (Inr (), (without [Rst, Response] c)\<lparr>vc_state := Established\<rparr>, with_op VSOCK_OP_RESPONSE (init_pkt c pkt))
     else if pending c Request then
       (Inr (), (without [Rst, Response, Request] c)\<lparr>vc_expiry := Some (now + from_millis CONN_REQUEST_TIMEOUT_MS)\<rparr>,
        with_op VSOCK_OP_REQUEST (init_pkt c pkt))
     else if pending c Rw then recv_rw now (without [Rst, Response, Request, Rw] c) (init_pkt c pkt)
     else recv_credit_update (without [Rst, Response, Request, Rw] c) (init_pkt c pkt))"
  by (simp add: conn_recv_pkt_def take_pending_eq Let_def without_def)

lemma conn_recv_pkt_ok:
  assumes inv: "conn_inv c" and r: "conn_recv_pkt now c pkt = (r, c', pkt')"
  shows "flow c' = flow c \<and> lag c' = lag c \<and> conn_edge (vc_state c) (vc_state c') \<and>
    (conn_inv c' \<or> r = Inr () \<and> ph_op (pk_hdr pkt') = VSOCK_OP_RST)"
proof -
  let ?p = "init_pkt c pkt"
  define c4 where "c4 = without [Rst, Response, Request, Rw] c"
  have same: "flow c4 = flow c" "lag c4 = lag c" "vc_state c4 = vc_state c"
    by (simp_all add: c4_def)
  have inv4: "conn_inv c4" if "\<not> pending c Rst" "\<not> pending c Response"
    using inv that by (auto simp: c4_def conn_inv_def)
  note eq = r [unfolded conn_recv_pkt_eq, folded c4_def, symmetric]
  consider "pending c Rst" | "\<not> pending c Rst" "pending c Response"
    | "\<not> pending c Rst" "\<not> pending c Response" "pending c Request"
    | "\<not> pending c Rst" "\<not> pending c Response" "\<not> pending c Request" by blast
  then show ?thesis
  proof cases
    case 1
    then show ?thesis using eq by (simp add: with_op_def)
  next
    case 2
    then show ?thesis using eq inv by (auto simp: flow_def lag_def conn_inv_def)
  next
    case 3
    then show ?thesis using eq inv by (auto simp: flow_def lag_def conn_inv_def)
  next
    case 4
    have only: "\<not> pending c4 it" if "it \<noteq> CreditUpdate" for it
      using 4 that by (cases it) (auto simp: c4_def)
    show ?thesis
    proof (cases "pending c Rw")
      case True
      then have "recv_rw now c4 ?p = (r, c', pkt')" using 4 eq by simp
      then show ?thesis using recv_rw_ok [OF inv4] 4 same only by simp
    next
      case False
      then have "recv_credit_update c4 ?p = (r, c', pkt')" using 4 eq by simp
      then show ?thesis using recv_credit_update_ok [OF inv4] 4 same only by simp
    qed
  qed
qed

lemma conn_inv_pend: "conn_inv c \<Longrightarrow> it \<noteq> Response \<Longrightarrow> conn_inv (pend it c)"
  by (auto simp: conn_inv_def)

lemma conn_notify_out_ok:
  assumes inv: "conn_inv c"
  shows "\<exists>c'. conn_notify_out c = Some c' \<and> conn_ok c c' []"
proof (cases "txbuf_is_empty (vc_tx_buf c)")
  case True
  then show ?thesis using inv by (simp add: conn_notify_out_def conn_ok_def flow_step_def)
next
  case False
  obtain r b s where f: "flush_to (vc_tx_buf c) (vc_stream c) = Some (r, b, s)" "txbuf_inv b"
    "flush_post (contents (vc_tx_buf c)) (contents b) (vc_stream c) s r"
    using tb.flush_spec [of "vc_tx_buf c" "vc_stream c"] inv by (auto simp: conn_inv_def)
  then obtain w where w: "contents (vc_tx_buf c) = w @ contents b" "st_out s = st_out (vc_stream c) @ w"
    and rw: "case r of Inr n \<Rightarrow> n = length w | Inl e \<Rightarrow> w = [] \<and> (\<exists>io. e = TxBufFlush io)"
    by (auto simp: flush_post_def)
  show ?thesis
  proof (cases r)
    case (Inr n)
    then show ?thesis using False f w rw inv
      by (auto simp: conn_notify_out_def Let_def conn_ok_def flow_step_def conn_inv_def flow_def lag_def peer_needs_eq)
  next
    case (Inl e)
    then obtain io where "e = TxBufFlush io" "w = []" using rw by auto
    then show ?thesis using Inl False f w inv
      by (cases io) (auto simp: conn_notify_out_def Let_def conn_ok_def flow_step_def conn_inv_def flow_def lag_def peer_needs_eq)
  qed
qed

lemma conn_notify_ok:
  assumes inv: "conn_inv c"
  shows "\<exists>c'. conn_notify ev c = Some c' \<and> conn_ok c c' []"
proof -
  let ?c = "if ev_in ev then pend Rw c else c"
  have "conn_inv ?c" "flow ?c = flow c" "lag ?c = lag c" "vc_state ?c = vc_state c"
    using inv conn_inv_pend [of c Rw] by auto
  moreover from this have "\<exists>c'. conn_notify_out ?c = Some c' \<and> conn_ok ?c c' []"
    by (intro conn_notify_out_ok)
  ultimately show ?thesis by (auto simp: conn_notify_def Let_def conn_ok_def flow_step_def)
qed

subsection \<open>Ports\<close>

definition same_id :: "connection \<Rightarrow> connection \<Rightarrow> bool" where
  "same_id c c' \<longleftrightarrow> vc_local_port c' = vc_local_port c \<and> vc_peer_port c' = vc_peer_port c"

lemma same_id_kill [simp]: "same_id c (kill d) = same_id c d" "same_id c (pend it d) = same_id c d"
  by (simp_all add: same_id_def kill_def pend_def)

lemma conn_send_pkt_id:
  assumes "conn_inv c" "conn_send_pkt now c pkt = Some c'"
  shows "same_id c c'"
proof -
  let ?c = "c\<lparr>vc_peer_buf_alloc := ph_buf_alloc (pk_hdr pkt), vc_peer_fwd_cnt := ph_fwd_cnt (pk_hdr pkt)\<rparr>"
  have rw: "same_id c c''" if "send_rw ?c pkt = Some c''" for c''
  proof (cases "pk_buf pkt")
    case None
    then show ?thesis using that by (auto simp: send_rw_def same_id_def)
  next
    case (Some buf)
    let ?d = "take (unat (ph_len (pk_hdr pkt))) buf"
    obtain r c1 where s: "send_bytes ?d ?c = (r, c1)" by fastforce
    have "same_ctl ?c c1" using send_bytes_flow [OF _ s] assms(1) by (simp add: conn_inv_def)
    then have "same_id c c1" by (simp add: same_ctl_def same_id_def)
    then show ?thesis using that Some s by (auto simp: send_rw_def split: if_splits sum.splits)
  qed
  show ?thesis using assms(2) rw
    by (cases "vc_state c")
      (auto simp: conn_send_pkt_def Let_def same_id_def kill_def pend_def split: if_splits)
qed

lemma conn_notify_id:
  assumes "conn_notify ev c = Some c'"
  shows "same_id c c'"
  using assms
  by (auto simp: conn_notify_def conn_notify_out_def Let_def same_id_def kill_def pend_def
      split: if_splits option.splits sum.splits csm_error.splits io_error.splits prod.splits)

lemma recv_credit_update_id:
  assumes "recv_credit_update c pkt = (r, c', pkt')"
  shows "same_id c c' \<and> ph_src_port (pk_hdr pkt') = ph_src_port (pk_hdr pkt) \<and>
    ph_dst_port (pk_hdr pkt') = ph_dst_port (pk_hdr pkt)"
  using assms by (auto simp: recv_credit_update_def take_pending_eq same_id_def with_op_def split: if_splits)

lemma recv_rw_id:
  assumes "recv_rw now c pkt = (r, c', pkt')"
  shows "same_id c c' \<and> ph_src_port (pk_hdr pkt') = ph_src_port (pk_hdr pkt) \<and>
    ph_dst_port (pk_hdr pkt') = ph_dst_port (pk_hdr pkt)"
proof -
  have id: "same_id (c\<lparr>vc_stream := s\<rparr>) c' = same_id c c'" for s by (simp add: same_id_def)
  consider "\<not> rw_state_ok (vc_state c)" | "rw_state_ok (vc_state c)" "need_credit_update_from_peer c"
    | "rw_state_ok (vc_state c)" "\<not> need_credit_update_from_peer c" "pk_buf pkt = None"
    | buf where "rw_state_ok (vc_state c)" "\<not> need_credit_update_from_peer c" "pk_buf pkt = Some buf"
    by blast
  then show ?thesis
  proof cases
    case (4 buf)
    obtain res s where rd: "stream_read (min (length buf) (peer_avail_credit c)) (vc_stream c) = (res, s)" by fastforce
    show ?thesis
    proof (cases res)
      case (Inl e)
      show ?thesis
      proof (cases e)
        case WouldBlock
        then have "recv_credit_update (c\<lparr>vc_stream := s\<rparr>) pkt = (r, c', pkt')"
          using assms 4 rd Inl by (simp add: recv_rw_def)
        then show ?thesis using recv_credit_update_id id by fastforce
      next
        case OtherIo
        then show ?thesis using assms 4 rd Inl by (clarsimp simp: recv_rw_def same_id_def with_op_def)
      qed
    next
      case (Inr data)
      then show ?thesis using assms 4 rd
        by (cases "data = []") (clarsimp simp: recv_rw_def Let_def same_id_def with_op_def)+
    qed
  qed (use assms in \<open>clarsimp simp: recv_rw_def same_id_def with_op_def\<close>)+
qed

lemma conn_recv_pkt_id:
  assumes "conn_recv_pkt now c pkt = (r, c', pkt')"
  shows "same_id c c' \<and> ph_src_port (pk_hdr pkt') = vc_local_port c \<and> ph_dst_port (pk_hdr pkt') = vc_peer_port c"
proof -
  let ?c = "without [Rst, Response, Request, Rw] c" and ?p = "init_pkt c pkt"
  have p: "ph_src_port (pk_hdr ?p) = vc_local_port c" "ph_dst_port (pk_hdr ?p) = vc_peer_port c"
    by (simp_all add: init_pkt_def)
  have id: "same_id ?c d = same_id c d" for d by (simp add: same_id_def without_def)
  show ?thesis
    using assms p recv_rw_id [of now ?c ?p r c' pkt'] recv_credit_update_id [of ?c ?p r c' pkt']
    by (auto simp: conn_recv_pkt_eq id with_op_def split: if_splits) (auto simp: same_id_def without_def)
qed

lemma ack_local_init_other: "prev \<noteq> LocalInit \<or> vc_state c \<noteq> Established \<Longrightarrow> ack_local_init port prev c = c"
  by (auto simp: ack_local_init_def)

lemma ack_local_init_write:
  assumes "vc_state c = Established"
  obtains st w z where "ack_msg port = w @ z" "st_out st = st_out (vc_stream c) @ w" "st_fd st = st_fd (vc_stream c)"
    "ack_local_init port LocalInit c = (if z = [] then c\<lparr>vc_stream := st\<rparr> else kill (c\<lparr>vc_stream := st\<rparr>))"
proof -
  have ne: "ack_msg port \<noteq> []" by (simp add: ack_msg_def)
  obtain res st where w: "stream_write (ack_msg port) (vc_stream c) = (res, st)" by fastforce
  show thesis
  proof (cases res)
    case (IoOk n)
    then have "st_out st = st_out (vc_stream c) @ take n (ack_msg port)" "n \<le> length (ack_msg port)" "st_fd st = st_fd (vc_stream c)"
      using stream_write_ok [of _ _ n st] w by auto
    then show thesis using assms w IoOk
      by (intro that [of "take n (ack_msg port)" "drop n (ack_msg port)" st]) (auto simp: ack_local_init_def send_bytes_raw_def)
  next
    case (IoErr e)
    then have "st_out st = st_out (vc_stream c)" "st_fd st = st_fd (vc_stream c)" using stream_write_err [of _ _ e st] w by auto
    then show thesis using assms w IoErr ne
      by (intro that [of "[]" "ack_msg port" st]) (auto simp: ack_local_init_def send_bytes_raw_def)
  qed
qed

lemma ack_local_init_inv:
  assumes "conn_inv c"
  shows "conn_inv (ack_local_init port prev c)" "same_id c (ack_local_init port prev c)"
    "vc_state (ack_local_init port prev c) \<in> {vc_state c, Killed}"
proof -
  have "conn_inv (ack_local_init port prev c) \<and> same_id c (ack_local_init port prev c) \<and>
    vc_state (ack_local_init port prev c) \<in> {vc_state c, Killed}"
  proof (cases "prev = LocalInit \<and> vc_state c = Established")
    case True
    then have e: "vc_state c = Established" by blast
    obtain st w z where "ack_msg port = w @ z" "ack_local_init port LocalInit c = (if z = [] then c\<lparr>vc_stream := st\<rparr> else kill (c\<lparr>vc_stream := st\<rparr>))"
      by (rule ack_local_init_write [OF e, of port])
    then show ?thesis using True assms by (auto simp: conn_inv_def same_id_def kill_def pend_def)
  qed (use assms in \<open>auto simp: ack_local_init_other same_id_def\<close>)
  then show "conn_inv (ack_local_init port prev c)" "same_id c (ack_local_init port prev c)"
    "vc_state (ack_local_init port prev c) \<in> {vc_state c, Killed}" by blast+
qed

subsection \<open>Lifetime of a connection\<close>

text \<open>A connection lives until the packet it yields is a reset: the multiplexer then drops it.  A packet
  of the guest that establishes a connection the host has initiated is followed by the acknowledgement;
  no other operation moves a connection from \<open>LocalInit\<close> to \<open>Established\<close>.  The run collects the bytes of
  the data packets the guest has sent to it.\<close>

datatype conn_event = Deliver nat packet | Fetch nat packet | Notify events | Terminate

definition conn_deliver :: "nat \<Rightarrow> connection \<Rightarrow> packet \<Rightarrow> connection option" where
  "conn_deliver now c pkt = map_option (ack_local_init (vc_local_port c) (vc_state c)) (conn_send_pkt now c pkt)"

fun conn_run :: "conn_event list \<Rightarrow> connection \<Rightarrow> u8 list \<Rightarrow> (bool \<times> connection \<times> u8 list) option" where
  "conn_run [] c acc = Some (True, c, acc)"
| "conn_run (Deliver now pkt # es) c acc =
     (case conn_deliver now c pkt of
        None \<Rightarrow> None
      | Some c' \<Rightarrow> conn_run es c' (acc @ guest_data c pkt))"
| "conn_run (Fetch now pkt # es) c acc =
     (let (r, c', pkt') = conn_recv_pkt now c pkt
      in if r = Inr () \<and> ph_op (pk_hdr pkt') = VSOCK_OP_RST then Some (False, c', acc)
         else conn_run es c' acc)"
| "conn_run (Notify ev # es) c acc =
     (case conn_notify ev c of None \<Rightarrow> None | Some c' \<Rightarrow> conn_run es c' acc)"
| "conn_run (Terminate # es) c acc = conn_run es (kill c) acc"

fun event_ok :: "conn_event \<Rightarrow> bool" where
  "event_ok (Deliver _ pkt) = packet_ok pkt"
| "event_ok _ = True"

definition flow_acc :: "u8 list \<Rightarrow> u32 \<Rightarrow> connection \<Rightarrow> u8 list \<Rightarrow> bool" where
  "flow_acc base l c acc \<longleftrightarrow> lag c = l \<and>
     (\<exists>w z. acc = w @ z \<and> flow c = base @ w \<and> (vc_state c \<noteq> Killed \<longrightarrow> z = []))"

text \<open>Before the acknowledgement nothing has passed; afterwards the guest's data follow it.  The
  acknowledgement is complete unless the connection was killed.\<close>

definition life :: "u8 list \<Rightarrow> u32 \<Rightarrow> u8 list \<Rightarrow> connection \<Rightarrow> u8 list \<Rightarrow> bool" where
  "life base l msg c acc \<longleftrightarrow>
     (if vc_state c = LocalInit then flow c = base \<and> lag c = l \<and> acc = [] \<and> msg = ack_msg (vc_local_port c)
      else \<exists>ack rest. msg = ack @ rest \<and> flow_acc (base @ ack) (l - of_nat (length ack)) c acc \<and>
        (vc_state c \<noteq> Killed \<longrightarrow> rest = []))"

lemma conn_edge_from_Killed: "conn_edge Killed st \<Longrightarrow> st = Killed"
  by (cases st) simp_all

lemma conn_edge_to_LocalInit: "conn_edge st LocalInit \<Longrightarrow> st = LocalInit"
  by (cases st) simp_all

lemma flow_acc_step:
  assumes "flow_acc base l c acc" "flow_step c c' data" "conn_edge (vc_state c) (vc_state c')"
    "vc_state c = Killed \<longrightarrow> data = []"
  shows "flow_acc base l c' (acc @ data)"
  using assms conn_edge_from_Killed [of "vc_state c'"]
  by (cases "vc_state c = Killed") (auto simp: flow_acc_def flow_step_def)

lemma life_step:
  assumes L: "life base l msg c acc" and s: "flow_step c c' data" "conn_edge (vc_state c) (vc_state c')" "same_id c c'"
    and d: "\<not> takes_data (vc_state c) \<longrightarrow> data = []" and e: "vc_state c = LocalInit \<longrightarrow> vc_state c' \<in> {LocalInit, Killed}"
  shows "life base l msg c' (acc @ data)"
proof (cases "vc_state c = LocalInit")
  case True
  then have "data = []" "flow c' = flow c" "lag c' = lag c" using d s(1) by (auto simp: takes_data_def flow_step_def)
  then show ?thesis using L True e s(3)
    by (auto simp: life_def flow_acc_def same_id_def intro!: exI [of _ "[]"])
next
  case False
  then obtain ack rest where r: "msg = ack @ rest" "flow_acc (base @ ack) (l - of_nat (length ack)) c acc"
    "vc_state c \<noteq> Killed \<longrightarrow> rest = []" using L by (auto simp: life_def)
  have "flow_acc (base @ ack) (l - of_nat (length ack)) c' (acc @ data)"
    using flow_acc_step [OF r(2) s(1,2)] d by (auto simp: takes_data_def)
  moreover have "vc_state c' \<noteq> LocalInit" "vc_state c' \<noteq> Killed \<longrightarrow> rest = []"
    using False r(3) s(2) conn_edge_to_LocalInit [of "vc_state c"] conn_edge_from_Killed [of "vc_state c'"] by auto
  ultimately show ?thesis using r(1) by (auto simp: life_def)
qed

lemma conn_send_pkt_start:
  assumes "vc_state c = LocalInit" "conn_send_pkt now c pkt = Some c'"
  shows "vc_tx_buf c' = vc_tx_buf c \<and> vc_stream c' = vc_stream c \<and> vc_fwd_cnt c' = vc_fwd_cnt c \<and>
    vc_state c' \<in> {LocalInit, Established} \<and> guest_data c pkt = []"
  using assms by (auto simp: conn_send_pkt_def Let_def guest_data_def takes_data_def split: if_splits)

lemma conn_deliver_ok:
  assumes inv: "conn_inv c" and pk: "packet_ok pkt" and L: "life base l msg c acc"
    and b: "vc_state c = LocalInit \<longrightarrow> contents (vc_tx_buf c) = []"
  shows "\<exists>c'. conn_deliver now c pkt = Some c' \<and> conn_inv c' \<and> life base l msg c' (acc @ guest_data c pkt) \<and>
    conn_edge (vc_state c) (vc_state c') \<and> (vc_state c' = LocalInit \<longrightarrow> contents (vc_tx_buf c') = [])"
proof -
  obtain c1 where c1: "conn_send_pkt now c pkt = Some c1" "conn_ok c c1 (guest_data c pkt)"
    using conn_send_pkt_ok [OF inv pk] by blast
  have o: "conn_inv c1" "flow_step c c1 (guest_data c pkt)" "conn_edge (vc_state c) (vc_state c1)" "same_id c c1"
    using c1 conn_send_pkt_id [OF inv] by (auto simp: conn_ok_def)
  let ?c = "ack_local_init (vc_local_port c) (vc_state c) c1"
  have run: "conn_deliver now c pkt = Some ?c" using c1 by (simp add: conn_deliver_def)
  have dt: "\<not> takes_data (vc_state c) \<longrightarrow> guest_data c pkt = []" by (simp add: guest_data_def)
  show ?thesis
  proof (cases "vc_state c = LocalInit \<and> vc_state c1 = Established")
    case False
    then have eq: "?c = c1" by (intro ack_local_init_other) blast
    have st: "vc_state c = LocalInit \<longrightarrow> vc_state c1 = LocalInit \<and> contents (vc_tx_buf c1) = []"
      using False conn_send_pkt_start [OF _ c1(1)] b by auto
    have "life base l msg c1 (acc @ guest_data c pkt)" using life_step [OF L o(2,3,4) dt] st by auto
    moreover have "vc_state c1 = LocalInit \<longrightarrow> contents (vc_tx_buf c1) = []"
      using st o(3) conn_edge_to_LocalInit [of "vc_state c"] by auto
    ultimately show ?thesis using run o eq by simp
  next
    case True
    then have same: "flow c1 = base" "lag c1 = l" "acc = []" "msg = ack_msg (vc_local_port c)" "guest_data c pkt = []"
      "contents (vc_tx_buf c1) = []"
      using conn_send_pkt_start [OF _ c1(1)] L b by (auto simp: life_def flow_def lag_def)
    obtain st w z where s: "ack_msg (vc_local_port c) = w @ z" "st_out st = st_out (vc_stream c1) @ w"
      "ack_local_init (vc_local_port c) LocalInit c1 = (if z = [] then c1\<lparr>vc_stream := st\<rparr> else kill (c1\<lparr>vc_stream := st\<rparr>))"
      using ack_local_init_write [of c1 "vc_local_port c"] True by metis
    have "life base l msg ?c []"
      using True s same by (auto simp: life_def flow_acc_def flow_def lag_def)
    then show ?thesis using run ack_local_init_inv [OF o(1), of "vc_local_port c" LocalInit] True s same by auto
  qed
qed

lemma conn_deliver_edge:
  assumes inv: "conn_inv c" and pk: "packet_ok pkt" and d: "conn_deliver now c pkt = Some c'"
  shows "conn_edge (vc_state c) (vc_state c')"
proof -
  obtain c1 where c1: "conn_send_pkt now c pkt = Some c1" "conn_inv c1" "conn_edge (vc_state c) (vc_state c1)"
    using conn_send_pkt_ok [OF inv pk] by (auto simp: conn_ok_def)
  then have "c' = ack_local_init (vc_local_port c) (vc_state c) c1" using d by (simp add: conn_deliver_def)
  then show ?thesis
    using c1(3) ack_local_init_inv(3) [OF c1(2), of "vc_local_port c" "vc_state c"] by auto
qed

lemma conn_recv_pkt_edge:
  assumes "conn_inv c" "conn_recv_pkt now c pkt = (r, c', pkt')" "vc_state c = LocalInit"
  shows "vc_state c' = LocalInit \<and> vc_tx_buf c' = vc_tx_buf c"
  using assms
  by (auto simp: conn_recv_pkt_eq recv_rw_def rw_state_ok_def recv_credit_update_def take_pending_eq conn_inv_def
      split: if_splits)

lemma conn_notify_start:
  assumes "conn_notify ev c = Some c'" "vc_state c = LocalInit" "txbuf_is_empty (vc_tx_buf c)"
  shows "vc_state c' = LocalInit \<and> vc_tx_buf c' = vc_tx_buf c"
  using assms by (auto simp: conn_notify_def conn_notify_out_def Let_def split: if_splits)

lemma conn_run_ok:
  assumes "conn_inv c" "list_all event_ok es" "life base l msg c acc" "vc_state c = LocalInit \<longrightarrow> contents (vc_tx_buf c) = []"
  shows "\<exists>alive c' acc'. conn_run es c acc = Some (alive, c', acc') \<and> life base l msg c' acc' \<and>
    (alive \<longrightarrow> conn_inv c')"
  using assms
proof (induction es c acc rule: conn_run.induct)
  case (1 c acc)
  then show ?case by auto
next
  case (2 now pkt es c acc)
  obtain c' where c': "conn_deliver now c pkt = Some c'" "conn_inv c'" "life base l msg c' (acc @ guest_data c pkt)"
    "vc_state c' = LocalInit \<longrightarrow> contents (vc_tx_buf c') = []"
    using conn_deliver_ok [OF 2(2) _ 2(4,5)] 2(3) by auto
  then show ?case using 2(1) [OF c'(1)] 2(3) by simp
next
  case (3 now pkt es c acc)
  obtain r c' pkt' where r: "conn_recv_pkt now c pkt = (r, c', pkt')" by (cases "conn_recv_pkt now c pkt")
  note ok = conn_recv_pkt_ok [OF 3(2) r] and st = conn_recv_pkt_edge [OF 3(2) r]
  have "life base l msg c' acc"
    using life_step [OF 3(4), of c' "[]"] ok conn_recv_pkt_id [OF r] st by (auto simp: flow_step_def)
  moreover have "vc_state c' = LocalInit \<longrightarrow> contents (vc_tx_buf c') = []"
    using st ok 3(5) conn_edge_to_LocalInit [of "vc_state c"] by auto
  ultimately show ?case using 3 r ok by (auto simp: Let_def)
next
  case (4 ev es c acc)
  obtain c' where c': "conn_notify ev c = Some c'" "conn_ok c c' []"
    using conn_notify_ok [OF 4(2)] by blast
  have st: "vc_state c = LocalInit \<longrightarrow> vc_state c' = LocalInit \<and> contents (vc_tx_buf c') = []"
    using conn_notify_start [OF c'(1)] 4(2,5) txbuf_empty_contents by (auto simp: conn_inv_def)
  have "life base l msg c' acc"
    using life_step [OF 4(4), of c' "[]"] c' conn_notify_id [OF c'(1)] st by (auto simp: conn_ok_def)
  moreover have "vc_state c' = LocalInit \<longrightarrow> contents (vc_tx_buf c') = []"
    using st c'(2) conn_edge_to_LocalInit [of "vc_state c"] by (auto simp: conn_ok_def)
  ultimately show ?case using 4(1) [OF c'(1)] c' 4(3) by (simp add: conn_ok_def)
next
  case (5 es c acc)
  have "conn_inv (kill c)" using 5(2) by (auto simp: conn_inv_def)
  moreover have "life base l msg (kill c) acc"
    using life_step [OF 5(4), of "kill c" "[]"] by (simp add: flow_step_def) (simp add: same_id_def)
  ultimately show ?case using 5 by simp
qed

text \<open>What the host end is sent ahead of the guest's data.\<close>

definition greeting :: "connection \<Rightarrow> u8 list" where
  "greeting c = (if vc_state c = LocalInit then ack_msg (vc_local_port c) else [])"

lemma life_new:
  assumes "c = new_peer_init s lc pc lp pp ba \<or> c = new_local_init s lc pc lp pp"
  shows "life (st_out s) (- of_nat (length (st_out s))) (greeting c) c []" "contents (vc_tx_buf c) = []"
  using assms
  by (auto simp: life_def greeting_def flow_acc_def lag_def flow_def new_peer_init_def new_local_init_def txbuf_inv_new)


definition demo_stream :: stream where
  "demo_stream = \<lparr>st_fd = 9, st_writes = [IoOk 2], st_out = [], st_in = []\<rparr>"

definition demo_packet :: "u16 \<Rightarrow> u8 list \<Rightarrow> packet" where
  "demo_packet v bs =
     \<lparr>pk_hdr = \<lparr>ph_src_cid = 3, ph_dst_cid = 2, ph_src_port = 7, ph_dst_port = 8, ph_len = of_nat (length bs),
        ph_type = VSOCK_TYPE_STREAM, ph_op = v, ph_flags = 0, ph_buf_alloc = 4096, ph_fwd_cnt = 0\<rparr>,
      pk_buf = Some bs\<rparr>"


text \<open>C19. No connection waits forever on a forgotten packet: at every point of a living connection's
  run, if it has been killed, or both directions were shut down and the buffer is drained, a reset
  is pending and the next fetch yields exactly that reset; and if the guest's view of the free
  buffer space has dropped below the threshold, a credit update or a reset is pending.  The
  connection state only moves along the legal edges.\<close>

theorem conn_reset_and_credit:
  assumes "c = new_peer_init s lc pc lp pp ba \<or> c = new_local_init s lc pc lp pp"
    and "list_all event_ok es" and "conn_run es c [] = Some (True, c', data)"
  shows "(vc_state c' = Killed \<or> vc_state c' = PeerClosed True True \<and> txbuf_is_empty (vc_tx_buf c') \<longrightarrow>
      (\<forall>now pkt. \<exists>c'' pkt'. conn_recv_pkt now c' pkt = (Inr (), c'', pkt') \<and> ph_op (pk_hdr pkt') = VSOCK_OP_RST)) \<and>
    (peer_needs_credit_update c' \<longrightarrow> pending c' CreditUpdate \<or> pending c' Rst) \<and>
    (\<forall>e. event_ok e \<longrightarrow> (\<forall>alive c'' d. conn_run [e] c' [] = Some (alive, c'', d) \<longrightarrow>
      conn_edge (vc_state c') (vc_state c'')))"
proof -
  have inv0: "conn_inv c" using assms(1) conn_inv_new by blast
  have inv: "conn_inv c'"
    using conn_run_ok [OF inv0 assms(2) life_new(1) [OF assms(1)]] life_new(2) [OF assms(1)] assms(3) by auto
  have rst: "\<exists>c'' pkt'. conn_recv_pkt now c' pkt = (Inr (), c'', pkt') \<and> ph_op (pk_hdr pkt') = VSOCK_OP_RST"
    if "pending c' Rst" for now pkt
    using that by (simp add: conn_recv_pkt_eq with_op_def)
  have deliver: "conn_edge (vc_state c') (vc_state c'')" if "packet_ok pkt" "conn_deliver now c' pkt = Some c''" for pkt now c''
    using conn_deliver_edge [OF inv that] .
  have edge: "conn_edge (vc_state c') (vc_state c'')"
    if "event_ok e" "conn_run [e] c' [] = Some (alive, c'', d)" for e alive c'' d
  proof (cases e)
    case (Deliver now pkt)
    then show ?thesis using that deliver [of pkt now] by (auto split: option.splits)
  next
    case (Fetch now pkt)
    then show ?thesis using that conn_recv_pkt_ok [OF inv, of now pkt]
      by (cases "conn_recv_pkt now c' pkt") (auto split: if_splits)
  next
    case (Notify ev)
    then show ?thesis using that conn_notify_ok [OF inv, of ev] by (auto simp: conn_ok_def)
  qed (use that in auto)
  show ?thesis using inv rst edge by (auto simp: conn_inv_def peer_needs_eq)
qed

theorem conn_reset_and_credit_witness:
  "list_all event_ok [Terminate] \<and>
   (\<forall>now pkt. \<exists>c'' pkt'.
      conn_recv_pkt now (kill (new_local_init demo_stream 2 3 8 7)) pkt = (Inr (), c'', pkt') \<and>
      ph_op (pk_hdr pkt') = VSOCK_OP_RST)"
  using conn_reset_and_credit [OF disjI2 [OF refl], of "[Terminate]" demo_stream 2 3 8 7
      "kill (new_local_init demo_stream 2 3 8 7)" "[]"] by simp

subsection \<open>Credit granted by the guest\<close>

text \<open>
  The guest's side of flow control, kept beside the connection: \<open>sent\<close> bytes have gone to the guest in data
  packets, the guest has last reported that it consumed the first \<open>consumed\<close> of them and that its buffer
  holds \<open>space\<close> bytes.  An honest guest consumes no more than was sent and never announces a buffer
  smaller than what is in flight.  The counters are unbounded; the headers carry them modulo \<open>2 ^ 32\<close>.
\<close>

inductive credit_life :: "connection \<Rightarrow> nat \<Rightarrow> nat \<Rightarrow> nat \<Rightarrow> bool" where
  guest_opens: "credit_life (new_peer_init s lc pc lp pp ba) 0 0 (unat ba)"
| host_opens: "credit_life (new_local_init s lc pc lp pp) 0 0 0"
| delivers: "credit_life c sent consumed space \<Longrightarrow> conn_deliver now c pkt = Some c' \<Longrightarrow>
    ph_fwd_cnt (pk_hdr pkt) = of_nat consumed' \<Longrightarrow> consumed' \<le> sent \<Longrightarrow>
    sent \<le> consumed' + unat (ph_buf_alloc (pk_hdr pkt)) \<Longrightarrow>
    credit_life c' sent consumed' (unat (ph_buf_alloc (pk_hdr pkt)))"
| fetches: "credit_life c sent consumed space \<Longrightarrow> conn_recv_pkt now c pkt = (r, c', pkt') \<Longrightarrow>
    credit_life c' (sent + (if r = Inr () \<and> ph_op (pk_hdr pkt') = VSOCK_OP_RW then unat (ph_len (pk_hdr pkt')) else 0))
      consumed space"
| notifies: "credit_life c sent consumed space \<Longrightarrow> conn_notify ev c = Some c' \<Longrightarrow> credit_life c' sent consumed space"
| terminates: "credit_life c sent consumed space \<Longrightarrow> credit_life (kill c) sent consumed space"

definition window :: "connection \<Rightarrow> u32 \<times> u32 \<times> u32" where
  "window c = (vc_rx_cnt c, vc_peer_fwd_cnt c, vc_peer_buf_alloc c)"

lemma window_sel [simp]:
  "window (kill c) = window c" "window (pend it c) = window c" "window (without its c) = window c"
  "window (c\<lparr>vc_stream := st\<rparr>) = window c" "window (c\<lparr>vc_last_fwd_cnt_to_peer := n\<rparr>) = window c"
  "window (c\<lparr>vc_state := q\<rparr>) = window c" "window (c\<lparr>vc_expiry := t\<rparr>) = window c"
  "window (c\<lparr>vc_pending_rx := ps\<rparr>) = window c" "window (c\<lparr>vc_tx_buf := b\<rparr>) = window c"
  "window (c\<lparr>vc_fwd_cnt := n\<rparr>) = window c"
  by (simp_all add: window_def kill_def pend_def without_def)

lemma send_bytes_window: "send_bytes buf c = (r, c') \<Longrightarrow> window c' = window c"
  by (auto simp: send_bytes_def push_tx_def Let_def
      split: if_splits sum.splits io_result.splits io_error.splits prod.splits)

lemma send_rw_window: "send_rw c pkt = Some c' \<Longrightarrow> window c' = window c"
  by (auto simp: send_rw_def dest!: send_bytes_window split: option.splits if_splits prod.splits sum.splits)

lemma conn_deliver_window:
  assumes "conn_deliver now c pkt = Some c'"
  shows "window c' = (vc_rx_cnt c, ph_fwd_cnt (pk_hdr pkt), ph_buf_alloc (pk_hdr pkt))"
proof -
  have a: "window (ack_local_init port st d) = window d" for port st d
    by (auto simp: ack_local_init_def send_bytes_raw_def split: prod.splits io_result.splits)
  let ?c = "c\<lparr>vc_peer_buf_alloc := ph_buf_alloc (pk_hdr pkt), vc_peer_fwd_cnt := ph_fwd_cnt (pk_hdr pkt)\<rparr>"
  obtain c1 where c1: "conn_send_pkt now c pkt = Some c1" "window c' = window c1"
    using assms a by (auto simp: conn_deliver_def)
  have "window c1 = window ?c" using c1(1) send_rw_window [of ?c pkt c1]
    by (cases "vc_state c") (auto simp: conn_send_pkt_def Let_def split: if_splits)
  then show ?thesis using c1(2) by (simp add: window_def)
qed

lemma conn_notify_window: "conn_notify ev c = Some c' \<Longrightarrow> window c' = window c"
  by (auto simp: conn_notify_def conn_notify_out_def Let_def
      split: if_splits option.splits sum.splits csm_error.splits io_error.splits prod.splits)

text \<open>A fetch moves the window by the bytes of a data packet, which are those it read.\<close>

definition data_read :: "connection \<Rightarrow> packet \<Rightarrow> connection \<Rightarrow> packet \<Rightarrow> bool" where
  "data_read c pkt c' pkt' \<longleftrightarrow> (\<exists>buf bytes st. rw_state_ok (vc_state c) \<and> pk_buf pkt = Some buf \<and>
     stream_read (min (length buf) (peer_avail_credit c)) (vc_stream c) = (Inr bytes, st) \<and> bytes \<noteq> [] \<and>
     ph_len (pk_hdr pkt') = of_nat (length bytes) \<and> pk_buf pkt' = Some (bytes @ drop (length bytes) buf) \<and>
     vc_stream c' = st \<and> window c' = (vc_rx_cnt c + of_nat (length bytes), vc_peer_fwd_cnt c, vc_peer_buf_alloc c))"

lemma recv_credit_update_window:
  "recv_credit_update c pkt = (r, c', pkt') \<Longrightarrow> window c' = window c \<and> (r = Inr () \<longrightarrow> ph_op (pk_hdr pkt') = VSOCK_OP_CREDIT_UPDATE)"
  by (auto simp: recv_credit_update_def take_pending_eq with_op_def split: if_splits)

lemma recv_rw_window:
  assumes r: "recv_rw now c pkt = (r, c', pkt')" and l: "ph_len (pk_hdr pkt) = 0"
  shows "if r = Inr () \<and> ph_op (pk_hdr pkt') = VSOCK_OP_RW then data_read c pkt c' pkt' else window c' = window c"
proof (cases "rw_state_ok (vc_state c) \<and> \<not> need_credit_update_from_peer c \<and> pk_buf pkt \<noteq> None")
  case False
  then show ?thesis using r by (auto simp: recv_rw_def with_op_def vsock_op_defs split: if_splits)
next
  case True
  then obtain buf where b: "pk_buf pkt = Some buf" by blast
  obtain res st where rd: "stream_read (min (length buf) (peer_avail_credit c)) (vc_stream c) = (res, st)" by fastforce
  show ?thesis
  proof (cases res)
    case (Inr bytes)
    then show ?thesis using True b rd r l
      by (cases "bytes = []") (auto simp: recv_rw_def Let_def with_op_def vsock_op_defs data_read_def window_def)
  next
    case (Inl e)
    show ?thesis
    proof (cases e)
      case WouldBlock
      then have "recv_credit_update (c\<lparr>vc_stream := st\<rparr>) pkt = (r, c', pkt')"
        using True b rd r Inl by (simp add: recv_rw_def Let_def)
      then show ?thesis using recv_credit_update_window by (fastforce simp: vsock_op_defs)
    next
      case OtherIo
      then show ?thesis using True b rd r Inl by (auto simp: recv_rw_def Let_def with_op_def vsock_op_defs)
    qed
  qed
qed

lemma conn_recv_pkt_window:
  assumes "conn_recv_pkt now c pkt = (r, c', pkt')"
  shows "if r = Inr () \<and> ph_op (pk_hdr pkt') = VSOCK_OP_RW then data_read c pkt c' pkt' else window c' = window c"
proof -
  let ?c = "without [Rst, Response, Request, Rw] c" and ?p = "init_pkt c pkt"
  have d: "data_read ?c ?p = data_read c pkt" by (simp add: data_read_def fun_eq_iff init_pkt_def)
  have l: "ph_len (pk_hdr ?p) = 0" by (simp add: init_pkt_def)
  show ?thesis
    using assms recv_rw_window [OF _ l, of now ?c r c' pkt'] recv_credit_update_window [of ?c ?p r c' pkt']
    unfolding d conn_recv_pkt_eq by (auto simp: with_op_def vsock_op_defs split: if_splits)
qed

definition granted :: "connection \<Rightarrow> nat \<Rightarrow> nat \<Rightarrow> nat \<Rightarrow> bool" where
  "granted c sent consumed space \<longleftrightarrow> window c = (of_nat sent, of_nat consumed, of_nat space) \<and> space < 2 ^ 32 \<and>
     consumed \<le> sent \<and> sent \<le> consumed + space"

lemma granted_credit:
  assumes "granted c sent consumed space"
  shows "peer_avail_credit c = consumed + space - sent"
proof -
  have n: "sent - consumed \<le> space" "space < 2 ^ LENGTH(32)" using assms by (auto simp: granted_def)
  have "vc_peer_buf_alloc c - (vc_rx_cnt c - vc_peer_fwd_cnt c) = of_nat (space - (sent - consumed))"
    using assms by (simp add: granted_def window_def of_nat_diff)
  then have "peer_avail_credit c = space - (sent - consumed)"
    using n by (simp only: peer_avail_credit_def) (rule unat_of_nat_small, linarith)
  then show ?thesis using assms by (simp add: granted_def)
qed

lemma data_read_granted:
  assumes d: "data_read c pkt c' pkt'" and g: "granted c sent consumed space"
  shows "granted c' (sent + unat (ph_len (pk_hdr pkt'))) consumed space \<and>
    (\<exists>buf bytes st. pk_buf pkt = Some buf \<and> stream_read (min (length buf) (consumed + space - sent)) (vc_stream c) = (Inr bytes, st) \<and>
       bytes \<noteq> [] \<and> length bytes \<le> length buf \<and> unat (ph_len (pk_hdr pkt')) = length bytes \<and>
       pk_buf pkt' = Some (bytes @ drop (length bytes) buf) \<and> vc_stream c' = st)"
proof -
  obtain buf bytes st where b: "pk_buf pkt = Some buf"
    "stream_read (min (length buf) (consumed + space - sent)) (vc_stream c) = (Inr bytes, st)" "bytes \<noteq> []"
    "ph_len (pk_hdr pkt') = of_nat (length bytes)" "pk_buf pkt' = Some (bytes @ drop (length bytes) buf)" "vc_stream c' = st"
    "window c' = (vc_rx_cnt c + of_nat (length bytes), vc_peer_fwd_cnt c, vc_peer_buf_alloc c)"
    using d unfolding data_read_def granted_credit [OF g] by blast
  have le: "length bytes \<le> length buf" "length bytes \<le> consumed + space - sent"
    using stream_read_frame [OF b(2)] by auto
  then have "length bytes < 2 ^ LENGTH(32)" using g by (auto simp: granted_def)
  then have "unat (ph_len (pk_hdr pkt')) = length bytes" unfolding b(4) by (rule unat_of_nat_small)
  then show ?thesis using b le g by (auto simp: granted_def window_def)
qed

lemma credit_life_granted: "credit_life c sent consumed space \<Longrightarrow> granted c sent consumed space"
proof (induction rule: credit_life.induct)
  case (guest_opens s lc pc lp pp ba)
  show ?case using unat_lt_2p [of ba] by (simp add: granted_def window_def new_peer_init_def)
next
  case (delivers c sent consumed space now pkt c' consumed')
  then show ?case using unat_lt_2p [of "ph_buf_alloc (pk_hdr pkt)"]
    by (auto simp: granted_def conn_deliver_window) (simp add: window_def)
next
  case (fetches c sent consumed space now pkt r c' pkt')
  then show ?case using conn_recv_pkt_window [OF fetches(2)] data_read_granted [OF _ fetches(3)]
    by (auto simp: granted_def split: if_splits)
next
  case (host_opens s lc pc lp pp)
  show ?case by (simp add: granted_def window_def new_local_init_def)
qed (auto simp: granted_def conn_notify_window)

text \<open>C12. The guest's receive buffer cannot be overrun: over any life of a connection with a guest that consumes
  no more than it was sent and never announces a buffer smaller than the bytes in flight, a data packet is produced
  only in a state in which the guest still receives, carries at least one byte and at most what fits into the
  buffer announced last beside the bytes sent and not yet consumed, takes exactly the bytes read from the host
  stream and fits the packet buffer.\<close>

theorem recv_respects_credit:
  assumes "credit_life c sent consumed space"
    and "conn_recv_pkt now c pkt = (Inr (), c', pkt')" "ph_op (pk_hdr pkt') = VSOCK_OP_RW"
  shows "rw_state_ok (vc_state c) \<and> sent + unat (ph_len (pk_hdr pkt')) \<le> consumed + space \<and>
    (\<exists>buf bytes. pk_buf pkt = Some buf \<and>
       stream_read (min (length buf) (consumed + space - sent)) (vc_stream c) = (Inr bytes, vc_stream c') \<and>
       0 < length bytes \<and> length bytes \<le> length buf \<and> unat (ph_len (pk_hdr pkt')) = length bytes \<and>
       pk_buf pkt' = Some (bytes @ drop (length bytes) buf))"
proof -
  have d: "data_read c pkt c' pkt'" using conn_recv_pkt_window [OF assms(2)] assms(3) by simp
  note g = data_read_granted [OF d credit_life_granted [OF assms(1)]]
  have "sent + unat (ph_len (pk_hdr pkt')) \<le> consumed + space" using g by (simp add: granted_def)
  moreover have "rw_state_ok (vc_state c)" using d by (auto simp: data_read_def)
  ultimately show ?thesis using g by blast
qed

theorem recv_respects_credit_witness:
  "\<exists>c c' pkt'. credit_life c 0 0 2 \<and> conn_recv_pkt 3 c (demo_packet 0 [0, 0, 0, 0]) = (Inr (), c', pkt') \<and>
     ph_op (pk_hdr pkt') = VSOCK_OP_RW \<and> unat (ph_len (pk_hdr pkt')) \<le> 2 \<and> pk_buf pkt' = Some [5, 6, 0, 0]"
proof -
  let ?open = "new_peer_init (demo_stream\<lparr>st_in := [Inr [5, 6, 7]]\<rparr>) 2 3 8 7 2"
  let ?est = "(without [Rst, Response] ?open)\<lparr>vc_state := Established\<rparr>"
  let ?c = "pend Rw ?est"
  have "vc_pending_rx ?open = prx_from Response" by (simp add: new_peer_init_def)
  then have "pending ?open Response" "\<not> pending ?open Rst" by simp_all
  then have r1: "conn_recv_pkt 1 ?open (demo_packet 0 []) = (Inr (), ?est, with_op VSOCK_OP_RESPONSE (init_pkt ?open (demo_packet 0 [])))"
    by (simp add: conn_recv_pkt_eq)
  have "credit_life ?est 0 0 2"
    using credit_life.fetches [OF credit_life.guest_opens r1] by (simp add: with_op_def vsock_op_defs)
  moreover have "conn_notify \<lparr>ev_in = True, ev_out = False\<rparr> ?est = Some ?c" by (simp add: conn_notify_def)
  ultimately have life: "credit_life ?c 0 0 2" by (rule credit_life.notifies)
  obtain r c' pkt' where r: "conn_recv_pkt 3 ?c (demo_packet 0 [0, 0, 0, 0]) = (r, c', pkt')"
    by (cases "conn_recv_pkt 3 ?c (demo_packet 0 [0, 0, 0, 0])")
  have cr: "peer_avail_credit ?c = 2" using granted_credit [OF credit_life_granted [OF life]] by simp
  have st: "vc_stream ?c = demo_stream\<lparr>st_in := [Inr [5, 6, 7]]\<rparr>" "vc_state ?c = Established"
    "pending ?c Rw" "\<not> pending ?c Rst" "\<not> pending ?c Response" "\<not> pending ?c Request"
    by (simp_all add: new_peer_init_def)
  have op: "r = Inr ()" "ph_op (pk_hdr pkt') = VSOCK_OP_RW"
    using r st cr by (auto simp: conn_recv_pkt_eq recv_rw_def rw_state_ok_def need_credit_update_from_peer_def
        init_pkt_def demo_packet_def demo_stream_def stream_read_def Let_def with_op_def)
  note bound = recv_respects_credit [OF life r [unfolded op(1)] op(2)]
  then obtain buf bytes where b: "pk_buf (demo_packet 0 [0, 0, 0, 0]) = Some buf" "pk_buf pkt' = Some (bytes @ drop (length bytes) buf)"
    "stream_read (min (length buf) 2) (demo_stream\<lparr>st_in := [Inr [5, 6, 7]]\<rparr>) = (Inr bytes, vc_stream c')"
    by (auto simp only: st add_0 diff_zero)
  then have "buf = [0, 0, 0, 0]" "bytes = [5, 6]" by (auto simp: demo_packet_def stream_read_def demo_stream_def)
  then have "pk_buf pkt' = Some [5, 6, 0, 0]" using b(2) by simp
  then show ?thesis using life r op bound by (metis add_0)
qed

subsection \<open>Shutdown\<close>

text \<open>A connection that the guest has shut down in both directions and whose handshake is over arms no timer.\<close>

definition closing :: "nat option \<Rightarrow> connection \<Rightarrow> bool" where
  "closing t c \<longleftrightarrow> vc_expiry c = t \<and> \<not> pending c Request \<and> \<not> pending c Response \<and>
     (vc_state c = PeerClosed True True \<or> vc_state c = Killed \<and> pending c Rst)"

lemma closing_pend: "it \<notin> {Request, Response} \<Longrightarrow> closing t c \<Longrightarrow> closing t (pend it c)"
  by (auto simp: closing_def)

lemma closing_deliver: "closing t c \<Longrightarrow> conn_deliver now c pkt = Some c' \<Longrightarrow> closing t c'"
  by (auto simp: closing_def conn_deliver_def conn_send_pkt_def Let_def ack_local_init_other split: if_splits)

lemma closing_fetch:
  assumes "closing t c" "conn_recv_pkt now c pkt = (r, c', pkt')" "\<not> (r = Inr () \<and> ph_op (pk_hdr pkt') = VSOCK_OP_RST)"
  shows "closing t c'"
  using assms
  by (auto simp: closing_def conn_recv_pkt_eq recv_rw_def rw_state_ok_def recv_credit_update_def take_pending_eq with_op_def
      without_def split: if_splits)

lemma closing_notify:
  assumes "closing t c" "conn_notify ev c = Some c'"
  shows "closing t c'"
proof -
  have out: "closing t d'" if "closing t d" "conn_notify_out d = Some d'" for d d'
    using that by (auto simp: conn_notify_out_def Let_def closing_def
        split: if_splits option.splits sum.splits csm_error.splits io_error.splits prod.splits)
  show ?thesis using assms out closing_pend [of Rw t c] by (auto simp: conn_notify_def Let_def split: if_splits)
qed

lemma closing_run:
  "closing t c \<Longrightarrow> Terminate \<notin> set es \<Longrightarrow> conn_run es c acc = Some (True, c', d) \<Longrightarrow> closing t c'"
  by (induction es c acc rule: conn_run.induct)
    (auto split: option.splits prod.splits if_splits intro: closing_deliver closing_notify dest: closing_fetch)

text \<open>C33. The kill timer on shutdown: when one packet shuts down both directions of an established
  connection that still has buffered data, the timer is armed two seconds ahead.  When the shutdown arrives in
  two steps, whichever direction comes first, the packet that completes it leaves the timer as it was, and so
  does everything that follows until the multiplexer drops or kills the connection, however long the host takes
  to read the rest.  (The packets of the handshake are assumed to have been fetched before.)\<close>

theorem shutdown_timer:
  assumes "ph_op (pk_hdr pkt) = VSOCK_OP_SHUTDOWN" "\<not> txbuf_is_empty (vc_tx_buf c)"
    and "\<not> pending c Request" "\<not> pending c Response"
  shows "(vc_state c = Established \<and> shutdown_rcv pkt \<and> shutdown_send pkt \<longrightarrow>
      (\<exists>c'. conn_deliver now c pkt = Some c' \<and> vc_state c' = PeerClosed True True \<and>
        vc_expiry c' = Some (now + 2000000000))) \<and>
    (vc_state c = PeerClosed r s \<and> (r \<or> shutdown_rcv pkt) \<and> (s \<or> shutdown_send pkt) \<longrightarrow>
      (\<exists>c'. conn_deliver now c pkt = Some c' \<and> vc_state c' = PeerClosed True True \<and> vc_expiry c' = vc_expiry c \<and>
        (\<forall>es acc c'' d. Terminate \<notin> set es \<longrightarrow> conn_run es c' acc = Some (True, c'', d) \<longrightarrow>
          vc_expiry c'' = vc_expiry c)))"
proof -
  let ?c = "c\<lparr>vc_peer_buf_alloc := ph_buf_alloc (pk_hdr pkt), vc_peer_fwd_cnt := ph_fwd_cnt (pk_hdr pkt),
    vc_state := PeerClosed True True\<rparr>"
  have one: "conn_deliver now c pkt = Some (?c\<lparr>vc_expiry := Some (now + 2000000000)\<rparr>)"
    if "vc_state c = Established" "shutdown_rcv pkt" "shutdown_send pkt"
    using that assms
    by (simp add: conn_deliver_def conn_send_pkt_def Let_def vsock_op_defs from_millis_def CONN_SHUTDOWN_TIMEOUT_MS_def
        ack_local_init_other)
  have two: "conn_deliver now c pkt = Some ?c"
    if "vc_state c = PeerClosed r s" "r \<or> shutdown_rcv pkt" "s \<or> shutdown_send pkt"
    using that assms by (auto simp: conn_deliver_def conn_send_pkt_def Let_def vsock_op_defs ack_local_init_other)
  have "closing (vc_expiry c) ?c" using assms(3,4) by (simp add: closing_def)
  then have "vc_expiry c'' = vc_expiry c" if "Terminate \<notin> set es" "conn_run es ?c acc = Some (True, c'', d)" for es acc c'' d
    using closing_run [OF _ that] by (auto simp: closing_def)
  then show ?thesis using one two by auto
qed

theorem shutdown_timer_witness:
  "let c = (new_peer_init demo_stream 2 3 8 7 0)\<lparr>vc_state := PeerClosed True False, vc_pending_rx := 0,
         vc_tx_buf := txbuf_new\<lparr>tb_head := 1\<rparr>\<rparr>;
       pkt = (demo_packet VSOCK_OP_SHUTDOWN [])\<lparr>pk_hdr := (pk_hdr (demo_packet VSOCK_OP_SHUTDOWN []))\<lparr>ph_flags := 2\<rparr>\<rparr>
   in \<exists>c'. conn_deliver 5 c pkt = Some c' \<and> vc_state c' = PeerClosed True True \<and> vc_expiry c' = None"
proof -
  let ?c = "(new_peer_init demo_stream 2 3 8 7 0)\<lparr>vc_state := PeerClosed True False, vc_pending_rx := 0,
      vc_tx_buf := txbuf_new\<lparr>tb_head := 1\<rparr>\<rparr>"
  let ?p = "(demo_packet VSOCK_OP_SHUTDOWN [])\<lparr>pk_hdr := (pk_hdr (demo_packet VSOCK_OP_SHUTDOWN []))\<lparr>ph_flags := 2\<rparr>\<rparr>"
  have "ph_op (pk_hdr ?p) = VSOCK_OP_SHUTDOWN" "\<not> txbuf_is_empty (vc_tx_buf ?c)" "\<not> pending ?c Request" "\<not> pending ?c Response"
    by (simp_all add: demo_packet_def txbuf_is_empty_def txbuf_len_def txbuf_new_def prx_contains_def)
  from shutdown_timer [OF this, of 5 True False]
  show ?thesis
    by (auto simp: Let_def demo_packet_def shutdown_rcv_def shutdown_send_def VSOCK_FLAGS_SHUTDOWN_RCV_def
        VSOCK_FLAGS_SHUTDOWN_SEND_def new_peer_init_def)
qed

end
