(* ===== verification/Vsock_Queues.thy ===== *)
theory Vsock_Queues
  imports Vsock_Connection
begin

text \<open>
  The two queues of the vsock multiplexer: \<^verbatim>\<open>virtio-devices/src/vsock/unix/muxer_rxq.rs\<close> and
  \<^verbatim>\<open>muxer_killq.rs\<close>.  Each holds a bounded number of entries and a flag that says whether it still
  accounts for every connection it should.  The connection pool (a hash map in the source) is an
  association list, whose order stands for the unspecified iteration order of the map.
\<close>

definition MAX_CONNECTIONS :: nat where "MAX_CONNECTIONS = 1023"
definition MUXER_RXQ_SIZE :: nat where "MUXER_RXQ_SIZE = 256"
definition MUXER_KILLQ_SIZE :: nat where "MUXER_KILLQ_SIZE = 128"

record conn_map_key =
  ck_local_port :: u32
  ck_peer_port :: u32

type_synonym conn_map = "(conn_map_key \<times> connection) list"

subsection \<open>RX queue\<close>

datatype muxer_rx = ConnRx conn_map_key | RstPkt u32 u32

record muxer_rxq =
  rxq_q :: "muxer_rx list"
  rxq_synced :: bool

definition rxq_new :: muxer_rxq where
  "rxq_new = \<lparr>rxq_q = [], rxq_synced = True\<rparr>"

fun rxq_walk :: "conn_map \<Rightarrow> muxer_rx list \<Rightarrow> muxer_rx list \<times> bool" where
  "rxq_walk [] q = (q, True)"
| "rxq_walk ((key, conn) # cs) q =
     (if \<not> has_pending_rx conn then rxq_walk cs q
      else if length q \<ge> MUXER_RXQ_SIZE then (q, False)
      else rxq_walk cs (q @ [ConnRx key]))"

definition rxq_from_conn_map :: "conn_map \<Rightarrow> muxer_rxq" where
  "rxq_from_conn_map cs = (let (q, synced) = rxq_walk cs [] in \<lparr>rxq_q = q, rxq_synced = synced\<rparr>)"

definition rxq_len :: "muxer_rxq \<Rightarrow> nat" where "rxq_len r = length (rxq_q r)"
definition rxq_is_empty :: "muxer_rxq \<Rightarrow> bool" where "rxq_is_empty r \<longleftrightarrow> rxq_len r = 0"
definition rxq_is_full :: "muxer_rxq \<Rightarrow> bool" where "rxq_is_full r \<longleftrightarrow> rxq_len r = MUXER_RXQ_SIZE"

fun replace_first_conn :: "muxer_rx \<Rightarrow> muxer_rx list \<Rightarrow> muxer_rx list option" where
  "replace_first_conn rx [] = None"
| "replace_first_conn rx (ConnRx _ # q) = Some (rx # q)"
| "replace_first_conn rx (RstPkt l p # q) = map_option ((#) (RstPkt l p)) (replace_first_conn rx q)"

definition rxq_push :: "muxer_rx \<Rightarrow> muxer_rxq \<Rightarrow> bool \<times> muxer_rxq" where
  "rxq_push rx r =
     (if rxq_synced r \<and> \<not> rxq_is_full r then (True, r\<lparr>rxq_q := rxq_q r @ [rx]\<rparr>)
      else (case rx of
        RstPkt _ _ \<Rightarrow>
          (case replace_first_conn rx (rev (rxq_q r)) of
             Some q \<Rightarrow> (True, r\<lparr>rxq_q := rev q, rxq_synced := False\<rparr>)
           | None \<Rightarrow> (False, r))
      | ConnRx _ \<Rightarrow> (False, r\<lparr>rxq_synced := False\<rparr>)))"

definition rxq_peek :: "muxer_rxq \<Rightarrow> muxer_rx option" where
  "rxq_peek r = (case rxq_q r of [] \<Rightarrow> None | x # _ \<Rightarrow> Some x)"

definition rxq_pop :: "muxer_rxq \<Rightarrow> muxer_rx option \<times> muxer_rxq" where
  "rxq_pop r = (case rxq_q r of [] \<Rightarrow> (None, r) | x # q \<Rightarrow> (Some x, r\<lparr>rxq_q := q\<rparr>))"

subsection \<open>Kill queue\<close>

record killq_item =
  ki_key :: conn_map_key
  ki_kill_time :: nat

record muxer_killq =
  kq_q :: "killq_item list"
  kq_synced :: bool

definition killq_new :: muxer_killq where
  "killq_new = \<lparr>kq_q = [], kq_synced = True\<rparr>"

text \<open>A connection that will expire has an expiry time, so the unwrap in the loop cannot fail.\<close>

fun killq_walk :: "nat \<Rightarrow> conn_map \<Rightarrow> killq_item list \<Rightarrow> killq_item list \<times> bool" where
  "killq_walk now [] q = (q, True)"
| "killq_walk now ((key, conn) # cs) q =
     (if \<not> will_expire now conn then killq_walk now cs q
      else if length q \<ge> MUXER_KILLQ_SIZE then (q, False)
      else (case vc_expiry conn of
              Some t \<Rightarrow> killq_walk now cs (q @ [\<lparr>ki_key = key, ki_kill_time = t\<rparr>])
            | None \<Rightarrow> (q, False)))"

definition killq_from_conn_map :: "nat \<Rightarrow> conn_map \<Rightarrow> muxer_killq" where
  "killq_from_conn_map now cs =
     (let (q, synced) = killq_walk now cs [] in \<lparr>kq_q = sort_key ki_kill_time q, kq_synced = synced\<rparr>)"

definition killq_is_empty :: "muxer_killq \<Rightarrow> bool" where "killq_is_empty k \<longleftrightarrow> length (kq_q k) = 0"
definition killq_is_full :: "muxer_killq \<Rightarrow> bool" where "killq_is_full k \<longleftrightarrow> length (kq_q k) = MUXER_KILLQ_SIZE"

definition killq_push :: "conn_map_key \<Rightarrow> nat \<Rightarrow> muxer_killq \<Rightarrow> muxer_killq" where
  "killq_push key kill_time k =
     (if \<not> kq_synced k \<or> killq_is_full k then k\<lparr>kq_synced := False\<rparr>
      else k\<lparr>kq_q := kq_q k @ [\<lparr>ki_key = key, ki_kill_time = kill_time\<rparr>]\<rparr>)"

definition killq_pop :: "nat \<Rightarrow> muxer_killq \<Rightarrow> (conn_map_key \<times> muxer_killq) option" where
  "killq_pop now k =
     (case kq_q k of
        [] \<Rightarrow> None
      | item # q \<Rightarrow> if now > ki_kill_time item then Some (ki_key item, k\<lparr>kq_q := q\<rparr>) else None)"

subsection \<open>Behaviour of the RX queue\<close>

lemma rxq_walk_spec:
  assumes "rxq_walk cs q = (q', synced)" "length q \<le> MUXER_RXQ_SIZE"
  shows "length q' \<le> MUXER_RXQ_SIZE \<and> set q \<subseteq> set q' \<and>
    (\<forall>x. x \<in> set q' \<longrightarrow> x \<in> set q \<or> (\<exists>k c. x = ConnRx k \<and> (k, c) \<in> set cs \<and> has_pending_rx c)) \<and>
    (synced \<longrightarrow> (\<forall>k c. (k, c) \<in> set cs \<longrightarrow> has_pending_rx c \<longrightarrow> ConnRx k \<in> set q')) \<and>
    (\<not> synced \<longrightarrow> length q' = MUXER_RXQ_SIZE)"
  using assms
proof (induction cs q rule: rxq_walk.induct)
  case (2 key conn cs q)
  show ?case
  proof (cases "has_pending_rx conn \<and> length q < MUXER_RXQ_SIZE")
    case True
    then have "rxq_walk cs (q @ [ConnRx key]) = (q', synced)" using 2(3) by simp
    note IH = 2(2) [OF _ _ this]
    show ?thesis using True IH by (auto; blast)
  next
    case False
    then show ?thesis using 2(1) 2(3,4) by (cases "has_pending_rx conn") auto
  qed
qed auto

text \<open>The number of reset packets waiting in a queue.\<close>

definition rsts :: "muxer_rx list \<Rightarrow> muxer_rx list" where
  "rsts q = filter (\<lambda>x. case x of RstPkt _ _ \<Rightarrow> True | ConnRx _ \<Rightarrow> False) q"

lemma rsts_all: "rsts q = q \<longleftrightarrow> (\<forall>k. ConnRx k \<notin> set q)"
  unfolding rsts_def filter_id_conv by (auto split: muxer_rx.splits)

lemma replace_first_conn_None: "replace_first_conn rx q = None \<longleftrightarrow> rsts q = q"
  unfolding rsts_all by (induction rx q rule: replace_first_conn.induct) auto

lemma replace_first_conn_Some:
  assumes "replace_first_conn rx q = Some q'"
  shows "\<exists>a k b. q = a @ ConnRx k # b \<and> q' = a @ rx # b \<and> rsts a = a"
  using assms
proof (induction rx q arbitrary: q' rule: replace_first_conn.induct)
  case (2 rx k q)
  then show ?case by (intro exI [of _ "[]"]) (auto simp: rsts_def)
next
  case (3 rx l p q)
  then obtain q1 where q1: "replace_first_conn rx q = Some q1" "q' = RstPkt l p # q1" by auto
  then obtain a k b where "q = a @ ConnRx k # b" "q1 = a @ rx # b" "rsts a = a" using 3(1) by blast
  then show ?case using q1 by (intro exI [of _ "RstPkt l p # a"]) (auto simp: rsts_def)
qed simp

text \<open>C30. Pushing onto the RX queue.  A synchronised queue with room takes every entry at its end.  Otherwise a
  connection entry is refused and the queue is marked as out of sync, and a reset takes the place of the
  newest connection entry, which also marks the queue; it is refused, and the queue left as it is, when no
  connection is queued: when the queue is full of resets, but also on a queue that is out of sync, holds
  nothing but resets and has room, even an empty one.  So no queued reset is ever lost, the bound is kept, and
  every lost connection entry leaves the queue marked.\<close>

theorem rxq_push_exact:
  assumes "rxq_len r \<le> MUXER_RXQ_SIZE" and push: "rxq_push rx r = (ok, r')"
  shows "rxq_len r' \<le> MUXER_RXQ_SIZE \<and>
    (rxq_synced r \<and> \<not> rxq_is_full r \<longrightarrow> ok \<and> r' = r\<lparr>rxq_q := rxq_q r @ [rx]\<rparr>) \<and>
    (\<not> (rxq_synced r \<and> \<not> rxq_is_full r) \<longrightarrow>
      (rx = ConnRx key \<longrightarrow> \<not> ok \<and> rxq_q r' = rxq_q r \<and> \<not> rxq_synced r') \<and>
      (rx = RstPkt lp pp \<longrightarrow>
        (if \<exists>k. ConnRx k \<in> set (rxq_q r)
         then ok \<and> \<not> rxq_synced r' \<and> (\<exists>a k b. rxq_q r = a @ ConnRx k # b \<and> (\<forall>k'. ConnRx k' \<notin> set b) \<and> rxq_q r' = a @ rx # b)
         else \<not> ok \<and> r' = r)))"
proof (cases "rxq_synced r \<and> \<not> rxq_is_full r")
  case True
  then show ?thesis using assms by (auto simp: rxq_push_def rxq_len_def rxq_is_full_def)
next
  case False
  show ?thesis
  proof (cases rx)
    case (ConnRx k)
    then show ?thesis using False assms by (auto simp: rxq_push_def rxq_len_def)
  next
    case (RstPkt l p)
    show ?thesis
    proof (cases "replace_first_conn rx (rev (rxq_q r))")
      case None
      then have "\<forall>k. ConnRx k \<notin> set (rxq_q r)"
        using replace_first_conn_None [of rx "rev (rxq_q r)"] by (simp add: rsts_all)
      then show ?thesis using None False RstPkt assms by (auto simp: rxq_push_def)
    next
      case (Some q)
      then obtain a k b where ab: "rev (rxq_q r) = a @ ConnRx k # b" "q = a @ rx # b" "\<forall>k'. ConnRx k' \<notin> set a"
        using replace_first_conn_Some [of rx "rev (rxq_q r)" q] by (auto simp: rsts_all)
      then have q: "rxq_q r = rev b @ ConnRx k # rev a" by (metis rev_append rev_rev_ident rev.simps(2) append_assoc append_Cons append_Nil)
      have ok: "ok" "r' = r\<lparr>rxq_q := rev b @ rx # rev a, rxq_synced := False\<rparr>"
        using Some False RstPkt push ab(2) by (auto simp: rxq_push_def)
      have "\<exists>k. ConnRx k \<in> set (rxq_q r)" using q by auto
      moreover have "\<exists>a k b. rxq_q r = a @ ConnRx k # b \<and> (\<forall>k'. ConnRx k' \<notin> set b) \<and> rxq_q r' = a @ rx # b"
        by (rule exI [of _ "rev b"], rule exI [of _ k], rule exI [of _ "rev a"]) (use q ab(3) ok(2) in simp)
      moreover have "rxq_len r' \<le> MUXER_RXQ_SIZE" "\<not> rxq_synced r'" using assms(1) ok(2) q by (simp_all add: rxq_len_def)
      ultimately show ?thesis using False RstPkt ok(1) by auto
    qed
  qed
qed

lemma rxq_push_mem:
  assumes "rxq_synced (snd (rxq_push rx r))"
  shows "rxq_synced r \<and> set (rxq_q r) \<subseteq> set (rxq_q (snd (rxq_push rx r))) \<and>
    (\<forall>k. rx = ConnRx k \<longrightarrow> rx \<in> set (rxq_q (snd (rxq_push rx r))))"
  using assms by (auto simp: rxq_push_def split: if_splits muxer_rx.splits option.splits)

theorem rxq_push_exact_witness:
  "let r = \<lparr>rxq_q = [ConnRx \<lparr>ck_local_port = 1, ck_peer_port = 2\<rparr>], rxq_synced = False\<rparr>
   in rxq_push (RstPkt 3 4) r = (True, \<lparr>rxq_q = [RstPkt 3 4], rxq_synced = False\<rparr>) \<and>
     \<not> fst (rxq_push (RstPkt 3 4) \<lparr>rxq_q = [], rxq_synced = False\<rparr>)"
proof -
  let ?r = "\<lparr>rxq_q = [ConnRx \<lparr>ck_local_port = 1, ck_peer_port = 2\<rparr>], rxq_synced = False\<rparr>"
  let ?e = "\<lparr>rxq_q = [], rxq_synced = False\<rparr> :: muxer_rxq"
  obtain ok r' where p: "rxq_push (RstPkt 3 4) ?r = (ok, r')" by fastforce
  have "ok \<and> rxq_q r' = [RstPkt 3 4] \<and> \<not> rxq_synced r'"
    using rxq_push_exact [OF _ p, of _ 3 4] by (auto simp: rxq_len_def MUXER_RXQ_SIZE_def Cons_eq_append_conv)
  moreover obtain ok' r'' where e: "rxq_push (RstPkt 3 4) ?e = (ok', r'')" by fastforce
  have "\<not> ok'" using rxq_push_exact [OF _ e, of _ 3 4] by (auto simp: rxq_len_def)
  ultimately show ?thesis using p e by (simp add: Let_def)
qed

subsection \<open>Behaviour of the kill queue\<close>

lemma killq_walk_spec:
  assumes "killq_walk now cs q = (q', synced)" "length q \<le> MUXER_KILLQ_SIZE"
  shows "length q' \<le> MUXER_KILLQ_SIZE \<and> set q \<subseteq> set q' \<and>
    (\<forall>x. x \<in> set q' \<longrightarrow> x \<in> set q \<or>
       (\<exists>c. (ki_key x, c) \<in> set cs \<and> vc_expiry c = Some (ki_kill_time x) \<and> now < ki_kill_time x)) \<and>
    (synced \<longrightarrow> (\<forall>k c. (k, c) \<in> set cs \<longrightarrow> will_expire now c \<longrightarrow> k \<in> ki_key ` set q')) \<and>
    (\<not> synced \<longrightarrow> length q' = MUXER_KILLQ_SIZE)"
  using assms
proof (induction now cs q rule: killq_walk.induct)
  case (2 now key conn cs q)
  show ?case
  proof (cases "will_expire now conn \<and> length q < MUXER_KILLQ_SIZE")
    case True
    then obtain t where t: "vc_expiry conn = Some t" "now < t"
      by (auto simp: will_expire_def split: option.splits)
    let ?x = "\<lparr>ki_key = key, ki_kill_time = t\<rparr>"
    have w: "killq_walk now cs (q @ [?x]) = (q', synced)" using 2(3) True t by simp
    have IH: "length q' \<le> MUXER_KILLQ_SIZE" "set (q @ [?x]) \<subseteq> set q'"
      "\<And>x. x \<in> set q' \<Longrightarrow> x \<in> set (q @ [?x]) \<or>
         (\<exists>c. (ki_key x, c) \<in> set cs \<and> vc_expiry c = Some (ki_kill_time x) \<and> now < ki_kill_time x)"
      "\<And>k c. synced \<Longrightarrow> (k, c) \<in> set cs \<Longrightarrow> will_expire now c \<Longrightarrow> k \<in> ki_key ` set q'"
      "\<not> synced \<longrightarrow> length q' = MUXER_KILLQ_SIZE"
      using 2(2) [OF _ _ t(1) w] True by simp_all
    have key: "key \<in> ki_key ` set q'" using IH(2) by force
    have items: "x \<in> set q \<or> (\<exists>c. (ki_key x, c) \<in> set ((key, conn) # cs) \<and> vc_expiry c = Some (ki_kill_time x) \<and>
        now < ki_kill_time x)" if x: "x \<in> set q'" for x
    proof (cases "x = ?x")
      case True
      then show ?thesis using t by auto
    next
      case False
      then show ?thesis using IH(3) [OF x] by auto
    qed
    have "k \<in> ki_key ` set q'" if "synced" "(k, c) \<in> set ((key, conn) # cs)" "will_expire now c" for k c
      using that key IH(4) by auto
    then show ?thesis using IH(1,2,5) items by simp
  next
    case False
    then show ?thesis using 2(1) 2(3,4) by (cases "will_expire now conn") auto
  qed
qed auto

text \<open>C31. Rebuilding the kill queue: the new queue is bounded, sorted by kill time and holds nothing
  that can be popped yet; if it is marked as synchronised its keys are exactly the connections
  whose timer lies in the future.  In particular a connection whose timer has already expired when
  the queue is rebuilt is not in the queue, although it still awaits termination.\<close>

theorem killq_rebuild:
  assumes d: "distinct (map fst cs)" and k: "killq_from_conn_map now cs = k"
  shows "length (kq_q k) \<le> MUXER_KILLQ_SIZE \<and> sorted (map ki_kill_time (kq_q k)) \<and> killq_pop now k = None \<and>
    (kq_synced k \<longrightarrow> (\<forall>key. key \<in> ki_key ` set (kq_q k) \<longleftrightarrow> (\<exists>c. map_of cs key = Some c \<and> will_expire now c))) \<and>
    (\<forall>key c. map_of cs key = Some c \<and> has_expired now c \<longrightarrow> key \<notin> ki_key ` set (kq_q k))"
proof -
  obtain q synced where w: "killq_walk now cs [] = (q, synced)" by fastforce
  note spec = killq_walk_spec [OF w]
  have kq: "set (kq_q k) = set q" "kq_q k = sort_key ki_kill_time q" "kq_synced k = synced"
    using k w by (auto simp: killq_from_conn_map_def)
  have item: "\<exists>c. map_of cs (ki_key x) = Some c \<and> vc_expiry c = Some (ki_kill_time x) \<and> now < ki_kill_time x"
    if x: "x \<in> set (kq_q k)" for x
    using spec x kq(1) d by (auto dest: map_of_is_SomeI)
  have pop: "killq_pop now k = None"
  proof (cases "kq_q k")
    case (Cons x xs)
    then have "now < ki_kill_time x" using item [of x] by auto
    then show ?thesis using Cons by (simp add: killq_pop_def)
  qed (simp add: killq_pop_def)
  have fut: "\<exists>c. map_of cs key = Some c \<and> will_expire now c" if key: "key \<in> ki_key ` set (kq_q k)" for key
  proof -
    obtain x where x: "x \<in> set (kq_q k)" "key = ki_key x" using key by blast
    then show ?thesis using item [OF x(1)] by (auto simp: will_expire_def)
  qed
  have "key \<in> ki_key ` set (kq_q k)" if "kq_synced k" "map_of cs key = Some c" "will_expire now c" for key c
    using spec that kq(1,3) by (auto dest: map_of_SomeD)
  then have sync: "kq_synced k \<longrightarrow> (\<forall>key. key \<in> ki_key ` set (kq_q k) \<longleftrightarrow> (\<exists>c. map_of cs key = Some c \<and> will_expire now c))"
    using fut by blast
  have "key \<notin> ki_key ` set (kq_q k)" if "map_of cs key = Some c" "has_expired now c" for key c
    using fut [of key] that by (auto simp: will_expire_def has_expired_def split: option.splits)
  then show ?thesis using spec pop sync kq by (simp add: killq_from_conn_map_def)
qed

theorem killq_rebuild_witness:
  "let key = \<lparr>ck_local_port = 1, ck_peer_port = 2\<rparr>;
       conn = (new_local_init demo_stream 2 3 1 2)\<lparr>vc_expiry := Some 5\<rparr>;
       k = killq_from_conn_map 9 [(key, conn)]
   in has_expired 9 conn \<and> kq_synced k \<and> key \<notin> ki_key ` set (kq_q k)"
proof -
  let ?key = "\<lparr>ck_local_port = 1, ck_peer_port = 2\<rparr>"
  let ?conn = "(new_local_init demo_stream 2 3 1 2)\<lparr>vc_expiry := Some 5\<rparr>"
  have "kq_synced (killq_from_conn_map 9 [(?key, ?conn)])"
    by (simp add: killq_from_conn_map_def will_expire_def)
  moreover have "has_expired 9 ?conn" by (simp add: has_expired_def)
  ultimately show ?thesis
    using killq_rebuild [of "[(?key, ?conn)]" 9, OF _ refl] by (auto simp: Let_def)
qed

end
