(* ===== verification/Vsock_Muxer.thy ===== *)
theory Vsock_Muxer
  imports Vsock_Queues "HOL-Library.AList"
begin

text \<open>
  The vsock connection multiplexer, \<^verbatim>\<open>virtio-devices/src/vsock/unix/muxer.rs\<close>.  The state is the
  connection pool, the epoll listeners, the two queues and the set of used host ports.  The operating
  system appears as arguments: \<open>now\<close> (the clock, read once per operation), the stream of an accepted
  or connected Unix socket, the port that the "connect" command of a host client names, and
  \<open>mx_epoll\<close>, the outcomes of the \<open>epoll_ctl\<close> calls to come (a call beyond the script succeeds).
  A panic is the result \<open>None\<close>.
\<close>

datatype epoll_listener = LConnection conn_map_key events | LHostSock | LLocalStream stream

record muxer =
  mx_cid :: u64
  mx_conn_map :: conn_map
  mx_listener_map :: "(nat \<times> epoll_listener) list"
  mx_rxq :: muxer_rxq
  mx_killq :: muxer_killq
  mx_local_port_set :: "u32 list"
  mx_local_port_last :: u32
  mx_epoll :: "bool list"

datatype mux_error = EpollAdd | TooManyConnections

subsection \<open>Listeners\<close>

definition epoll_ctl :: "muxer \<Rightarrow> bool \<times> muxer" where
  "epoll_ctl m = (case mx_epoll m of [] \<Rightarrow> (True, m) | ok # r \<Rightarrow> (ok, m\<lparr>mx_epoll := r\<rparr>))"

definition add_listener :: "nat \<Rightarrow> epoll_listener \<Rightarrow> muxer \<Rightarrow> (mux_error + unit) \<times> muxer" where
  "add_listener fd listener m =
     (let (ok, m) = epoll_ctl m
      in if ok then (Inr (), m\<lparr>mx_listener_map := AList.update fd listener (mx_listener_map m)\<rparr>)
         else (Inl EpollAdd, m))"

definition remove_listener :: "nat \<Rightarrow> muxer \<Rightarrow> epoll_listener option \<times> muxer" where
  "remove_listener fd m =
     (case map_of (mx_listener_map m) fd of
        None \<Rightarrow> (None, m)
      | Some l \<Rightarrow>
          (Some l, snd (epoll_ctl (m\<lparr>mx_listener_map := AList.delete fd (mx_listener_map m)\<rparr>))))"

subsection \<open>Local ports\<close>

definition next_port :: "u32 \<Rightarrow> u32" where
  "next_port p = (p + 1) AND NOT (push_bit 31 1) OR push_bit 30 1"

fun allocate_port_loop :: "nat \<Rightarrow> u32 list \<Rightarrow> u32 \<Rightarrow> u32 option" where
  "allocate_port_loop 0 used p = None"
| "allocate_port_loop (Suc n) used p =
     (if next_port p \<notin> set used then Some (next_port p) else allocate_port_loop n used (next_port p))"

text \<open>One more round than there are used ports is enough to find a free one
  (\<open>allocate_local_port_fresh\<close>); \<open>None\<close> stands for a search that does not end.\<close>

definition allocate_local_port :: "muxer \<Rightarrow> (u32 \<times> muxer) option" where
  "allocate_local_port m =
     map_option (\<lambda>p. (p, m\<lparr>mx_local_port_last := p, mx_local_port_set := p # mx_local_port_set m\<rparr>))
       (allocate_port_loop (Suc (length (mx_local_port_set m))) (mx_local_port_set m) (mx_local_port_last m))"

definition free_local_port :: "u32 \<Rightarrow> muxer \<Rightarrow> muxer" where
  "free_local_port port m = m\<lparr>mx_local_port_set := filter (\<lambda>p. p \<noteq> port) (mx_local_port_set m)\<rparr>"

subsection \<open>Connections\<close>

definition push_rx :: "muxer_rx \<Rightarrow> muxer \<Rightarrow> muxer" where
  "push_rx rx m = m\<lparr>mx_rxq := snd (rxq_push rx (mx_rxq m))\<rparr>"

definition kill_connection :: "conn_map_key \<Rightarrow> muxer \<Rightarrow> muxer" where
  "kill_connection key m =
     (case map_of (mx_conn_map m) key of
        Some conn \<Rightarrow>
          let m' = m\<lparr>mx_conn_map := AList.update key (kill conn) (mx_conn_map m)\<rparr>
          in if \<not> has_pending_rx conn then push_rx (ConnRx key) m' else m'
      | None \<Rightarrow> push_rx (ConnRx key) m)"

definition enq_rst :: "u32 \<Rightarrow> u32 \<Rightarrow> muxer \<Rightarrow> muxer" where
  "enq_rst local_port peer_port m = push_rx (RstPkt local_port peer_port) m"

definition remove_connection :: "conn_map_key \<Rightarrow> muxer \<Rightarrow> muxer" where
  "remove_connection key m =
     free_local_port (ck_local_port key)
       (case map_of (mx_conn_map m) key of
          Some conn \<Rightarrow>
            snd (remove_listener (get_polled_fd conn) (m\<lparr>mx_conn_map := AList.delete key (mx_conn_map m)\<rparr>))
        | None \<Rightarrow> m)"

function sweep_loop :: "nat \<Rightarrow> muxer \<Rightarrow> muxer" where
  "sweep_loop now m =
     (case killq_pop now (mx_killq m) of
        None \<Rightarrow> m
      | Some (key, kq) \<Rightarrow>
          let m = m\<lparr>mx_killq := kq\<rparr>
          in sweep_loop now
               (case map_of (mx_conn_map m) key of
                  Some conn \<Rightarrow> if has_expired now conn then kill_connection key m else m
                | None \<Rightarrow> m))"
  by pat_completeness auto

lemma kill_connection_killq [simp]: "mx_killq (kill_connection key m) = mx_killq m"
  by (simp add: kill_connection_def push_rx_def Let_def split: option.splits)

lemma killq_pop_length: "killq_pop now k = Some (key, k') \<Longrightarrow> length (kq_q k) = Suc (length (kq_q k'))"
  by (auto simp: killq_pop_def split: list.splits if_splits)

termination sweep_loop
  by (relation "measure (\<lambda>(now, m). length (kq_q (mx_killq m)))")
    (auto simp: killq_pop_length split: option.splits)

declare sweep_loop.simps [simp del]

text \<open>The recursive sweep after a rebuild is the same loop again: the rebuilt queue is either
  synchronised or not empty, so there is no third round (\<open>sweep_rebuilt\<close>).\<close>

function sweep_killq :: "nat \<Rightarrow> muxer \<Rightarrow> muxer" where
  "sweep_killq now m =
     (let m = sweep_loop now m
      in if killq_is_empty (mx_killq m) \<and> \<not> kq_synced (mx_killq m)
         then sweep_killq now (m\<lparr>mx_killq := killq_from_conn_map now (mx_conn_map m)\<rparr>)
         else m)"
  by pat_completeness auto

lemma rebuilt_not_expired:
  "killq_pop now (killq_from_conn_map now cs) = None"
  "killq_is_empty (killq_from_conn_map now cs) \<Longrightarrow> kq_synced (killq_from_conn_map now cs)"
proof -
  obtain q synced where w: "killq_walk now cs [] = (q, synced)" by fastforce
  note spec = killq_walk_spec [OF w]
  have fut: "now < ki_kill_time x" if "x \<in> set (sort_key ki_kill_time q)" for x
    using spec that by auto
  show "killq_pop now (killq_from_conn_map now cs) = None"
  proof (cases "sort_key ki_kill_time q")
    case (Cons x xs)
    then have "now < ki_kill_time x" using fut [of x] by simp
    then show ?thesis using Cons w by (simp add: killq_pop_def killq_from_conn_map_def)
  qed (use w in \<open>simp add: killq_pop_def killq_from_conn_map_def\<close>)
  show "killq_is_empty (killq_from_conn_map now cs) \<Longrightarrow> kq_synced (killq_from_conn_map now cs)"
    using spec w by (cases synced) (auto simp: killq_from_conn_map_def killq_is_empty_def MUXER_KILLQ_SIZE_def)
qed

lemma sweep_rebuilt:
  "sweep_loop now (m\<lparr>mx_killq := killq_from_conn_map now cs\<rparr>) = m\<lparr>mx_killq := killq_from_conn_map now cs\<rparr>"
  by (simp add: sweep_loop.simps rebuilt_not_expired)

termination sweep_killq
proof (relation "measure (\<lambda>(now, m). if killq_is_empty (mx_killq (sweep_loop now m)) \<and>
    \<not> kq_synced (mx_killq (sweep_loop now m)) then 1 else 0)", goal_cases)
  case (2 now m x)
  then show ?case
    using rebuilt_not_expired(2) [of now "mx_conn_map (sweep_loop now m)"] by (auto simp: sweep_rebuilt)
qed simp

declare sweep_killq.simps [simp del]

definition add_connection ::
  "nat \<Rightarrow> conn_map_key \<Rightarrow> connection \<Rightarrow> muxer \<Rightarrow> (mux_error + unit) \<times> muxer" where
  "add_connection now key conn m =
     (let m = sweep_killq now m
      in if length (mx_conn_map m) \<ge> MAX_CONNECTIONS then (Inl TooManyConnections, m)
         else (case add_listener (get_polled_fd conn) (LConnection key (get_polled_evset conn)) m of
            (Inl e, m) \<Rightarrow> (Inl e, m)
          | (Inr _, m) \<Rightarrow>
              let m = (if has_pending_rx conn then push_rx (ConnRx key) m else m)
              in (Inr (), m\<lparr>mx_conn_map := AList.update key conn (mx_conn_map m)\<rparr>)))"

subsection \<open>Mutating a connection\<close>

definition evset_is_empty :: "events \<Rightarrow> bool" where
  "evset_is_empty ev \<longleftrightarrow> \<not> ev_in ev \<and> \<not> ev_out ev"

definition update_listener :: "conn_map_key \<Rightarrow> connection \<Rightarrow> muxer \<Rightarrow> muxer" where
  "update_listener key conn m =
     (let fd = get_polled_fd conn; new_evset = get_polled_evset conn
      in if evset_is_empty new_evset then snd (remove_listener fd m)
         else (case map_of (mx_listener_map m) fd of
            Some (LConnection k evset) \<Rightarrow>
              if evset \<noteq> new_evset then
                (let m = m\<lparr>mx_listener_map := AList.update fd (LConnection k new_evset) (mx_listener_map m)\<rparr>;
                     (ok, m) = epoll_ctl m
                 in if ok then m else kill_connection key m)
              else m
          | _ \<Rightarrow>
              (case add_listener fd (LConnection key new_evset) m of
                 (Inr _, m) \<Rightarrow> m
               | (Inl _, m) \<Rightarrow> kill_connection key m)))"

definition push_kill :: "conn_map_key \<Rightarrow> connection \<Rightarrow> muxer \<Rightarrow> muxer" where
  "push_kill key conn m =
     (case vc_expiry conn of
        Some t \<Rightarrow> m\<lparr>mx_killq := killq_push key t (mx_killq m)\<rparr>
      | None \<Rightarrow> m)"

definition apply_conn_mutation ::
  "nat \<Rightarrow> conn_map_key \<Rightarrow> (connection \<Rightarrow> ('r \<times> connection) option) \<Rightarrow> muxer \<Rightarrow> ('r option \<times> muxer) option" where
  "apply_conn_mutation now key mut_fn m =
     (case map_of (mx_conn_map m) key of
        None \<Rightarrow> Some (None, m)
      | Some conn \<Rightarrow>
          (case mut_fn conn of
             None \<Rightarrow> None
           | Some (r, conn1) \<Rightarrow>
               let conn2 = ack_local_init (ck_local_port key) (vc_state conn) conn1;
                   m = m\<lparr>mx_conn_map := AList.update key conn2 (mx_conn_map m)\<rparr>;
                   m = (if \<not> has_pending_rx conn \<and> has_pending_rx conn2 then push_rx (ConnRx key) m else m);
                   m = (if \<not> will_expire now conn \<and> will_expire now conn2 then push_kill key conn2 m else m)
               in Some (Some r, update_listener key conn2 m)))"

subsection \<open>Packets from and to the guest\<close>

definition handle_peer_request_pkt :: "nat \<Rightarrow> stream option \<Rightarrow> packet \<Rightarrow> muxer \<Rightarrow> muxer" where
  "handle_peer_request_pkt now connected pkt m =
     (let h = pk_hdr pkt
      in case connected of
           None \<Rightarrow> enq_rst (ph_dst_port h) (ph_src_port h) m
         | Some strm \<Rightarrow>
             (case add_connection now \<lparr>ck_local_port = ph_dst_port h, ck_peer_port = ph_src_port h\<rparr>
                     (new_peer_init strm VSOCK_HOST_CID (mx_cid m) (ph_dst_port h) (ph_src_port h) (ph_buf_alloc h)) m of
                (Inr _, m) \<Rightarrow> m
              | (Inl _, m) \<Rightarrow> enq_rst (ph_dst_port h) (ph_src_port h) m))"

definition muxer_send_pkt :: "nat \<Rightarrow> stream option \<Rightarrow> packet \<Rightarrow> muxer \<Rightarrow> muxer option" where
  "muxer_send_pkt now connected pkt m =
     (let h = pk_hdr pkt;
          conn_key = \<lparr>ck_local_port = ph_dst_port h, ck_peer_port = ph_src_port h\<rparr>
      in if ph_type h \<noteq> VSOCK_TYPE_STREAM then Some (enq_rst (ph_dst_port h) (ph_src_port h) m)
         else if ph_dst_cid h \<noteq> VSOCK_HOST_CID then Some m
         else if map_of (mx_conn_map m) conn_key = None then
           (if ph_op h = VSOCK_OP_REQUEST then Some (handle_peer_request_pkt now connected pkt m)
            else Some (enq_rst (ph_dst_port h) (ph_src_port h) m))
         else if ph_op h = VSOCK_OP_RST then Some (remove_connection conn_key m)
         else map_option snd
           (apply_conn_mutation now conn_key (\<lambda>conn. map_option (Pair ()) (conn_send_pkt now conn pkt)) m))"

definition muxer_has_pending_rx :: "muxer \<Rightarrow> bool" where
  "muxer_has_pending_rx m \<longleftrightarrow> \<not> rxq_is_empty (mx_rxq m) \<or> \<not> rxq_synced (mx_rxq m)"

definition pop_rx :: "muxer \<Rightarrow> muxer" where
  "pop_rx m = m\<lparr>mx_rxq := snd (rxq_pop (mx_rxq m))\<rparr>"

definition rst_packet :: "u64 \<Rightarrow> u32 \<Rightarrow> u32 \<Rightarrow> packet \<Rightarrow> packet" where
  "rst_packet cid local_port peer_port pkt = pkt\<lparr>pk_hdr :=
     \<lparr>ph_src_cid = VSOCK_HOST_CID, ph_dst_cid = cid, ph_src_port = local_port, ph_dst_port = peer_port,
      ph_len = 0, ph_type = VSOCK_TYPE_STREAM, ph_op = VSOCK_OP_RST, ph_flags = 0, ph_buf_alloc = 0, ph_fwd_cnt = 0\<rparr>\<rparr>"

definition muxer_recv_conn ::
  "nat \<Rightarrow> conn_map_key \<Rightarrow> muxer \<Rightarrow> packet \<Rightarrow> ((vsock_error + unit) \<times> muxer \<times> packet) option" where
  "muxer_recv_conn now key m pkt =
     (case apply_conn_mutation now key
             (\<lambda>conn. let (res, conn', pkt') = conn_recv_pkt now conn pkt
                     in Some ((res, pkt', \<not> has_pending_rx conn'), conn')) m of
        None \<Rightarrow> None
      | Some (None, m) \<Rightarrow> Some (Inl NoData, pop_rx m, pkt)
      | Some (Some (res, pkt', do_pop), m) \<Rightarrow> Some (res, if do_pop then pop_rx m else m, pkt'))"

partial_function (option) muxer_recv_loop ::
  "nat \<Rightarrow> muxer \<Rightarrow> packet \<Rightarrow> ((vsock_error + unit) \<times> muxer \<times> packet) option" where
  "muxer_recv_loop now m pkt =
     (case rxq_peek (mx_rxq m) of
        None \<Rightarrow> Some (Inl NoData, m, pkt)
      | Some (RstPkt local_port peer_port) \<Rightarrow>
          Some (Inr (), pop_rx m, rst_packet (mx_cid m) local_port peer_port pkt)
      | Some (ConnRx key) \<Rightarrow>
          (case muxer_recv_conn now key m pkt of
             None \<Rightarrow> None
           | Some (res, m, pkt) \<Rightarrow>
               if res = Inr () then
                 Some (Inr (), if ph_op (pk_hdr pkt) = VSOCK_OP_RST
                   then remove_connection \<lparr>ck_local_port = ph_src_port (pk_hdr pkt), ck_peer_port = ph_dst_port (pk_hdr pkt)\<rparr> m
                   else m, pkt)
               else muxer_recv_loop now m pkt))"

definition muxer_recv_pkt ::
  "nat \<Rightarrow> muxer \<Rightarrow> packet \<Rightarrow> ((vsock_error + unit) \<times> muxer \<times> packet) option" where
  "muxer_recv_pkt now m pkt =
     muxer_recv_loop now
       (if rxq_is_empty (mx_rxq m) \<and> \<not> rxq_synced (mx_rxq m)
        then m\<lparr>mx_rxq := rxq_from_conn_map (mx_conn_map m)\<rparr> else m) pkt"

subsection \<open>Epoll events\<close>

definition muxer_new :: "u64 \<Rightarrow> nat \<Rightarrow> bool list \<Rightarrow> (mux_error + muxer)" where
  "muxer_new cid host_fd epoll =
     (let m = \<lparr>mx_cid = cid, mx_conn_map = [], mx_listener_map = [], mx_rxq = rxq_new, mx_killq = killq_new,
               mx_local_port_set = [], mx_local_port_last = push_bit 30 1 - 1, mx_epoll = epoll\<rparr>
      in case add_listener host_fd LHostSock m of (Inr _, m) \<Rightarrow> Inr m | (Inl e, _) \<Rightarrow> Inl e)"

definition handle_event ::
  "nat \<Rightarrow> stream option \<Rightarrow> u32 option \<Rightarrow> nat \<Rightarrow> events \<Rightarrow> muxer \<Rightarrow> muxer option" where
  "handle_event now accepted port fd event_set m =
     (case map_of (mx_listener_map m) fd of
        Some (LConnection key _) \<Rightarrow>
          map_option snd
            (apply_conn_mutation now key (\<lambda>conn. map_option (Pair ()) (conn_notify event_set conn)) m)
      | Some LHostSock \<Rightarrow>
          if length (mx_conn_map m) = MAX_CONNECTIONS then Some m
          else (case accepted of
            None \<Rightarrow> Some m
          | Some strm \<Rightarrow> Some (snd (add_listener (st_fd strm) (LLocalStream strm) m)))
      | Some (LLocalStream strm) \<Rightarrow>
          (let m = snd (remove_listener fd m)
           in case port of
                None \<Rightarrow> Some m
              | Some peer_port \<Rightarrow>
                  (case allocate_local_port m of
                     None \<Rightarrow> None
                   | Some (local_port, m) \<Rightarrow>
                       Some (snd (add_connection now \<lparr>ck_local_port = local_port, ck_peer_port = peer_port\<rparr>
                         (new_local_init strm VSOCK_HOST_CID (mx_cid m) local_port peer_port) m))))
      | None \<Rightarrow> Some m)"

subsection \<open>Host ports\<close>

lemma next_port_eq: "unat (next_port p) = 2 ^ 30 + (unat p + 1) mod 2 ^ 30"
proof -
  let ?x = "take_bit 30 (p + 1)"
  have b: "bit (2147483648 :: int) n \<longleftrightarrow> n = 31" "bit (1073741824 :: int) n \<longleftrightarrow> n = 30" for n
    using bit_exp_iff [where ?'a = int, of 31 n] bit_exp_iff [where ?'a = int, of 30 n] by auto
  have "next_port p = 2 ^ 30 OR ?x"
    by (rule bit_word_eqI) (auto simp: next_port_def bit_simps b)
  moreover have "2 ^ 30 AND ?x = 0"
    by (rule bit_word_eqI) (auto simp: bit_simps b)
  ultimately have eq: "next_port p = 2 ^ 30 + ?x" by (simp add: disjunctive_add_eq_or)
  have x: "unat ?x = (unat p + 1) mod 2 ^ 30"
  proof -
    have "unat ?x = unat (p + 1) mod 2 ^ 30" by (simp add: take_bit_eq_mod unat_mod_distrib)
    also have "\<dots> = (unat p + 1) mod 2 ^ 32 mod 2 ^ 30" by (simp add: unat_word_ariths)
    also have "\<dots> = (unat p + 1) mod 2 ^ 30" by (rule mod_mod_cancel) (simp add: le_imp_power_dvd)
    finally show ?thesis .
  qed
  have "unat (2 ^ 30 :: u32) = 2 ^ 30" by simp
  moreover have "unat ?x < 2 ^ 30" by (simp add: x)
  ultimately have "unat (2 ^ 30 + ?x) = 2 ^ 30 + unat ?x" by (subst unat_add_small) simp_all
  then show ?thesis using eq x by simp
qed

lemma next_port_iter: "unat ((next_port ^^ Suc k) p) = 2 ^ 30 + (unat p + Suc k) mod 2 ^ 30"
proof -
  have shift: "(M + y mod M + 1) mod M = (y + 1) mod M" for M y :: nat
    by (metis add.assoc mod_add_left_eq mod_add_self1)
  show ?thesis
  proof (induction k)
    case 0
    then show ?case by (simp add: next_port_eq)
  next
    case (Suc k)
    have "unat ((next_port ^^ Suc (Suc k)) p) = 2 ^ 30 + (2 ^ 30 + (unat p + Suc k) mod 2 ^ 30 + 1) mod 2 ^ 30"
      using Suc by (simp add: next_port_eq)
    also have "(2 ^ 30 + (unat p + Suc k) mod 2 ^ 30 + 1) mod 2 ^ 30 = (unat p + Suc (Suc k)) mod (2 ^ 30 :: nat)"
      using shift [of "2 ^ 30" "unat p + Suc k"] by simp
    finally show ?case .
  qed
qed

lemma allocate_port_loop_Some:
  "allocate_port_loop n used p = Some q \<Longrightarrow> q \<notin> set used \<and> 2 ^ 30 \<le> unat q \<and> unat q < 2 ^ 31"
proof (induction n arbitrary: p)
  case (Suc n)
  have "(unat p + 1) mod 2 ^ 30 < (2 ^ 30 :: nat)" by simp
  then have "2 ^ 30 \<le> unat (next_port p) \<and> unat (next_port p) < 2 ^ 31" using next_port_eq [of p] by simp
  then show ?case using Suc by (auto split: if_splits)
qed simp

lemma allocate_port_loop_None:
  "allocate_port_loop n used p = None \<Longrightarrow> (\<lambda>k. (next_port ^^ Suc k) p) ` {..<n} \<subseteq> set used"
proof (induction n arbitrary: p)
  case (Suc n)
  then have hd: "next_port p \<in> set used" and tl: "(\<lambda>k. (next_port ^^ Suc k) (next_port p)) ` {..<n} \<subseteq> set used"
    by (auto split: if_splits)
  have "(next_port ^^ Suc k) p \<in> set used" if "k < Suc n" for k
  proof (cases k)
    case (Suc j)
    then have "(next_port ^^ Suc k) p = (next_port ^^ Suc j) (next_port p)" by (simp add: funpow_swap1)
    then show ?thesis using tl Suc that by auto
  qed (use hd in simp)
  then show ?case by auto
qed simp

lemma mod_inj_window: "(x + a) mod M = (x + b) mod M \<Longrightarrow> a < M \<Longrightarrow> b < M \<Longrightarrow> a = b" for x a b M :: nat
proof (induction a b rule: linorder_wlog)
  case (le a b)
  then have "M dvd (x + b) - (x + a)" using mod_eq_dvd_iff_nat [of "x + a" "x + b" M] by simp
  then have "M dvd b - a" by simp
  then show ?case using le by (auto dest: dvd_imp_le)
qed simp

lemma next_port_inj:
  assumes "n \<le> 2 ^ 30"
  shows "inj_on (\<lambda>k. (next_port ^^ Suc k) p) {..<n}"
proof (rule inj_onI)
  fix a b assume a: "a \<in> {..<n}" and b: "b \<in> {..<n}"
    and eq: "(next_port ^^ Suc a) p = (next_port ^^ Suc b) p"
  then have "(Suc (unat p) + a) mod 2 ^ 30 = (Suc (unat p) + b) mod (2 ^ 30 :: nat)"
    using next_port_iter [of a p] next_port_iter [of b p] by simp
  then show "a = b" using a b assms by (intro mod_inj_window [of "Suc (unat p)" a "2 ^ 30" b]) auto
qed

lemma allocate_local_port_returns:
  assumes "length (mx_local_port_set m) < 2 ^ 30"
  shows "\<exists>port m'. allocate_local_port m = Some (port, m')"
proof (rule ccontr)
  let ?n = "Suc (length (mx_local_port_set m))" and ?f = "\<lambda>k. (next_port ^^ Suc k) (mx_local_port_last m)"
  assume "\<not> ?thesis"
  then have "?f ` {..<?n} \<subseteq> set (mx_local_port_set m)"
    by (intro allocate_port_loop_None) (auto simp: allocate_local_port_def)
  then have "card (?f ` {..<?n}) \<le> card (set (mx_local_port_set m))" by (intro card_mono) auto
  moreover have "card (?f ` {..<?n}) = card {..<?n}"
    using assms by (intro card_image next_port_inj) simp
  ultimately show False using card_length [of "mx_local_port_set m"] by simp
qed

text \<open>C32. Host ports: as long as fewer than \<open>2 ^ 30\<close> ports are in use the search for a local port
  ends, and the port it returns was not in use, lies in the upper half of the 31-bit port range and
  is recorded as used; freeing it makes exactly that port available again.\<close>

theorem allocate_local_port_fresh:
  assumes "length (mx_local_port_set m) < 2 ^ 30"
  shows "\<exists>port m'. allocate_local_port m = Some (port, m') \<and> port \<notin> set (mx_local_port_set m) \<and>
    2 ^ 30 \<le> unat port \<and> unat port < 2 ^ 31 \<and>
    set (mx_local_port_set m') = insert port (set (mx_local_port_set m)) \<and> mx_local_port_last m' = port \<and>
    set (mx_local_port_set (free_local_port port m')) = set (mx_local_port_set m)"
proof -
  obtain port m' where a: "allocate_local_port m = Some (port, m')"
    using allocate_local_port_returns [OF assms] by blast
  then have "allocate_port_loop (Suc (length (mx_local_port_set m))) (mx_local_port_set m) (mx_local_port_last m) = Some port"
    unfolding allocate_local_port_def by (simp only: map_option_eq_Some) auto
  then have "port \<notin> set (mx_local_port_set m) \<and> 2 ^ 30 \<le> unat port \<and> unat port < 2 ^ 31"
    by (rule allocate_port_loop_Some)
  then show ?thesis using a by (auto simp: allocate_local_port_def free_local_port_def)
qed

subsection \<open>The invariant\<close>

text \<open>A fetch that fails leaves nothing pending, or has given up a data indication for lack of a
  packet buffer.\<close>

lemma conn_recv_pkt_Inl:
  assumes inv: "conn_inv c" and r: "conn_recv_pkt now c pkt = (Inl e, c', pkt')"
  shows "conn_inv c' \<and> (has_pending_rx c' \<longrightarrow> pending c Rw \<and> \<not> pending c' Rw) \<and> vc_state c' = vc_state c"
proof -
  let ?c = "without [Rst, Response, Request, Rw] c" and ?p = "init_pkt c pkt"
  have ci: "conn_inv c'" using conn_recv_pkt_ok [OF inv r] by simp
  have nr: "\<not> pending c Rst" "\<not> pending c Response" "\<not> pending c Request"
    using r by (auto simp: conn_recv_pkt_eq split: if_splits)
  have inv4: "conn_inv ?c" using inv nr by (auto simp: conn_inv_def)
  have only: "\<forall>it. it \<noteq> CreditUpdate \<longrightarrow> \<not> pending ?c it"
  proof (intro allI impI)
    fix it assume "it \<noteq> CreditUpdate"
    then show "\<not> pending ?c it" using nr by (cases it) auto
  qed
  have credit: "\<not> has_pending_rx c' \<and> vc_state c' = vc_state d"
    if "conn_inv d" "\<forall>it. it \<noteq> CreditUpdate \<longrightarrow> \<not> pending d it" "recv_credit_update d q = (Inl e, c', pkt')" for d q
    using recv_credit_update_ok [OF that] prx_is_empty_iff [of "vc_pending_rx c'"]
    by (simp add: has_pending_rx_def conn_inv_def)
  show ?thesis
  proof (cases "pending c Rw")
    case False
    then have "recv_credit_update ?c ?p = (Inl e, c', pkt')" using r nr by (simp add: conn_recv_pkt_eq)
    then show ?thesis using credit [OF inv4 only] ci by simp
  next
    case True
    then have rw: "recv_rw now ?c ?p = (Inl e, c', pkt')" using r nr by (simp add: conn_recv_pkt_eq)
    have st: "rw_state_ok (vc_state ?c)" "\<not> need_credit_update_from_peer ?c"
      using rw by (auto simp: recv_rw_def split: if_splits)
    show ?thesis
    proof (cases "pk_buf ?p")
      case None
      then have "c' = ?c" using rw st by (simp add: recv_rw_def)
      then show ?thesis using ci True by simp
    next
      case (Some buf)
      obtain res s where rd: "stream_read (min (length buf) (peer_avail_credit ?c)) (vc_stream ?c) = (res, s)"
        by fastforce
      have "res = Inl WouldBlock"
        using rw st Some rd by (cases res rule: sum.exhaust; cases "\<exists>x. res = Inl x")
          (auto simp: recv_rw_def Let_def split: io_error.splits if_splits)
      then have "recv_credit_update (?c\<lparr>vc_stream := s\<rparr>) ?p = (Inl e, c', pkt')"
        using rw st Some rd by (simp add: recv_rw_def)
      moreover have "conn_inv (?c\<lparr>vc_stream := s\<rparr>)" using inv4 by (simp add: conn_inv_def)
      ultimately show ?thesis using credit [of "?c\<lparr>vc_stream := s\<rparr>"] only ci by simp
    qed
  qed
qed

text \<open>\<open>synced_with\<close> is what the synchronisation flag of the RX queue promises.\<close>

definition synced_with :: "muxer_rxq \<Rightarrow> conn_map \<Rightarrow> bool" where
  "synced_with r cs \<longleftrightarrow>
     (rxq_synced r \<longrightarrow> (\<forall>k c. map_of cs k = Some c \<longrightarrow> has_pending_rx c \<longrightarrow> ConnRx k \<in> set (rxq_q r)))"

definition entry_ok :: "conn_map_key set \<Rightarrow> conn_map_key \<Rightarrow> connection \<Rightarrow> bool" where
  "entry_ok X k c \<longleftrightarrow>
     vc_local_port c = ck_local_port k \<and> vc_peer_port c = ck_peer_port k \<and> (k \<notin> X \<longrightarrow> conn_inv c)"

definition pool_ok :: "conn_map_key set \<Rightarrow> conn_map \<Rightarrow> bool" where
  "pool_ok X cs \<longleftrightarrow> distinct (map fst cs) \<and> length cs \<le> MAX_CONNECTIONS \<and>
     (\<forall>k c. map_of cs k = Some c \<longrightarrow> entry_ok X k c)"

definition mux_inv_but :: "conn_map_key set \<Rightarrow> muxer \<Rightarrow> bool" where
  "mux_inv_but X m \<longleftrightarrow> pool_ok X (mx_conn_map m) \<and> synced_with (mx_rxq m) (mx_conn_map m) \<and>
     rxq_len (mx_rxq m) \<le> MUXER_RXQ_SIZE \<and> length (kq_q (mx_killq m)) \<le> MUXER_KILLQ_SIZE"

abbreviation mux_inv :: "muxer \<Rightarrow> bool" where
  "mux_inv \<equiv> mux_inv_but {}"

lemma rxq_push_len: "rxq_len r \<le> MUXER_RXQ_SIZE \<Longrightarrow> rxq_len (snd (rxq_push rx r)) \<le> MUXER_RXQ_SIZE"
proof -
  assume a: "rxq_len r \<le> MUXER_RXQ_SIZE"
  have "length q' = length q" if "replace_first_conn rx q = Some q'" for q q'
    using replace_first_conn_Some [OF that] by auto
  then show ?thesis using a
    by (auto simp: rxq_push_def rxq_len_def rxq_is_full_def split: muxer_rx.splits option.splits)
qed

lemma synced_push: "synced_with r cs \<Longrightarrow> synced_with (snd (rxq_push rx r)) cs"
  using rxq_push_mem [of rx r] by (auto simp: synced_with_def)

lemma synced_push_update:
  "synced_with r cs \<Longrightarrow> synced_with (snd (rxq_push (ConnRx k) r)) (AList.update k c cs)"
  using rxq_push_mem [of "ConnRx k" r] by (auto simp: synced_with_def update_conv')

lemma synced_update:
  assumes "synced_with r cs" "has_pending_rx c \<longrightarrow> (\<exists>c0. map_of cs k = Some c0 \<and> has_pending_rx c0)"
  shows "synced_with r (AList.update k c cs)"
  using assms by (auto simp: synced_with_def update_conv')

lemma synced_delete: "synced_with r cs \<Longrightarrow> synced_with r (AList.delete k cs)"
  by (auto simp: synced_with_def delete_conv' split: if_splits)

lemma length_AList_update:
  "length (AList.update k v al) = (if k \<in> fst ` set al then length al else Suc (length al))"
  by (induction al) auto

lemma entry_ok_mono: "entry_ok X k' c \<Longrightarrow> X \<subseteq> insert k Y \<Longrightarrow> k' \<noteq> k \<Longrightarrow> entry_ok Y k' c"
  by (auto simp: entry_ok_def)

lemma pool_update:
  assumes "pool_ok X cs" "map_of cs k \<noteq> None \<or> length cs < MAX_CONNECTIONS" "entry_ok Y k c" "X \<subseteq> insert k Y"
  shows "pool_ok Y (AList.update k c cs)"
proof -
  have "length (AList.update k c cs) \<le> MAX_CONNECTIONS"
    using assms(1,2) by (auto simp: length_AList_update pool_ok_def map_of_eq_None_iff)
  moreover have "entry_ok Y k' c'" if "map_of (AList.update k c cs) k' = Some c'" for k' c'
    using that assms(1,3) entry_ok_mono [OF _ assms(4)] by (cases "k' = k") (auto simp: update_conv' pool_ok_def)
  ultimately show ?thesis using assms(1) by (auto simp: pool_ok_def distinct_update)
qed

lemma pool_delete:
  assumes "pool_ok X cs" "X \<subseteq> insert k Y"
  shows "pool_ok Y (AList.delete k cs)"
proof -
  have "entry_ok Y k' c'" if "map_of (AList.delete k cs) k' = Some c'" for k' c'
    using that assms(1) entry_ok_mono [OF _ assms(2)] by (cases "k' = k") (auto simp: delete_conv' pool_ok_def)
  then show ?thesis using assms(1) length_delete_le [of k cs] by (auto simp: pool_ok_def distinct_delete)
qed

text \<open>Operations that only touch listeners, ports and the epoll script.\<close>

definition core_eq :: "muxer \<Rightarrow> muxer \<Rightarrow> bool" where
  "core_eq m m' \<longleftrightarrow> mx_conn_map m' = mx_conn_map m \<and> mx_rxq m' = mx_rxq m \<and> mx_killq m' = mx_killq m"

lemma core_eq_inv: "core_eq m m' \<Longrightarrow> mux_inv_but X m' = mux_inv_but X m"
  by (simp add: core_eq_def mux_inv_but_def)

lemma epoll_ctl_core:
  "epoll_ctl m = (ok, m') \<Longrightarrow> core_eq m m' \<and> mx_local_port_set m' = mx_local_port_set m \<and>
     mx_listener_map m' = mx_listener_map m \<and>
     length (mx_epoll m') \<le> length (mx_epoll m) \<and> (\<not> ok \<longrightarrow> length (mx_epoll m') < length (mx_epoll m))"
  by (auto simp: epoll_ctl_def core_eq_def split: list.splits)

lemma add_listener_core:
  "add_listener fd l m = (r, m') \<Longrightarrow> core_eq m m' \<and> mx_local_port_set m' = mx_local_port_set m \<and>
     length (mx_epoll m') \<le> length (mx_epoll m) \<and> (r \<noteq> Inr () \<longrightarrow> length (mx_epoll m') < length (mx_epoll m))"
  by (cases "epoll_ctl m") (auto simp: add_listener_def core_eq_def dest!: epoll_ctl_core split: if_splits)

lemma remove_listener_core:
  "remove_listener fd m = (r, m') \<Longrightarrow> core_eq m m' \<and> mx_local_port_set m' = mx_local_port_set m \<and>
     length (mx_epoll m') \<le> length (mx_epoll m)"
proof (cases "map_of (mx_listener_map m) fd")
  case (Some l)
  let ?m = "m\<lparr>mx_listener_map := AList.delete fd (mx_listener_map m)\<rparr>"
  obtain ok m1 where e: "epoll_ctl ?m = (ok, m1)" by fastforce
  assume "remove_listener fd m = (r, m')"
  then have "m' = m1" using Some e by (simp add: remove_listener_def)
  then show ?thesis using epoll_ctl_core [OF e] by (simp add: core_eq_def)
qed (simp add: remove_listener_def core_eq_def)

lemma push_rx_inv: "mux_inv_but X m \<Longrightarrow> mux_inv_but X (push_rx rx m)"
  by (simp add: mux_inv_but_def push_rx_def rxq_push_len synced_push)

lemma entry_ok_kill: "entry_ok X k c \<Longrightarrow> entry_ok X k (kill c)"
  by (auto simp: entry_ok_def conn_inv_def kill_def pend_def)

lemma kill_connection_inv:
  assumes "mux_inv_but X m"
  shows "mux_inv_but X (kill_connection key m)"
proof (cases "map_of (mx_conn_map m) key")
  case None
  then show ?thesis using push_rx_inv [OF assms] by (simp add: kill_connection_def)
next
  case (Some conn)
  have pool: "pool_ok X (AList.update key (kill conn) (mx_conn_map m))"
    using assms Some by (intro pool_update [where X = X]) (auto simp: mux_inv_but_def pool_ok_def entry_ok_kill)
  show ?thesis
  proof (cases "has_pending_rx conn")
    case True
    then show ?thesis using assms pool Some
      by (auto simp: kill_connection_def mux_inv_but_def Let_def intro: synced_update)
  next
    case False
    then show ?thesis using assms pool Some
      by (simp add: kill_connection_def mux_inv_but_def Let_def push_rx_def rxq_push_len synced_push_update)
  qed
qed

subsection \<open>Every operation keeps the invariant\<close>

lemma snd_remove_listener_core: "core_eq m (snd (remove_listener fd m))"
  using remove_listener_core [of fd m] by (cases "remove_listener fd m") simp

text \<open>Updating the listener of a connection either leaves pool and queues alone or kills the
  connection, and the latter only after a failed \<open>epoll_ctl\<close>.\<close>

lemma update_listener_cases:
  obtains m' where "core_eq m m'" "length (mx_epoll m') \<le> length (mx_epoll m)"
      "mx_local_port_set m' = mx_local_port_set m" "update_listener key conn m = m'"
  | m' where "core_eq m m'" "length (mx_epoll m') < length (mx_epoll m)"
      "mx_local_port_set m' = mx_local_port_set m" "update_listener key conn m = kill_connection key m'"
proof -
  note goals = that
  let ?fd = "get_polled_fd conn" and ?ev = "get_polled_evset conn"
  have refl: "core_eq m m" by (simp add: core_eq_def)
  have add: thesis if u: "update_listener key conn m = (case add_listener ?fd (LConnection key ?ev) m of
      (Inr _, m) \<Rightarrow> m | (Inl _, m) \<Rightarrow> kill_connection key m)"
  proof -
    obtain r m1 where a: "add_listener ?fd (LConnection key ?ev) m = (r, m1)" by fastforce
    note core = add_listener_core [OF a]
    show thesis
    proof (cases r)
      case (Inl e)
      then show thesis using goals(2) [of m1] core u a by simp
    next
      case (Inr x)
      then show thesis using goals(1) [of m1] core u a by simp
    qed
  qed
  show thesis
  proof (cases "evset_is_empty ?ev")
    case True
    obtain r m1 where a: "remove_listener ?fd m = (r, m1)" by fastforce
    then show thesis using goals(1) [of m1] remove_listener_core [OF a] True
      by (simp add: update_listener_def Let_def)
  next
    case ne: False
    show thesis
    proof (cases "\<exists>k evset. map_of (mx_listener_map m) ?fd = Some (LConnection k evset)")
      case False
      then show thesis using ne
        by (intro add) (auto simp: update_listener_def Let_def split: option.splits epoll_listener.splits)
    next
      case True
      then obtain k evset where k: "map_of (mx_listener_map m) ?fd = Some (LConnection k evset)" by blast
      let ?m = "m\<lparr>mx_listener_map := AList.update ?fd (LConnection k ?ev) (mx_listener_map m)\<rparr>"
      obtain ok m1 where e: "epoll_ctl ?m = (ok, m1)" by fastforce
      have core: "core_eq m m1" "mx_local_port_set m1 = mx_local_port_set m" "length (mx_epoll m1) \<le> length (mx_epoll m)"
        "\<not> ok \<longrightarrow> length (mx_epoll m1) < length (mx_epoll m)"
        using epoll_ctl_core [OF e] by (auto simp: core_eq_def)
      have u: "update_listener key conn m = (if evset \<noteq> ?ev then (if ok then m1 else kill_connection key m1) else m)"
        using ne k e by (simp add: update_listener_def Let_def)
      show thesis
      proof (cases "evset = ?ev")
        case True
        then show thesis using goals(1) [of m] refl u by simp
      next
        case False
        then show thesis using goals [of m1] core u by (cases ok) simp_all
      qed
    qed
  qed
qed

lemma update_listener_inv: "mux_inv_but X m \<Longrightarrow> mux_inv_but X (update_listener key conn m)"
  by (rule update_listener_cases [of m key conn]) (simp_all add: core_eq_inv kill_connection_inv)

lemma push_kill_inv: "mux_inv_but X m \<Longrightarrow> mux_inv_but X (push_kill key conn m)"
  by (auto simp: mux_inv_but_def push_kill_def killq_push_def killq_is_full_def split: option.splits)

lemma entry_ok_ack:
  assumes "entry_ok X k c"
  shows "entry_ok X k (ack_local_init (ck_local_port k) st c)"
proof -
  obtain res s where w: "stream_write (ack_msg (ck_local_port k)) (vc_stream c) = (res, s)" by fastforce
  have "entry_ok X k (c\<lparr>vc_stream := s\<rparr>)" using assms by (simp add: entry_ok_def conn_inv_def)
  then show ?thesis using assms w
    by (cases res) (auto simp: ack_local_init_def send_bytes_raw_def intro: entry_ok_kill)
qed

definition store_conn :: "nat \<Rightarrow> conn_map_key \<Rightarrow> connection \<Rightarrow> connection \<Rightarrow> muxer \<Rightarrow> muxer" where
  "store_conn now key conn conn2 m =
     (let m = m\<lparr>mx_conn_map := AList.update key conn2 (mx_conn_map m)\<rparr>;
          m = (if \<not> has_pending_rx conn \<and> has_pending_rx conn2 then push_rx (ConnRx key) m else m)
      in if \<not> will_expire now conn \<and> will_expire now conn2 then push_kill key conn2 m else m)"

lemma apply_conn_mutation_eq:
  assumes "map_of (mx_conn_map m) key = Some conn"
  shows "apply_conn_mutation now key f m =
    map_option (\<lambda>(r, conn1). let conn2 = ack_local_init (ck_local_port key) (vc_state conn) conn1
      in (Some r, update_listener key conn2 (store_conn now key conn conn2 m))) (f conn)"
  using assms
  by (simp add: apply_conn_mutation_def store_conn_def Let_def split: option.splits prod.splits)

lemma store_conn_inv:
  assumes inv: "mux_inv m" and c: "map_of (mx_conn_map m) key = Some conn" and c2: "entry_ok X key conn2"
  shows "mux_inv_but X (store_conn now key conn conn2 m)"
proof -
  let ?m = "m\<lparr>mx_conn_map := AList.update key conn2 (mx_conn_map m)\<rparr>"
  have pool: "pool_ok X (mx_conn_map ?m)"
    using inv c c2 pool_update [of "{}" "mx_conn_map m" key X conn2] by (simp add: mux_inv_but_def)
  have "mux_inv_but X (if \<not> has_pending_rx conn \<and> has_pending_rx conn2 then push_rx (ConnRx key) ?m else ?m)"
  proof (cases "\<not> has_pending_rx conn \<and> has_pending_rx conn2")
    case True
    then show ?thesis using inv pool
      by (simp add: mux_inv_but_def push_rx_def rxq_push_len synced_push_update)
  next
    case False
    have "synced_with (mx_rxq m) (mx_conn_map ?m)"
      using False inv c by (auto simp: mux_inv_but_def intro: synced_update)
    then show ?thesis using False inv pool by (auto simp: mux_inv_but_def)
  qed
  then show ?thesis by (simp add: store_conn_def Let_def push_kill_inv)
qed

lemma mutation_inv:
  assumes inv: "mux_inv m" and c: "map_of (mx_conn_map m) key = Some conn" and f: "f conn = Some (r, conn1)"
    and ok: "entry_ok X key conn1"
  shows "\<exists>m'. apply_conn_mutation now key f m = Some (Some r, m') \<and> mux_inv_but X m'"
  using f store_conn_inv [OF inv c entry_ok_ack [OF ok]]
  by (simp add: apply_conn_mutation_eq [OF c] Let_def update_listener_inv)

lemma remove_connection_inv:
  assumes "mux_inv_but X m" "X \<subseteq> {key}"
  shows "mux_inv (remove_connection key m)"
proof (cases "map_of (mx_conn_map m) key")
  case None
  have "entry_ok {} k c" if "map_of (mx_conn_map m) k = Some c" "entry_ok X k c" for k c
    using that None assms(2) by (auto simp: entry_ok_def)
  then show ?thesis using None assms(1)
    by (auto simp: remove_connection_def free_local_port_def mux_inv_but_def pool_ok_def)
next
  case (Some conn)
  let ?m = "m\<lparr>mx_conn_map := AList.delete key (mx_conn_map m)\<rparr>"
  have "mux_inv ?m"
    using assms pool_delete [of X "mx_conn_map m" key "{}"] by (auto simp: mux_inv_but_def synced_delete)
  then have "mux_inv (snd (remove_listener (get_polled_fd conn) ?m))"
    using core_eq_inv [OF snd_remove_listener_core] by blast
  then show ?thesis using Some by (simp add: remove_connection_def free_local_port_def mux_inv_but_def)
qed

lemma sweep_loop_inv: "mux_inv m \<Longrightarrow> mux_inv (sweep_loop now m)"
proof (induction now m rule: sweep_loop.induct)
  case (1 now m)
  show ?case
  proof (cases "killq_pop now (mx_killq m)")
    case None
    then show ?thesis using 1 by (simp add: sweep_loop.simps)
  next
    case (Some p)
    then obtain key kq where p: "killq_pop now (mx_killq m) = Some (key, kq)" by (cases p) auto
    let ?m = "m\<lparr>mx_killq := kq\<rparr>"
    have "mux_inv ?m" using 1(2) killq_pop_length [OF p] by (simp add: mux_inv_but_def)
    then show ?thesis using 1(1) [OF p refl refl] p kill_connection_inv [of "{}" ?m key]
      by (auto simp: sweep_loop.simps [of now m] Let_def split: option.splits)
  qed
qed

lemma killq_rebuilt_len: "length (kq_q (killq_from_conn_map now cs)) \<le> MUXER_KILLQ_SIZE"
  using killq_walk_spec [of now cs "[]"] by (cases "killq_walk now cs []") (simp add: killq_from_conn_map_def)

lemma sweep_killq_inv: "mux_inv m \<Longrightarrow> mux_inv (sweep_killq now m)"
proof (induction now m rule: sweep_killq.induct)
  case (1 now m)
  have i: "mux_inv (sweep_loop now m)" using 1(2) by (rule sweep_loop_inv)
  then have "mux_inv ((sweep_loop now m)\<lparr>mx_killq := killq_from_conn_map now (mx_conn_map (sweep_loop now m))\<rparr>)"
    by (simp add: mux_inv_but_def killq_rebuilt_len)
  then show ?case using 1(1) [OF refl] i by (simp add: sweep_killq.simps [of now m] Let_def)
qed

lemma add_connection_inv:
  assumes inv: "mux_inv m" and ok: "entry_ok {} key conn"
  shows "mux_inv (snd (add_connection now key conn m))"
proof -
  let ?m = "sweep_killq now m"
  have i: "mux_inv ?m" using inv by (rule sweep_killq_inv)
  obtain r m1 where a: "add_listener (get_polled_fd conn) (LConnection key (get_polled_evset conn)) ?m = (r, m1)"
    by fastforce
  have core: "core_eq ?m m1" using add_listener_core [OF a] by blast
  then have i1: "mux_inv m1" using core_eq_inv i by blast
  show ?thesis
  proof (cases "length (mx_conn_map ?m) \<ge> MAX_CONNECTIONS \<or> (\<exists>e. r = Inl e)")
    case True
    then show ?thesis using i i1 a by (auto simp: add_connection_def Let_def)
  next
    case False
    then obtain u where "r = Inr u" by (cases r) auto
    have pool: "pool_ok {} (AList.update key conn (mx_conn_map m1))"
      using False i1 core ok pool_update [of "{}" "mx_conn_map m1" key "{}" conn]
      by (auto simp: mux_inv_but_def core_eq_def)
    show ?thesis
    proof (cases "has_pending_rx conn")
      case True
      then show ?thesis using False i1 a pool \<open>r = Inr u\<close>
        by (simp add: add_connection_def Let_def mux_inv_but_def push_rx_def rxq_push_len synced_push_update)
    next
      case nr: False
      have "synced_with (mx_rxq m1) (AList.update key conn (mx_conn_map m1))"
        using i1 nr by (intro synced_update) (auto simp: mux_inv_but_def)
      then show ?thesis using False nr i1 a pool \<open>r = Inr u\<close>
        by (simp add: add_connection_def Let_def mux_inv_but_def)
    qed
  qed
qed

lemma enq_rst_inv: "mux_inv m \<Longrightarrow> mux_inv (enq_rst lp pp m)"
  by (simp add: enq_rst_def push_rx_inv)

lemma handle_peer_request_inv:
  assumes "mux_inv m"
  shows "mux_inv (handle_peer_request_pkt now connected pkt m)"
proof (cases connected)
  case (Some strm)
  let ?h = "pk_hdr pkt"
  let ?k = "\<lparr>ck_local_port = ph_dst_port ?h, ck_peer_port = ph_src_port ?h\<rparr>"
  let ?c = "new_peer_init strm VSOCK_HOST_CID (mx_cid m) (ph_dst_port ?h) (ph_src_port ?h) (ph_buf_alloc ?h)"
  obtain r m1 where a: "add_connection now ?k ?c m = (r, m1)" by fastforce
  have "entry_ok {} ?k ?c" using conn_inv_new by (auto simp: entry_ok_def) (auto simp: new_peer_init_def)
  then have "mux_inv m1" using add_connection_inv [OF assms, of ?k ?c now] a by simp
  then show ?thesis using Some a by (cases r) (simp_all add: handle_peer_request_pkt_def Let_def enq_rst_inv)
qed (simp add: handle_peer_request_pkt_def Let_def enq_rst_inv assms)

lemma entry_ok_step:
  "entry_ok {} k c \<Longrightarrow> same_id c c' \<Longrightarrow> conn_inv c' \<Longrightarrow> entry_ok X k c'"
  by (simp add: entry_ok_def same_id_def)

lemma muxer_send_pkt_inv:
  assumes inv: "mux_inv m" and pk: "packet_ok pkt"
  shows "\<exists>m'. muxer_send_pkt now connected pkt m = Some m' \<and> mux_inv m'"
proof -
  let ?k = "\<lparr>ck_local_port = ph_dst_port (pk_hdr pkt), ck_peer_port = ph_src_port (pk_hdr pkt)\<rparr>"
  show ?thesis
  proof (cases "map_of (mx_conn_map m) ?k")
    case None
    then show ?thesis using inv by (simp add: muxer_send_pkt_def Let_def enq_rst_inv handle_peer_request_inv)
  next
    case (Some conn)
    have e: "entry_ok {} ?k conn" using inv Some by (simp add: mux_inv_but_def pool_ok_def)
    then have ci: "conn_inv conn" by (simp add: entry_ok_def)
    obtain c' where c': "conn_send_pkt now conn pkt = Some c'" "conn_ok conn c' (guest_data conn pkt)"
      using conn_send_pkt_ok [OF ci pk] by blast
    have "entry_ok {} ?k c'"
      using entry_ok_step [OF e conn_send_pkt_id [OF ci c'(1)]] c'(2) by (simp add: conn_ok_def)
    then have "\<exists>m'. apply_conn_mutation now ?k (\<lambda>conn. map_option (Pair ()) (conn_send_pkt now conn pkt)) m = Some (Some (), m') \<and> mux_inv m'"
      using c' by (intro mutation_inv [OF inv Some]) simp_all
    then show ?thesis using inv Some
      by (auto simp: muxer_send_pkt_def Let_def enq_rst_inv intro: remove_connection_inv [where X = "{}"])
  qed
qed

subsection \<open>Fetching packets\<close>

lemma pop_rx_inv:
  assumes "mux_inv_but X m" and q: "rxq_q (mx_rxq m) = ConnRx key # q"
    and "rxq_synced (mx_rxq m) \<longrightarrow> (\<forall>c. map_of (mx_conn_map m) key = Some c \<and> has_pending_rx c \<longrightarrow> ConnRx key \<in> set q)"
  shows "mux_inv_but X (pop_rx m)"
proof -
  have "ConnRx k \<in> set q" if "rxq_synced (mx_rxq m)" "map_of (mx_conn_map m) k = Some c" "has_pending_rx c" for k c
    using assms that by (cases "k = key") (auto simp: mux_inv_but_def synced_with_def)
  then show ?thesis using assms(1) q
    by (auto simp: mux_inv_but_def pop_rx_def rxq_pop_def synced_with_def rxq_len_def)
qed

lemma recv_not_local_established:
  assumes inv: "conn_inv c" and r: "conn_recv_pkt now c pkt = (r, c', pkt')" and l: "vc_state c = LocalInit"
  shows "vc_state c' \<noteq> Established"
proof -
  let ?c = "without [Rst, Response, Request, Rw] c" and ?p = "init_pkt c pkt"
  have nr: "\<not> pending c Response" using inv l by (auto simp: conn_inv_def)
  have rw: "vc_state d = LocalInit" if "recv_rw now ?c ?p = (x, d, y)" for x d y
    using that l by (auto simp: recv_rw_def rw_state_ok_def)
  have cu: "vc_state d = LocalInit" if "recv_credit_update ?c ?p = (x, d, y)" for x d y
    using that l by (auto simp: recv_credit_update_def take_pending_eq split: if_splits)
  have "vc_state c' = LocalInit"
    using r nr l rw cu by (auto simp: conn_recv_pkt_eq split: if_splits)
  then show ?thesis by simp
qed

lemma recv_idle:
  assumes inv: "conn_inv c" and none: "\<not> has_pending_rx c" and r: "conn_recv_pkt now c pkt = (r, c', pkt')"
  shows "r \<noteq> Inr () \<and> \<not> has_pending_rx c'"
proof -
  have np: "\<not> pending c it" for it
    using none inv prx_is_empty_iff [of "vc_pending_rx c"] by (auto simp: has_pending_rx_def conn_inv_def)
  have "r \<noteq> Inr ()"
    using r by (auto simp: conn_recv_pkt_eq np recv_credit_update_def take_pending_eq split: if_splits)
  then obtain e where "r = Inl e" by (cases r) auto
  then show ?thesis using conn_recv_pkt_Inl [OF inv, of now pkt e c' pkt'] r np by auto
qed

text \<open>The measure of the fetch loop: failed \<open>epoll_ctl\<close> calls to come, queue length, and whether
  the connection at the front still has a data indication.\<close>

definition front_rw :: "muxer \<Rightarrow> nat" where
  "front_rw m = (case rxq_q (mx_rxq m) of
     ConnRx k # _ \<Rightarrow> (case map_of (mx_conn_map m) k of Some c \<Rightarrow> if pending c Rw then 1 else 0 | None \<Rightarrow> 0)
   | _ \<Rightarrow> 0)"

definition recv_rel :: "(muxer \<times> muxer) set" where
  "recv_rel = inv_image (less_than <*lex*> less_than <*lex*> less_than)
     (\<lambda>m. (length (mx_epoll m), rxq_len (mx_rxq m), front_rw m))"

lemma wf_recv_rel: "wf recv_rel"
  by (auto simp: recv_rel_def)

lemma store_conn_sel:
  "mx_epoll (store_conn now key conn conn2 m) = mx_epoll m"
  "mx_conn_map (store_conn now key conn conn2 m) = AList.update key conn2 (mx_conn_map m)"
  "mx_local_port_set (store_conn now key conn conn2 m) = mx_local_port_set m"
  "has_pending_rx conn \<or> \<not> has_pending_rx conn2 \<Longrightarrow> mx_rxq (store_conn now key conn conn2 m) = mx_rxq m"
  by (auto simp: store_conn_def Let_def push_rx_def push_kill_def split: option.splits)

definition rst_key :: "packet \<Rightarrow> conn_map_key" where
  "rst_key pkt = \<lparr>ck_local_port = ph_src_port (pk_hdr pkt), ck_peer_port = ph_dst_port (pk_hdr pkt)\<rparr>"

definition recv_post :: "muxer \<Rightarrow> (vsock_error + unit) \<Rightarrow> muxer \<Rightarrow> packet \<Rightarrow> bool" where
  "recv_post m res m1 pkt1 \<longleftrightarrow> mx_local_port_set m1 = mx_local_port_set m \<and>
     (if res = Inr () then
        (if ph_op (pk_hdr pkt1) = VSOCK_OP_RST then mux_inv (remove_connection (rst_key pkt1) m1) else mux_inv m1)
      else mux_inv m1 \<and> (m1, m) \<in> recv_rel)"

lemma kill_connection_sel [simp]:
  "mx_local_port_set (kill_connection key m) = mx_local_port_set m"
  "mx_epoll (kill_connection key m) = mx_epoll m"
  by (auto simp: kill_connection_def push_rx_def Let_def split: option.splits)

lemma pop_rx_sel [simp]:
  "mx_local_port_set (pop_rx m) = mx_local_port_set m" "mx_epoll (pop_rx m) = mx_epoll m"
  "mx_conn_map (pop_rx m) = mx_conn_map m"
  by (simp_all add: pop_rx_def)

text \<open>What the listener update leaves for the fetch: the connection is as stored and the queue as
  before, or it was killed and, if it had nothing pending, queued once more.\<close>

lemma update_listener_pop:
  assumes inv: "mux_inv_but X m" and c: "map_of (mx_conn_map m) key = Some conn"
    and q: "rxq_q (mx_rxq m) = ConnRx key # q"
  defines "m' \<equiv> update_listener key conn m"
  defines "m1 \<equiv> (if \<not> has_pending_rx conn then pop_rx m' else m')"
  shows "mux_inv_but X m1 \<and> mx_local_port_set m1 = mx_local_port_set m \<and>
    (length (mx_epoll m1) < length (mx_epoll m) \<or>
     length (mx_epoll m1) \<le> length (mx_epoll m) \<and> mx_conn_map m1 = mx_conn_map m \<and>
     rxq_q (mx_rxq m1) = (if \<not> has_pending_rx conn then q else ConnRx key # q))"
proof (cases rule: update_listener_cases [of m key conn])
  case (1 m'')
  have i: "mux_inv_but X m''" using inv core_eq_inv [OF 1(1)] by simp
  have q': "rxq_q (mx_rxq m'') = ConnRx key # q" "map_of (mx_conn_map m'') key = Some conn"
    using 1(1) q c by (simp_all add: core_eq_def)
  show ?thesis
  proof (cases "has_pending_rx conn")
    case True
    then show ?thesis using 1 i q' by (auto simp: m1_def m'_def core_eq_def)
  next
    case False
    have "mux_inv_but X (pop_rx m'')" using False q' by (intro pop_rx_inv [OF i q'(1)]) simp
    then show ?thesis using False 1 q' by (auto simp: m1_def m'_def core_eq_def pop_rx_def rxq_pop_def)
  qed
next
  case (2 m'')
  have i: "mux_inv_but X (kill_connection key m'')"
    using inv core_eq_inv [OF 2(1)] kill_connection_inv by blast
  show ?thesis
  proof (cases "has_pending_rx conn")
    case True
    then show ?thesis using 2 i by (auto simp: m1_def m'_def)
  next
    case False
    have r: "mx_rxq (kill_connection key m'') = snd (rxq_push (ConnRx key) (mx_rxq m''))"
      using False 2(1) c by (simp add: kill_connection_def core_eq_def Let_def push_rx_def)
    obtain q'' where q'': "rxq_q (mx_rxq (kill_connection key m'')) = ConnRx key # q''"
        "rxq_synced (mx_rxq (kill_connection key m'')) \<longrightarrow> ConnRx key \<in> set q''"
      using r q 2(1) by (auto simp: rxq_push_def core_eq_def split: if_splits)
    have "mux_inv_but X (pop_rx (kill_connection key m''))"
      using q''(2) by (intro pop_rx_inv [OF i q''(1)]) simp
    then show ?thesis using False 2 by (auto simp: m1_def m'_def)
  qed
qed

lemma muxer_recv_conn_step:
  assumes inv: "mux_inv m" and q: "rxq_q (mx_rxq m) = ConnRx key # q"
  shows "\<exists>res m1 pkt1. muxer_recv_conn now key m pkt = Some (res, m1, pkt1) \<and> recv_post m res m1 pkt1"
proof (cases "map_of (mx_conn_map m) key")
  case None
  then have "muxer_recv_conn now key m pkt = Some (Inl NoData, pop_rx m, pkt)"
    by (simp add: muxer_recv_conn_def apply_conn_mutation_def)
  moreover have "mux_inv (pop_rx m)" using None by (intro pop_rx_inv [OF inv q]) simp
  moreover have "(pop_rx m, m) \<in> recv_rel"
    using q by (simp add: recv_rel_def pop_rx_def rxq_pop_def rxq_len_def)
  ultimately show ?thesis by (simp add: recv_post_def)
next
  case (Some conn)
  have e: "entry_ok {} key conn" using inv Some by (simp add: mux_inv_but_def pool_ok_def)
  then have ci: "conn_inv conn" by (simp add: entry_ok_def)
  obtain res c1 pkt1 where r: "conn_recv_pkt now conn pkt = (res, c1, pkt1)"
    by (cases "conn_recv_pkt now conn pkt")
  note ok = conn_recv_pkt_ok [OF ci r] and id = conn_recv_pkt_id [OF r]
  define X where "X = (if conn_inv c1 then {} else {key})"
  have ack: "ack_local_init (ck_local_port key) (vc_state conn) c1 = c1"
    using recv_not_local_established [OF ci r] by (auto simp: ack_local_init_def)
  define m3 where "m3 = store_conn now key conn c1 m"
  have e1: "entry_ok X key c1" using e id by (auto simp: entry_ok_def same_id_def X_def)
  have i3: "mux_inv_but X m3" unfolding m3_def by (rule store_conn_inv [OF inv Some e1])
  have keep: "has_pending_rx conn \<or> \<not> has_pending_rx c1" using recv_idle [OF ci _ r] by blast
  have m3: "rxq_q (mx_rxq m3) = ConnRx key # q" "map_of (mx_conn_map m3) key = Some c1"
    "mx_epoll m3 = mx_epoll m" "mx_local_port_set m3 = mx_local_port_set m"
    using q keep by (simp_all add: m3_def store_conn_sel update_conv')
  define m1 where "m1 = (if \<not> has_pending_rx c1 then pop_rx (update_listener key c1 m3) else update_listener key c1 m3)"
  note post = update_listener_pop [OF i3 m3(2,1), folded m1_def]
  have run: "muxer_recv_conn now key m pkt = Some (res, m1, pkt1)"
    by (simp add: muxer_recv_conn_def apply_conn_mutation_eq [OF Some] r ack Let_def m1_def m3_def)
  have rank: "(m1, m) \<in> recv_rel" if ne: "res \<noteq> Inr ()"
  proof -
    obtain e where "res = Inl e" using ne by (cases res) auto
    then have rw: "has_pending_rx c1 \<longrightarrow> pending conn Rw \<and> \<not> pending c1 Rw"
      using conn_recv_pkt_Inl [OF ci] r by blast
    have "front_rw m = 1" if "has_pending_rx c1" using that rw q Some by (simp add: front_rw_def)
    moreover have "front_rw m1 = 0"
      if "has_pending_rx c1" "rxq_q (mx_rxq m1) = ConnRx key # q" "mx_conn_map m1 = mx_conn_map m3"
      using that rw m3(2) by (simp add: front_rw_def)
    ultimately show ?thesis using post m3 q
      by (cases "has_pending_rx c1") (auto simp: recv_rel_def rxq_len_def)
  qed
  have key: "rst_key pkt1 = key" using id e by (simp add: rst_key_def entry_ok_def)
  have "recv_post m res m1 pkt1"
  proof (cases "res = Inr () \<and> ph_op (pk_hdr pkt1) = VSOCK_OP_RST")
    case True
    then show ?thesis using post m3 key remove_connection_inv [of X m1 key]
      by (auto simp: recv_post_def X_def)
  next
    case False
    then have "X = {}" using ok by (auto simp: X_def)
    then show ?thesis using False post m3 rank by (auto simp: recv_post_def)
  qed
  then show ?thesis using run by blast
qed

lemma remove_connection_ports: "length (mx_local_port_set (remove_connection key m)) \<le> length (mx_local_port_set m)"
proof -
  have "mx_local_port_set (snd (remove_listener fd m')) = mx_local_port_set m'" for fd m'
    using remove_listener_core [of fd m'] by (cases "remove_listener fd m'") simp
  then show ?thesis
    by (auto simp: remove_connection_def free_local_port_def split: option.splits
        intro: order_trans [OF length_filter_le])
qed

lemma muxer_recv_loop_ok:
  assumes "mux_inv m"
  shows "\<exists>res m' pkt'. muxer_recv_loop now m pkt = Some (res, m', pkt') \<and> mux_inv m' \<and>
    length (mx_local_port_set m') \<le> length (mx_local_port_set m) \<and>
    (res = Inr () \<or> res = Inl NoData \<and> rxq_is_empty (mx_rxq m'))"
  using assms
proof (induction m arbitrary: pkt rule: wf_induct_rule [OF wf_recv_rel])
  case (1 m)
  show ?case
  proof (cases "rxq_q (mx_rxq m)")
    case Nil
    then show ?thesis using 1(2)
      by (simp add: muxer_recv_loop.simps rxq_peek_def rxq_is_empty_def rxq_len_def)
  next
    case (Cons rx q)
    show ?thesis
    proof (cases rx)
      case (RstPkt lp pp)
      have "mux_inv (pop_rx m)"
        using 1(2) Cons RstPkt by (auto simp: mux_inv_but_def pop_rx_def rxq_pop_def rxq_len_def synced_with_def)
      then show ?thesis using Cons RstPkt by (simp add: muxer_recv_loop.simps [of now m] rxq_peek_def)
    next
      case (ConnRx key)
      then obtain res m1 pkt1 where s: "muxer_recv_conn now key m pkt = Some (res, m1, pkt1)" "recv_post m res m1 pkt1"
        using muxer_recv_conn_step [OF 1(2)] Cons by blast
      have loop: "muxer_recv_loop now m pkt = (if res = Inr () then
          Some (Inr (), if ph_op (pk_hdr pkt1) = VSOCK_OP_RST then remove_connection (rst_key pkt1) m1 else m1, pkt1)
          else muxer_recv_loop now m1 pkt1)"
        using Cons ConnRx s(1) by (simp add: muxer_recv_loop.simps [of now m] rxq_peek_def rst_key_def)
      show ?thesis
      proof (cases "res = Inr ()")
        case True
        then show ?thesis using loop s(2) remove_connection_ports [of "rst_key pkt1" m1]
          by (auto simp: recv_post_def split: if_splits)
      next
        case False
        then have "mux_inv m1" "(m1, m) \<in> recv_rel" "mx_local_port_set m1 = mx_local_port_set m"
          using s(2) by (auto simp: recv_post_def)
        then show ?thesis using 1(1) [of m1 pkt1] loop False by simp
      qed
    qed
  qed
qed

subsection \<open>Host ports in use\<close>

lemma ports_simps [simp]:
  "mx_local_port_set (push_rx rx m) = mx_local_port_set m"
  "mx_local_port_set (push_kill key c m) = mx_local_port_set m"
  "mx_local_port_set (enq_rst lp pp m) = mx_local_port_set m"
  by (simp_all add: push_rx_def push_kill_def enq_rst_def split: option.splits)

lemma update_listener_ports [simp]: "mx_local_port_set (update_listener key c m) = mx_local_port_set m"
  by (rule update_listener_cases [of m key c]) simp_all

lemma mutation_ports:
  "apply_conn_mutation now key f m = Some (r, m') \<Longrightarrow> mx_local_port_set m' = mx_local_port_set m"
  by (cases "map_of (mx_conn_map m) key")
    (auto simp: apply_conn_mutation_eq store_conn_sel Let_def, auto simp: apply_conn_mutation_def)

lemma sweep_loop_ports [simp]: "mx_local_port_set (sweep_loop now m) = mx_local_port_set m"
proof (induction now m rule: sweep_loop.induct)
  case (1 now m)
  then show ?case
    by (cases "killq_pop now (mx_killq m)")
      (auto simp: sweep_loop.simps [of now m] Let_def split: option.splits prod.splits)
qed

lemma sweep_killq_ports [simp]: "mx_local_port_set (sweep_killq now m) = mx_local_port_set m"
  by (induction now m rule: sweep_killq.induct) (subst sweep_killq.simps, simp add: Let_def)

lemma add_connection_ports [simp]:
  "mx_local_port_set (snd (add_connection now key conn m)) = mx_local_port_set m"
proof -
  obtain r m1 where a: "add_listener (get_polled_fd conn) (LConnection key (get_polled_evset conn)) (sweep_killq now m) = (r, m1)"
    by fastforce
  then show ?thesis using add_listener_core [OF a] by (cases r) (auto simp: add_connection_def Let_def)
qed

lemma handle_peer_request_ports [simp]:
  "mx_local_port_set (handle_peer_request_pkt now connected pkt m) = mx_local_port_set m"
proof (cases connected)
  case (Some strm)
  let ?h = "pk_hdr pkt"
  let ?k = "\<lparr>ck_local_port = ph_dst_port ?h, ck_peer_port = ph_src_port ?h\<rparr>"
  let ?c = "new_peer_init strm VSOCK_HOST_CID (mx_cid m) (ph_dst_port ?h) (ph_src_port ?h) (ph_buf_alloc ?h)"
  obtain r m1 where a: "add_connection now ?k ?c m = (r, m1)" by fastforce
  have "mx_local_port_set m1 = mx_local_port_set m" using add_connection_ports [of now ?k ?c m] a by simp
  then show ?thesis using Some a by (cases r) (simp_all add: handle_peer_request_pkt_def Let_def)
qed (simp add: handle_peer_request_pkt_def Let_def)

lemma muxer_send_pkt_ports:
  assumes "muxer_send_pkt now connected pkt m = Some m'"
  shows "length (mx_local_port_set m') \<le> length (mx_local_port_set m)"
  using assms remove_connection_ports
  by (auto simp: muxer_send_pkt_def Let_def dest!: mutation_ports split: if_splits)

lemma handle_event_ok:
  assumes inv: "mux_inv m" and few: "port \<noteq> None \<longrightarrow> length (mx_local_port_set m) < 2 ^ 30"
  shows "\<exists>m'. handle_event now accepted port fd ev m = Some m' \<and> mux_inv m' \<and>
    length (mx_local_port_set m') \<le> length (mx_local_port_set m) + (if port = None then 0 else 1)"
proof (cases "map_of (mx_listener_map m) fd")
  case None
  then show ?thesis using inv by (simp add: handle_event_def)
next
  case (Some l)
  show ?thesis
  proof (cases l)
    case (LConnection key evs)
    have "\<exists>r m'. apply_conn_mutation now key (\<lambda>conn. map_option (Pair ()) (conn_notify ev conn)) m = Some (r, m') \<and> mux_inv m'"
    proof (cases "map_of (mx_conn_map m) key")
      case None
      then show ?thesis using inv by (simp add: apply_conn_mutation_def)
    next
      case (Some conn)
      have e: "entry_ok {} key conn" using inv Some by (simp add: mux_inv_but_def pool_ok_def)
      obtain c' where c': "conn_notify ev conn = Some c'" "conn_ok conn c' []"
        using conn_notify_ok [of conn ev] e by (auto simp: entry_ok_def)
      have "entry_ok {} key c'"
        using entry_ok_step [OF e conn_notify_id [OF c'(1)]] c'(2) by (simp add: conn_ok_def)
      then show ?thesis
        using mutation_inv [OF inv Some, of "\<lambda>conn. map_option (Pair ()) (conn_notify ev conn)" "()" c' "{}" now] c' by auto
    qed
    then obtain r m' where r: "apply_conn_mutation now key (\<lambda>conn. map_option (Pair ()) (conn_notify ev conn)) m = Some (r, m')" "mux_inv m'"
      by blast
    then show ?thesis using Some LConnection mutation_ports [OF r(1)] by (simp add: handle_event_def)
  next
    case LHostSock
    have "mux_inv (snd (add_listener fd' l' m)) \<and> mx_local_port_set (snd (add_listener fd' l' m)) = mx_local_port_set m" for fd' l'
      using add_listener_core [of fd' l' m] core_eq_inv inv by (cases "add_listener fd' l' m") auto
    then show ?thesis using Some LHostSock inv by (simp add: handle_event_def split: option.splits)
  next
    case (LLocalStream strm)
    let ?m = "snd (remove_listener fd m)"
    have i: "mux_inv ?m" "mx_local_port_set ?m = mx_local_port_set m"
      using remove_listener_core [of fd m] core_eq_inv inv by (cases "remove_listener fd m"; auto)+
    show ?thesis
    proof (cases port)
      case None
      then show ?thesis using Some LLocalStream i by (simp add: handle_event_def Let_def)
    next
      case (Some pp)
      obtain lp m1 where a: "allocate_local_port ?m = Some (lp, m1)"
        using allocate_local_port_returns [of ?m] few i(2) Some by auto
      have i1: "mux_inv m1" "length (mx_local_port_set m1) = Suc (length (mx_local_port_set m))"
        using a i by (auto simp: allocate_local_port_def mux_inv_but_def)
      let ?c = "new_local_init strm VSOCK_HOST_CID (mx_cid m1) lp pp"
      have "entry_ok {} \<lparr>ck_local_port = lp, ck_peer_port = pp\<rparr> ?c"
        using conn_inv_new by (auto simp: entry_ok_def) (auto simp: new_local_init_def)
      then have "mux_inv (snd (add_connection now \<lparr>ck_local_port = lp, ck_peer_port = pp\<rparr> ?c m1))"
        by (rule add_connection_inv [OF i1(1)])
      then show ?thesis using \<open>map_of (mx_listener_map m) fd = Some l\<close> LLocalStream Some a i1
        by (simp add: handle_event_def Let_def)
    qed
  qed
qed

subsection \<open>Runs of the multiplexer\<close>

datatype mux_event =
    GuestSend nat "stream option" packet
  | GuestFetch nat packet
  | HostEvent nat "stream option" "u32 option" nat events

fun mux_step :: "mux_event \<Rightarrow> muxer \<Rightarrow> muxer option" where
  "mux_step (GuestSend now connected pkt) m = muxer_send_pkt now connected pkt m"
| "mux_step (GuestFetch now pkt) m = map_option (\<lambda>(_, m', _). m') (muxer_recv_pkt now m pkt)"
| "mux_step (HostEvent now accepted port fd ev) m = handle_event now accepted port fd ev m"

fun mux_run :: "mux_event list \<Rightarrow> muxer \<Rightarrow> muxer option" where
  "mux_run [] m = Some m"
| "mux_run (e # es) m = (case mux_step e m of None \<Rightarrow> None | Some m' \<Rightarrow> mux_run es m')"

fun mux_event_ok :: "mux_event \<Rightarrow> bool" where
  "mux_event_ok (GuestSend _ _ pkt) = packet_ok pkt"
| "mux_event_ok _ = True"

lemma rebuilt_rxq_inv:
  assumes "mux_inv m"
  shows "mux_inv (m\<lparr>mx_rxq := rxq_from_conn_map (mx_conn_map m)\<rparr>)"
proof -
  obtain q synced where w: "rxq_walk (mx_conn_map m) [] = (q, synced)" by fastforce
  note spec = rxq_walk_spec [OF w]
  have "synced_with \<lparr>rxq_q = q, rxq_synced = synced\<rparr> (mx_conn_map m)"
    using spec by (auto simp: synced_with_def dest: map_of_SomeD)
  then show ?thesis using assms spec w by (simp add: mux_inv_but_def rxq_from_conn_map_def rxq_len_def)
qed

lemma muxer_recv_pkt_ok:
  assumes "mux_inv m"
  shows "\<exists>res m' pkt'. muxer_recv_pkt now m pkt = Some (res, m', pkt') \<and> mux_inv m' \<and>
    length (mx_local_port_set m') \<le> length (mx_local_port_set m) \<and>
    (res = Inr () \<or> res = Inl NoData \<and> rxq_is_empty (mx_rxq m'))"
  using muxer_recv_loop_ok [OF rebuilt_rxq_inv [OF assms], of now pkt] muxer_recv_loop_ok [OF assms, of now pkt]
  by (auto simp: muxer_recv_pkt_def)

text \<open>The events in which a host client names the port it wants to be connected to.\<close>

fun host_connects :: "mux_event \<Rightarrow> bool" where
  "host_connects (HostEvent _ _ (Some _) _ _) = True"
| "host_connects _ = False"

lemma mux_step_ok:
  assumes "mux_inv m" "mux_event_ok e" "host_connects e \<longrightarrow> length (mx_local_port_set m) < 2 ^ 30"
  shows "\<exists>m'. mux_step e m = Some m' \<and> mux_inv m' \<and>
    length (mx_local_port_set m') \<le> length (mx_local_port_set m) + (if host_connects e then 1 else 0)"
proof (cases e)
  case (GuestSend now connected pkt)
  then show ?thesis using muxer_send_pkt_inv [OF assms(1), of pkt now connected] muxer_send_pkt_ports assms(2)
    by fastforce
next
  case (GuestFetch now pkt)
  then show ?thesis using muxer_recv_pkt_ok [OF assms(1), of now pkt] by auto
next
  case (HostEvent now accepted port fd ev)
  then show ?thesis using handle_event_ok [OF assms(1), of port now accepted fd ev] assms(3) by (cases port) auto
qed

lemma mux_run_ok:
  assumes "mux_inv m" "list_all mux_event_ok es"
    and "length (mx_local_port_set m) + length (filter host_connects es) \<le> 2 ^ 30"
  shows "\<exists>m'. mux_run es m = Some m' \<and> mux_inv m'"
  using assms
proof (induction es arbitrary: m)
  case (Cons e es)
  have "host_connects e \<longrightarrow> length (mx_local_port_set m) < 2 ^ 30" using Cons(4) by auto
  then obtain m1 where "mux_step e m = Some m1" "mux_inv m1"
    "length (mx_local_port_set m1) \<le> length (mx_local_port_set m) + (if host_connects e then 1 else 0)"
    using mux_step_ok [OF Cons(2), of e] Cons(3) by auto
  then show ?case using Cons(1) [of m1] Cons(3,4) by (cases "host_connects e") auto
qed simp

lemma muxer_new_inv:
  assumes "muxer_new cid fd epoll = Inr m"
  shows "mux_inv m \<and> mx_local_port_set m = []"
proof -
  let ?m = "\<lparr>mx_cid = cid, mx_conn_map = [], mx_listener_map = [], mx_rxq = rxq_new, mx_killq = killq_new,
     mx_local_port_set = [], mx_local_port_last = push_bit 30 1 - 1, mx_epoll = epoll\<rparr>"
  have i: "mux_inv ?m"
    by (simp add: mux_inv_but_def pool_ok_def synced_with_def rxq_new_def killq_new_def rxq_len_def)
  obtain r m1 where a: "add_listener fd LHostSock ?m = (r, m1)" by fastforce
  then have "m = m1" using assms by (cases r) (auto simp: muxer_new_def Let_def)
  then show ?thesis using add_listener_core [OF a] core_eq_inv i by auto
qed

text \<open>C2. No pending packet is forgotten and no operation panics or hangs, over any sequence of guest packets,
  fetches and host events from a fresh multiplexer in which host clients have asked for at most
  \<open>2 ^ 30\<close> connections, whatever the operating system answers.  (The bound is needed: the port taken for a host client
  is never given back when the connection is then refused, and when all \<open>2 ^ 30\<close> ports are taken the search
  for the next one does not end.  Packets hold as many bytes as they announce.)  The pool
  and both queues stay within their bounds, every connection is filed under its own ports, and when
  the multiplexer reports that it has nothing for the guest, no connection has anything pending, so
  the guest is always told about data that is waiting for it.\<close>

theorem muxer_run_safe:
  assumes "muxer_new cid host_fd epoll = Inr m0" "list_all mux_event_ok es" "length (filter host_connects es) \<le> 2 ^ 30"
  shows "\<exists>m. mux_run es m0 = Some m \<and>
    length (mx_conn_map m) \<le> MAX_CONNECTIONS \<and> rxq_len (mx_rxq m) \<le> MUXER_RXQ_SIZE \<and>
    length (kq_q (mx_killq m)) \<le> MUXER_KILLQ_SIZE \<and>
    (\<forall>k c. map_of (mx_conn_map m) k = Some c \<longrightarrow>
       vc_local_port c = ck_local_port k \<and> vc_peer_port c = ck_peer_port k \<and>
       (\<not> muxer_has_pending_rx m \<longrightarrow> \<not> has_pending_rx c))"
proof -
  have "mux_inv m0" "mx_local_port_set m0 = []" using muxer_new_inv [OF assms(1)] by auto
  then obtain m where m: "mux_run es m0 = Some m" "mux_inv m"
    using mux_run_ok [of m0 es] assms(2,3) by auto
  have "\<not> has_pending_rx c" if "map_of (mx_conn_map m) k = Some c" "\<not> muxer_has_pending_rx m" for k c
    using m(2) that by (auto simp: mux_inv_but_def synced_with_def muxer_has_pending_rx_def rxq_is_empty_def rxq_len_def)
  then show ?thesis using m by (auto simp: mux_inv_but_def pool_ok_def entry_ok_def)
qed

definition demo_muxer :: muxer where
  "demo_muxer = \<lparr>mx_cid = 3, mx_conn_map = [], mx_listener_map = [(4, LHostSock)], mx_rxq = rxq_new,
     mx_killq = killq_new, mx_local_port_set = [], mx_local_port_last = push_bit 30 1 - 1, mx_epoll = []\<rparr>"

lemma demo_muxer_new: "muxer_new 3 4 [] = Inr demo_muxer"
  by (simp add: muxer_new_def demo_muxer_def add_listener_def epoll_ctl_def)

theorem muxer_run_safe_witness:
  "\<exists>m. mux_run [GuestSend 0 (Some demo_stream) (demo_packet VSOCK_OP_REQUEST []), GuestFetch 1 (demo_packet 0 [])]
      demo_muxer = Some m \<and> length (mx_conn_map m) \<le> MAX_CONNECTIONS"
  using muxer_run_safe [OF demo_muxer_new, of
      "[GuestSend 0 (Some demo_stream) (demo_packet VSOCK_OP_REQUEST []), GuestFetch 1 (demo_packet 0 [])]"]
  by (auto simp: packet_ok_def demo_packet_def)

theorem allocate_local_port_fresh_witness:
  "\<exists>port m'. allocate_local_port demo_muxer = Some (port, m') \<and> 2 ^ 30 \<le> unat port \<and>
    set (mx_local_port_set m') = {port}"
  using allocate_local_port_fresh [of demo_muxer] by (auto simp: demo_muxer_def)

text \<open>C21. A fetch always returns: in every reachable state the loop over the RX queue ends, although
  connections may fail to yield a packet, be killed by a failing \<open>epoll_ctl\<close> and be queued again
  meanwhile; it yields a packet, or it reports that there is no data, and then the queue is empty
  and, if it is in sync, no connection had anything left to say.\<close>

theorem muxer_fetch_returns:
  assumes "muxer_new cid host_fd epoll = Inr m0" "list_all mux_event_ok es" "length es < 2 ^ 30"
    and "mux_run es m0 = Some m"
  shows "\<exists>res m' pkt'. muxer_recv_pkt now m pkt = Some (res, m', pkt') \<and>
    (res = Inr () \<or> res = Inl NoData \<and> rxq_is_empty (mx_rxq m') \<and>
      (rxq_synced (mx_rxq m') \<longrightarrow> (\<forall>k c. map_of (mx_conn_map m') k = Some c \<longrightarrow> \<not> has_pending_rx c)))"
proof -
  have "mux_inv m0" "mx_local_port_set m0 = []" using muxer_new_inv [OF assms(1)] by auto
  moreover have "length (filter host_connects es) \<le> 2 ^ 30" using assms(3) length_filter_le [of host_connects es] by linarith
  ultimately have "mux_inv m" using mux_run_ok [of m0 es] assms(2,4) by auto
  from muxer_recv_pkt_ok [OF this, of now pkt] show ?thesis
    by (fastforce simp: mux_inv_but_def synced_with_def rxq_is_empty_def rxq_len_def)
qed

theorem muxer_fetch_returns_witness:
  "\<exists>res m' pkt'. muxer_recv_pkt 5 demo_muxer (demo_packet 0 []) = Some (res, m', pkt') \<and>
    (res = Inr () \<or> res = Inl NoData)"
  using muxer_fetch_returns [OF demo_muxer_new, of "[]" demo_muxer 5 "demo_packet 0 []"] by auto




lemma epoll_ctl_listeners [simp]: "fst (epoll_ctl (m\<lparr>mx_listener_map := l\<rparr>)) = fst (epoll_ctl m)"
  by (simp add: epoll_ctl_def split: list.splits)





lemma kill_kill [simp]: "kill (kill c) = kill c"
proof -
  have "prx_insert Rst (prx_insert Rst s) = prx_insert Rst s" for s by (simp add: prx_insert_def)
  then show ?thesis by (simp add: kill_def pend_def)
qed







end
