(* ===== verification/Pci_Msix.thy ===== *)
theory Pci_Msix
  imports Byte_Order
begin

text \<open>
  MSI-X, \<^verbatim>\<open>pci/src/msix.rs\<close>: the vector table, the pending bit array (PBA), the message control
  register and the capability structure, and the interrupt path of the virtio PCI transport that
  uses them (\<open>VirtioInterruptMsix\<close> in \<^verbatim>\<open>virtio-devices/src/transport/pci_device.rs\<close>).
  The interrupt source group is a trait object; its calls are recorded in order in the field \<open>isg\<close>,
  and where the code looks at a result, the outcome of a call is a parameter.  A failing assertion
  and an index out of range, which panic in the source, are \<open>None\<close>.  \<open>msix_no_lost_interrupt\<close>
  follows every requested interrupt through arbitrary sequences of guest accesses.
\<close>

subsection \<open>Constants and data\<close>

definition MAX_MSIX_VECTORS_PER_DEVICE :: u16 where "MAX_MSIX_VECTORS_PER_DEVICE = 2048"
definition MSIX_TABLE_ENTRIES_MODULO :: u64 where "MSIX_TABLE_ENTRIES_MODULO = 16"
definition MSIX_PBA_ENTRIES_MODULO :: u64 where "MSIX_PBA_ENTRIES_MODULO = 8"
definition BITS_PER_PBA_ENTRY :: nat where "BITS_PER_PBA_ENTRY = 64"
definition FUNCTION_MASK_BIT :: nat where "FUNCTION_MASK_BIT = 14"
definition MSIX_ENABLE_BIT :: nat where "MSIX_ENABLE_BIT = 15"
definition FUNCTION_MASK_MASK :: u16 where "FUNCTION_MASK_MASK = push_bit FUNCTION_MASK_BIT 1"
definition MSIX_ENABLE_MASK :: u16 where "MSIX_ENABLE_MASK = push_bit MSIX_ENABLE_BIT 1"
definition VIRTQ_MSI_NO_VECTOR :: u16 where "VIRTQ_MSI_NO_VECTOR = 0xffff"

lemmas msix_const_defs = MAX_MSIX_VECTORS_PER_DEVICE_def MSIX_TABLE_ENTRIES_MODULO_def
  MSIX_PBA_ENTRIES_MODULO_def BITS_PER_PBA_ENTRY_def FUNCTION_MASK_BIT_def MSIX_ENABLE_BIT_def
  FUNCTION_MASK_MASK_def MSIX_ENABLE_MASK_def

datatype msix_error = EnableInterruptRoute | UpdateInterruptRoute

record msix_table_entry =
  msg_addr_lo :: u32
  msg_addr_hi :: u32
  msg_data :: u32
  vector_ctl :: u32

definition entry_masked :: "msix_table_entry \<Rightarrow> bool" where
  "entry_masked e \<longleftrightarrow> vector_ctl e AND 1 = 1"

definition default_entry :: msix_table_entry where
  "default_entry = \<lparr>msg_addr_lo = 0, msg_addr_hi = 0, msg_data = 0, vector_ctl = 1\<rparr>"

record msi_irq_source_config =
  high_addr :: u32
  low_addr :: u32
  msi_data :: u32
  msi_devid :: u32

datatype isg_call =
    IsgUpdate nat msi_irq_source_config bool
  | IsgEnable
  | IsgDisable
  | IsgTrigger nat

record msix_config_state =
  st_table_entries :: "msix_table_entry list"
  st_pba_entries :: "u64 list"
  st_masked :: bool
  st_enabled :: bool

record msix_config =
  table_entries :: "msix_table_entry list"
  pba_entries :: "u64 list"
  devid :: u32
  isg :: "isg_call list"
  mc_masked :: bool
  mc_enabled :: bool

subsection \<open>Configuration object\<close>

definition msix_new :: "u16 \<Rightarrow> isg_call list \<Rightarrow> u32 \<Rightarrow> msix_config option" where
  "msix_new msix_vectors grp dev =
     (if msix_vectors \<le> MAX_MSIX_VECTORS_PER_DEVICE then
        let num_pba_entries = unat msix_vectors div BITS_PER_PBA_ENTRY + 1
        in Some \<lparr>table_entries = replicate (unat msix_vectors) default_entry,
                 pba_entries = replicate num_pba_entries 0, devid = dev, isg = grp,
                 mc_masked = True, mc_enabled = False\<rparr>
      else None)"

definition msix_state :: "msix_config \<Rightarrow> msix_config_state" where
  "msix_state m = \<lparr>st_table_entries = table_entries m, st_pba_entries = pba_entries m,
                   st_masked = mc_masked m, st_enabled = mc_enabled m\<rparr>"

definition entry_config :: "u32 \<Rightarrow> msix_table_entry \<Rightarrow> msi_irq_source_config" where
  "entry_config dev e = \<lparr>high_addr = msg_addr_hi e, low_addr = msg_addr_lo e,
                         msi_data = msg_data e, msi_devid = dev\<rparr>"

definition isg_do :: "isg_call \<Rightarrow> msix_config \<Rightarrow> msix_config" where
  "isg_do k m = m\<lparr>isg := isg m @ [k]\<rparr>"

fun set_state_loop :: "(isg_call \<Rightarrow> bool) \<Rightarrow> nat \<Rightarrow> msix_table_entry list \<Rightarrow> msix_config \<Rightarrow>
    msix_config \<times> (msix_error + unit)" where
  "set_state_loop ok idx [] m = (m, Inr ())"
| "set_state_loop ok idx (e # es) m =
     (if entry_masked e then set_state_loop ok (Suc idx) es m
      else
        let up = IsgUpdate idx (entry_config (devid m) e) (mc_masked m);
            m1 = isg_do up m
        in if \<not> ok up then (m1, Inl UpdateInterruptRoute)
           else let m2 = isg_do IsgEnable m1
                in if \<not> ok IsgEnable then (m2, Inl EnableInterruptRoute)
                   else set_state_loop ok (Suc idx) es m2)"

definition set_state :: "(isg_call \<Rightarrow> bool) \<Rightarrow> msix_config_state \<Rightarrow> msix_config \<Rightarrow>
    msix_config \<times> (msix_error + unit)" where
  "set_state ok s m =
     (let m1 = m\<lparr>table_entries := st_table_entries s, pba_entries := st_pba_entries s,
                 mc_masked := st_masked s, mc_enabled := st_enabled s\<rparr>
      in if mc_enabled m1 \<and> \<not> mc_masked m1 then set_state_loop ok 0 (table_entries m1) m1
         else (m1, Inr ()))"

definition set_pba_bit :: "u16 \<Rightarrow> bool \<Rightarrow> msix_config \<Rightarrow> msix_config option" where
  "set_pba_bit vector reset m =
     (if \<not> vector < MAX_MSIX_VECTORS_PER_DEVICE then None
      else
        let index = unat vector div BITS_PER_PBA_ENTRY;
            shift = unat vector mod BITS_PER_PBA_ENTRY;
            mask = push_bit shift 1
        in if \<not> index < length (pba_entries m) then None
           else if reset then
             Some (m\<lparr>pba_entries := (pba_entries m)[index := pba_entries m ! index AND NOT mask]\<rparr>)
           else
             Some (m\<lparr>pba_entries := (pba_entries m)[index := pba_entries m ! index OR mask]\<rparr>))"

definition get_pba_bit :: "u16 \<Rightarrow> msix_config \<Rightarrow> u8 option" where
  "get_pba_bit vector m =
     (if \<not> vector < MAX_MSIX_VECTORS_PER_DEVICE then None
      else
        let index = unat vector div BITS_PER_PBA_ENTRY;
            shift = unat vector mod BITS_PER_PBA_ENTRY
        in if \<not> index < length (pba_entries m) then None
           else Some (ucast (drop_bit shift (pba_entries m ! index) AND 1)))"

definition inject_msix_and_clear_pba :: "nat \<Rightarrow> msix_config \<Rightarrow> msix_config option" where
  "inject_msix_and_clear_pba vector m =
     set_pba_bit (of_nat vector) True (isg_do (IsgTrigger vector) m)"

fun update_routes :: "nat \<Rightarrow> msix_table_entry list \<Rightarrow> msix_config \<Rightarrow> msix_config" where
  "update_routes idx [] m = m"
| "update_routes idx (e # es) m =
     update_routes (Suc idx) es
       (isg_do (IsgUpdate idx (entry_config (devid m) e) (entry_masked e)) m)"

fun inject_pending :: "nat \<Rightarrow> msix_table_entry list \<Rightarrow> msix_config \<Rightarrow> msix_config option" where
  "inject_pending index [] m = Some m"
| "inject_pending index (e # es) m =
     (if entry_masked e then inject_pending (Suc index) es m
      else case get_pba_bit (of_nat index) m of
        None \<Rightarrow> None
      | Some b \<Rightarrow>
          if b = 1 then
            case inject_msix_and_clear_pba index m of
              None \<Rightarrow> None
            | Some m1 \<Rightarrow> inject_pending (Suc index) es m1
          else inject_pending (Suc index) es m)"

definition set_msg_ctl :: "u16 \<Rightarrow> msix_config \<Rightarrow> msix_config option" where
  "set_msg_ctl reg m =
     (let old_masked = mc_masked m;
          old_enabled = mc_enabled m;
          m1 = m\<lparr>mc_masked := (drop_bit FUNCTION_MASK_BIT reg AND 1 = 1),
                 mc_enabled := (drop_bit MSIX_ENABLE_BIT reg AND 1 = 1)\<rparr>;
          m2 = (if old_masked \<noteq> mc_masked m1 \<or> old_enabled \<noteq> mc_enabled m1 then
                  if mc_enabled m1 \<and> \<not> mc_masked m1 then update_routes 0 (table_entries m1) m1
                  else if old_enabled \<or> \<not> old_masked then isg_do IsgDisable m1
                  else m1
                else m1)
      in if old_masked \<and> \<not> mc_masked m2 then inject_pending 0 (table_entries m2) m2 else Some m2)"

subsection \<open>Guest accesses to the table and the PBA\<close>

definition read_entry :: "le_codec \<Rightarrow> nat \<Rightarrow> u64 \<Rightarrow> msix_table_entry \<Rightarrow> u8 list option" where
  "read_entry c len modulo_offset e =
     (if len = 4 then
        if modulo_offset = 0 then Some (enc_u32 c (msg_addr_lo e))
        else if modulo_offset = 4 then Some (enc_u32 c (msg_addr_hi e))
        else if modulo_offset = 8 then Some (enc_u32 c (msg_data e))
        else if modulo_offset = 0xc then Some (enc_u32 c (vector_ctl e))
        else None
      else
        if modulo_offset = 0 then
          Some (enc_u64 c (push_bit 32 (ucast (msg_addr_hi e)) OR ucast (msg_addr_lo e)))
        else if modulo_offset = 8 then
          Some (enc_u64 c (push_bit 32 (ucast (vector_ctl e)) OR ucast (msg_data e)))
        else None)"

definition valid_table_offset :: "nat \<Rightarrow> u64 \<Rightarrow> bool" where
  "valid_table_offset len modulo_offset \<longleftrightarrow>
     (if len = 4 then modulo_offset \<in> {0, 4, 8, 0xc} else modulo_offset \<in> {0, 8})"

definition read_table :: "le_codec \<Rightarrow> msix_config \<Rightarrow> u64 \<Rightarrow> nat \<Rightarrow> u8 list option" where
  "read_table c m off len =
     (if \<not> (len = 4 \<or> len = 8) then None
      else
        let index = unat (off div MSIX_TABLE_ENTRIES_MODULO);
            modulo_offset = off mod MSIX_TABLE_ENTRIES_MODULO
        in if \<not> valid_table_offset len modulo_offset then
             Some (if len = 4 then enc_u32 c 0 else enc_u64 c 0)
           else if \<not> index < length (table_entries m) then None
           else read_entry c len modulo_offset (table_entries m ! index))"

definition write_entry :: "le_codec \<Rightarrow> u64 \<Rightarrow> u8 list \<Rightarrow> msix_table_entry \<Rightarrow> msix_table_entry" where
  "write_entry c modulo_offset data e =
     (if length data = 4 then
        let value = read_u32 c data
        in if modulo_offset = 0 then e\<lparr>msg_addr_lo := value\<rparr>
           else if modulo_offset = 4 then e\<lparr>msg_addr_hi := value\<rparr>
           else if modulo_offset = 8 then e\<lparr>msg_data := value\<rparr>
           else e\<lparr>vector_ctl := value\<rparr>
      else
        let value = read_u64 c data
        in if modulo_offset = 0 then
             e\<lparr>msg_addr_lo := ucast (value AND 0xffffffff), msg_addr_hi := ucast (drop_bit 32 value)\<rparr>
           else
             e\<lparr>msg_data := ucast (value AND 0xffffffff), vector_ctl := ucast (drop_bit 32 value)\<rparr>)"

text \<open>The arms that write the vector control word remember the entry from before the write.\<close>

definition touches_vector_ctl :: "nat \<Rightarrow> u64 \<Rightarrow> bool" where
  "touches_vector_ctl len modulo_offset \<longleftrightarrow>
     (if len = 4 then modulo_offset = 0xc else modulo_offset = 8)"

definition write_table :: "le_codec \<Rightarrow> u64 \<Rightarrow> u8 list \<Rightarrow> msix_config \<Rightarrow> msix_config option" where
  "write_table c off data m =
     (if \<not> (length data = 4 \<or> length data = 8) then None
      else
        let index = unat (off div MSIX_TABLE_ENTRIES_MODULO);
            modulo_offset = off mod MSIX_TABLE_ENTRIES_MODULO;
            valid = valid_table_offset (length data) modulo_offset
        in if (valid \<or> mc_enabled m \<and> \<not> mc_masked m) \<and> \<not> index < length (table_entries m) then None
           else
             let old_entry = (if valid \<and> touches_vector_ctl (length data) modulo_offset
                              then Some (table_entries m ! index) else None);
                 m1 = (if valid then
                         m\<lparr>table_entries := (table_entries m)
                             [index := write_entry c modulo_offset data (table_entries m ! index)]\<rparr>
                       else m);
                 m2 = (if mc_enabled m1 \<and> \<not> mc_masked m1 then
                         isg_do (IsgUpdate index (entry_config (devid m1) (table_entries m1 ! index))
                                  (entry_masked (table_entries m1 ! index))) m1
                       else m1)
             in case old_entry of
                  None \<Rightarrow> Some m2
                | Some old \<Rightarrow>
                    if \<not> mc_masked m2 \<and> entry_masked old \<and> \<not> entry_masked (table_entries m2 ! index)
                    then case get_pba_bit (of_nat index) m2 of
                        None \<Rightarrow> None
                      | Some b \<Rightarrow> if b = 1 then inject_msix_and_clear_pba index m2 else Some m2
                    else Some m2)"

definition read_pba :: "le_codec \<Rightarrow> msix_config \<Rightarrow> u64 \<Rightarrow> nat \<Rightarrow> u8 list option" where
  "read_pba c m off len =
     (if \<not> (len = 4 \<or> len = 8) then None
      else
        let index = unat (off div MSIX_PBA_ENTRIES_MODULO);
            modulo_offset = off mod MSIX_PBA_ENTRIES_MODULO
        in if len = 4 then
             if modulo_offset = 0 \<or> modulo_offset = 4 then
               if \<not> index < length (pba_entries m) then None
               else if modulo_offset = 0 then Some (enc_u32 c (ucast (pba_entries m ! index AND 0xffffffff)))
               else Some (enc_u32 c (ucast (drop_bit 32 (pba_entries m ! index))))
             else Some (enc_u32 c 0)
           else if modulo_offset = 0 then
             if \<not> index < length (pba_entries m) then None
             else Some (enc_u64 c (pba_entries m ! index))
           else Some (enc_u64 c 0))"

definition write_pba :: "u64 \<Rightarrow> u8 list \<Rightarrow> msix_config \<Rightarrow> msix_config" where
  "write_pba off data m = m"

subsection \<open>The capability structure\<close>

record msix_cap =
  cap_msg_ctl :: u16
  cap_table :: u32
  cap_pba :: u32

definition msix_cap_new :: "u8 \<Rightarrow> u16 \<Rightarrow> u32 \<Rightarrow> u8 \<Rightarrow> u32 \<Rightarrow> msix_cap option" where
  "msix_cap_new table_pci_bar sz table_off pba_pci_bar pba_off =
     (if \<not> sz < MAX_MSIX_VECTORS_PER_DEVICE then None
      else Some \<lparr>cap_msg_ctl = 0x8000 + sz - 1,
                 cap_table = (table_off AND 0xfffffff8) OR ucast (table_pci_bar AND 7),
                 cap_pba = (pba_off AND 0xfffffff8) OR ucast (pba_pci_bar AND 7)\<rparr>)"

definition cap_set_msg_ctl :: "u16 \<Rightarrow> msix_cap \<Rightarrow> msix_cap" where
  "cap_set_msg_ctl data k =
     k\<lparr>cap_msg_ctl := (cap_msg_ctl k AND NOT (FUNCTION_MASK_MASK OR MSIX_ENABLE_MASK)) OR
                      (data AND (FUNCTION_MASK_MASK OR MSIX_ENABLE_MASK))\<rparr>"

definition cap_masked :: "msix_cap \<Rightarrow> bool" where
  "cap_masked k \<longleftrightarrow> drop_bit FUNCTION_MASK_BIT (cap_msg_ctl k) AND 1 = 1"
definition cap_enabled :: "msix_cap \<Rightarrow> bool" where
  "cap_enabled k \<longleftrightarrow> drop_bit MSIX_ENABLE_BIT (cap_msg_ctl k) AND 1 = 1"
definition table_offset :: "msix_cap \<Rightarrow> u32" where
  "table_offset k = cap_table k AND 0xfffffff8"
definition pba_offset :: "msix_cap \<Rightarrow> u32" where
  "pba_offset k = cap_pba k AND 0xfffffff8"
definition table_bir :: "msix_cap \<Rightarrow> u32" where
  "table_bir k = cap_table k AND 7"
definition pba_bir :: "msix_cap \<Rightarrow> u32" where
  "pba_bir k = cap_pba k AND 7"
definition table_size :: "msix_cap \<Rightarrow> u16" where
  "table_size k = (cap_msg_ctl k AND 0x7ff) + 1"
definition table_range :: "msix_cap \<Rightarrow> u64 \<times> u64" where
  "table_range k = (ucast (table_offset k), ucast (table_size k) * 16)"
definition pba_range :: "msix_cap \<Rightarrow> u64 \<times> u64" where
  "pba_range k = (ucast (pba_offset k), (ucast (table_size k) div 64 + 1) * 8)"

subsection \<open>Raising interrupts\<close>

datatype virtio_interrupt_type = Config | Queue u16

definition virtio_msix_trigger :: "u16 \<Rightarrow> u16 list \<Rightarrow> virtio_interrupt_type \<Rightarrow> msix_config \<Rightarrow>
    msix_config option" where
  "virtio_msix_trigger config_vector queues_vectors int_type m =
     (let vector = (case int_type of
           Config \<Rightarrow> Some config_vector
         | Queue q \<Rightarrow> if unat q < length queues_vectors then Some (queues_vectors ! unat q) else None)
      in case vector of
           None \<Rightarrow> None
         | Some v \<Rightarrow>
             if v = VIRTQ_MSI_NO_VECTOR then Some m
             else if \<not> unat v < length (table_entries m) then None
             else if mc_masked m \<or> entry_masked (table_entries m ! unat v) then set_pba_bit v False m
             else Some (isg_do (IsgTrigger (unat v)) m))"


subsection \<open>Pending bits\<close>

definition pending :: "msix_config \<Rightarrow> nat \<Rightarrow> bool" where
  "pending m v \<longleftrightarrow> bit (pba_entries m ! (v div 64)) (v mod 64)"

definition deliverable :: "msix_config \<Rightarrow> nat \<Rightarrow> bool" where
  "deliverable m v \<longleftrightarrow> \<not> mc_masked m \<and> \<not> entry_masked (table_entries m ! v)"

definition msix_shape :: "nat \<Rightarrow> msix_config \<Rightarrow> bool" where
  "msix_shape n m \<longleftrightarrow> length (table_entries m) = n \<and> n \<le> 2048 \<and> n div 64 < length (pba_entries m)"

definition nothing_stuck :: "msix_config \<Rightarrow> bool" where
  "nothing_stuck m \<longleftrightarrow> (\<forall>v < length (table_entries m). deliverable m v \<longrightarrow> \<not> pending m v)"

lemma word_of_nat_unat_self: "(of_nat (unat w) :: 'a::len word) = w"
  by simp

lemma msix_shapeD:
  assumes "msix_shape n m" "v < n"
  shows "v div 64 < length (pba_entries m)" "v < 2048" "unat (of_nat v :: u16) = v"
    "(of_nat v :: u16) < MAX_MSIX_VECTORS_PER_DEVICE"
proof -
  show v: "v < 2048" using assms by (simp add: msix_shape_def)
  have "v div 64 \<le> n div 64" using assms by (simp add: div_le_mono)
  then show "v div 64 < length (pba_entries m)" using assms by (simp add: msix_shape_def)
  show u: "unat (of_nat v :: u16) = v" using v by (simp add: unat_of_nat_small)
  show "(of_nat v :: u16) < MAX_MSIX_VECTORS_PER_DEVICE"
    using u v by (simp add: word_less_nat_alt MAX_MSIX_VECTORS_PER_DEVICE_def)
qed

lemma get_pba_bit_eq:
  assumes "msix_shape n m" "v < n"
  shows "get_pba_bit (of_nat v) m = Some (if pending m v then 1 else 0)"
proof -
  have "drop_bit k a AND 1 = (if bit a k then 1 else 0)" for k and a :: u64
    by (auto intro!: bit_word_eqI simp: bit_simps)
  then show ?thesis using msix_shapeD [OF assms]
    by (simp add: get_pba_bit_def pending_def BITS_PER_PBA_ENTRY_def)
qed

lemma set_pba_bit_eq:
  assumes "msix_shape n m" "v < n"
  obtains p where "set_pba_bit (of_nat v) reset m = Some (m\<lparr>pba_entries := p\<rparr>)"
    "length p = length (pba_entries m)"
    "\<forall>w. pending (m\<lparr>pba_entries := p\<rparr>) w = (if w = v then \<not> reset else pending m w)"
proof -
  note s = msix_shapeD [OF assms]
  let ?x = "pba_entries m ! (v div 64)" and ?mask = "push_bit (v mod 64) 1 :: u64"
  let ?p = "(pba_entries m)[v div 64 := if reset then ?x AND NOT ?mask else ?x OR ?mask]"
  have b: "bit (if reset then ?x AND NOT ?mask else ?x OR ?mask) k =
      (if k = v mod 64 then \<not> reset else bit ?x k)" if "k < 64" for k
    using that by (auto simp: bit_simps)
  have "pending (m\<lparr>pba_entries := ?p\<rparr>) w = (if w = v then \<not> reset else pending m w)" for w
  proof (cases "w div 64 = v div 64")
    case True
    then have "w = v \<longleftrightarrow> w mod 64 = v mod 64" by (metis div_mult_mod_eq)
    then show ?thesis using True s b [of "w mod 64"] by (auto simp: pending_def)
  next
    case False
    then show ?thesis by (auto simp: pending_def nth_list_update_neq)
  qed
  moreover have "set_pba_bit (of_nat v) reset m = Some (m\<lparr>pba_entries := ?p\<rparr>)"
    using s by (simp add: set_pba_bit_def BITS_PER_PBA_ENTRY_def Let_def)
  ultimately show thesis using that by simp
qed

subsection \<open>Following the requests\<close>

datatype msix_event = Requested nat | Called isg_call

text \<open>A vector is owed an interrupt when one was requested and no message was sent since.\<close>

definition owed_step :: "nat \<Rightarrow> msix_event \<Rightarrow> bool \<Rightarrow> bool" where
  "owed_step v ev b = (case ev of
      Requested w \<Rightarrow> w = v \<or> b
    | Called k \<Rightarrow> b \<and> k \<noteq> IsgTrigger v)"

definition owed :: "nat \<Rightarrow> msix_event list \<Rightarrow> bool" where
  "owed v tr = fold (owed_step v) tr False"

lemma owed_simps [simp]:
  "owed v [] = False" "owed v (tr @ [ev]) = owed_step v ev (owed v tr)"
  by (simp_all add: owed_def)

datatype msix_op =
    TableWrite u64 "u8 list"
  | PbaWrite u64 "u8 list"
  | MsgCtl u16
  | Raise u16 "u16 list" virtio_interrupt_type

definition requested_vector :: "msix_op \<Rightarrow> nat option" where
  "requested_vector op = (case op of
      Raise config_vector queues_vectors int_type \<Rightarrow>
        let v = (case int_type of Config \<Rightarrow> config_vector | Queue q \<Rightarrow> queues_vectors ! unat q)
        in if v = VIRTQ_MSI_NO_VECTOR then None else Some (unat v)
    | _ \<Rightarrow> None)"

definition msix_step :: "le_codec \<Rightarrow> msix_op \<Rightarrow> msix_config \<Rightarrow> msix_config option" where
  "msix_step c op m = (case op of
      TableWrite off data \<Rightarrow> write_table c off data m
    | PbaWrite off data \<Rightarrow> Some (write_pba off data m)
    | MsgCtl reg \<Rightarrow> set_msg_ctl reg m
    | Raise config_vector queues_vectors int_type \<Rightarrow>
        virtio_msix_trigger config_vector queues_vectors int_type m)"

text \<open>The trace of a run: the requests of the device and the calls to the interrupt source group.\<close>

definition step_events :: "msix_op \<Rightarrow> msix_config \<Rightarrow> msix_config \<Rightarrow> msix_event list" where
  "step_events op m m' =
     (case requested_vector op of None \<Rightarrow> [] | Some v \<Rightarrow> [Requested v]) @
     map Called (drop (length (isg m)) (isg m'))"

fun msix_run :: "le_codec \<Rightarrow> msix_op list \<Rightarrow> msix_config \<times> msix_event list \<Rightarrow>
    (msix_config \<times> msix_event list) option" where
  "msix_run c [] (m, tr) = Some (m, tr)"
| "msix_run c (op # ops) (m, tr) =
     (case msix_step c op m of
        None \<Rightarrow> None
      | Some m' \<Rightarrow> msix_run c ops (m', tr @ step_events op m m'))"

subsection \<open>Every operation sends exactly the messages whose pending bits it clears\<close>

definition clears :: "nat \<Rightarrow> msix_config \<Rightarrow> msix_config \<Rightarrow> bool" where
  "clears n m m' \<longleftrightarrow> msix_shape n m \<and> msix_shape n m' \<and> (\<forall>v < n. pending m' v \<longrightarrow> pending m v) \<and>
     (\<exists>ks. isg m' = isg m @ ks \<and>
       (\<forall>v. count_list ks (IsgTrigger v) = (if v < n \<and> pending m v \<and> \<not> pending m' v then 1 else 0)))"

lemma clears_refl: "msix_shape n m \<Longrightarrow> clears n m m"
  by (simp add: clears_def)

lemma clears_trans:
  assumes "clears n a b" "clears n b d"
  shows "clears n a d"
proof -
  obtain ks where k: "isg b = isg a @ ks"
    "\<And>v. count_list ks (IsgTrigger v) = (if v < n \<and> pending a v \<and> \<not> pending b v then 1 else 0)"
    using assms(1) by (auto simp: clears_def)
  obtain ls where l: "isg d = isg b @ ls"
    "\<And>v. count_list ls (IsgTrigger v) = (if v < n \<and> pending b v \<and> \<not> pending d v then 1 else 0)"
    using assms(2) by (auto simp: clears_def)
  have mono: "v < n \<Longrightarrow> pending b v \<Longrightarrow> pending a v" "v < n \<Longrightarrow> pending d v \<Longrightarrow> pending b v" for v
    using assms by (auto simp: clears_def)
  have "isg d = isg a @ (ks @ ls)" using k l by simp
  moreover have "count_list (ks @ ls) (IsgTrigger v) =
      (if v < n \<and> pending a v \<and> \<not> pending d v then 1 else 0)" for v
    using mono [of v] by (auto simp: k l)
  ultimately show ?thesis using assms unfolding clears_def by blast
qed

lemma clears_call:
  assumes "msix_shape n m" "\<forall>v. k \<noteq> IsgTrigger v"
  shows "clears n m (isg_do k m)"
  using assms by (auto simp: clears_def isg_do_def msix_shape_def pending_def)

lemma clears_frame:
  assumes "msix_shape n m" "pba_entries m' = pba_entries m" "isg m' = isg m"
    "length (table_entries m') = length (table_entries m)"
  shows "clears n m m'"
  using assms by (auto simp: clears_def msix_shape_def pending_def)

lemma inject_msix_and_clear_pba_ok:
  assumes "msix_shape n m" "v < n" "pending m v"
  obtains m' where "inject_msix_and_clear_pba v m = Some m'" "clears n m m'"
    "table_entries m' = table_entries m" "mc_masked m' = mc_masked m"
    "mc_enabled m' = mc_enabled m" "devid m' = devid m" "\<not> pending m' v"
proof -
  let ?t = "isg_do (IsgTrigger v) m"
  have sh: "msix_shape n ?t" using assms by (simp add: isg_do_def msix_shape_def)
  obtain p where p: "set_pba_bit (of_nat v) True ?t = Some (?t\<lparr>pba_entries := p\<rparr>)"
    "length p = length (pba_entries ?t)"
    "\<forall>w. pending (?t\<lparr>pba_entries := p\<rparr>) w = (if w = v then \<not> True else pending ?t w)"
    by (rule set_pba_bit_eq [OF sh assms(2), where reset = True])
  have t: "pending ?t w = pending m w" for w by (simp add: isg_do_def pending_def)
  have "clears n m (?t\<lparr>pba_entries := p\<rparr>)"
    using assms p(2) sh unfolding clears_def p(3) [rule_format] t by (auto simp: msix_shape_def isg_do_def)
  then show thesis
    using that p by (simp add: inject_msix_and_clear_pba_def isg_do_def)
qed

lemma inject_pending_ok:
  assumes "msix_shape n m" "es = drop i (table_entries m)"
  shows "\<exists>m'. inject_pending i es m = Some m' \<and> clears n m m' \<and> table_entries m' = table_entries m \<and>
    mc_masked m' = mc_masked m \<and> mc_enabled m' = mc_enabled m \<and>
    (\<forall>v. i \<le> v \<and> v < n \<and> \<not> entry_masked (table_entries m ! v) \<longrightarrow> \<not> pending m' v)"
  using assms
proof (induction es arbitrary: i m)
  case Nil
  then show ?case by (auto simp: clears_refl msix_shape_def)
next
  case (Cons e es)
  from Cons.prems(2) have i: "i < n" "e = table_entries m ! i" "es = drop (Suc i) (table_entries m)"
    using Cons.prems(1) by (auto simp: msix_shape_def drop_Suc nth_via_drop tl_drop)
      (metis drop_all leI list.distinct(1) , metis nth_via_drop, metis list.sel(3) tl_drop)
  note bit = get_pba_bit_eq [OF Cons.prems(1) i(1)]
  show ?case
  proof (cases "\<not> entry_masked e \<and> pending m i")
    case True
    then obtain m1 where m1: "inject_msix_and_clear_pba i m = Some m1" "clears n m m1"
      "table_entries m1 = table_entries m" "mc_masked m1 = mc_masked m" "mc_enabled m1 = mc_enabled m"
      "\<not> pending m1 i"
      using inject_msix_and_clear_pba_ok [OF Cons.prems(1) i(1)] by metis
    have sh: "msix_shape n m1" using m1(2) by (simp add: clears_def)
    obtain m' where m': "inject_pending (Suc i) es m1 = Some m'" "clears n m1 m'"
      "table_entries m' = table_entries m1" "mc_masked m' = mc_masked m1" "mc_enabled m' = mc_enabled m1"
      "\<And>v. Suc i \<le> v \<and> v < n \<and> \<not> entry_masked (table_entries m1 ! v) \<Longrightarrow> \<not> pending m' v"
      using Cons.IH [OF sh] i(3) m1(3) by metis
    have "\<not> pending m' i" using m'(2) m1(6) i(1) by (auto simp: clears_def)
    then have "\<not> pending m' v" if "i \<le> v" "v < n" "\<not> entry_masked (table_entries m ! v)" for v
      using m'(6) [of v] m1(3) that by (cases "v = i") auto
    then show ?thesis
      using True bit m1 m' clears_trans [OF m1(2) m'(2)] by auto
  next
    case False
    obtain m' where m': "inject_pending (Suc i) es m = Some m'" "clears n m m'"
      "table_entries m' = table_entries m" "mc_masked m' = mc_masked m" "mc_enabled m' = mc_enabled m"
      "\<And>v. Suc i \<le> v \<and> v < n \<and> \<not> entry_masked (table_entries m ! v) \<Longrightarrow> \<not> pending m' v"
      using Cons.IH [OF Cons.prems(1) i(3)] by metis
    have "\<not> pending m' v" if "i \<le> v" "v < n" "\<not> entry_masked (table_entries m ! v)" for v
      using m'(2,6) False i that by (cases "v = i") (auto simp: clears_def)
    then show ?thesis using False bit m' by auto
  qed
qed

lemma update_routes_ok:
  assumes "msix_shape n m"
  shows "clears n m (update_routes i es m) \<and> table_entries (update_routes i es m) = table_entries m \<and>
    pba_entries (update_routes i es m) = pba_entries m \<and>
    mc_masked (update_routes i es m) = mc_masked m \<and> mc_enabled (update_routes i es m) = mc_enabled m"
  using assms
proof (induction es arbitrary: i m)
  case (Cons e es)
  let ?m = "isg_do (IsgUpdate i (entry_config (devid m) e) (entry_masked e)) m"
  have "clears n m ?m" using Cons.prems by (intro clears_call) auto
  moreover from this have "msix_shape n ?m" by (simp add: clears_def)
  ultimately show ?case using Cons.IH [of ?m "Suc i"] clears_trans by (auto simp: isg_do_def)
qed (simp add: clears_refl)

lemma set_msg_ctl_ok:
  assumes "msix_shape n m" "nothing_stuck m"
  shows "\<exists>m'. set_msg_ctl reg m = Some m' \<and> clears n m m' \<and> nothing_stuck m' \<and>
    table_entries m' = table_entries m \<and>
    mc_masked m' = bit reg 14 \<and> mc_enabled m' = bit reg 15"
proof -
  let ?m1 = "m\<lparr>mc_masked := bit reg 14, mc_enabled := bit reg 15\<rparr>"
  define m2 where "m2 = (if mc_masked m \<noteq> bit reg 14 \<or> mc_enabled m \<noteq> bit reg 15 then
      if bit reg 15 \<and> \<not> bit reg 14 then update_routes 0 (table_entries m) ?m1
      else if mc_enabled m \<or> \<not> mc_masked m then isg_do IsgDisable ?m1 else ?m1 else ?m1)"
  have c1: "clears n m ?m1" using assms(1) by (intro clears_frame) auto
  then have s1: "msix_shape n ?m1" by (simp add: clears_def)
  have "clears n ?m1 m2 \<and> table_entries m2 = table_entries m \<and> pba_entries m2 = pba_entries m \<and>
      mc_masked m2 = bit reg 14 \<and> mc_enabled m2 = bit reg 15"
    using update_routes_ok [OF s1, of 0 "table_entries m"] clears_call [OF s1, of IsgDisable] clears_refl [OF s1]
    by (auto simp: m2_def isg_do_def)
  then have m2: "clears n ?m1 m2" "table_entries m2 = table_entries m" "pba_entries m2 = pba_entries m"
    "mc_masked m2 = bit reg 14" "mc_enabled m2 = bit reg 15" by auto
  have c2: "clears n m m2" by (rule clears_trans [OF c1 m2(1)])
  have run: "set_msg_ctl reg m =
      (if mc_masked m \<and> \<not> mc_masked m2 then inject_pending 0 (table_entries m2) m2 else Some m2)"
    by (simp add: set_msg_ctl_def bit_test m2_def FUNCTION_MASK_BIT_def MSIX_ENABLE_BIT_def Let_def)
  have s2: "msix_shape n m2" using c2 by (simp add: clears_def)
  show ?thesis
  proof (cases "mc_masked m \<and> \<not> mc_masked m2")
    case True
    obtain m' where m': "inject_pending 0 (table_entries m2) m2 = Some m'" "clears n m2 m'"
      "table_entries m' = table_entries m2" "mc_masked m' = mc_masked m2" "mc_enabled m' = mc_enabled m2"
      "\<And>v. v < n \<Longrightarrow> \<not> entry_masked (table_entries m2 ! v) \<Longrightarrow> \<not> pending m' v"
      using inject_pending_ok [OF s2, of "table_entries m2" 0] by auto
    then show ?thesis using True run m2 clears_trans [OF c2 m'(2)] s2
      by (auto simp: nothing_stuck_def deliverable_def msix_shape_def)
  next
    case False
    have "nothing_stuck m2" using assms(2) False m2
      by (auto simp: nothing_stuck_def deliverable_def pending_def)
    then show ?thesis using False run m2 c2 by auto
  qed
qed

text \<open>The state a table write reaches before it looks at the pending bit.\<close>

definition table_written :: "le_codec \<Rightarrow> u64 \<Rightarrow> u8 list \<Rightarrow> msix_config \<Rightarrow> msix_config" where
  "table_written c off data m =
     (let index = unat (off div 16);
          m1 = (if valid_table_offset (length data) (off mod 16) then
                  m\<lparr>table_entries := (table_entries m)
                      [index := write_entry c (off mod 16) data (table_entries m ! index)]\<rparr>
                else m)
      in if mc_enabled m1 \<and> \<not> mc_masked m1 then
           isg_do (IsgUpdate index (entry_config (devid m1) (table_entries m1 ! index))
                    (entry_masked (table_entries m1 ! index))) m1
         else m1)"

definition unmasks :: "le_codec \<Rightarrow> u64 \<Rightarrow> u8 list \<Rightarrow> msix_config \<Rightarrow> bool" where
  "unmasks c off data m \<longleftrightarrow> valid_table_offset (length data) (off mod 16) \<and>
     touches_vector_ctl (length data) (off mod 16) \<and> \<not> mc_masked m \<and>
     entry_masked (table_entries m ! unat (off div 16)) \<and>
     \<not> entry_masked (table_entries (table_written c off data m) ! unat (off div 16))"

lemma write_table_eq:
  assumes "length (table_entries m) = n"
  shows "write_table c off data m =
     (if length data \<notin> {4, 8} \<or>
         n \<le> unat (off div 16) \<and>
           (valid_table_offset (length data) (off mod 16) \<or> mc_enabled m \<and> \<not> mc_masked m)
      then None
      else if unmasks c off data m then
        case get_pba_bit (of_nat (unat (off div 16))) (table_written c off data m) of
          None \<Rightarrow> None
        | Some b \<Rightarrow>
            if b = 1 then inject_msix_and_clear_pba (unat (off div 16)) (table_written c off data m)
            else Some (table_written c off data m)
      else Some (table_written c off data m))"
proof -
  let ?v = "valid_table_offset (length data) (off mod 16)" and ?i = "unat (off div 16)"
  let ?t = "table_written c off data m"
  have "mc_masked ?t = mc_masked m" by (simp add: table_written_def isg_do_def Let_def)
  moreover have "write_table c off data m =
      (if \<not> (length data = 4 \<or> length data = 8) then None
       else if (?v \<or> mc_enabled m \<and> \<not> mc_masked m) \<and> \<not> ?i < length (table_entries m) then None
       else case (if ?v \<and> touches_vector_ctl (length data) (off mod 16)
                  then Some (table_entries m ! ?i) else None) of
         None \<Rightarrow> Some ?t
       | Some old \<Rightarrow>
           if \<not> mc_masked ?t \<and> entry_masked old \<and> \<not> entry_masked (table_entries ?t ! ?i)
           then case get_pba_bit (of_nat ?i) ?t of
               None \<Rightarrow> None
             | Some b \<Rightarrow> if b = 1 then inject_msix_and_clear_pba ?i ?t else Some ?t
           else Some ?t)"
    unfolding write_table_def table_written_def Let_def MSIX_TABLE_ENTRIES_MODULO_def by (rule refl)
  ultimately show ?thesis using assms by (auto simp: unmasks_def not_less)
qed

lemma table_written_ok:
  assumes "msix_shape n m"
  shows "clears n m (table_written c off data m)" "pending (table_written c off data m) v = pending m v"
    "mc_masked (table_written c off data m) = mc_masked m"
    "v \<noteq> unat (off div 16) \<Longrightarrow> table_entries (table_written c off data m) ! v = table_entries m ! v"
proof -
  define m1 where "m1 = (if valid_table_offset (length data) (off mod 16) then
      m\<lparr>table_entries := (table_entries m)
        [unat (off div 16) := write_entry c (off mod 16) data (table_entries m ! unat (off div 16))]\<rparr>
      else m)"
  have c1: "clears n m m1" using assms by (intro clears_frame) (auto simp: m1_def)
  then have s1: "msix_shape n m1" by (simp add: clears_def)
  have "clears n m1 (table_written c off data m)"
    using clears_call [OF s1] clears_refl [OF s1] by (auto simp: table_written_def m1_def [symmetric] Let_def)
  then show "clears n m (table_written c off data m)" by (rule clears_trans [OF c1])
qed (simp_all add: table_written_def isg_do_def pending_def Let_def)

lemma table_written_stuck:
  assumes "msix_shape n m" "nothing_stuck m"
    and "\<not> (unmasks c off data m \<and> pending m (unat (off div 16)))"
  shows "nothing_stuck (table_written c off data m)"
  unfolding nothing_stuck_def
proof (intro allI impI)
  let ?t = "table_written c off data m" and ?i = "unat (off div 16)"
  let ?e = "write_entry c (off mod 16) data (table_entries m ! ?i)"
  fix v assume v: "v < length (table_entries ?t)" "deliverable ?t v"
  note ok = table_written_ok [OF assms(1), where c = c and off = off and data = data]
  have n: "v < length (table_entries m)" using v(1) ok(1) by (simp add: clears_def msix_shape_def)
  have t: "table_entries ?t = (if valid_table_offset (length data) (off mod 16)
      then (table_entries m)[?i := ?e] else table_entries m)"
    by (simp add: table_written_def isg_do_def Let_def)
  show "\<not> pending ?t v"
  proof (cases "v = ?i \<and> entry_masked (table_entries m ! v)")
    case True
    have "valid_table_offset (length data) (off mod 16)"
      using v(2) True by (auto simp: deliverable_def t split: if_splits)
    moreover from this have "\<not> entry_masked ?e" using v(2) True n by (simp add: deliverable_def t)
    ultimately have "touches_vector_ctl (length data) (off mod 16)"
      using True by (auto simp: write_entry_def entry_masked_def touches_vector_ctl_def
          valid_table_offset_def Let_def split: if_splits)
    with True v(2) ok(3) assms(3) have "\<not> pending m v"
      using \<open>valid_table_offset _ _\<close> by (auto simp: unmasks_def deliverable_def)
    then show ?thesis using ok by simp
  next
    case False
    have "deliverable m v" using v(2) ok(3) ok(4) [of v] False
      by (cases "v = ?i") (auto simp: deliverable_def)
    then show ?thesis using assms(2) n ok(2) by (simp add: nothing_stuck_def)
  qed
qed

lemma write_table_ok:
  assumes "msix_shape n m" "nothing_stuck m" "write_table c off data m = Some m'"
  shows "clears n m m' \<and> nothing_stuck m'"
proof -
  let ?i = "unat (off div 16)" and ?t = "table_written c off data m"
  have len: "length (table_entries m) = n" using assms(1) by (simp add: msix_shape_def)
  note ok = table_written_ok [OF assms(1), where c = c and off = off and data = data]
  then have s: "msix_shape n ?t" by (simp add: clears_def)
  show ?thesis
  proof (cases "unmasks c off data m \<and> pending m ?i")
    case True
    have i: "?i < n" using True assms(3) unfolding write_table_eq [OF len]
      by (auto simp: unmasks_def split: if_splits)
    obtain m3 where m3: "inject_msix_and_clear_pba ?i ?t = Some m3" "clears n ?t m3"
      "table_entries m3 = table_entries ?t" "mc_masked m3 = mc_masked ?t" "\<not> pending m3 ?i"
      using inject_msix_and_clear_pba_ok [OF s i] ok(2) True by metis
    have "m' = m3" using assms(3) True m3(1) get_pba_bit_eq [OF s i] ok(2)
      by (simp add: write_table_eq [OF len] split: if_splits)
    moreover have "\<not> pending m3 v" if "v < n" "deliverable m3 v" for v
    proof (cases "v = ?i")
      case False
      then have "deliverable m v" using that(2) ok(3,4) m3(3,4) by (simp add: deliverable_def)
      then show ?thesis using assms(2) that(1) len ok(2) m3(2) by (auto simp: nothing_stuck_def clears_def)
    qed (simp add: m3)
    ultimately show ?thesis using clears_trans [OF ok(1) m3(2)] m3(2)
      by (auto simp: nothing_stuck_def clears_def msix_shape_def)
  next
    case False
    have "m' = ?t"
      using assms(3) False get_pba_bit_eq [OF s, of ?i] ok(2) unfolding write_table_eq [OF len]
      by (auto simp: unmasks_def split: if_splits)
    then show ?thesis using ok(1) table_written_stuck [OF assms(1,2) False] by simp
  qed
qed

lemma virtio_msix_trigger_ok:
  assumes "msix_shape n m" "nothing_stuck m"
    "virtio_msix_trigger cv qv ty m = Some m'"
  shows "case requested_vector (Raise cv qv ty) of None \<Rightarrow> m' = m
    | Some v \<Rightarrow> v < n \<and> msix_shape n m' \<and> nothing_stuck m' \<and>
        (if deliverable m v then m' = isg_do (IsgTrigger v) m
         else isg m' = isg m \<and> (\<forall>w. pending m' w \<longleftrightarrow> w = v \<or> pending m w))"
proof -
  let ?v = "case ty of Config \<Rightarrow> cv | Queue q \<Rightarrow> qv ! unat q"
  show ?thesis
  proof (cases "?v = VIRTQ_MSI_NO_VECTOR")
    case True
    then show ?thesis using assms(3)
      by (auto simp: requested_vector_def virtio_msix_trigger_def Let_def split: virtio_interrupt_type.splits if_splits)
  next
    case False
    then have v: "unat ?v < n" and run: "(if deliverable m (unat ?v) then Some (isg_do (IsgTrigger (unat ?v)) m)
        else set_pba_bit ?v False m) = Some m'" and req: "requested_vector (Raise cv qv ty) = Some (unat ?v)"
      using assms
      by (auto simp: requested_vector_def virtio_msix_trigger_def Let_def msix_shape_def deliverable_def
          split: virtio_interrupt_type.splits if_splits)
    show ?thesis
    proof (cases "deliverable m (unat ?v)")
      case True
      then have "m' = isg_do (IsgTrigger (unat ?v)) m" using run by simp
      then show ?thesis using req v assms True
        by (auto simp: isg_do_def msix_shape_def nothing_stuck_def deliverable_def pending_def)
    next
      case False
      obtain p where p: "set_pba_bit ?v False m = Some (m\<lparr>pba_entries := p\<rparr>)"
        "length p = length (pba_entries m)"
        "\<forall>w. pending (m\<lparr>pba_entries := p\<rparr>) w = (if w = unat ?v then \<not> False else pending m w)"
        using set_pba_bit_eq [OF assms(1) v, where reset = False] by (metis word_of_nat_unat_self)
      then have m': "m' = m\<lparr>pba_entries := p\<rparr>" using run False by simp
      have "nothing_stuck m'" using assms(2) False
        by (auto simp: m' nothing_stuck_def p(3) deliverable_def split: if_splits)
      then show ?thesis using req v assms(1) False p
        by (auto simp: m' msix_shape_def)
    qed
  qed
qed

subsection \<open>Runs\<close>

lemma owed_calls: "owed v (tr @ map Called ks) \<longleftrightarrow> owed v tr \<and> IsgTrigger v \<notin> set ks"
proof (induction ks rule: rev_induct)
  case (snoc k ks)
  have "owed v (tr @ map Called (ks @ [k])) = owed_step v (Called k) (owed v (tr @ map Called ks))"
    using owed_simps(2) [of v "tr @ map Called ks" "Called k"] by simp
  then show ?case using snoc by (auto simp: owed_step_def)
qed simp

lemma count_calls: "count_list (map Called ks) (Called k) = count_list ks k"
  "count_list (map Called ks) (Requested v) = 0"
  by (induction ks) auto

definition tracked :: "nat \<Rightarrow> msix_config \<Rightarrow> msix_event list \<Rightarrow> bool" where
  "tracked n m tr \<longleftrightarrow> msix_shape n m \<and> nothing_stuck m \<and> (\<forall>v < n. pending m v \<longleftrightarrow> owed v tr) \<and>
     (\<forall>v < n. count_list tr (Called (IsgTrigger v)) + (if owed v tr then 1 else 0)
        \<le> count_list tr (Requested v))"

lemma tracked_clears:
  assumes "tracked n m tr" "clears n m m'" "nothing_stuck m'" "requested_vector op = None"
  shows "tracked n m' (tr @ step_events op m m')"
proof -
  obtain ks where k: "isg m' = isg m @ ks"
    "\<And>v. count_list ks (IsgTrigger v) = (if v < n \<and> pending m v \<and> \<not> pending m' v then 1 else 0)"
    and mono: "\<And>v. v < n \<Longrightarrow> pending m' v \<Longrightarrow> pending m v"
    using assms(2) by (auto simp: clears_def)
  have ev: "step_events op m m' = map Called ks" using assms(4) k by (simp add: step_events_def)
  have set: "IsgTrigger v \<in> set ks \<longleftrightarrow> v < n \<and> pending m v \<and> \<not> pending m' v" for v
    using k(2) [of v] count_list_0_iff [of ks "IsgTrigger v"] by (auto split: if_splits)
  have "count_list (tr @ map Called ks) (Called (IsgTrigger v)) +
      (if owed v (tr @ map Called ks) then 1 else 0) \<le> count_list (tr @ map Called ks) (Requested v)"
    if "v < n" for v
    using assms(1) that mono [of v] by (auto simp: tracked_def owed_calls set count_calls k(2))
  moreover have "\<forall>v<n. pending m' v \<longleftrightarrow> owed v (tr @ map Called ks)"
    using assms(1) mono by (auto simp: tracked_def owed_calls set)
  ultimately show ?thesis
    using assms(2,3) unfolding tracked_def ev by (auto simp: clears_def)
qed

lemma tracked_raise:
  assumes "tracked n m tr" "virtio_msix_trigger cv qv ty m = Some m'"
  shows "tracked n m' (tr @ step_events (Raise cv qv ty) m m')"
proof (cases "requested_vector (Raise cv qv ty)")
  case None
  then show ?thesis using assms virtio_msix_trigger_ok [of n m cv qv ty m']
    by (auto simp: tracked_def step_events_def)
next
  case (Some v)
  have st: "msix_shape n m" "nothing_stuck m" using assms(1) by (simp_all add: tracked_def)
  note ok = virtio_msix_trigger_ok [OF st assms(2), unfolded Some option.case]
  have one: "owed w (tr @ [Requested v]) \<longleftrightarrow> w = v \<or> owed w tr" for w
    by (auto simp: owed_step_def)
  show ?thesis
  proof (cases "deliverable m v")
    case True
    then have m': "m' = isg_do (IsgTrigger v) m" using ok by simp
    have ev: "tr @ step_events (Raise cv qv ty) m m' = (tr @ [Requested v]) @ map Called [IsgTrigger v]"
      by (simp add: step_events_def Some m' isg_do_def)
    have "\<not> owed v tr" using st True ok assms(1) by (auto simp: tracked_def nothing_stuck_def msix_shape_def)
    then show ?thesis using assms(1) ok unfolding tracked_def ev owed_calls one
      by (auto simp: m' isg_do_def pending_def)
  next
    case False
    then have m': "isg m' = isg m" "\<forall>w. pending m' w \<longleftrightarrow> w = v \<or> pending m w" using ok by auto
    have ev: "tr @ step_events (Raise cv qv ty) m m' = tr @ [Requested v]"
      by (simp add: step_events_def Some m')
    show ?thesis using assms(1) ok m' unfolding tracked_def ev one by auto
  qed
qed

lemma tracked_step:
  assumes "tracked n m tr" "msix_step c op m = Some m'"
  shows "tracked n m' (tr @ step_events op m m')"
proof -
  have st: "msix_shape n m" "nothing_stuck m" using assms(1) by (simp_all add: tracked_def)
  show ?thesis
  proof (cases op)
    case (TableWrite off data)
    then have "clears n m m' \<and> nothing_stuck m'"
      using write_table_ok [OF st] assms(2) by (simp add: msix_step_def)
    then show ?thesis using tracked_clears [OF assms(1)] by (simp add: TableWrite requested_vector_def)
  next
    case (PbaWrite off data)
    then have "m' = m" using assms(2) by (simp add: msix_step_def write_pba_def)
    then show ?thesis using assms(1) st
      by (intro tracked_clears) (auto simp: clears_refl requested_vector_def PbaWrite)
  next
    case (MsgCtl reg)
    then have "clears n m m' \<and> nothing_stuck m'"
      using set_msg_ctl_ok [OF st, of reg] assms(2) by (auto simp: msix_step_def)
    then show ?thesis using tracked_clears [OF assms(1)] by (simp add: MsgCtl requested_vector_def)
  next
    case (Raise cv qv ty)
    then show ?thesis using tracked_raise assms by (simp add: msix_step_def)
  qed
qed

lemma tracked_run:
  "msix_run c ops (m, tr) = Some (m', tr') \<Longrightarrow> tracked n m tr \<Longrightarrow> tracked n m' tr'"
proof (induction ops arbitrary: m tr)
  case (Cons op ops)
  then show ?case using tracked_step [of n m tr c op] by (auto split: option.splits)
qed simp

lemma tracked_new:
  assumes "msix_new n g dev = Some m"
  shows "tracked (unat n) m []"
  using assms
  by (auto simp: msix_new_def tracked_def msix_shape_def nothing_stuck_def deliverable_def pending_def
      word_le_nat_alt msix_const_defs Let_def nth_replicate div_le_mono less_Suc_eq_le
      simp del: replicate_Suc split: if_splits)

text \<open>C4. MSI-X interrupts are neither lost nor invented.  After any sequence of guest writes to the
  vector table, the PBA and the message control register, interleaved with interrupts raised by the
  device, and for every vector: the pending bit is set exactly when an interrupt was requested that
  no message has been sent for since; a vector that is not masked, of a function that is not masked,
  has no such interrupt outstanding; and no more messages were sent than interrupts requested.\<close>

theorem msix_no_lost_interrupt:
  assumes "msix_new n g dev = Some m0"
    and "msix_run c ops (m0, []) = Some (m, tr)"
    and "v < unat n"
  shows "(pending m v \<longleftrightarrow> owed v tr) \<and>
    (deliverable m v \<longrightarrow> \<not> owed v tr) \<and>
    count_list tr (Called (IsgTrigger v)) + (if owed v tr then 1 else 0) \<le> count_list tr (Requested v)"
  using tracked_run [OF assms(2) tracked_new [OF assms(1)]] assms(3)
  by (auto simp: tracked_def nothing_stuck_def msix_shape_def)

definition demo_msix_ops :: "msix_op list" where
  "demo_msix_ops =
     [TableWrite 0x1c (enc_u32 le_impl 0), Raise 1 [0] Config, MsgCtl 0x8000]"

lemma demo_msix_run:
  "msix_run le_impl demo_msix_ops (the (msix_new 2 [] 7), []) =
    Some (\<lparr>table_entries = [default_entry, default_entry\<lparr>vector_ctl := 0\<rparr>], pba_entries = [0], devid = 7,
       isg = [IsgUpdate 0 (entry_config 7 default_entry) True,
              IsgUpdate 1 (entry_config 7 default_entry) False, IsgTrigger 1],
       mc_masked = False, mc_enabled = True\<rparr>,
      [Requested 1, Called (IsgUpdate 0 (entry_config 7 default_entry) True),
       Called (IsgUpdate 1 (entry_config 7 default_entry) False), Called (IsgTrigger 1)])"
  by code_simp

theorem msix_no_lost_interrupt_witness:
  "(\<exists>m tr. msix_run le_impl demo_msix_ops (the (msix_new 2 [] 7), []) = Some (m, tr) \<and>
     deliverable m 1 \<and> \<not> owed 1 tr \<and> Called (IsgTrigger 1) \<in> set tr)"
proof -
  obtain m0 where m0: "msix_new 2 [] 7 = Some m0"
    by (simp add: msix_new_def MAX_MSIX_VECTORS_PER_DEVICE_def Let_def)
  note run = demo_msix_run [unfolded m0 option.sel]
  show ?thesis
    using msix_no_lost_interrupt [OF m0 run, of 1] demo_msix_run
    by (simp add: deliverable_def entry_masked_def)
qed

lemma write_table_None:
  assumes "msix_shape n m"
  shows "write_table c off data m = None \<longleftrightarrow>
      length data \<notin> {4, 8} \<or>
      n \<le> unat (off div 16) \<and>
        (valid_table_offset (length data) (off mod 16) \<or> mc_enabled m \<and> \<not> mc_masked m)"
proof -
  let ?i = "unat (off div 16)" and ?t = "table_written c off data m"
  have len: "length (table_entries m) = n" using assms by (simp add: msix_shape_def)
  have s: "msix_shape n ?t" using table_written_ok(1) [OF assms] by (simp add: clears_def)
  have "inject_msix_and_clear_pba ?i ?t \<noteq> None" if "?i < n" "pending ?t ?i"
    using inject_msix_and_clear_pba_ok [OF s that] by (metis option.distinct(1))
  then show ?thesis using get_pba_bit_eq [OF s, of ?i] unfolding write_table_eq [OF len]
    by (auto simp: unmasks_def not_le)
qed

lemma raise_None:
  assumes "msix_shape n m"
  shows "virtio_msix_trigger cv qv (Queue q) m = None \<longleftrightarrow>
    length qv \<le> unat q \<or> qv ! unat q \<noteq> 0xffff \<and> n \<le> unat (qv ! unat q)"
proof -
  have "set_pba_bit v False m \<noteq> None" if "unat v < n" for v
    using set_pba_bit_eq [OF assms that, where reset = False]
    by (metis option.distinct(1) word_of_nat_unat_self)
  then show ?thesis using assms
    by (auto simp: virtio_msix_trigger_def VIRTQ_MSI_NO_VECTOR_def msix_shape_def Let_def)
qed

text \<open>C34. Guest accesses to the MSI-X table are not all tolerated: on a table of \<open>n\<close> vectors in any
  reachable state, message control and PBA writes always return, while a table write panics exactly
  when its length is neither 4 nor 8 bytes or when it addresses an entry past the end (with a valid
  field offset, or whatever the offset once MSI-X is enabled and unmasked), and raising an interrupt
  panics exactly when the queue index or the vector the guest programmed is out of range.\<close>

theorem msix_step_outcomes:
  assumes "msix_new n g dev = Some m0" "msix_run c ops (m0, []) = Some (m, tr)"
  shows "msix_step c (MsgCtl reg) m \<noteq> None \<and> msix_step c (PbaWrite off data) m = Some m \<and>
    (msix_step c (TableWrite off data) m = None \<longleftrightarrow>
      length data \<notin> {4, 8} \<or>
      unat n \<le> unat (off div 16) \<and>
        (valid_table_offset (length data) (off mod 16) \<or> mc_enabled m \<and> \<not> mc_masked m)) \<and>
    (msix_step c (Raise cv qv (Queue q)) m = None \<longleftrightarrow>
      length qv \<le> unat q \<or> qv ! unat q \<noteq> 0xffff \<and> unat n \<le> unat (qv ! unat q))"
proof -
  have st: "msix_shape (unat n) m" "nothing_stuck m"
    using tracked_run [OF assms(2) tracked_new [OF assms(1)]] by (simp_all add: tracked_def)
  show ?thesis
    using set_msg_ctl_ok [OF st, of reg] write_table_None [OF st(1)] raise_None [OF st(1)]
    by (auto simp: msix_step_def write_pba_def)
qed

theorem msix_step_outcomes_witness:
  "\<exists>m0. msix_new 2 [] 7 = Some m0 \<and>
    msix_step le_impl (TableWrite 0x20 [0, 0, 0, 0]) m0 = None \<and>
    msix_step le_impl (TableWrite 0x10 [0]) m0 = None \<and>
    msix_step le_impl (TableWrite 0x10 [0, 0, 0, 0]) m0 \<noteq> None"
proof -
  obtain m0 where m0: "msix_new 2 [] 7 = Some m0"
    by (simp add: msix_new_def MAX_MSIX_VECTORS_PER_DEVICE_def Let_def)
  note o = msix_step_outcomes [OF m0 msix_run.simps(1), where reg = 0 and cv = 0 and qv = "[]" and q = 0]
  show ?thesis
    using m0 o [where off = "0x20" and data = "[0, 0, 0, 0]" and c = le_impl]
      o [where off = "0x10" and data = "[0]" and c = le_impl]
      o [where off = "0x10" and data = "[0, 0, 0, 0]" and c = le_impl]
    by (simp add: valid_table_offset_def)
qed

subsection \<open>Reading back\<close>

lemma u64_halves:
  fixes v :: u64
  shows "push_bit 32 (ucast (ucast (drop_bit 32 v) :: u32)) OR ucast (ucast (v AND 0xffffffff) :: u32) = v"
proof -
  have m: "(0xffffffff :: u64) = mask 32" by (simp add: mask_eq_exp_minus_1)
  have "32 + (k - 32) = k" "k - 32 < 64" "k - 32 < 32" if "\<not> k < 32" "k < 64" for k :: nat
    using that by arith+
  then show ?thesis unfolding m by (intro bit_word_eqI) (auto simp: bit_simps)
qed

text \<open>C36. Table accesses round trip: when a table write of 4 or 8 bytes at a field boundary returns,
  reading the same bytes back gives the value written, and every read of another entry gives what it
  gave before.\<close>

theorem msix_table_round_trip:
  assumes "codec_ok c"
    and "data = enc_u32 c w \<and> off mod 16 \<in> {0, 4, 8, 0xc} \<or> data = enc_u64 c x \<and> off mod 16 \<in> {0, 8}"
    and "write_table c off data m = Some m'"
  shows "read_table c m' off (length data) = Some data \<and>
    (off' div 16 \<noteq> off div 16 \<longrightarrow> read_table c m' off' len = read_table c m off' len)"
proof -
  have c: "length (enc_u32 c w) = 4" "length (enc_u64 c x) = 8" "read_u32 c (enc_u32 c w) = w"
    "read_u64 c (enc_u64 c x) = x"
    using assms(1) by (simp_all add: codec_ok_def)
  define mo where "mo = off mod 16"
  note arm = assms(2) [folded mo_def]
  let ?i = "unat (off div 16)"
  have v: "valid_table_offset (length data) (off mod 16)"
    unfolding mo_def [symmetric] using arm c by (auto simp: valid_table_offset_def)
  have "?i < length (table_entries m) \<and> table_entries m' = table_entries (table_written c off data m)"
    using assms(3) v unfolding write_table_eq [OF refl]
    by (auto simp: inject_msix_and_clear_pba_def set_pba_bit_def isg_do_def Let_def
        split: if_splits option.splits)
  then have i: "?i < length (table_entries m)" and
    t: "table_entries m' = (table_entries m)[?i := write_entry c (off mod 16) data (table_entries m ! ?i)]"
    using v by (auto simp: table_written_def isg_do_def Let_def)
  have "off' div 16 \<noteq> off div 16 \<longrightarrow> unat (off' div 16) \<noteq> ?i" by (simp add: word_unat_eq_iff)
  then have "off' div 16 \<noteq> off div 16 \<longrightarrow> read_table c m' off' len = read_table c m off' len"
    by (auto simp: read_table_def t MSIX_TABLE_ENTRIES_MODULO_def Let_def)
  moreover have "read_entry c (length data) (off mod 16) (table_entries m' ! ?i) = Some data"
    unfolding t mo_def [symmetric] using arm i c
    by (auto simp: read_entry_def write_entry_def Let_def u64_halves)
  moreover have "length data = 4 \<or> length data = 8" using arm c by auto
  ultimately show ?thesis using i v
    by (simp add: read_table_def t MSIX_TABLE_ENTRIES_MODULO_def Let_def)
qed

theorem msix_table_round_trip_witness:
  "\<exists>m m'. msix_new 2 [] 7 = Some m \<and> write_table le_impl 0x18 (enc_u64 le_impl 0x1122334455) m = Some m' \<and>
    read_table le_impl m' 0x18 8 = Some (enc_u64 le_impl 0x1122334455) \<and>
    read_table le_impl m' 0 8 = read_table le_impl m 0 8"
proof -
  obtain m where m: "msix_new 2 [] 7 = Some m"
    by (simp add: msix_new_def MAX_MSIX_VECTORS_PER_DEVICE_def Let_def)
  have l: "length (enc_u64 le_impl 0x1122334455) = 8" by (simp add: le_impl_def)
  have "msix_shape 2 m" using tracked_new [OF m] by (simp add: tracked_def)
  then obtain m' where m': "write_table le_impl 0x18 (enc_u64 le_impl 0x1122334455) m = Some m'"
    using write_table_None [of 2 m le_impl "0x18" "enc_u64 le_impl 0x1122334455"] l by auto
  show ?thesis
    using msix_table_round_trip [OF codec_ok_le_impl _ m', where x = "0x1122334455" and off' = 0 and len = 8]
      m m' l by auto
qed

lemma msix_const_bits [simp]:
  "bit (7 :: u8) n \<longleftrightarrow> n < 3" "bit (7 :: u32) n \<longleftrightarrow> n < 3" "bit (0xfffffff8 :: u32) n \<longleftrightarrow> 3 \<le> n \<and> n < 32"
  "bit (0x7ff :: u16) n \<longleftrightarrow> n < 11" "bit (0x8000 :: u16) n \<longleftrightarrow> n = 15" "bit (0x4000 :: u16) n \<longleftrightarrow> n = 14"
  by (subst bit_mask_eq [of _ 3] bit_not_mask_eq [of _ 3] bit_mask_eq [of _ 11] bit_pow2 [of _ 15]
        bit_pow2 [of _ 14]; force simp: mask_eq_exp_minus_1)+

lemma low_bits_parts:
  fixes x :: u32 and b :: u8
  shows "((x AND 0xfffffff8) OR ucast (b AND 7)) AND 0xfffffff8 = x AND NOT 7"
    and "((x AND 0xfffffff8) OR ucast (b AND 7)) AND 7 = ucast (b AND 7)"
proof -
  have "NOT 7 = (0xfffffff8 :: u32)" by simp
  then show "((x AND 0xfffffff8) OR ucast (b AND 7)) AND 0xfffffff8 = x AND NOT 7"
    "((x AND 0xfffffff8) OR ucast (b AND 7)) AND 7 = ucast (b AND 7)"
    by (auto intro!: bit_word_eqI simp: bit_simps simp del: bit_numeral_word_iff)
qed

lemma msg_ctl_parts:
  fixes s t d :: u16
  assumes "0 < s" "s < 2048" and t: "t = 0x8000 + s - 1"
  defines "t' \<equiv> (t AND NOT (FUNCTION_MASK_MASK OR MSIX_ENABLE_MASK)) OR
    (d AND (FUNCTION_MASK_MASK OR MSIX_ENABLE_MASK))"
  shows "t AND 0x7ff = s - 1" "bit t 15" "\<not> bit t 14" "t' AND 0x7ff = s - 1"
    "bit t' 14 = bit d 14" "bit t' 15 = bit d 15"
proof -
  define r where "r = s - 1"
  have "unat r < 2 ^ 11" using assms(1,2) by (simp add: r_def unat_simps unat_sub_if')
  then have r: "bit r n \<Longrightarrow> n < 11" for n by (rule bit_small)
  have m: "FUNCTION_MASK_MASK = 0x4000" "MSIX_ENABLE_MASK = 0x8000"
    by (simp_all add: msix_const_defs)
  have "t = 0x8000 + r" by (simp add: t r_def)
  also have "\<dots> = 0x8000 OR r"
    by (rule disjunctive_add_eq_or, rule bit_word_eqI) (use r in \<open>force simp: bit_and_iff simp del: bit_numeral_word_iff\<close>)
  finally have b: "bit t n \<longleftrightarrow> n = 15 \<or> bit r n" for n
    by (auto simp: bit_or_iff simp del: bit_numeral_word_iff)
  have b': "bit t' n \<longleftrightarrow> (if n = 14 \<or> n = 15 then bit d n else bit r n)" if "n < 16" for n
    using that unfolding t'_def m bit_or_iff bit_and_iff bit_not_iff b
    by (auto simp del: bit_numeral_word_iff)
  show "bit t 15" "\<not> bit t 14" using b r [of 14] by auto
  show "bit t' 14 = bit d 14" "bit t' 15 = bit d 15" using b' by auto
  show "t AND 0x7ff = s - 1" "t' AND 0x7ff = s - 1" unfolding r_def [symmetric]
    by (intro bit_word_eqI; use r b b' in \<open>force simp: bit_and_iff simp del: bit_numeral_word_iff\<close>)+
qed

text \<open>The MSI-X capability publishes what it was built from: the table size, the enable bit, and
  the offsets (rounded down to 8) and BAR numbers of table and PBA; a message control write changes
  the mask and enable bits only.\<close>

theorem msix_cap_fields:
  assumes "0 < sz" "msix_cap_new tbar sz toff pbar poff = Some k"
  shows "table_size (cap_set_msg_ctl d k) = sz \<and>
    cap_masked (cap_set_msg_ctl d k) = bit d 14 \<and> cap_enabled (cap_set_msg_ctl d k) = bit d 15 \<and>
    cap_enabled k \<and> \<not> cap_masked k \<and>
    table_offset k = toff AND NOT 7 \<and> table_bir k = ucast (tbar AND 7) \<and>
    pba_offset k = poff AND NOT 7 \<and> pba_bir k = ucast (pbar AND 7) \<and>
    unat (snd (table_range k)) = unat sz * 16 \<and> unat sz \<le> unat (snd (pba_range k)) * 8"
proof -
  have s: "sz < 2048" and ctl: "cap_msg_ctl k = 0x8000 + sz - 1"
    and k: "cap_table k = (toff AND 0xfffffff8) OR ucast (tbar AND 7)"
      "cap_pba k = (poff AND 0xfffffff8) OR ucast (pbar AND 7)"
    using assms by (auto simp: msix_cap_new_def MAX_MSIX_VECTORS_PER_DEVICE_def split: if_splits)
  have u: "unat sz < 2048" using s by (simp add: word_less_nat_alt)
  note p = msg_ctl_parts [OF assms(1) s ctl]
  have ts: "table_size k = sz" by (simp add: table_size_def p)
  have un: "unat (ucast sz :: u64) = unat sz" by (simp add: unat_ucast_up)
  have r: "unat ((ucast sz :: u64) * 16) = unat sz * 16"
    "unat (((ucast sz :: u64) div 64 + 1) * 8) = (unat sz div 64 + 1) * 8"
    using u by (simp_all add: unat_word_ariths unat_div un)
  have new: "cap_msg_ctl (cap_set_msg_ctl d k) =
      (cap_msg_ctl k AND NOT (FUNCTION_MASK_MASK OR MSIX_ENABLE_MASK)) OR
      (d AND (FUNCTION_MASK_MASK OR MSIX_ENABLE_MASK))"
    unfolding cap_set_msg_ctl_def by simp
  have "unat sz \<le> (unat sz div 64 + 1) * 64" by simp
  moreover have "table_size (cap_set_msg_ctl d k) = sz" unfolding table_size_def new p(4) by simp
  moreover have "cap_masked (cap_set_msg_ctl d k) = bit d 14" "cap_enabled (cap_set_msg_ctl d k) = bit d 15"
    unfolding cap_masked_def cap_enabled_def bit_test FUNCTION_MASK_BIT_def MSIX_ENABLE_BIT_def new
    by (fact p)+
  moreover have "cap_enabled k" "\<not> cap_masked k"
    unfolding cap_masked_def cap_enabled_def bit_test FUNCTION_MASK_BIT_def MSIX_ENABLE_BIT_def by (fact p)+
  ultimately show ?thesis using r ts
    by (simp add: k table_offset_def pba_offset_def table_bir_def pba_bir_def low_bits_parts
        table_range_def pba_range_def)
qed

theorem msix_cap_fields_witness:
  "\<exists>k. msix_cap_new 1 3 0x8004 1 0x48000 = Some k \<and> table_size (cap_set_msg_ctl 0x4000 k) = 3 \<and>
    cap_masked (cap_set_msg_ctl 0x4000 k) \<and> table_offset k = 0x8000"
proof -
  obtain k where k: "msix_cap_new 1 3 0x8004 1 0x48000 = Some k"
    by (simp add: msix_cap_new_def MAX_MSIX_VECTORS_PER_DEVICE_def)
  show ?thesis using msix_cap_fields [OF _ k, where d = "0x4000"] k
    by (simp del: bit_numeral_word_iff)
qed

text \<open>Restoring a snapshot reproduces the MSI-X state whatever the interrupt source group answers;
  when it accepts every call, restoring succeeds, and an enabled and unmasked function has each of
  its unmasked vectors routed and the group enabled after each.\<close>

theorem msix_restore:
  "msix_state (fst (set_state ok s m)) = s \<and>
   ((\<forall>k. ok k) \<longrightarrow> snd (set_state ok s m) = Inr () \<and>
     isg (fst (set_state ok s m)) = isg m @
       (if st_enabled s \<and> \<not> st_masked s then
          concat (map (\<lambda>(i, e). [IsgUpdate i (entry_config (devid m) e) False, IsgEnable])
            (filter (\<lambda>(i, e). \<not> entry_masked e)
               (zip [0..<length (st_table_entries s)] (st_table_entries s))))
        else []))"
proof -
  have same: "msix_state (fst (set_state_loop ok i es x)) = msix_state x" for i es x
    by (induction ok i es x rule: set_state_loop.induct)
      (simp_all add: Let_def isg_do_def msix_state_def)
  have calls: "\<forall>k. ok k \<Longrightarrow> snd (set_state_loop ok i es x) = Inr () \<and>
      isg (fst (set_state_loop ok i es x)) = isg x @
        concat (map (\<lambda>(i, e). [IsgUpdate i (entry_config (devid x) e) (mc_masked x), IsgEnable])
          (filter (\<lambda>(i, e). \<not> entry_masked e) (zip [i..<i + length es] es)))" for i es x
  proof (induction es arbitrary: i x)
    case (Cons e es)
    have "[i..<i + length (e # es)] = i # [Suc i..<Suc i + length es]"
      by (simp add: upt_rec)
    then show ?case using Cons by (simp add: Let_def isg_do_def)
  qed simp
  show ?thesis
    using same calls [where i = 0] by (simp add: set_state_def msix_state_def Let_def)
qed

theorem msix_restore_witness:
  "snd (set_state (\<lambda>k. True) \<lparr>st_table_entries = [default_entry\<lparr>vector_ctl := 0\<rparr>], st_pba_entries = [0],
      st_masked = False, st_enabled = True\<rparr> (the (msix_new 1 [] 7))) = Inr ()"
  using msix_restore [of "\<lambda>k. True"] by simp

end
