(* ===== verification/Pci_Configuration.thy ===== *)
theory Pci_Configuration
  imports Pci_Msix
begin

text \<open>
  The configuration space of a PCI function, \<^verbatim>\<open>pci/src/configuration.rs\<close>: 1024 registers with
  their writable bits, six base address registers (BARs), the expansion ROM BAR and the capability
  list.  Operations take the configuration and return the new one; \<open>None\<close> is a panic (an index out
  of range or a failed \<open>unwrap\<close>), errors of the source's \<open>Result\<close> are \<open>Inl\<close>.  The shared MSI-X object
  the configuration refers to is part of the state (\<open>pc_msix\<close>).
\<close>

subsection \<open>Constants and enumerations\<close>

definition NUM_CONFIGURATION_REGISTERS :: nat where "NUM_CONFIGURATION_REGISTERS = 1024"
definition STATUS_REG :: nat where "STATUS_REG = 1"
definition STATUS_REG_CAPABILITIES_USED_MASK :: u32 where "STATUS_REG_CAPABILITIES_USED_MASK = 0x00100000"
definition BAR0_REG :: nat where "BAR0_REG = 4"
definition ROM_BAR_REG :: nat where "ROM_BAR_REG = 12"
definition ROM_BAR_IDX :: nat where "ROM_BAR_IDX = 6"
definition BAR_IO_ADDR_MASK :: u32 where "BAR_IO_ADDR_MASK = 0xfffffffc"
definition BAR_MEM_ADDR_MASK :: u32 where "BAR_MEM_ADDR_MASK = 0xfffffff0"
definition ROM_BAR_ADDR_MASK :: u32 where "ROM_BAR_ADDR_MASK = 0xfffff800"
definition MSI_CAPABILITY_REGISTER_MASK :: u32 where "MSI_CAPABILITY_REGISTER_MASK = 0x00710000"
definition MSIX_CAPABILITY_REGISTER_MASK :: u32 where "MSIX_CAPABILITY_REGISTER_MASK = 0xc0000000"
definition NUM_BAR_REGS :: nat where "NUM_BAR_REGS = 6"
definition CAPABILITY_LIST_HEAD_OFFSET :: nat where "CAPABILITY_LIST_HEAD_OFFSET = 0x34"
definition FIRST_CAPABILITY_OFFSET :: nat where "FIRST_CAPABILITY_OFFSET = 0x40"
definition CAPABILITY_MAX_OFFSET :: nat where "CAPABILITY_MAX_OFFSET = 192"
definition INTERRUPT_LINE_PIN_REG :: nat where "INTERRUPT_LINE_PIN_REG = 15"

lemmas pci_const_defs = NUM_CONFIGURATION_REGISTERS_def STATUS_REG_def BAR0_REG_def ROM_BAR_REG_def
  ROM_BAR_IDX_def NUM_BAR_REGS_def CAPABILITY_LIST_HEAD_OFFSET_def FIRST_CAPABILITY_OFFSET_def
  CAPABILITY_MAX_OFFSET_def INTERRUPT_LINE_PIN_REG_def

datatype pci_header_type = HeaderDevice | HeaderBridge

datatype pci_class_code =
    TooOld | MassStorage | NetworkController | DisplayController | MultimediaController
  | MemoryController | BridgeDevice | SimpleCommunicationController | BaseSystemPeripheral
  | InputDevice | DockingStation | Processor | SerialBusController | WirelessController
  | IntelligentIoController | EncryptionController | DataAcquisitionSignalProcessing | OtherClass

fun class_register_value :: "pci_class_code \<Rightarrow> u8" where
  "class_register_value TooOld = 0"
| "class_register_value MassStorage = 1"
| "class_register_value NetworkController = 2"
| "class_register_value DisplayController = 3"
| "class_register_value MultimediaController = 4"
| "class_register_value MemoryController = 5"
| "class_register_value BridgeDevice = 6"
| "class_register_value SimpleCommunicationController = 7"
| "class_register_value BaseSystemPeripheral = 8"
| "class_register_value InputDevice = 9"
| "class_register_value DockingStation = 10"
| "class_register_value Processor = 11"
| "class_register_value SerialBusController = 12"
| "class_register_value WirelessController = 13"
| "class_register_value IntelligentIoController = 14"
| "class_register_value EncryptionController = 15"
| "class_register_value DataAcquisitionSignalProcessing = 16"
| "class_register_value OtherClass = 0xff"

datatype pci_bridge_subclass =
    HostBridge | IsaBridge | EisaBridge | McaBridge | PciToPciBridge | PcmciaBridge | NuBusBridge
  | CardBusBridge | RacEwayBridge | PciToPciSemiTransparentBridge | InfiniBrandToPciHostBridge
  | OtherBridgeDevice

fun bridge_register_value :: "pci_bridge_subclass \<Rightarrow> u8" where
  "bridge_register_value HostBridge = 0"
| "bridge_register_value IsaBridge = 1"
| "bridge_register_value EisaBridge = 2"
| "bridge_register_value McaBridge = 3"
| "bridge_register_value PciToPciBridge = 4"
| "bridge_register_value PcmciaBridge = 5"
| "bridge_register_value NuBusBridge = 6"
| "bridge_register_value CardBusBridge = 7"
| "bridge_register_value RacEwayBridge = 8"
| "bridge_register_value PciToPciSemiTransparentBridge = 9"
| "bridge_register_value InfiniBrandToPciHostBridge = 0x0a"
| "bridge_register_value OtherBridgeDevice = 0x80"

datatype pci_capability_id =
    ListId | PowerManagement | AcceleratedGraphicsPort | VitalProductData | SlotIdentification
  | MessageSignalledInterrupts | CompactPciHotSwap | PciX | HyperTransport | VendorSpecific
  | Debugport | CompactPciCentralResourceControl | PciStandardHotPlugController
  | BridgeSubsystemVendorDeviceId | AgpTargetPciPcibridge | SecureDevice | PciExpress | MsiX
  | SataDataIndexConf | PciAdvancedFeatures | PciEnhancedAllocation

fun cap_id_as_u8 :: "pci_capability_id \<Rightarrow> u8" where
  "cap_id_as_u8 ListId = 0"
| "cap_id_as_u8 PowerManagement = 1"
| "cap_id_as_u8 AcceleratedGraphicsPort = 2"
| "cap_id_as_u8 VitalProductData = 3"
| "cap_id_as_u8 SlotIdentification = 4"
| "cap_id_as_u8 MessageSignalledInterrupts = 5"
| "cap_id_as_u8 CompactPciHotSwap = 6"
| "cap_id_as_u8 PciX = 7"
| "cap_id_as_u8 HyperTransport = 8"
| "cap_id_as_u8 VendorSpecific = 9"
| "cap_id_as_u8 Debugport = 0x0a"
| "cap_id_as_u8 CompactPciCentralResourceControl = 0x0b"
| "cap_id_as_u8 PciStandardHotPlugController = 0x0c"
| "cap_id_as_u8 BridgeSubsystemVendorDeviceId = 0x0d"
| "cap_id_as_u8 AgpTargetPciPcibridge = 0x0e"
| "cap_id_as_u8 SecureDevice = 0x0f"
| "cap_id_as_u8 PciExpress = 0x10"
| "cap_id_as_u8 MsiX = 0x11"
| "cap_id_as_u8 SataDataIndexConf = 0x12"
| "cap_id_as_u8 PciAdvancedFeatures = 0x13"
| "cap_id_as_u8 PciEnhancedAllocation = 0x14"

definition cap_id_from_u8 :: "u8 \<Rightarrow> pci_capability_id" where
  "cap_id_from_u8 c =
     (if c = 0x01 then PowerManagement
      else if c = 0x02 then AcceleratedGraphicsPort
      else if c = 0x03 then VitalProductData
      else if c = 0x04 then SlotIdentification
      else if c = 0x05 then MessageSignalledInterrupts
      else if c = 0x06 then CompactPciHotSwap
      else if c = 0x07 then PciX
      else if c = 0x08 then HyperTransport
      else if c = 0x09 then VendorSpecific
      else if c = 0x0a then Debugport
      else if c = 0x0b then CompactPciCentralResourceControl
      else if c = 0x0c then PciStandardHotPlugController
      else if c = 0x0d then BridgeSubsystemVendorDeviceId
      else if c = 0x0e then AgpTargetPciPcibridge
      else if c = 0x0f then SecureDevice
      else if c = 0x10 then PciExpress
      else if c = 0x11 then MsiX
      else if c = 0x12 then SataDataIndexConf
      else if c = 0x13 then PciAdvancedFeatures
      else if c = 0x14 then PciEnhancedAllocation
      else ListId)"

lemma cap_id_round_trip: "cap_id_from_u8 (cap_id_as_u8 k) = k"
  by (cases k) (simp_all add: cap_id_from_u8_def)

subsection \<open>Base address registers\<close>

datatype pci_bar_region_type = Memory32BitRegion | IoRegion | Memory64BitRegion

fun region_type_bits :: "pci_bar_region_type \<Rightarrow> u32" where
  "region_type_bits Memory32BitRegion = 0"
| "region_type_bits IoRegion = 1"
| "region_type_bits Memory64BitRegion = 4"

datatype pci_bar_prefetchable = NotPrefetchable | Prefetchable

fun prefetchable_bits :: "pci_bar_prefetchable \<Rightarrow> u32" where
  "prefetchable_bits NotPrefetchable = 0"
| "prefetchable_bits Prefetchable = 8"

record pci_bar_configuration =
  bc_addr :: u64
  bc_size :: u64
  bc_idx :: nat
  bc_region_type :: pci_bar_region_type
  bc_prefetchable :: pci_bar_prefetchable

datatype pci_error =
    BarAddressInvalid u64 u64
  | BarInUse nat
  | BarInUse64 nat
  | BarInvalid nat
  | BarInvalid64 nat
  | BarSizeInvalid u64
  | CapabilityEmpty
  | CapabilitySpaceFull nat
  | Encode32BarSize
  | Encode64BarSize
  | RomBarAddressInvalid u64 u64
  | RomBarInUse nat
  | RomBarInvalid nat
  | RomBarSizeInvalid u64

definition encode_32_bits_bar_size :: "u32 \<Rightarrow> u32 option" where
  "encode_32_bits_bar_size bar_size = (if 0 < bar_size then Some (NOT (bar_size - 1)) else None)"

definition decode_32_bits_bar_size :: "u32 \<Rightarrow> u32 option" where
  "decode_32_bits_bar_size bar_size = (if 0 < bar_size then Some (NOT bar_size + 1) else None)"

definition encode_64_bits_bar_size :: "u64 \<Rightarrow> (u32 \<times> u32) option" where
  "encode_64_bits_bar_size bar_size =
     (if 0 < bar_size then
        let result = NOT (bar_size - 1)
        in Some (ucast (drop_bit 32 result), ucast (result AND 0xffffffff))
      else None)"

definition decode_64_bits_bar_size :: "u32 \<Rightarrow> u32 \<Rightarrow> u64 option" where
  "decode_64_bits_bar_size bar_size_hi bar_size_lo =
     (let bar_size = push_bit 32 (ucast bar_size_hi) OR ucast bar_size_lo :: u64
      in if 0 < bar_size then Some (NOT bar_size + 1) else None)"

record pci_bar =
  bar_addr :: u32
  bar_size :: u32
  bar_used :: bool
  bar_type :: "pci_bar_region_type option"

record pci_configuration =
  registers :: "u32 list"
  writable_bits :: "u32 list"
  bars :: "pci_bar list"
  rom_bar_addr :: u32
  rom_bar_size :: u32
  rom_bar_used :: bool
  last_capability :: "(nat \<times> nat) option"
  msix_cap_reg_idx :: "nat option"
  pc_msix :: "msix_config option"

definition default_bar :: pci_bar where
  "default_bar = \<lparr>bar_addr = 0, bar_size = 0, bar_used = False, bar_type = None\<rparr>"

text \<open>The subclass and the programming interface are trait objects; the constructor only reads their
  register values.\<close>

definition pci_new :: "u16 \<Rightarrow> u16 \<Rightarrow> u8 \<Rightarrow> pci_class_code \<Rightarrow> u8 \<Rightarrow> u8 option \<Rightarrow> pci_header_type \<Rightarrow>
    u16 \<Rightarrow> u16 \<Rightarrow> msix_config option \<Rightarrow> pci_configuration" where
  "pci_new vendor_id device_id revision_id class_code subclass programming_interface header_type
     subsystem_vendor_id subsystem_id msix =
     (let r0 = (replicate NUM_CONFIGURATION_REGISTERS 0)
                 [0 := push_bit 16 (ucast device_id) OR ucast vendor_id];
          w1 = (replicate NUM_CONFIGURATION_REGISTERS 0)[1 := 0x0000ffff];
          pi = (case programming_interface of Some p \<Rightarrow> p | None \<Rightarrow> 0);
          r2 = r0[2 := push_bit 24 (ucast (class_register_value class_code)) OR
                       push_bit 16 (ucast subclass) OR push_bit 8 (ucast pi) OR ucast revision_id];
          w3 = w1[3 := 0x000000ff];
          (r3, w15) = (case header_type of
              HeaderDevice \<Rightarrow> (r2[3 := 0], w3[15 := 0x000000ff])
            | HeaderBridge \<Rightarrow> (r2[3 := 0x00010000], w3[9 := 0xfff0fff0, 15 := 0xffff00ff]));
          r11 = r3[11 := push_bit 16 (ucast subsystem_id) OR ucast subsystem_vendor_id]
      in \<lparr>registers = r11, writable_bits = w15, bars = replicate NUM_BAR_REGS default_bar,
          rom_bar_addr = 0, rom_bar_size = 0, rom_bar_used = False, last_capability = None,
          msix_cap_reg_idx = None, pc_msix = msix\<rparr>)"

subsection \<open>Register accesses\<close>

definition read_reg :: "pci_configuration \<Rightarrow> nat \<Rightarrow> u32" where
  "read_reg pc reg_idx =
     (if reg_idx < length (registers pc) then registers pc ! reg_idx else 0xffffffff)"

definition is_bar_reg :: "nat \<Rightarrow> bool" where
  "is_bar_reg reg_idx \<longleftrightarrow> BAR0_REG \<le> reg_idx \<and> reg_idx < BAR0_REG + NUM_BAR_REGS"

definition write_reg :: "nat \<Rightarrow> u32 \<Rightarrow> pci_configuration \<Rightarrow> pci_configuration option" where
  "write_reg reg_idx value pc =
     (if \<not> reg_idx < length (writable_bits pc) then None
      else
        let w = writable_bits pc ! reg_idx;
            mask = (if is_bar_reg reg_idx then
                      if value = 0xffffffff then w AND bar_size (bars pc ! (reg_idx - 4)) else w
                    else if reg_idx = ROM_BAR_REG then
                      if value AND ROM_BAR_ADDR_MASK = ROM_BAR_ADDR_MASK then w AND rom_bar_size pc else w
                    else w)
        in if reg_idx < length (registers pc) then
             Some (pc\<lparr>registers := (registers pc)
               [reg_idx := (registers pc ! reg_idx AND NOT w) OR (value AND mask)]\<rparr>)
           else Some pc)"

definition write_word :: "nat \<Rightarrow> u16 \<Rightarrow> pci_configuration \<Rightarrow> pci_configuration" where
  "write_word off value pc =
     (if \<not> (off mod 4 = 0 \<or> off mod 4 = 2) then pc
      else
        let shift = (if off mod 4 = 0 then 0 else 16);
            reg_idx = off div 4
        in if reg_idx < length (registers pc) then
             let writable_mask = writable_bits pc ! reg_idx;
                 mask = push_bit shift 0xffff AND writable_mask;
                 shifted_value = push_bit shift (ucast value) AND writable_mask
             in pc\<lparr>registers := (registers pc)
                  [reg_idx := (registers pc ! reg_idx AND NOT mask) OR shifted_value]\<rparr>
           else pc)"

definition write_byte_internal :: "nat \<Rightarrow> u8 \<Rightarrow> bool \<Rightarrow> pci_configuration \<Rightarrow> pci_configuration" where
  "write_byte_internal off value apply_writable_mask pc =
     (let shift = (off mod 4) * 8;
          reg_idx = off div 4
      in if reg_idx < length (registers pc) then
           let writable_mask = (if apply_writable_mask then writable_bits pc ! reg_idx else 0xffffffff);
               mask = push_bit shift 0xff AND writable_mask;
               shifted_value = push_bit shift (ucast value) AND writable_mask
           in pc\<lparr>registers := (registers pc)
                [reg_idx := (registers pc ! reg_idx AND NOT mask) OR shifted_value]\<rparr>
         else pc)"

definition write_byte :: "nat \<Rightarrow> u8 \<Rightarrow> pci_configuration \<Rightarrow> pci_configuration" where
  "write_byte off value pc = write_byte_internal off value True pc"

definition write_config_register :: "le_codec \<Rightarrow> nat \<Rightarrow> u64 \<Rightarrow> u8 list \<Rightarrow> pci_configuration \<Rightarrow>
    pci_configuration option" where
  "write_config_register c reg_idx off data pc =
     (if unat off + length data > 4 then Some pc
      else
        let pc1 = (case (msix_cap_reg_idx pc, pc_msix pc) of
              (Some idx, Some m) \<Rightarrow>
                if idx = reg_idx \<and> off = 2 \<and> length data = 2 then
                  map_option (\<lambda>m'. pc\<lparr>pc_msix := Some m'\<rparr>) (set_msg_ctl (read_u16 c data) m)
                else if idx = reg_idx \<and> off = 0 \<and> length data = 4 then
                  map_option (\<lambda>m'. pc\<lparr>pc_msix := Some m'\<rparr>)
                    (set_msg_ctl (ucast (drop_bit 16 (read_u32 c data))) m)
                else Some pc
            | _ \<Rightarrow> Some pc)
        in case pc1 of
             None \<Rightarrow> None
           | Some p \<Rightarrow>
               if length data = 1 then Some (write_byte (reg_idx * 4 + unat off) (data ! 0) p)
               else if length data = 2 then
                 Some (write_word (reg_idx * 4 + unat off)
                         (ucast (data ! 0) OR push_bit 8 (ucast (data ! 1))) p)
               else if length data = 4 then write_reg reg_idx (read_u32 c data) p
               else Some p)"

subsection \<open>Declaring BARs\<close>

definition count_ones_is_1 :: "u64 \<Rightarrow> bool" where
  "count_ones_is_1 v \<longleftrightarrow> length (filter (bit v) [0..<64]) = 1"

text \<open>The checks of the first half, then the register updates; an error after the first half leaves
  what was already written.\<close>

definition add_pci_bar :: "pci_bar_configuration \<Rightarrow> pci_configuration \<Rightarrow>
    (pci_configuration \<times> (pci_error + unit)) option" where
  "add_pci_bar config pc =
     (let bar_idx = bc_idx config;
          reg_idx = BAR0_REG + bar_idx
      in if \<not> bar_idx < length (bars pc) then None
         else if bar_used (bars pc ! bar_idx) then Some (pc, Inl (BarInUse bar_idx))
         else if \<not> count_ones_is_1 (bc_size config) then Some (pc, Inl (BarSizeInvalid (bc_size config)))
         else if bar_idx \<ge> NUM_BAR_REGS then Some (pc, Inl (BarInvalid bar_idx))
         else case checked_add (bc_addr config) (bc_size config - 1) of
           None \<Rightarrow> Some (pc, Inl (BarAddressInvalid (bc_addr config) (bc_size config)))
         | Some end_addr \<Rightarrow>
             (let sized = (case bc_region_type config of
                  Memory64BitRegion \<Rightarrow>
                    if bar_idx + 1 \<ge> NUM_BAR_REGS then Inl (BarInvalid64 bar_idx)
                    else if bar_used (bars pc ! (bar_idx + 1)) then Inl (BarInUse64 bar_idx)
                    else case encode_64_bits_bar_size (bc_size config) of
                      None \<Rightarrow> Inl Encode64BarSize
                    | Some (hi, lo) \<Rightarrow>
                        let a = ucast (drop_bit 32 (bc_addr config))
                        in Inr (pc\<lparr>registers := (registers pc)[reg_idx + 1 := a],
                                   writable_bits := (writable_bits pc)[reg_idx + 1 := 0xffffffff],
                                   bars := (bars pc)
                                     [bar_idx := (bars pc ! bar_idx)\<lparr>bar_size := lo\<rparr>,
                                      bar_idx + 1 := (bars pc ! (bar_idx + 1))
                                        \<lparr>bar_addr := a, bar_size := hi, bar_used := True\<rparr>]\<rparr>)
                | _ \<Rightarrow>
                    if end_addr > 0xffffffff then
                      Inl (BarAddressInvalid (bc_addr config) (bc_size config))
                    else case encode_32_bits_bar_size (ucast (bc_size config)) of
                      None \<Rightarrow> Inl Encode32BarSize
                    | Some s \<Rightarrow> Inr (pc\<lparr>bars := (bars pc)[bar_idx := (bars pc ! bar_idx)\<lparr>bar_size := s\<rparr>]\<rparr>))
              in case sized of
                   Inl e \<Rightarrow> Some (pc, Inl e)
                 | Inr p \<Rightarrow>
                     let (mask, lower_bits) = (case bc_region_type config of
                           IoRegion \<Rightarrow> (BAR_IO_ADDR_MASK, region_type_bits (bc_region_type config))
                         | _ \<Rightarrow> (BAR_MEM_ADDR_MASK,
                                  prefetchable_bits (bc_prefetchable config) OR
                                  region_type_bits (bc_region_type config)));
                         r = (ucast (bc_addr config) AND mask) OR lower_bits
                     in Some (p\<lparr>registers := (registers p)[reg_idx := r],
                                writable_bits := (writable_bits p)[reg_idx := mask],
                                bars := (bars p)[bar_idx := (bars p ! bar_idx)
                                  \<lparr>bar_addr := r, bar_used := True,
                                   bar_type := Some (bc_region_type config)\<rparr>]\<rparr>, Inr ())))"

definition add_pci_rom_bar :: "pci_bar_configuration \<Rightarrow> u32 \<Rightarrow> pci_configuration \<Rightarrow>
    pci_configuration \<times> (pci_error + unit)" where
  "add_pci_rom_bar config active pc =
     (let bar_idx = bc_idx config;
          reg_idx = ROM_BAR_REG
      in if rom_bar_used pc then (pc, Inl (RomBarInUse bar_idx))
         else if \<not> count_ones_is_1 (bc_size config) then (pc, Inl (RomBarSizeInvalid (bc_size config)))
         else if bar_idx \<noteq> ROM_BAR_IDX then (pc, Inl (RomBarInvalid bar_idx))
         else case checked_add (bc_addr config) (bc_size config - 1) of
           None \<Rightarrow> (pc, Inl (RomBarAddressInvalid (bc_addr config) (bc_size config)))
         | Some end_addr \<Rightarrow>
             if end_addr > 0xffffffff then
               (pc, Inl (RomBarAddressInvalid (bc_addr config) (bc_size config)))
             else
               let r = ucast (bc_addr config) OR active;
                   p = pc\<lparr>registers := (registers pc)[reg_idx := r],
                          writable_bits := (writable_bits pc)[reg_idx := ROM_BAR_ADDR_MASK],
                          rom_bar_addr := r\<rparr>
               in case encode_32_bits_bar_size (ucast (bc_size config)) of
                    None \<Rightarrow> (p, Inl Encode32BarSize)
                  | Some s \<Rightarrow> (p\<lparr>rom_bar_size := s, rom_bar_used := True\<rparr>, Inr ()))"

definition get_bar_addr :: "nat \<Rightarrow> pci_configuration \<Rightarrow> u64 option" where
  "get_bar_addr bar_num pc =
     (if \<not> bar_num < length (bars pc) then None
      else
        let b = bars pc ! bar_num;
            addr = ucast (bar_addr b AND writable_bits pc ! (BAR0_REG + bar_num)) :: u64
        in if bar_type b = Some Memory64BitRegion then
             if \<not> bar_num + 1 < length (bars pc) then None
             else Some (addr OR push_bit 32 (ucast (bar_addr (bars pc ! (bar_num + 1)))))
           else Some addr)"

text \<open>The pin is the enumeration value of \<open>PciInterruptPin\<close>, 0 for \<open>IntA\<close> to 3 for \<open>IntD\<close>.\<close>

definition set_irq :: "u8 \<Rightarrow> u32 \<Rightarrow> pci_configuration \<Rightarrow> pci_configuration" where
  "set_irq line pin pc =
     (let pin_idx = pin + 1
      in pc\<lparr>registers := (registers pc)[INTERRUPT_LINE_PIN_REG :=
           (registers pc ! INTERRUPT_LINE_PIN_REG AND 0xffff0000) OR push_bit 8 pin_idx OR ucast line]\<rparr>)"

subsection \<open>Capabilities\<close>

definition next_dword :: "nat \<Rightarrow> nat \<Rightarrow> nat" where
  "next_dword off len = (let next = off + len in (next + 3) div 4 * 4)"

fun write_cap_bytes :: "nat \<Rightarrow> u8 list \<Rightarrow> pci_configuration \<Rightarrow> pci_configuration" where
  "write_cap_bytes off [] pc = pc"
| "write_cap_bytes off (b # bs) pc = write_cap_bytes (Suc off) bs (write_byte_internal off b False pc)"

definition add_capability :: "pci_capability_id \<Rightarrow> u8 list \<Rightarrow> pci_configuration \<Rightarrow>
    pci_configuration \<times> (pci_error + nat)" where
  "add_capability cap_id cap_bytes pc =
     (let total_len = length cap_bytes
      in if cap_bytes = [] then (pc, Inl CapabilityEmpty)
         else
           let (cap_offset, tail_offset) = (case last_capability pc of
                 Some (off, len) \<Rightarrow> (next_dword off len, off + 1)
               | None \<Rightarrow> (FIRST_CAPABILITY_OFFSET, CAPABILITY_LIST_HEAD_OFFSET))
           in if cap_offset + total_len > CAPABILITY_MAX_OFFSET then (pc, Inl (CapabilitySpaceFull total_len))
              else
                let p1 = pc\<lparr>registers := (registers pc)[STATUS_REG :=
                           registers pc ! STATUS_REG OR STATUS_REG_CAPABILITIES_USED_MASK]\<rparr>;
                    p2 = write_byte_internal tail_offset (of_nat cap_offset) False p1;
                    p3 = write_byte_internal cap_offset (cap_id_as_u8 cap_id) False p2;
                    p4 = write_byte_internal (cap_offset + 1) 0 False p3;
                    p5 = write_cap_bytes (cap_offset + 2) cap_bytes p4;
                    p6 = p5\<lparr>last_capability := Some (cap_offset, total_len)\<rparr>;
                    p7 = (case cap_id of
                        MessageSignalledInterrupts \<Rightarrow>
                          p6\<lparr>writable_bits := (writable_bits p6)[cap_offset div 4 := MSI_CAPABILITY_REGISTER_MASK]\<rparr>
                      | MsiX \<Rightarrow>
                          p6\<lparr>msix_cap_reg_idx := Some (cap_offset div 4),
                             writable_bits := (writable_bits p6)[cap_offset div 4 := MSIX_CAPABILITY_REGISTER_MASK]\<rparr>
                      | _ \<Rightarrow> p6)
                in (p7, Inr cap_offset))"

subsection \<open>Relocation of BARs\<close>

record bar_reprogramming_params =
  old_base :: u64
  new_base :: u64
  reloc_len :: u64
  region_type :: pci_bar_region_type

definition detect_bar_reprogramming :: "le_codec \<Rightarrow> nat \<Rightarrow> u8 list \<Rightarrow> pci_configuration \<Rightarrow>
    (pci_configuration \<times> bar_reprogramming_params option) option" where
  "detect_bar_reprogramming c reg_idx data pc =
     (if length data \<noteq> 4 then Some (pc, None)
      else if \<not> reg_idx < length (writable_bits pc) then None
      else
        let value = read_u32 c data;
            mask = writable_bits pc ! reg_idx
        in if is_bar_reg reg_idx then
             if value = 0xffffffff then Some (pc, None)
             else
               let bar_idx = reg_idx - 4;
                   b = bars pc ! bar_idx
               in case bar_type b of
                    Some ty \<Rightarrow>
                      if ty = Memory64BitRegion then Some (pc, None)
                      else if value AND mask = bar_addr b AND mask then Some (pc, None)
                      else (case decode_32_bits_bar_size (bar_size b) of
                          None \<Rightarrow> None
                        | Some len \<Rightarrow>
                            Some (pc\<lparr>bars := (bars pc)[bar_idx := b\<lparr>bar_addr := value\<rparr>]\<rparr>,
                                  Some \<lparr>old_base = ucast (bar_addr b AND mask), new_base = ucast (value AND mask),
                                        reloc_len = ucast len, region_type = ty\<rparr>))
                  | None \<Rightarrow>
                      let lo = bars pc ! (bar_idx - 1);
                          lo_reg = registers pc ! (reg_idx - 1);
                          lo_mask = writable_bits pc ! (reg_idx - 1)
                      in if reg_idx > BAR0_REG \<and>
                            (lo_reg AND lo_mask \<noteq> bar_addr lo AND lo_mask \<or>
                             value AND mask \<noteq> bar_addr b AND mask) then
                           (case decode_64_bits_bar_size (bar_size b) (bar_size lo) of
                              None \<Rightarrow> None
                            | Some len \<Rightarrow>
                                Some (pc\<lparr>bars := (bars pc)[bar_idx := b\<lparr>bar_addr := value\<rparr>,
                                                            bar_idx - 1 := lo\<lparr>bar_addr := lo_reg\<rparr>]\<rparr>,
                                      Some \<lparr>old_base = push_bit 32 (ucast (bar_addr b AND mask)) OR
                                                       ucast (bar_addr lo AND lo_mask),
                                            new_base = push_bit 32 (ucast (value AND mask)) OR
                                                       ucast (lo_reg AND lo_mask),
                                            reloc_len = len, region_type = Memory64BitRegion\<rparr>))
                         else Some (pc, None)
           else if reg_idx = ROM_BAR_REG \<and> value AND mask \<noteq> rom_bar_addr pc AND mask then
             if value AND ROM_BAR_ADDR_MASK = ROM_BAR_ADDR_MASK then Some (pc, None)
             else (case decode_32_bits_bar_size (rom_bar_size pc) of
                 None \<Rightarrow> None
               | Some len \<Rightarrow>
                   Some (pc\<lparr>rom_bar_addr := value\<rparr>,
                         Some \<lparr>old_base = ucast (rom_bar_addr pc AND mask), new_base = ucast (value AND mask),
                               reloc_len = ucast len, region_type = Memory32BitRegion\<rparr>))
           else Some (pc, None))"

subsection \<open>Guest writes change writable bits only\<close>

definition pci_inv :: "pci_configuration \<Rightarrow> bool" where
  "pci_inv pc \<longleftrightarrow> length (registers pc) = 1024 \<and> length (writable_bits pc) = 1024 \<and> length (bars pc) = 6 \<and>
     (\<forall>m. pc_msix pc = Some m \<longrightarrow> msix_shape (length (table_entries m)) m \<and> nothing_stuck m)"

text \<open>What the guest writes, as a number, and the extra mask of the write that asks for a BAR's size.\<close>

definition guest_value :: "le_codec \<Rightarrow> u8 list \<Rightarrow> u32" where
  "guest_value c data =
     (if length data = 1 then ucast (data ! 0)
      else if length data = 2 then ucast (ucast (data ! 0) OR push_bit 8 (ucast (data ! 1)) :: u16)
      else read_u32 c data)"

definition probe_mask :: "le_codec \<Rightarrow> nat \<Rightarrow> u8 list \<Rightarrow> pci_configuration \<Rightarrow> u32" where
  "probe_mask c reg_idx data pc =
     (if length data = 4 \<and> is_bar_reg reg_idx \<and> read_u32 c data = 0xffffffff then bar_size (bars pc ! (reg_idx - 4))
      else if length data = 4 \<and> reg_idx = ROM_BAR_REG \<and>
        read_u32 c data AND ROM_BAR_ADDR_MASK = ROM_BAR_ADDR_MASK then rom_bar_size pc
      else - 1)"

definition accepted_access :: "u64 \<Rightarrow> u8 list \<Rightarrow> bool" where
  "accepted_access off data \<longleftrightarrow> unat off + length data \<le> 4 \<and>
     (length data = 1 \<or> length data = 2 \<and> unat off \<noteq> 1 \<or> length data = 4)"

lemma const_bits_32:
  "bit (0xffff :: u32) n \<longleftrightarrow> n < 16" "bit (0xff :: u32) n \<longleftrightarrow> n < 8"
  "bit (0xffffffff :: u32) n \<longleftrightarrow> n < 32"
  by (subst bit_mask_eq [of _ 16] bit_mask_eq [of _ 8] bit_mask_eq [of _ 32];
      force simp: mask_eq_exp_minus_1)+

lemma masked_write_bit:
  fixes r w v :: u32
  assumes "k < 32"
  shows "bit ((r AND NOT w) OR (v AND (w AND z))) k =
      (if bit w k then bit v k \<and> bit z k else bit r k)"
    and "bit ((r AND NOT (push_bit s m AND w)) OR (push_bit s v AND w)) k =
      (if bit w k \<and> s \<le> k \<and> bit m (k - s) then bit v (k - s)
       else if bit w k \<and> s \<le> k then bit r k \<or> bit v (k - s) else bit r k)"
  using assms by (auto simp: bit_simps)

lemma write_byte_registers:
  assumes "length (registers pc) = 1024" "reg < 1024" "o' < 4"
  shows "registers (write_byte_internal (reg * 4 + o') v ap pc) ! r =
    (if r = reg then
       (registers pc ! reg AND NOT (push_bit (o' * 8) 0xff AND (if ap then writable_bits pc ! reg else 0xffffffff)))
         OR (push_bit (o' * 8) (ucast v) AND (if ap then writable_bits pc ! reg else 0xffffffff))
     else registers pc ! r)"
proof -
  have "(reg * 4 + o') div 4 = reg" "(reg * 4 + o') mod 4 = o'" using assms(3) by auto
  then show ?thesis using assms by (simp add: write_byte_internal_def Let_def nth_list_update)
qed

lemma write_word_registers:
  assumes "length (registers pc) = 1024" "reg < 1024" "o' = 0 \<or> o' = 2"
  shows "registers (write_word (reg * 4 + o') v pc) ! r =
    (if r = reg then
       (registers pc ! reg AND NOT (push_bit (o' * 8) 0xffff AND writable_bits pc ! reg))
         OR (push_bit (o' * 8) (ucast v) AND writable_bits pc ! reg)
     else registers pc ! r)"
proof -
  have "(reg * 4 + o') div 4 = reg" "(reg * 4 + o') mod 4 = o'" using assms(3) by auto
  then show ?thesis using assms by (auto simp: write_word_def Let_def nth_list_update)
qed

lemma write_frames [simp]:
  "writable_bits (write_byte_internal i v ap pc) = writable_bits pc"
  "bars (write_byte_internal i v ap pc) = bars pc"
  "pc_msix (write_byte_internal i v ap pc) = pc_msix pc"
  "rom_bar_addr (write_byte_internal i v ap pc) = rom_bar_addr pc"
  "length (registers (write_byte_internal i v ap pc)) = length (registers pc)"
  "writable_bits (write_word i w pc) = writable_bits pc"
  "bars (write_word i w pc) = bars pc"
  "pc_msix (write_word i w pc) = pc_msix pc"
  "rom_bar_addr (write_word i w pc) = rom_bar_addr pc"
  "length (registers (write_word i w pc)) = length (registers pc)"
  by (simp_all add: write_byte_internal_def write_word_def Let_def)

text \<open>The MSI-X part of a guest write: what is left of the configuration is untouched.\<close>

definition msix_part :: "le_codec \<Rightarrow> nat \<Rightarrow> u64 \<Rightarrow> u8 list \<Rightarrow> pci_configuration \<Rightarrow> pci_configuration option" where
  "msix_part c reg_idx off data pc = (case (msix_cap_reg_idx pc, pc_msix pc) of
      (Some idx, Some m) \<Rightarrow>
        if idx = reg_idx \<and> off = 2 \<and> length data = 2 then
          map_option (\<lambda>m'. pc\<lparr>pc_msix := Some m'\<rparr>) (set_msg_ctl (read_u16 c data) m)
        else if idx = reg_idx \<and> off = 0 \<and> length data = 4 then
          map_option (\<lambda>m'. pc\<lparr>pc_msix := Some m'\<rparr>)
            (set_msg_ctl (ucast (drop_bit 16 (read_u32 c data))) m)
        else Some pc
    | _ \<Rightarrow> Some pc)"

lemma msix_part_ok:
  assumes "pci_inv pc"
  obtains ms where "msix_part c reg_idx off data pc = Some (pc\<lparr>pc_msix := ms\<rparr>)" "pci_inv (pc\<lparr>pc_msix := ms\<rparr>)"
proof -
  have keep: "pc\<lparr>pc_msix := pc_msix pc\<rparr> = pc" by simp
  have inv: "\<exists>ms. x = Some (pc\<lparr>pc_msix := ms\<rparr>) \<and> pci_inv (pc\<lparr>pc_msix := ms\<rparr>)"
    if "x = Some pc \<or> (\<exists>m v. pc_msix pc = Some m \<and>
      x = map_option (\<lambda>m'. pc\<lparr>pc_msix := Some m'\<rparr>) (set_msg_ctl v m))" for x
    using that
  proof (elim disjE exE conjE)
    assume "x = Some pc"
    then show ?thesis using assms keep by metis
  next
    fix m v assume m: "pc_msix pc = Some m"
      and x: "x = map_option (\<lambda>m'. pc\<lparr>pc_msix := Some m'\<rparr>) (set_msg_ctl v m)"
    then have s: "msix_shape (length (table_entries m)) m" "nothing_stuck m"
      using assms by (auto simp: pci_inv_def)
    obtain m' where m': "set_msg_ctl v m = Some m'" "clears (length (table_entries m)) m m'" "nothing_stuck m'"
      "table_entries m' = table_entries m"
      using set_msg_ctl_ok [OF s, of v] by auto
    then have "pci_inv (pc\<lparr>pc_msix := Some m'\<rparr>)" using assms by (auto simp: pci_inv_def clears_def)
    then show ?thesis using m' x by auto
  qed
  have "\<exists>ms. msix_part c reg_idx off data pc = Some (pc\<lparr>pc_msix := ms\<rparr>) \<and> pci_inv (pc\<lparr>pc_msix := ms\<rparr>)"
    by (rule inv) (auto simp: msix_part_def split: option.splits)
  then show thesis using that by auto
qed


definition guest_register :: "le_codec \<Rightarrow> nat \<Rightarrow> u64 \<Rightarrow> u8 list \<Rightarrow> pci_configuration \<Rightarrow> nat \<Rightarrow> bool" where
  "guest_register c reg_idx off data pc n \<longleftrightarrow>
     (if accepted_access off data \<and> bit (writable_bits pc ! reg_idx) n \<and>
         8 * unat off \<le> n \<and> n < 8 * (unat off + length data)
      then bit (guest_value c data) (n - 8 * unat off) \<and> bit (probe_mask c reg_idx data pc) n
      else bit (registers pc ! reg_idx) n)"

lemma write_reg_register:
  assumes "pci_inv pc" "reg < 1024" "length data = 4" "off = 0"
  obtains pc' where "write_reg reg (read_u32 c data) pc = Some pc'"
    "registers pc' = (registers pc)[reg := registers pc' ! reg]"
    "pc' = pc\<lparr>registers := registers pc'\<rparr>"
    "\<forall>n < 32. bit (registers pc' ! reg) n = guest_register c reg off data pc n"
proof -
  let ?w = "writable_bits pc ! reg" and ?v = "read_u32 c data"
  let ?r = "(registers pc ! reg AND NOT ?w) OR (?v AND (?w AND probe_mask c reg data pc))"
  have len: "length (registers pc) = 1024" "length (writable_bits pc) = 1024"
    using assms by (simp_all add: pci_inv_def)
  have "write_reg reg ?v pc = Some (pc\<lparr>registers := (registers pc)[reg := ?r]\<rparr>)"
    using assms(2,3) len
    by (auto simp: write_reg_def probe_mask_def Let_def is_bar_reg_def pci_const_defs)
  moreover have "bit ?r n = guest_register c reg off data pc n" if "n < 32" for n
    unfolding masked_write_bit(1) [OF that]
    using that assms(3,4) by (simp add: guest_register_def accepted_access_def guest_value_def)
  ultimately show thesis using that assms(2) len by simp
qed

lemma small_write_register:
  assumes "pci_inv pc" "reg < 1024" "accepted_access off data" "length data < 4"
  defines "p \<equiv> (if length data = 1 then write_byte (reg * 4 + unat off) (data ! 0) pc
    else write_word (reg * 4 + unat off) (ucast (data ! 0) OR push_bit 8 (ucast (data ! 1))) pc)"
  shows "registers p = (registers pc)[reg := registers p ! reg]"
    "n < 32 \<Longrightarrow> bit (registers p ! reg) n = guest_register c reg off data pc n"
proof -
  have len: "length (registers pc) = 1024" using assms by (simp add: pci_inv_def)
  have off: "unat off < 4" "length data = 2 \<Longrightarrow> unat off = 0 \<or> unat off = 2"
    using assms(3) by (auto simp: accepted_access_def)
  have two: "length data = 1 \<or> length data = 2" using assms(3,4) by (auto simp: accepted_access_def)
  note regs = write_byte_registers [OF len assms(2) off(1)]
    write_word_registers [OF len assms(2) off(2)]
  show "registers p = (registers pc)[reg := registers p ! reg]"
    using two assms(2) len
    by (intro nth_equalityI) (auto simp: p_def write_byte_def regs nth_list_update)
  have pm: "probe_mask c reg data pc = - 1" using assms(4) by (simp add: probe_mask_def)
  let ?w = "writable_bits pc ! reg" and ?s = "unat off * 8"
  show "bit (registers p ! reg) n = guest_register c reg off data pc n" if n: "n < 32"
  proof (cases "length data = 1")
    case True
    then have "registers p ! reg = (registers pc ! reg AND NOT (push_bit ?s 0xff AND ?w)) OR
        (push_bit ?s (ucast (data ! 0)) AND ?w)"
      using regs(1) [of "data ! 0" True reg] by (simp add: p_def write_byte_def)
    then show ?thesis
      unfolding guest_register_def guest_value_def pm
      by (simp only: masked_write_bit(2) [OF n] const_bits_32 bit_ucast_iff)
        (use True n assms(3) in \<open>auto dest: bit_imp_le_length simp: mult.commute bit_ucast_iff\<close>)
  next
    case False
    let ?v = "ucast (data ! 0) OR push_bit 8 (ucast (data ! 1)) :: u16"
    have l2: "length data = 2" using False two by simp
    then have "registers p ! reg = (registers pc ! reg AND NOT (push_bit ?s 0xffff AND ?w)) OR
        (push_bit ?s (ucast ?v) AND ?w)"
      using regs(2) [of ?v reg] by (simp add: p_def)
    then show ?thesis
      unfolding guest_register_def guest_value_def pm
      by (simp only: masked_write_bit(2) [OF n] const_bits_32 bit_ucast_iff)
        (use l2 n assms(3) in \<open>auto dest: bit_imp_le_length simp: mult.commute bit_ucast_iff\<close>)
  qed
qed

lemma refused_write:
  assumes "\<not> accepted_access off data" "unat off + length data \<le> 4"
  shows "length data = 2 \<Longrightarrow> write_word (reg * 4 + unat off) v pc = pc"
    "length data \<noteq> 1" "length data \<noteq> 4"
proof -
  show "length data \<noteq> 1" "length data \<noteq> 4" using assms by (auto simp: accepted_access_def)
  assume "length data = 2"
  then have "unat off = 1" using assms by (auto simp: accepted_access_def)
  then have "(reg * 4 + unat off) mod 4 = 1" by presburger
  then show "write_word (reg * 4 + unat off) v pc = pc" by (simp add: write_word_def)
qed

lemma guest_write_ok:
  assumes "pci_inv pc" "reg < 1024"
  shows "\<exists>pc'. write_config_register c reg off data pc = Some pc' \<and> pci_inv pc' \<and>
    (\<forall>n < 32. bit (registers pc' ! reg) n = guest_register c reg off data pc n) \<and>
    (\<forall>r. r \<noteq> reg \<longrightarrow> registers pc' ! r = registers pc ! r) \<and>
    writable_bits pc' = writable_bits pc \<and> bars pc' = bars pc \<and> rom_bar_addr pc' = rom_bar_addr pc"
proof (cases "unat off + length data \<le> 4")
  case False
  then show ?thesis using assms
    by (intro exI [of _ pc]) (auto simp: write_config_register_def guest_register_def accepted_access_def)
next
  case True
  obtain ms where "msix_part c reg off data pc = Some (pc\<lparr>pc_msix := ms\<rparr>)"
    "pci_inv (pc\<lparr>pc_msix := ms\<rparr>)" by (rule msix_part_ok [OF assms(1)])
  note ms = this
  let ?p = "pc\<lparr>pc_msix := ms\<rparr>"
  have wc: "write_config_register c reg off data pc =
      (if length data = 1 then Some (write_byte (reg * 4 + unat off) (data ! 0) ?p)
       else if length data = 2 then
         Some (write_word (reg * 4 + unat off) (ucast (data ! 0) OR push_bit 8 (ucast (data ! 1))) ?p)
       else if length data = 4 then write_reg reg (read_u32 c data) ?p else Some ?p)"
    using True ms(1) unfolding write_config_register_def msix_part_def Let_def by simp
  have gr: "guest_register c reg off data ?p = guest_register c reg off data pc"
  proof -
    have "registers ?p = registers pc" "writable_bits ?p = writable_bits pc" "bars ?p = bars pc"
      "rom_bar_size ?p = rom_bar_size pc" by simp_all
    then show ?thesis by (intro ext) (simp only: guest_register_def probe_mask_def)
  qed
  have "length data = 4 \<Longrightarrow> off = 0" using True by (simp add: unat_eq_zero)
  moreover have "accepted_access off data \<Longrightarrow> length data \<noteq> 4 \<Longrightarrow> length data < 4"
    by (auto simp: accepted_access_def)
  ultimately consider (none) "\<not> accepted_access off data" | (small) "accepted_access off data" "length data < 4"
    | (full) "length data = 4" "off = 0"
    by blast
  then show ?thesis
  proof cases
    case none
    then have "write_config_register c reg off data pc = Some ?p"
      using wc refused_write [OF none True] by simp
    then show ?thesis using ms(2) none by (auto simp: guest_register_def)
  next
    case small
    let ?q = "if length data = 1 then write_byte (reg * 4 + unat off) (data ! 0) ?p
      else write_word (reg * 4 + unat off) (ucast (data ! 0) OR push_bit 8 (ucast (data ! 1))) ?p"
    have "write_config_register c reg off data pc = Some ?q"
      using wc small by (auto simp: accepted_access_def)
    moreover have "pci_inv ?q" using ms(2) by (simp add: pci_inv_def write_byte_def)
    moreover have "registers ?q ! r = registers pc ! r" if "r \<noteq> reg" for r
      using that by (subst small_write_register(1) [OF ms(2) assms(2) small]) simp
    moreover have "bit (registers ?q ! reg) n = guest_register c reg off data pc n" if "n < 32" for n
      unfolding gr [symmetric] by (rule small_write_register(2) [OF ms(2) assms(2) small that])
    moreover have "writable_bits ?q = writable_bits pc" "bars ?q = bars pc" "rom_bar_addr ?q = rom_bar_addr pc"
      by (simp_all add: write_byte_def)
    ultimately show ?thesis by blast
  next
    case full
    obtain q where q: "write_reg reg (read_u32 c data) ?p = Some q"
      "registers q = (registers ?p)[reg := registers q ! reg]" "q = ?p\<lparr>registers := registers q\<rparr>"
      "\<forall>n < 32. bit (registers q ! reg) n = guest_register c reg off data ?p n"
      by (rule write_reg_register [OF ms(2) assms(2) full])
    have len: "length (registers q) = 1024"
      using q(2) ms(2) by (metis length_list_update pci_inv_def)
    have sel: "writable_bits q = writable_bits pc" "bars q = bars pc" "pc_msix q = ms" "rom_bar_addr q = rom_bar_addr pc"
      by (subst q(3), simp)+
    then have "pci_inv q" using ms(2) len by (simp add: pci_inv_def)
    moreover have "registers q ! r = registers pc ! r" if "r \<noteq> reg" for r
      using that by (subst q(2)) simp
    ultimately show ?thesis using q(1,4) wc full sel gr by auto
  qed
qed

text \<open>C6. A guest access to the configuration space always returns and changes nothing but the
  writable bits of the bytes it addresses: on a well-formed configuration, bit \<open>n\<close> of the addressed
  register becomes the written bit where the access covers it and it is writable (and, for the write
  of all ones that asks for the size of a BAR, where the encoded size has a one) and keeps its value
  otherwise; every other register, the writable bits and the BARs stay as they are, and the
  configuration stays well formed.\<close>

theorem pci_guest_write:
  assumes "pci_inv pc" "reg < 1024"
  shows "\<exists>pc'. write_config_register c reg off data pc = Some pc' \<and> pci_inv pc' \<and>
    (\<forall>n < 32. bit (registers pc' ! reg) n = guest_register c reg off data pc n) \<and>
    (\<forall>r. r \<noteq> reg \<longrightarrow> registers pc' ! r = registers pc ! r) \<and>
    writable_bits pc' = writable_bits pc \<and> bars pc' = bars pc \<and> rom_bar_addr pc' = rom_bar_addr pc"
  by (rule guest_write_ok [OF assms])

theorem pci_guest_write_witness:
  "\<exists>pc'. write_config_register le_impl 1 0 [0x07, 0x00, 0xff, 0xff]
      (pci_new 0x8086 0x0d57 0 BridgeDevice 0 None HeaderDevice 0 0 None) = Some pc' \<and>
    bit (registers pc' ! 1) 0 \<and> \<not> bit (registers pc' ! 1) 16"
proof -
  let ?pc = "pci_new 0x8086 0x0d57 0 BridgeDevice 0 None HeaderDevice 0 0 None"
  have inv: "pci_inv ?pc" by (simp add: pci_inv_def pci_new_def pci_const_defs Let_def)
  have w: "writable_bits ?pc ! 1 = 0xffff" "registers ?pc ! 1 = 0"
    by (simp_all add: pci_new_def pci_const_defs Let_def nth_list_update)
  have v: "read_u32 le_impl [0x07, 0x00, 0xff, 0xff] = 0xffff0007"
    by (simp add: le_impl_def le_value_def)
  have g: "guest_register le_impl 1 0 [0x07, 0x00, 0xff, 0xff] ?pc 0"
    "\<not> guest_register le_impl 1 0 [0x07, 0x00, 0xff, 0xff] ?pc 16"
    by (simp_all add: guest_register_def w [unfolded One_nat_def] accepted_access_def guest_value_def
        probe_mask_def is_bar_reg_def pci_const_defs v const_bits_32 del: bit_numeral_word_iff)
  obtain pc' where "write_config_register le_impl 1 0 [0x07, 0x00, 0xff, 0xff] ?pc = Some pc'"
    "\<forall>n < 32. bit (registers pc' ! 1) n = guest_register le_impl 1 0 [0x07, 0x00, 0xff, 0xff] ?pc n"
    using pci_guest_write [OF inv, of 1 le_impl 0 "[0x07, 0x00, 0xff, 0xff]"] by auto
  then show ?thesis using g by simp
qed

subsection \<open>Sizes and addresses of BARs\<close>

lemma decode_encode_32: "encode_32_bits_bar_size s = Some e \<Longrightarrow> 0 < e \<Longrightarrow> decode_32_bits_bar_size e = Some s"
  by (auto simp: encode_32_bits_bar_size_def decode_32_bits_bar_size_def split: if_splits)

lemma count_ones_power:
  assumes "count_ones_is_1 s"
  obtains k where "k < 64" "s = 2 ^ k"
proof -
  obtain k where k: "filter (bit s) [0..<64] = [k]"
    using assms unfolding count_ones_is_1_def by (metis One_nat_def length_0_conv length_Suc_conv)
  have "set (filter (bit s) [0..<64]) = {k}" unfolding k by simp
  then have b: "k < 64" "\<And>n. n < 64 \<Longrightarrow> bit s n \<longleftrightarrow> n = k" by auto
  have "s = 2 ^ k"
    by (rule bit_word_eqI) (use b in \<open>auto simp: bit_exp_iff\<close>)
  then show thesis using b(1) that by blast
qed

lemma bit_not_pred_power:
  assumes "k < LENGTH('a)"
  shows "bit (NOT ((2 :: 'a::len word) ^ k - 1)) n \<longleftrightarrow> k \<le> n \<and> n < LENGTH('a)"
proof -
  have "(2 :: 'a word) ^ k - 1 = mask k" by (simp add: mask_eq_exp_minus_1)
  then show ?thesis by (simp add: bit_not_iff bit_mask_iff) auto
qed

text \<open>The steps by which a driver sizes a BAR: write all ones to the register (to both registers of
  a 64-bit BAR), read back, drop the type bits, negate and add one.\<close>

definition guest_probe :: "nat \<Rightarrow> pci_configuration \<Rightarrow> u64 option" where
  "guest_probe idx pc =
     (case write_reg (4 + idx) 0xffffffff pc of
        None \<Rightarrow> None
      | Some p1 \<Rightarrow>
          let lo = read_reg p1 (4 + idx)
          in if lo AND 1 = 1 then Some (ucast (NOT (lo AND 0xfffffffc) + 1))
             else if lo AND 6 = 0 then Some (ucast (NOT (lo AND 0xfffffff0) + 1))
             else case write_reg (5 + idx) 0xffffffff p1 of
               None \<Rightarrow> None
             | Some p2 \<Rightarrow>
                 Some (NOT (push_bit 32 (ucast (read_reg p2 (5 + idx))) OR ucast (lo AND 0xfffffff0)) + 1))"

text \<open>A declared BAR: the facts about registers, writable bits and sizes that declaring establishes.\<close>

definition declared :: "pci_bar_configuration \<Rightarrow> pci_configuration \<Rightarrow> bool" where
  "declared cfg pc \<longleftrightarrow>
     (let i = bc_idx cfg; ty = bc_region_type cfg;
          m = (if ty = IoRegion then 0xfffffffc else 0xfffffff0)
      in i < 6 \<and> bar_used (bars pc ! i) \<and> bar_type (bars pc ! i) = Some ty \<and>
         writable_bits pc ! (4 + i) = m \<and> registers pc ! (4 + i) = bar_addr (bars pc ! i) \<and>
         bar_addr (bars pc ! i) = (ucast (bc_addr cfg) AND m) OR
           (if ty = IoRegion then 1 else prefetchable_bits (bc_prefetchable cfg) OR region_type_bits ty) \<and>
         bar_size (bars pc ! i) = ucast (NOT (bc_size cfg - 1)) \<and>
         (ty = Memory64BitRegion \<longrightarrow> i + 1 < 6 \<and> bar_used (bars pc ! (i + 1)) \<and>
            writable_bits pc ! (5 + i) = 0xffffffff \<and>
            registers pc ! (5 + i) = bar_addr (bars pc ! (i + 1)) \<and>
            bar_addr (bars pc ! (i + 1)) = ucast (drop_bit 32 (bc_addr cfg)) \<and>
            bar_size (bars pc ! (i + 1)) = ucast (drop_bit 32 (NOT (bc_size cfg - 1)))))"

lemma ucast_low_half: "ucast (r AND 0xffffffff :: u64) = (ucast r :: u32)"
proof -
  have m: "(0xffffffff :: u64) = mask 32" by (simp add: mask_eq_exp_minus_1)
  show ?thesis unfolding m by (rule bit_word_eqI) (auto simp: bit_simps)
qed

lemma encode_32_ucast:
  assumes "count_ones_is_1 s" "encode_32_bits_bar_size (ucast s) = Some e"
  shows "e = ucast (NOT (s - 1))"
proof -
  obtain k where k: "k < 64" "s = 2 ^ k" by (rule count_ones_power [OF assms(1)])
  have u: "(ucast s :: u32) = (if k < 32 then 2 ^ k else 0)"
    by (rule bit_word_eqI) (auto simp: k bit_simps bit_exp_iff)
  then have k32: "k < 32" and e: "e = NOT (2 ^ k - 1)"
    using assms(2) by (auto simp: encode_32_bits_bar_size_def split: if_splits)
  show ?thesis
    by (rule bit_word_eqI) (use k k32 in \<open>auto simp: e k(2) bit_not_pred_power bit_ucast_iff\<close>)
qed

lemma add_pci_bar_declared:
  assumes "pci_inv pc" "add_pci_bar cfg pc = Some (pc', Inr ())"
  shows "pci_inv pc' \<and> declared cfg pc' \<and> count_ones_is_1 (bc_size cfg) \<and>
    (bc_region_type cfg \<noteq> Memory64BitRegion \<longrightarrow> (ucast (bc_size cfg) :: u32) \<noteq> 0)"
proof (cases "bc_region_type cfg = Memory64BitRegion")
  case True
  then show ?thesis using assms
    by (auto simp: add_pci_bar_def Let_def pci_inv_def declared_def pci_const_defs BAR_MEM_ADDR_MASK_def
        encode_64_bits_bar_size_def ucast_low_half nth_list_update
        split: if_splits option.splits pci_bar_region_type.splits)
next
  case False
  let ?s = "encode_32_bits_bar_size (ucast (bc_size cfg))"
  obtain e where e: "?s = Some e" and c1: "count_ones_is_1 (bc_size cfg)"
    using False assms by (auto simp: add_pci_bar_def Let_def split: if_splits option.splits pci_bar_region_type.splits)
  note eq = encode_32_ucast [OF c1 e]
  have nz: "(ucast (bc_size cfg) :: u32) \<noteq> 0"
    using e by (auto simp: encode_32_bits_bar_size_def split: if_splits)
  show ?thesis using False assms e nz
    by (auto simp: add_pci_bar_def Let_def pci_inv_def declared_def pci_const_defs BAR_MEM_ADDR_MASK_def
        BAR_IO_ADDR_MASK_def eq nth_list_update
        split: if_splits option.splits pci_bar_region_type.splits)
qed

lemma probed_register:
  fixes t m e x :: u32
  assumes "t AND m = 0"
  shows "(((x AND m) OR t) AND NOT m) OR (0xffffffff AND (m AND e)) = t OR (m AND e)"
    and "(t OR (m AND e)) AND m = m AND e"
proof -
  have t: "\<not> (bit t n \<and> bit m n)" for n using assms by (metis bit_0_eq bit_and_iff bot_apply bot_bool_def)
  show "(((x AND m) OR t) AND NOT m) OR (0xffffffff AND (m AND e)) = t OR (m AND e)"
    by (rule bit_word_eqI) (use t in \<open>auto simp: bit_simps const_bits_32 simp del: bit_numeral_word_iff\<close>)
  show "(t OR (m AND e)) AND m = m AND e"
    by (rule bit_word_eqI) (use t in \<open>auto simp: bit_simps\<close>)
qed

lemma const_mask_bits:
  "bit (0xfffffff0 :: u32) n \<longleftrightarrow> 4 \<le> n \<and> n < 32" "bit (0xfffffffc :: u32) n \<longleftrightarrow> 2 \<le> n \<and> n < 32"
  by (subst bit_not_mask_eq [of _ 4] bit_not_mask_eq [of _ 2]; force simp: mask_eq_exp_minus_1)+

lemma size_code_low:
  assumes "k < 64"
  shows "4 \<le> k \<Longrightarrow>
      0xfffffff0 AND (ucast (NOT ((2 :: u64) ^ k - 1)) :: u32) = ucast (NOT ((2 :: u64) ^ k - 1))"
    and "2 \<le> k \<Longrightarrow>
      0xfffffffc AND (ucast (NOT ((2 :: u64) ^ k - 1)) :: u32) = ucast (NOT ((2 :: u64) ^ k - 1))"
  by (rule bit_word_eqI, use assms in
      \<open>auto simp: bit_and_iff bit_ucast_iff bit_not_pred_power const_mask_bits simp del: bit_numeral_word_iff\<close>)+

lemma size_decode:
  assumes "k < 64"
  shows "k < 32 \<Longrightarrow> ucast (NOT (ucast (NOT ((2 :: u64) ^ k - 1)) :: u32) + 1) = (2 :: u64) ^ k"
    and "NOT (push_bit 32 (ucast (ucast (drop_bit 32 (NOT ((2 :: u64) ^ k - 1))) :: u32)) OR
      ucast (ucast (NOT ((2 :: u64) ^ k - 1)) :: u32)) + 1 = (2 :: u64) ^ k"
proof -
  have halves: "push_bit 32 (ucast (ucast (drop_bit 32 v) :: u32)) OR ucast (ucast v :: u32) = v" for v :: u64
    using u64_halves [of v] by (simp add: ucast_low_half)
  show "NOT (push_bit 32 (ucast (ucast (drop_bit 32 (NOT ((2 :: u64) ^ k - 1))) :: u32)) OR
      ucast (ucast (NOT ((2 :: u64) ^ k - 1)) :: u32)) + 1 = (2 :: u64) ^ k"
    unfolding halves by simp
  assume k: "k < 32"
  have "(ucast (NOT ((2 :: u64) ^ k - 1)) :: u32) = NOT (2 ^ k - 1)"
    by (rule bit_word_eqI) (use k in \<open>auto simp: bit_not_pred_power bit_ucast_iff\<close>)
  then have "NOT (ucast (NOT ((2 :: u64) ^ k - 1)) :: u32) + 1 = 2 ^ k" by simp
  moreover have "ucast ((2 :: u32) ^ k) = (2 :: u64) ^ k"
    by (rule bit_word_eqI) (use k in \<open>auto simp: bit_ucast_iff bit_exp_iff\<close>)
  ultimately show "ucast (NOT (ucast (NOT ((2 :: u64) ^ k - 1)) :: u32) + 1) = (2 :: u64) ^ k" by simp
qed

definition bar_low_bits :: "pci_bar_configuration \<Rightarrow> u32" where
  "bar_low_bits cfg = (if bc_region_type cfg = IoRegion then 1
     else prefetchable_bits (bc_prefetchable cfg) OR region_type_bits (bc_region_type cfg))"

definition bar_mask :: "pci_bar_configuration \<Rightarrow> u32" where
  "bar_mask cfg = (if bc_region_type cfg = IoRegion then 0xfffffffc else 0xfffffff0)"

lemma bar_low_bits_mask: "bar_low_bits cfg AND bar_mask cfg = 0"
  by (cases "bc_region_type cfg"; cases "bc_prefetchable cfg") (simp_all add: bar_low_bits_def bar_mask_def)

lemma all_ones_32: "(0xffffffff :: u32) AND h = h" "h AND (0xffffffff :: u32) = h" "(- 0x100000000 :: u32) = 0"
proof -
  show "(0xffffffff :: u32) AND h = h" "h AND (0xffffffff :: u32) = h"
    by (auto intro!: bit_word_eqI simp: bit_and_iff const_bits_32 simp del: bit_numeral_word_iff)
qed (transfer, simp)

lemma masked_and_zero: "m AND c = 0 \<Longrightarrow> (t OR (m AND e)) AND c = t AND c" for m c t e :: u32
  by (simp add: bit.conj_disj_distrib2 and.assoc and.left_commute)

lemma bar_type_bits:
  fixes e :: u32
  shows "(bar_low_bits cfg OR (bar_mask cfg AND e)) AND 1 = 1 \<longleftrightarrow> bc_region_type cfg = IoRegion"
    and "bc_region_type cfg \<noteq> IoRegion \<Longrightarrow>
      (bar_low_bits cfg OR (bar_mask cfg AND e)) AND 6 = 0 \<longleftrightarrow> bc_region_type cfg = Memory32BitRegion"
proof -
  have m: "bar_mask cfg AND 1 = 0" by (simp add: bar_mask_def)
  show "(bar_low_bits cfg OR (bar_mask cfg AND e)) AND 1 = 1 \<longleftrightarrow> bc_region_type cfg = IoRegion"
    unfolding masked_and_zero [OF m]
    by (cases "bc_region_type cfg"; cases "bc_prefetchable cfg") (simp_all add: bar_low_bits_def)
  assume ty: "bc_region_type cfg \<noteq> IoRegion"
  then have m6: "bar_mask cfg AND 6 = 0" by (simp add: bar_mask_def)
  show "(bar_low_bits cfg OR (bar_mask cfg AND e)) AND 6 = 0 \<longleftrightarrow> bc_region_type cfg = Memory32BitRegion"
    unfolding masked_and_zero [OF m6] using ty
    by (cases "bc_region_type cfg"; cases "bc_prefetchable cfg") (simp_all add: bar_low_bits_def)
qed

lemma declared_probe:
  assumes "pci_inv pc" "declared cfg pc" "bc_size cfg = 2 ^ k" "k < 64"
    and "(if bc_region_type cfg = IoRegion then 2 else 4) \<le> k"
    and "bc_region_type cfg \<noteq> Memory64BitRegion \<Longrightarrow> k < 32"
  shows "guest_probe (bc_idx cfg) pc = Some (bc_size cfg)"
proof -
  let ?i = "bc_idx cfg" and ?e = "ucast (NOT ((2 :: u64) ^ k - 1)) :: u32"
  let ?h = "ucast (drop_bit 32 (NOT ((2 :: u64) ^ k - 1))) :: u32"
  let ?lo = "bar_low_bits cfg OR (bar_mask cfg AND ?e)"
  have len: "length (registers pc) = 1024" "length (writable_bits pc) = 1024" "length (bars pc) = 6"
    using assms(1) by (simp_all add: pci_inv_def)
  have d: "?i < 6" "writable_bits pc ! (4 + ?i) = bar_mask cfg" "bar_size (bars pc ! ?i) = ?e"
    "registers pc ! (4 + ?i) = (ucast (bc_addr cfg) AND bar_mask cfg) OR bar_low_bits cfg"
    using assms(2) by (simp_all add: declared_def bar_mask_def bar_low_bits_def Let_def assms(3))
  define p1 where "p1 = pc\<lparr>registers := (registers pc)[4 + ?i := ?lo]\<rparr>"
  have p1: "write_reg (4 + ?i) 0xffffffff pc = Some p1"
    using d(1) len unfolding write_reg_def Let_def is_bar_reg_def pci_const_defs p1_def d(2,4)
      probed_register(1) [OF bar_low_bits_mask, symmetric, where x = "ucast (bc_addr cfg)"]
    by (simp add: d(3))
  have lo: "read_reg p1 (4 + ?i) = ?lo" using d(1) len by (simp add: read_reg_def p1_def)
  have em: "?lo AND bar_mask cfg = ?e"
    unfolding probed_register(2) [OF bar_low_bits_mask]
    using assms(5) size_code_low [OF assms(4)] by (auto simp: bar_mask_def split: if_splits)
  define L where "L = ?lo"
  have bits: "(L AND 1 = 1) = (bc_region_type cfg = IoRegion)"
    "bc_region_type cfg \<noteq> IoRegion \<Longrightarrow> (L AND 6 = 0) = (bc_region_type cfg = Memory32BitRegion)"
    unfolding L_def by (fact bar_type_bits)+
  note lo = lo [folded L_def] and em = em [folded L_def]
  show ?thesis
  proof (cases "bc_region_type cfg")
    case IoRegion
    have "L AND 0xfffffffc = ?e" using em IoRegion by (simp add: bar_mask_def)
    then show ?thesis using bits IoRegion size_decode(1) [OF assms(4)] assms(6)
      by (simp add: guest_probe_def p1 lo Let_def assms(3))
  next
    case Memory32BitRegion
    have "L AND 0xfffffff0 = ?e" using em Memory32BitRegion by (simp add: bar_mask_def)
    then show ?thesis using bits Memory32BitRegion size_decode(1) [OF assms(4)] assms(6)
      by (simp add: guest_probe_def p1 lo Let_def assms(3))
  next
    case Memory64BitRegion
    have h: "?i + 1 < 6" "writable_bits pc ! (5 + ?i) = 0xffffffff" "bar_size (bars pc ! (?i + 1)) = ?h"
      using assms(2) Memory64BitRegion by (simp_all add: declared_def Let_def assms(3))
    define H where "H = ?h"
    have "write_reg (5 + ?i) 0xffffffff p1 = Some (p1\<lparr>registers := (registers p1)[5 + ?i := H]\<rparr>)"
      using h len by (simp add: write_reg_def Let_def is_bar_reg_def pci_const_defs p1_def H_def all_ones_32)
    then obtain p2 where p2: "write_reg (5 + ?i) 0xffffffff p1 = Some p2" "read_reg p2 (5 + ?i) = H"
      using h len by (auto simp: read_reg_def p1_def)
    have "L AND 0xfffffff0 = ?e" using em Memory64BitRegion by (simp add: bar_mask_def)
    then have "guest_probe ?i pc = Some (NOT (push_bit 32 (ucast H) OR ucast ?e) + 1)"
      using bits Memory64BitRegion by (simp only: guest_probe_def p1 lo p2 Let_def option.case) simp
    then show ?thesis using size_decode(2) [OF assms(4)] unfolding H_def assms(3) by simp
  qed
qed

lemma const_mask_bits_64: "bit (0xfffffff0 :: u64) n \<longleftrightarrow> 4 \<le> n \<and> n < 32"
  "bit (0xfffffffc :: u64) n \<longleftrightarrow> 2 \<le> n \<and> n < 32" "bit (NOT 0xf :: u64) n \<longleftrightarrow> 4 \<le> n \<and> n < 64"
proof -
  have m: "(0xfffffff0 :: u64) = ucast (0xfffffff0 :: u32)" "(0xfffffffc :: u64) = ucast (0xfffffffc :: u32)"
    "(0xf :: u64) = mask 4" by (simp_all add: mask_eq_exp_minus_1)
  show "bit (0xfffffff0 :: u64) n \<longleftrightarrow> 4 \<le> n \<and> n < 32" "bit (0xfffffffc :: u64) n \<longleftrightarrow> 2 \<le> n \<and> n < 32"
    unfolding m bit_ucast_iff const_mask_bits by auto
  show "bit (NOT 0xf :: u64) n \<longleftrightarrow> 4 \<le> n \<and> n < 64"
    unfolding m bit_not_iff bit_mask_iff by auto
qed

lemma declared_addr:
  assumes "pci_inv pc" "declared cfg pc"
  shows "get_bar_addr (bc_idx cfg) pc = Some (case bc_region_type cfg of
      Memory64BitRegion \<Rightarrow> bc_addr cfg AND NOT 0xf
    | Memory32BitRegion \<Rightarrow> bc_addr cfg AND 0xfffffff0
    | IoRegion \<Rightarrow> bc_addr cfg AND 0xfffffffc)"
proof -
  let ?i = "bc_idx cfg" and ?a = "bc_addr cfg"
  have d: "?i < 6" "length (bars pc) = 6" "bar_type (bars pc ! ?i) = Some (bc_region_type cfg)"
    "bar_addr (bars pc ! ?i) AND writable_bits pc ! (4 + ?i) = ucast ?a AND bar_mask cfg"
    using assms probed_register(2) [OF bar_low_bits_mask, of cfg "ucast ?a"]
    by (auto simp: declared_def pci_inv_def Let_def bar_mask_def bar_low_bits_def ac_simps)
  show ?thesis
  proof (cases "bc_region_type cfg")
    case Memory64BitRegion
    then have h: "?i + 1 < 6" "bar_addr (bars pc ! (?i + 1)) = ucast (drop_bit 32 ?a)"
      using assms by (simp_all add: declared_def Let_def)
    have "ucast (ucast ?a AND (0xfffffff0 :: u32)) OR push_bit 32 (ucast (ucast (drop_bit 32 ?a) :: u32)) =
        ?a AND NOT 0xf"
      by (rule bit_word_eqI, simp only: bit_or_iff bit_and_iff bit_ucast_iff bit_push_bit_iff
          bit_drop_bit_eq const_mask_bits const_mask_bits_64)
        (auto simp: bit_simps, metis le_add_diff_inverse linorder_not_le)
    then show ?thesis using d h Memory64BitRegion
      by (simp add: get_bar_addr_def BAR0_REG_def bar_mask_def Let_def)
  next
    case Memory32BitRegion
    have "ucast (ucast ?a AND (0xfffffff0 :: u32)) = ?a AND 0xfffffff0"
      by (rule bit_word_eqI) (auto simp: bit_and_iff bit_ucast_iff const_mask_bits const_mask_bits_64
          simp del: bit_numeral_word_iff)
    then show ?thesis using d Memory32BitRegion by (simp add: get_bar_addr_def BAR0_REG_def bar_mask_def Let_def)
  next
    case IoRegion
    have "ucast (ucast ?a AND (0xfffffffc :: u32)) = ?a AND 0xfffffffc"
      by (rule bit_word_eqI) (auto simp: bit_and_iff bit_ucast_iff const_mask_bits const_mask_bits_64
          simp del: bit_numeral_word_iff)
    then show ?thesis using d IoRegion by (simp add: get_bar_addr_def BAR0_REG_def bar_mask_def Let_def)
  qed
qed

text \<open>C22. A BAR that was declared successfully reports what was declared: the address is read back
  without its type bits, and the sizing procedure of the PCI specification yields the declared size,
  for I/O regions of at least 4 and memory regions of at least 16 bytes.\<close>

theorem pci_bar_declared:
  assumes "pci_inv pc" "add_pci_bar cfg pc = Some (pc', Inr ())"
    and "(if bc_region_type cfg = IoRegion then 4 else 16) \<le> bc_size cfg"
  shows "guest_probe (bc_idx cfg) pc' = Some (bc_size cfg) \<and>
    get_bar_addr (bc_idx cfg) pc' = Some (case bc_region_type cfg of
      Memory64BitRegion \<Rightarrow> bc_addr cfg AND NOT 0xf
    | Memory32BitRegion \<Rightarrow> bc_addr cfg AND 0xfffffff0
    | IoRegion \<Rightarrow> bc_addr cfg AND 0xfffffffc)"
proof -
  have d: "pci_inv pc'" "declared cfg pc'" "count_ones_is_1 (bc_size cfg)"
    "bc_region_type cfg \<noteq> Memory64BitRegion \<Longrightarrow> (ucast (bc_size cfg) :: u32) \<noteq> 0"
    using add_pci_bar_declared [OF assms(1,2)] by auto
  obtain k where k: "k < 64" "bc_size cfg = 2 ^ k" by (rule count_ones_power [OF d(3)])
  have u: "unat (bc_size cfg) = 2 ^ k" using k by (simp add: unat_2_power)
  define e :: nat where "e = (if bc_region_type cfg = IoRegion then 2 else 4)"
  have "(2 :: nat) ^ e = unat (if bc_region_type cfg = IoRegion then 4 else 16 :: u64)" by (simp add: e_def)
  then have "(2 :: nat) ^ e \<le> 2 ^ k" using assms(3) unfolding word_le_nat_alt u by metis
  then have lo: "(if bc_region_type cfg = IoRegion then 2 else 4) \<le> k"
    unfolding e_def [symmetric] by (rule power_le_imp_le_exp [rotated]) simp
  have "k < 32" if "bc_region_type cfg \<noteq> Memory64BitRegion"
  proof (rule ccontr)
    assume "\<not> k < 32"
    then have "(ucast (bc_size cfg) :: u32) = 0"
      by (intro bit_word_eqI) (auto simp: k(2) bit_ucast_iff bit_exp_iff)
    then show False using d(4) that by simp
  qed
  then show ?thesis using declared_probe [OF d(1,2) k(2,1) lo] declared_addr [OF d(1,2)] by simp
qed

definition demo_pci :: pci_configuration where
  "demo_pci = pci_new 0x1af4 0x1041 1 NetworkController 0 None HeaderDevice 0 0 None"

definition demo_bar :: pci_bar_configuration where
  "demo_bar = \<lparr>bc_addr = 0xe0000000, bc_size = 0x80000, bc_idx = 0, bc_region_type = Memory64BitRegion,
     bc_prefetchable = NotPrefetchable\<rparr>"

lemma demo_pci_inv: "pci_inv demo_pci"
  by (simp add: demo_pci_def pci_inv_def pci_new_def pci_const_defs Let_def)

lemma demo_bar_declared: "\<exists>pc'. add_pci_bar demo_bar demo_pci = Some (pc', Inr ())"
proof -
  have "filter (bit (0x80000 :: u64)) [0..<64] = [19]" by code_simp
  then have "count_ones_is_1 0x80000" by (simp add: count_ones_is_1_def)
  then show ?thesis
    by (simp add: add_pci_bar_def demo_bar_def demo_pci_def pci_new_def pci_const_defs default_bar_def
        Let_def checked_add_def encode_64_bits_bar_size_def)
qed

theorem pci_bar_declared_witness:
  "\<exists>pc'. add_pci_bar demo_bar demo_pci = Some (pc', Inr ()) \<and> guest_probe 0 pc' = Some 0x80000 \<and>
    get_bar_addr 0 pc' = Some 0xe0000000"
proof -
  obtain pc' where p: "add_pci_bar demo_bar demo_pci = Some (pc', Inr ())" using demo_bar_declared by auto
  show ?thesis using pci_bar_declared [OF demo_pci_inv p] p by (simp add: demo_bar_def)
qed
end
