(* ===== verification/Btree_Map.thy ===== *)
theory Btree_Map
  imports CH_Prelude
begin

text \<open>
  The ordered map \<open>std::collections::BTreeMap\<close> as the sources use it: \<open>insert\<close> (which returns the
  map only; an existing key keeps its place and gets the new value), \<open>remove\<close>, \<open>get\<close> and iteration in
  key order.  The locale \<open>ordered_map\<close> is the interface the components rely on, with the laws of the
  documentation of \<open>BTreeMap\<close>; it is interpreted on key-sorted association lists, which the components
  use as their representation.
\<close>

subsection \<open>The interface\<close>

locale ordered_map =
  fixes insert :: "'k::linorder \<Rightarrow> 'v \<Rightarrow> 'm \<Rightarrow> 'm"
    and remove :: "'k \<Rightarrow> 'm \<Rightarrow> 'm"
    and get :: "'m \<Rightarrow> 'k \<Rightarrow> 'v option"
    and entries :: "'m \<Rightarrow> ('k \<times> 'v) list"
    and wf :: "'m \<Rightarrow> bool"
  assumes get_insert: "wf m \<Longrightarrow> get (insert k v m) = (get m)(k \<mapsto> v)"
    and get_remove: "wf m \<Longrightarrow> get (remove k m) = (get m)(k := None)"
    and entries_sorted: "wf m \<Longrightarrow> sorted_wrt (<) (map fst (entries m))"
    and get_entries: "wf m \<Longrightarrow> get m k = Some v \<longleftrightarrow> (k, v) \<in> set (entries m)"
    and wf_insert: "wf m \<Longrightarrow> wf (insert k v m)"
    and wf_remove: "wf m \<Longrightarrow> wf (remove k m)"
begin

lemma entries_insert:
  "wf m \<Longrightarrow> set (entries (insert k v m)) = {(k, v)} \<union> {(k', v') \<in> set (entries m). k' \<noteq> k}"
  by (auto simp: get_entries [symmetric] wf_insert get_insert split: if_splits)

lemma entries_remove:
  "wf m \<Longrightarrow> set (entries (remove k m)) = {(k', v') \<in> set (entries m). k' \<noteq> k}"
  by (auto simp: get_entries [symmetric] wf_remove get_remove split: if_splits)

lemma entries_unique:
  "wf m \<Longrightarrow> (k, v) \<in> set (entries m) \<Longrightarrow> (k, w) \<in> set (entries m) \<Longrightarrow> v = w"
  by (simp add: get_entries [symmetric])

lemma get_None: "wf m \<Longrightarrow> get m k = None \<longleftrightarrow> k \<notin> fst ` set (entries m)"
  using get_entries [of m k] by (cases "get m k") force+

end

subsection \<open>Key-sorted association lists\<close>

type_synonym ('k, 'v) btree = "('k \<times> 'v) list"

fun bt_insert :: "'k::linorder \<Rightarrow> 'v \<Rightarrow> ('k, 'v) btree \<Rightarrow> ('k, 'v) btree" where
  "bt_insert k v [] = [(k, v)]"
| "bt_insert k v ((k', v') # m) =
     (if k < k' then (k, v) # (k', v') # m
      else if k = k' then (k, v) # m
      else (k', v') # bt_insert k v m)"

fun bt_remove :: "'k \<Rightarrow> ('k, 'v) btree \<Rightarrow> ('k, 'v) btree" where
  "bt_remove k [] = []"
| "bt_remove k ((k', v') # m) = (if k = k' then m else (k', v') # bt_remove k m)"

abbreviation bt_get :: "('k, 'v) btree \<Rightarrow> 'k \<Rightarrow> 'v option" where
  "bt_get \<equiv> map_of"

definition bt_wf :: "('k::linorder, 'v) btree \<Rightarrow> bool" where
  "bt_wf m \<longleftrightarrow> sorted_wrt (<) (map fst m)"

lemma bt_wf_Nil [simp]: "bt_wf []"
  by (simp add: bt_wf_def)

lemma bt_wf_Cons [simp]:
  "bt_wf ((k, v) # m) \<longleftrightarrow> (\<forall>x \<in> set m. k < fst x) \<and> bt_wf m"
  by (auto simp: bt_wf_def)

lemma bt_wf_distinct: "bt_wf m \<Longrightarrow> distinct (map fst m)"
  by (simp add: bt_wf_def strict_sorted_iff)

lemma bt_wf_append:
  "bt_wf (xs @ ys) \<longleftrightarrow>
     bt_wf xs \<and> bt_wf ys \<and> (\<forall>x \<in> set xs. \<forall>y \<in> set ys. fst x < fst y)"
  by (auto simp: bt_wf_def sorted_wrt_append)

lemma fst_set_bt_insert: "fst ` set (bt_insert k v m) = insert k (fst ` set m)"
  by (induction k v m rule: bt_insert.induct) auto

lemma set_bt_remove_subset: "set (bt_remove k m) \<subseteq> set m"
  by (induction k m rule: bt_remove.induct) auto

lemma map_of_bt_insert: "map_of (bt_insert k v m) = (map_of m)(k \<mapsto> v)"
  by (induction k v m rule: bt_insert.induct) (auto simp: fun_eq_iff)

lemma bt_wf_insert: "bt_wf m \<Longrightarrow> bt_wf (bt_insert k v m)"
proof (induction k v m rule: bt_insert.induct)
  case (2 k v k' v' m)
  have "k' < fst x" if "\<forall>y \<in> set m. k' < fst y" "k' < k" "x \<in> set (bt_insert k v m)" for x
    using that fst_set_bt_insert [of k v m] by (metis image_iff insert_iff)
  with 2 show ?case by auto
qed simp

lemma bt_wf_remove: "bt_wf m \<Longrightarrow> bt_wf (bt_remove k m)"
proof (induction k m rule: bt_remove.induct)
  case (2 k k' v' m)
  then show ?case using set_bt_remove_subset [of k m] by auto
qed simp

lemma map_of_bt_remove: "bt_wf m \<Longrightarrow> map_of (bt_remove k m) = (map_of m)(k := None)"
proof (induction k m rule: bt_remove.induct)
  case (2 k k' v' m)
  then have "map_of m k' = None" by (auto simp: map_of_eq_None_iff)
  with 2 show ?case by (auto simp: fun_eq_iff)
qed auto

interpretation bt: ordered_map bt_insert bt_remove bt_get "\<lambda>m. m" bt_wf
proof unfold_locales
  fix m :: "('k::linorder, 'v) btree" and k v
  assume wf: "bt_wf m"
  show "bt_get (bt_insert k v m) = (bt_get m)(k \<mapsto> v)" by (rule map_of_bt_insert)
  show "bt_get (bt_remove k m) = (bt_get m)(k := None)" using wf by (rule map_of_bt_remove)
  show "sorted_wrt (<) (map fst m)" using wf by (simp add: bt_wf_def)
  show "bt_get m k = Some v \<longleftrightarrow> (k, v) \<in> set m"
    using bt_wf_distinct [OF wf] by (auto simp: map_of_is_SomeI dest: map_of_SomeD)
  show "bt_wf (bt_insert k v m)" using wf by (rule bt_wf_insert)
  show "bt_wf (bt_remove k m)" using wf by (rule bt_wf_remove)
qed

text \<open>Insertion at the place where the key order puts it, and removal of a present entry.\<close>

lemma bt_insert_append:
  "(\<forall>x \<in> set xs. fst x < k) \<Longrightarrow> (\<forall>y \<in> set ys. k < fst y) \<Longrightarrow>
     bt_insert k v (xs @ ys) = xs @ (k, v) # ys"
proof (induction xs)
  case Nil
  then show ?case by (cases ys) auto
qed auto

lemma bt_remove_append:
  "k \<notin> fst ` set xs \<Longrightarrow> bt_remove k (xs @ (k, v) # ys) = xs @ ys"
  by (induction xs) auto

end
