(* ===== verification/Device_Bus.thy ===== *)
theory Device_Bus
  imports Btree_Map
begin

text \<open>
  The device bus of \<^verbatim>\<open>src/vm-device/src/bus.rs\<close>: address ranges mapped to devices, and the routing
  of guest accesses.  A device is a handle of type \<open>'d\<close>; the map holds weak references, so whether a
  handle can still be upgraded is the argument \<open>alive\<close>, and what a device does on a read or write is
  given by functions over an environment.  The keys of the code's map compare by base address only,
  so the model maps a base to its length and device.
\<close>

subsection \<open>Data and operations\<close>

datatype bus_error = BusOverlap | ZeroSizedRange | MissingAddressRange

record bus_range =
  br_base :: u64
  br_len :: u64

definition overlaps :: "bus_range \<Rightarrow> u64 \<Rightarrow> u64 \<Rightarrow> bool" where
  "overlaps self base len \<longleftrightarrow> br_base self < base + len \<and> base < br_base self + br_len self"

type_synonym 'd bus = "(u64, u64 \<times> 'd) btree"

definition bus_new :: "'d bus" where
  "bus_new = []"

text \<open>The last entry whose base is at most the address.\<close>

definition first_before :: "('d \<Rightarrow> bool) \<Rightarrow> 'd bus \<Rightarrow> u64 \<Rightarrow> (bus_range \<times> 'd) option" where
  "first_before alive bus addr =
     (case rev (filter (\<lambda>(base, _). base \<le> addr) bus) of
        [] \<Rightarrow> None
      | (base, (len, dev)) # _ \<Rightarrow>
          if alive dev then Some (\<lparr>br_base = base, br_len = len\<rparr>, dev) else None)"

definition resolve :: "('d \<Rightarrow> bool) \<Rightarrow> 'd bus \<Rightarrow> u64 \<Rightarrow> (u64 \<times> u64 \<times> 'd) option" where
  "resolve alive bus addr =
     (case first_before alive bus addr of
        Some (rng, dev) \<Rightarrow>
          (let offset = addr - br_base rng in
           if offset < br_len rng then Some (br_base rng, offset, dev) else None)
      | None \<Rightarrow> None)"

text \<open>
  \<open>BTreeMap::insert\<close> under an equal key replaces the value and keeps the old key, hence the old
  length; its result says whether there was one.
\<close>

definition bus_map_insert :: "u64 \<Rightarrow> u64 \<Rightarrow> 'd \<Rightarrow> 'd bus \<Rightarrow> bool \<times> 'd bus" where
  "bus_map_insert base len dev bus =
     (case bt_get bus base of
        Some (old_len, _) \<Rightarrow> (True, bt_insert base (old_len, dev) bus)
      | None \<Rightarrow> (False, bt_insert base (len, dev) bus))"

definition bus_insert :: "'d bus \<Rightarrow> 'd \<Rightarrow> u64 \<Rightarrow> u64 \<Rightarrow> (bus_error + unit) \<times> 'd bus" where
  "bus_insert bus device base len =
     (if len = 0 then (Inl ZeroSizedRange, bus)
      else if list_ex (\<lambda>(b, (l, _)). overlaps \<lparr>br_base = b, br_len = l\<rparr> base len) bus
      then (Inl BusOverlap, bus)
      else
        let (was_some, bus') = bus_map_insert base len device bus in
        if was_some then (Inl BusOverlap, bus') else (Inr (), bus'))"

definition bus_remove :: "'d bus \<Rightarrow> u64 \<Rightarrow> u64 \<Rightarrow> (bus_error + unit) \<times> 'd bus" where
  "bus_remove bus base len =
     (if len = 0 then (Inl ZeroSizedRange, bus)
      else case bt_get bus base of
             None \<Rightarrow> (Inl MissingAddressRange, bus)
           | Some _ \<Rightarrow> (Inr (), bt_remove base bus))"

text \<open>
  \<open>remove_by_device\<close> upgrades every reference and panics (\<open>None\<close> here) if one of them is dead;
  otherwise it removes the keys it collected, one after the other.
\<close>

fun remove_keys :: "u64 list \<Rightarrow> 'd bus \<Rightarrow> 'd bus" where
  "remove_keys [] bus = bus"
| "remove_keys (k # ks) bus = remove_keys ks (bt_remove k bus)"

definition remove_by_device :: "('d \<Rightarrow> bool) \<Rightarrow> 'd bus \<Rightarrow> 'd \<Rightarrow> 'd bus option" where
  "remove_by_device alive bus device =
     (if list_all (\<lambda>(_, (_, d)). alive d) bus
      then Some (remove_keys (map fst (filter (\<lambda>(_, (_, d)). d = device) bus)) bus)
      else None)"

definition update_range ::
  "('d \<Rightarrow> bool) \<Rightarrow> 'd bus \<Rightarrow> u64 \<Rightarrow> u64 \<Rightarrow> u64 \<Rightarrow> u64 \<Rightarrow> (bus_error + unit) \<times> 'd bus" where
  "update_range alive bus old_base old_len new_base new_len =
     (case resolve alive bus old_base of
        None \<Rightarrow> (Inl MissingAddressRange, bus)
      | Some (_, _, dev) \<Rightarrow>
          (case bus_remove bus old_base old_len of
             (Inl e, bus') \<Rightarrow> (Inl e, bus')
           | (Inr _, bus') \<Rightarrow> bus_insert bus' dev new_base new_len))"

text \<open>Reads and writes are passed to the device that owns the address, with base and offset.\<close>

definition bus_read ::
  "('d \<Rightarrow> bool) \<Rightarrow> ('d \<Rightarrow> u64 \<Rightarrow> u64 \<Rightarrow> u8 list \<Rightarrow> 's \<Rightarrow> u8 list \<times> 's) \<Rightarrow> 'd bus \<Rightarrow> u64 \<Rightarrow> u8 list \<Rightarrow> 's \<Rightarrow>
     (bus_error + unit) \<times> u8 list \<times> 's" where
  "bus_read alive dev_read bus addr data env =
     (case resolve alive bus addr of
        Some (base, offset, dev) \<Rightarrow> (Inr (), dev_read dev base offset data env)
      | None \<Rightarrow> (Inl MissingAddressRange, data, env))"

definition bus_write ::
  "('d \<Rightarrow> bool) \<Rightarrow> ('d \<Rightarrow> u64 \<Rightarrow> u64 \<Rightarrow> u8 list \<Rightarrow> 's \<Rightarrow> 'b option \<times> 's) \<Rightarrow> 'd bus \<Rightarrow> u64 \<Rightarrow> u8 list \<Rightarrow> 's \<Rightarrow>
     (bus_error + 'b option) \<times> 's" where
  "bus_write alive dev_write bus addr data env =
     (case resolve alive bus addr of
        Some (base, offset, dev) \<Rightarrow>
          (let (barrier, env') = dev_write dev base offset data env in (Inr barrier, env'))
      | None \<Rightarrow> (Inl MissingAddressRange, env))"

subsection \<open>The invariant: ordered, non-empty, disjoint ranges below the end of the address space\<close>

definition span :: "u64 \<Rightarrow> u64 \<Rightarrow> nat set" where
  "span base len = {unat base ..< unat base + unat len}"

definition bus_inv :: "'d bus \<Rightarrow> bool" where
  "bus_inv bus \<longleftrightarrow> bt_wf bus \<and>
     (\<forall>b l d. (b, (l, d)) \<in> set bus \<longrightarrow> l \<noteq> 0 \<and> unat b + unat l < 2 ^ 64) \<and>
     (\<forall>b l d b' l' d'. (b, (l, d)) \<in> set bus \<longrightarrow> (b', (l', d')) \<in> set bus \<longrightarrow> b \<noteq> b' \<longrightarrow>
        span b l \<inter> span b' l' = {})"

lemma span_nonempty: "l \<noteq> 0 \<Longrightarrow> unat b \<in> span b l"
  by (simp add: span_def unat_gt_0)

lemma overlaps_iff:
  assumes "unat b + unat l < 2 ^ 64" "unat b' + unat l' < 2 ^ 64" "l \<noteq> 0" "l' \<noteq> 0"
  shows "overlaps \<lparr>br_base = b, br_len = l\<rparr> b' l' \<longleftrightarrow> span b l \<inter> span b' l' \<noteq> {}"
proof -
  have "0 < unat l" "0 < unat l'" using assms(3,4) by (auto simp: unat_gt_0)
  then have "span b l \<inter> span b' l' \<noteq> {} \<longleftrightarrow>
      unat b < unat b' + unat l' \<and> unat b' < unat b + unat l"
    by (auto simp: span_def disjoint_iff)
  then show ?thesis
    using assms(1,2) by (auto simp: overlaps_def word_less_nat_alt unat_add_small)
qed

lemma bus_invD:
  assumes "bus_inv bus" "(b, (l, d)) \<in> set bus"
  shows "l \<noteq> 0" "unat b + unat l < 2 ^ 64" "bt_get bus b = Some (l, d)"
    "(b', (l', d')) \<in> set bus \<Longrightarrow> b \<noteq> b' \<Longrightarrow> span b l \<inter> span b' l' = {}"
proof -
  show "l \<noteq> 0" "unat b + unat l < 2 ^ 64" using assms unfolding bus_inv_def by blast+
  show "bt_get bus b = Some (l, d)" using assms bt.get_entries [of bus] by (simp add: bus_inv_def)
  show "span b l \<inter> span b' l' = {}" if "(b', (l', d')) \<in> set bus" "b \<noteq> b'"
    using assms that unfolding bus_inv_def by blast
qed

subsection \<open>Routing\<close>

text \<open>The entry a lookup considers is the one with the greatest base not above the address.\<close>

lemma last_below:
  assumes "bt_wf bus" "rev (filter (\<lambda>(base, _). base \<le> addr) bus) = (b, ld) # rest"
  shows "(b, ld) \<in> set bus" "b \<le> addr" "\<And>y. y \<in> set bus \<Longrightarrow> fst y \<le> addr \<Longrightarrow> fst y \<le> b"
proof -
  let ?f = "filter (\<lambda>(base, _). base \<le> addr) bus"
  have f: "?f = rev rest @ [(b, ld)]" using assms(2) by (metis rev.simps(2) rev_rev_ident)
  then have "(b, ld) \<in> set ?f" by simp
  then show "(b, ld) \<in> set bus" "b \<le> addr" by auto
  have "bt_wf ?f" using assms(1) by (simp add: bt_wf_def sorted_wrt_map sorted_wrt_filter)
  then have max: "fst y \<le> b" if "y \<in> set ?f" for y
    using that unfolding f by (auto simp: bt_wf_append)
  show "fst y \<le> b" if "y \<in> set bus" "fst y \<le> addr" for y
    using max [of y] that by (cases y) auto
qed

lemma resolve_Some:
  assumes inv: "bus_inv bus"
  shows "resolve alive bus addr = Some (b, off, d) \<longleftrightarrow>
           (\<exists>l. (b, (l, d)) \<in> set bus \<and> unat addr \<in> span b l \<and> alive d \<and> off = addr - b)"
proof
  assume "resolve alive bus addr = Some (b, off, d)"
  then obtain l rest where r: "rev (filter (\<lambda>(base, _). base \<le> addr) bus) = (b, (l, d)) # rest"
    and "alive d" "off = addr - b" "addr - b < l"
    by (auto simp: resolve_def first_before_def Let_def split: option.splits list.splits if_splits)
  then show "\<exists>l. (b, (l, d)) \<in> set bus \<and> unat addr \<in> span b l \<and> alive d \<and> off = addr - b"
    using last_below [OF _ r] inv
    by (auto simp: bus_inv_def span_def word_less_nat_alt word_le_nat_alt)
next
  assume "\<exists>l. (b, (l, d)) \<in> set bus \<and> unat addr \<in> span b l \<and> alive d \<and> off = addr - b"
  then obtain l where e: "(b, (l, d)) \<in> set bus" "unat addr \<in> span b l" "alive d" "off = addr - b"
    by blast
  have le: "b \<le> addr" using e(2) by (simp add: span_def word_le_nat_alt)
  obtain b' l' d' rest where r:
    "rev (filter (\<lambda>(base, _). base \<le> addr) bus) = (b', (l', d')) # rest"
  proof (cases "rev (filter (\<lambda>(base, _). base \<le> addr) bus)")
    case Nil
    with e(1) le show ?thesis by (auto simp: filter_empty_conv)
  next
    case (Cons a list)
    then show ?thesis using that by (cases a) auto
  qed
  note m = last_below [OF _ r]
  have wf: "bt_wf bus" using inv by (simp add: bus_inv_def)
  have "b' = b"
  proof (rule ccontr)
    assume ne: "b' \<noteq> b"
    have "b \<le> b'" using m(3) [OF wf e(1)] le by simp
    then have "unat b' \<in> span b l" using m(2) [OF wf] e(2) by (auto simp: span_def word_le_nat_alt)
    moreover have "unat b' \<in> span b' l'"
      using bus_invD(1) [OF inv m(1) [OF wf]] by (rule span_nonempty)
    ultimately show False using bus_invD(4) [OF inv e(1) m(1) [OF wf]] ne by auto
  qed
  then have "l' = l \<and> d' = d"
    using bus_invD(3) [OF inv e(1)] bus_invD(3) [OF inv m(1) [OF wf]] by simp
  moreover have "addr - b < l" using e(2) le
    by (auto simp: span_def word_less_nat_alt word_le_nat_alt)
  ultimately show "resolve alive bus addr = Some (b, off, d)"
    using r e(3,4) \<open>b' = b\<close> by (simp add: resolve_def first_before_def)
qed

subsection \<open>Changing the map\<close>

lemma bus_insert_Ok:
  assumes inv: "bus_inv bus" and top: "unat base + unat len < 2 ^ 64"
  shows "fst (bus_insert bus d base len) = Inr () \<longleftrightarrow>
           len \<noteq> 0 \<and> (\<forall>b l d'. (b, (l, d')) \<in> set bus \<longrightarrow> span b l \<inter> span base len = {})"
    and "fst (bus_insert bus d base len) = Inr () \<Longrightarrow>
           snd (bus_insert bus d base len) = bt_insert base (len, d) bus \<and>
           bus_inv (snd (bus_insert bus d base len)) \<and>
           set (snd (bus_insert bus d base len)) = insert (base, (len, d)) (set bus)"
    and "fst (bus_insert bus d base len) \<noteq> Inr () \<Longrightarrow> snd (bus_insert bus d base len) = bus"
proof -
  have wf: "bt_wf bus" using inv by (simp add: bus_inv_def)
  let ?clash = "list_ex (\<lambda>(b, (l, _)). overlaps \<lparr>br_base = b, br_len = l\<rparr> base len) bus"
  have clash: "?clash \<longleftrightarrow> (\<exists>b l d'. (b, (l, d')) \<in> set bus \<and> span b l \<inter> span base len \<noteq> {})"
    if "len \<noteq> 0"
  proof -
    have "overlaps \<lparr>br_base = b, br_len = l\<rparr> base len \<longleftrightarrow> span b l \<inter> span base len \<noteq> {}"
      if "(b, (l, d')) \<in> set bus" for b l d'
      using overlaps_iff top \<open>len \<noteq> 0\<close> bus_invD(1,2) [OF inv that] by blast
    then show ?thesis by (force simp: list_ex_iff)
  qed
  have new: "bt_get bus base = None" if "len \<noteq> 0" "\<not> ?clash"
  proof (rule ccontr)
    assume "bt_get bus base \<noteq> None"
    then obtain l d' where "(base, (l, d')) \<in> set bus"
      using map_of_SomeD by fastforce
    moreover from this have "unat base \<in> span base l \<inter> span base len"
      using that bus_invD(1) [OF inv] by (simp add: span_nonempty)
    ultimately show False using clash [OF that(1)] that(2) by blast
  qed
  have res: "bus_insert bus d base len = (Inr (), bt_insert base (len, d) bus)" if "len \<noteq> 0" "\<not> ?clash"
    using new [OF that] that by (simp add: bus_insert_def bus_map_insert_def)
  have bad: "fst (bus_insert bus d base len) \<noteq> Inr () \<and> snd (bus_insert bus d base len) = bus"
    if "len = 0 \<or> ?clash"
    using that by (auto simp: bus_insert_def)
  show "fst (bus_insert bus d base len) = Inr () \<longleftrightarrow>
      len \<noteq> 0 \<and> (\<forall>b l d'. (b, (l, d')) \<in> set bus \<longrightarrow> span b l \<inter> span base len = {})"
    using res bad clash by (cases "len = 0 \<or> ?clash") (blast, simp, blast)
  show "fst (bus_insert bus d base len) \<noteq> Inr () \<Longrightarrow> snd (bus_insert bus d base len) = bus"
    using res bad by (cases "len = 0 \<or> ?clash") auto
  assume ok: "fst (bus_insert bus d base len) = Inr ()"
  then have ne: "len \<noteq> 0" "\<not> ?clash" using bad by auto
  have set: "set (bt_insert base (len, d) bus) = insert (base, (len, d)) (set bus)"
    using bt.entries_insert [OF wf, of base "(len, d)"] new [OF ne] bt.get_None [OF wf, of base]
    by force
  have apart: "span b l \<inter> span base len = {}" if "(b, (l, d')) \<in> set bus" for b l d'
    using clash [OF ne(1)] ne(2) that by blast
  have two: "span b l \<inter> span b' l' = {}"
    if "(b, (l, d1)) \<in> insert (base, (len, d)) (set bus)"
      "(b', (l', d2)) \<in> insert (base, (len, d)) (set bus)" "b \<noteq> b'" for b l d1 b' l' d2
    using that apart [of b l d1] apart [of b' l' d2] bus_invD(4) [OF inv, of b l d1 b' l' d2]
    by (simp only: insert_iff prod.inject) (metis Int_commute)
  have one: "l \<noteq> 0 \<and> unat b + unat l < 2 ^ 64"
    if "(b, (l, d1)) \<in> insert (base, (len, d)) (set bus)" for b l d1
    using that ne(1) top bus_invD(1,2) [OF inv] by (simp only: insert_iff prod.inject) metis
  have "bus_inv (bt_insert base (len, d) bus)"
    unfolding bus_inv_def set
    by (intro conjI allI impI) (rule bt_wf_insert [OF wf], use one in blast, use one in blast, erule (2) two)
  then show "snd (bus_insert bus d base len) = bt_insert base (len, d) bus \<and>
      bus_inv (snd (bus_insert bus d base len)) \<and>
      set (snd (bus_insert bus d base len)) = insert (base, (len, d)) (set bus)"
    using res [OF ne] set by simp
qed

lemma bus_inv_subset:
  assumes inv: "bus_inv bus" and "bt_wf bus'" "set bus' \<subseteq> set bus"
  shows "bus_inv bus'"
  unfolding bus_inv_def
proof (intro conjI allI impI)
  show "l \<noteq> 0" "unat b + unat l < 2 ^ 64" if "(b, (l, d)) \<in> set bus'" for b l d
    using bus_invD(1,2) [OF inv] that assms(3) by blast+
  show "span b l \<inter> span b' l' = {}"
    if "(b, (l, d)) \<in> set bus'" "(b', (l', d')) \<in> set bus'" "b \<noteq> b'" for b l d b' l' d'
    using bus_invD(4) [OF inv, of b l d b' l' d'] that assms(3) by blast
qed (rule assms(2))

lemma bus_inv_remove: "bus_inv bus \<Longrightarrow> bus_inv (bt_remove k bus)"
  using bus_inv_subset [of bus "bt_remove k bus"] bt_wf_remove [of bus k] set_bt_remove_subset [of k bus]
  by (simp add: bus_inv_def [of bus])

lemma remove_keys_spec:
  "bus_inv bus \<Longrightarrow> bus_inv (remove_keys ks bus) \<and>
     set (remove_keys ks bus) = {e \<in> set bus. fst e \<notin> set ks}"
proof (induction ks arbitrary: bus)
  case (Cons k ks)
  have "set (bt_remove k bus) = {e \<in> set bus. fst e \<noteq> k}"
    using Cons.prems bt.entries_remove [of bus k] by (auto simp: bus_inv_def)
  then show ?case using Cons bus_inv_remove by auto
qed auto

lemma bus_remove_Ok:
  assumes "bus_inv bus"
  shows "fst (bus_remove bus base len) = Inr () \<longleftrightarrow>
           len \<noteq> 0 \<and> (\<exists>l d. (base, (l, d)) \<in> set bus)"
    and "fst (bus_remove bus base len) = Inr () \<Longrightarrow>
           bus_inv (snd (bus_remove bus base len)) \<and>
           set (snd (bus_remove bus base len)) = {e \<in> set bus. fst e \<noteq> base}"
    and "fst (bus_remove bus base len) \<noteq> Inr () \<Longrightarrow> snd (bus_remove bus base len) = bus"
proof -
  have wf: "bt_wf bus" using assms by (simp add: bus_inv_def)
  show "fst (bus_remove bus base len) = Inr () \<longleftrightarrow> len \<noteq> 0 \<and> (\<exists>l d. (base, (l, d)) \<in> set bus)"
    using bt.get_entries [OF wf, of base] by (force simp: bus_remove_def split: option.split)
  show "fst (bus_remove bus base len) = Inr () \<Longrightarrow>
      bus_inv (snd (bus_remove bus base len)) \<and>
      set (snd (bus_remove bus base len)) = {e \<in> set bus. fst e \<noteq> base}"
    using bus_inv_remove [OF assms, of base] bt.entries_remove [OF wf, of base]
    by (auto simp: bus_remove_def split: option.splits if_splits)
  show "fst (bus_remove bus base len) \<noteq> Inr () \<Longrightarrow> snd (bus_remove bus base len) = bus"
    by (auto simp: bus_remove_def split: option.splits if_splits)
qed

lemma bus_inv_empty: "bus_inv (bus_new :: 'd bus)"
  by (simp add: bus_inv_def bus_new_def)

subsection \<open>Properties\<close>

text \<open>C9. Routing is exact: an address resolves to a device, its base and its offset exactly when
  the address lies in the range under which a live device is registered, so at most one device
  answers an access.\<close>

theorem resolve_exact:
  assumes "bus_inv bus"
  shows "resolve alive bus addr = Some (b, off, d) \<longleftrightarrow>
           (\<exists>l. bt_get bus b = Some (l, d) \<and> unat addr \<in> span b l \<and> alive d \<and> off = addr - b)"
proof -
  have wf: "bt_wf bus" using assms by (simp add: bus_inv_def)
  show ?thesis using resolve_Some [OF assms] bt.get_entries [OF wf] by simp
qed

definition example_bus :: "nat bus" where
  "example_bus = snd (bus_insert (snd (bus_insert bus_new 1 0x3f8 8)) 2 0xcf8 8)"

lemma example_bus_eq: "example_bus = [(0x3f8, (8, 1)), (0xcf8, (8, 2))]"
  by (simp add: example_bus_def bus_insert_def bus_new_def bus_map_insert_def overlaps_def)

lemma example_bus_inv: "bus_inv example_bus"
proof -
  have 1: "bus_inv [(0x3f8, (8, 1::nat))]"
    by (simp add: bus_inv_def)
  then show ?thesis
    using bus_insert_Ok(2) [OF 1, of "0xcf8" 8 2]
    by (simp add: example_bus_eq bus_insert_def bus_map_insert_def overlaps_def)
qed

theorem resolve_exact_witness:
  "resolve (\<lambda>_. True) example_bus 0x3fa = Some (0x3f8, 2, 1)"
  using resolve_exact [OF example_bus_inv, of "\<lambda>_. True" "0x3fa" "0x3f8" 2 1]
  by (simp add: example_bus_eq span_def)

text \<open>C18. Registering a device whose range ends below the top of the address space succeeds exactly
  when the range is not empty and overlaps no registered one; it then adds exactly that entry and
  keeps the bus invariant, and a refused registration leaves the bus as it was.\<close>

theorem bus_insert_exact:
  assumes "bus_inv bus" "unat base + unat len < 2 ^ 64"
  shows "if len \<noteq> 0 \<and> (\<forall>b l d'. (b, (l, d')) \<in> set bus \<longrightarrow> span b l \<inter> span base len = {})
         then bus_insert bus d base len = (Inr (), bt_insert base (len, d) bus) \<and>
              bus_inv (bt_insert base (len, d) bus) \<and>
              set (bt_insert base (len, d) bus) = insert (base, (len, d)) (set bus)
         else bus_insert bus d base len = (Inl (if len = 0 then ZeroSizedRange else BusOverlap), bus)"
proof (cases "fst (bus_insert bus d base len) = Inr ()")
  case True
  then show ?thesis
    using bus_insert_Ok(1) [OF assms, of d] bus_insert_Ok(2) [OF assms True] by (metis prod.collapse)
next
  case False
  then have "snd (bus_insert bus d base len) = bus" by (rule bus_insert_Ok(3) [OF assms])
  moreover have "fst (bus_insert bus d base len) = Inl (if len = 0 then ZeroSizedRange else BusOverlap)"
    using False by (auto simp: bus_insert_def Let_def split: prod.splits if_splits)
  ultimately show ?thesis
    using False bus_insert_Ok(1) [OF assms, of d] by (metis prod.collapse)
qed

theorem bus_insert_exact_witness:
  "bus_insert example_bus 3 0x3ff 2 = (Inl BusOverlap, example_bus)"
proof -
  have "span 0x3f8 8 \<inter> span 0x3ff 2 \<noteq> {}"
    by (auto simp: span_def)
  moreover have "(0x3f8, (8, 1)) \<in> set example_bus" by (simp add: example_bus_eq)
  ultimately show ?thesis
    using bus_insert_exact [OF example_bus_inv, of "0x3ff" 2 3] by (auto split: if_splits)
qed

lemma bus_inv_base:
  assumes "bus_inv bus" "(b, (l, d)) \<in> set bus" "unat a \<in> span b l" "(a, (l', d')) \<in> set bus"
  shows "b = a \<and> l' = l \<and> d' = d"
proof -
  have "b = a"
    using bus_invD(4) [OF assms(1,2,4)] assms(3) span_nonempty [OF bus_invD(1) [OF assms(1,4)], of a] by blast
  then show ?thesis using bus_invD(3) [OF assms(1,2)] bus_invD(3) [OF assms(1,4)] by simp
qed

lemma update_range_cases:
  assumes "bus_inv bus" "unat new_base + unat new_len < 2 ^ 64" "old_len \<noteq> 0"
    and "update_range alive bus old_base old_len new_base new_len = (r, bus')"
  shows "bus_inv bus' \<and>
    (case r of
       Inr _ \<Rightarrow> \<exists>l d. (old_base, (l, d)) \<in> set bus \<and> alive d \<and>
         set bus' = insert (new_base, (new_len, d)) {e \<in> set bus. fst e \<noteq> old_base}
     | Inl MissingAddressRange \<Rightarrow> bus' = bus
     | Inl _ \<Rightarrow> set bus' = {e \<in> set bus. fst e \<noteq> old_base} \<and> bus' \<noteq> bus)"
proof (cases "resolve alive bus old_base")
  case None
  then have "r = Inl MissingAddressRange" "bus' = bus"
    using assms(4) by (simp_all add: update_range_def)
  then show ?thesis using assms(1) by simp
next
  case (Some t)
  then obtain b off d where res: "resolve alive bus old_base = Some (b, off, d)" by (cases t) auto
  then obtain l where e: "(b, (l, d)) \<in> set bus" "unat old_base \<in> span b l" "alive d"
    using resolve_Some [OF assms(1)] by blast
  show ?thesis
  proof (cases "fst (bus_remove bus old_base old_len) = Inr ()")
    case False
    then have "fst (bus_remove bus old_base old_len) = Inl MissingAddressRange"
      using assms(3) by (auto simp: bus_remove_def split: option.splits)
    then have "r = Inl MissingAddressRange" "bus' = bus"
      using assms(4) res bus_remove_Ok(3) [OF assms(1) False]
      by (auto simp: update_range_def split: prod.splits)
    then show ?thesis using assms(1) by simp
  next
    case True
    define bus1 where "bus1 = snd (bus_remove bus old_base old_len)"
    have bus1: "bus_inv bus1" "set bus1 = {e \<in> set bus. fst e \<noteq> old_base}"
      using bus_remove_Ok(2) [OF assms(1) True] by (auto simp: bus1_def)
    obtain l' d' where old: "(old_base, (l', d')) \<in> set bus"
      using bus_remove_Ok(1) [OF assms(1)] True by blast
    have "b = old_base"
    proof (rule ccontr)
      assume "b \<noteq> old_base"
      then show False
        using bus_invD(4) [OF assms(1) e(1) old] e(2)
          span_nonempty [OF bus_invD(1) [OF assms(1) old], of old_base] by auto
    qed
    have upd: "update_range alive bus old_base old_len new_base new_len = bus_insert bus1 d new_base new_len"
      using True res by (auto simp: update_range_def bus1_def split: prod.splits)
    have "(old_base, (l', d')) \<notin> set bus1" by (simp add: bus1(2))
    then have "bus1 \<noteq> bus" using old by blast
    moreover have "r \<noteq> Inl MissingAddressRange" if "r \<noteq> Inr ()"
      using assms(4) upd that by (auto simp: bus_insert_def Let_def split: if_splits prod.splits)
    ultimately have fail: ?thesis if "r \<noteq> Inr ()"
      using assms(4) upd bus_insert_Ok(3) [OF bus1(1) assms(2), of d] bus1 that
      by (cases r) (auto split: bus_error.splits)
    have ?thesis if "r = Inr ()"
      using assms(4) upd bus_insert_Ok(2) [OF bus1(1) assms(2), of d] bus1 that e \<open>b = old_base\<close>
      by auto
    with fail show ?thesis by blast
  qed
qed

text \<open>C26. Moving a device to a new range that ends below the top of the address space.  If no live device is
  registered at exactly the old base, or the old length is zero, the call fails and the bus is as it was.  Otherwise,
  if the new range is not empty and overlaps none of the other ranges, the device answers exactly at the new range
  instead of the old one; and if it is refused, the call fails with the device registered neither at its new nor at its old
  range, for the removal is not undone.  All other entries stay, and the bus keeps its invariant.\<close>

theorem update_range_outcomes:
  assumes "bus_inv bus" "unat new_base + unat new_len < 2 ^ 64"
    and "update_range alive bus old_base old_len new_base new_len = (r, bus')"
  shows "bus_inv bus' \<and>
    (if old_len = 0 \<or> (\<nexists>l d. (old_base, (l, d)) \<in> set bus \<and> alive d) then (\<exists>e. r = Inl e) \<and> bus' = bus
     else if new_len \<noteq> 0 \<and> (\<forall>b l d. (b, (l, d)) \<in> set bus \<and> b \<noteq> old_base \<longrightarrow> span b l \<inter> span new_base new_len = {})
     then r = Inr () \<and> (\<exists>l d. (old_base, (l, d)) \<in> set bus \<and>
       set bus' = insert (new_base, (new_len, d)) {e \<in> set bus. fst e \<noteq> old_base})
     else (\<exists>e. r = Inl e) \<and> set bus' = {e \<in> set bus. fst e \<noteq> old_base})"
proof (cases "old_len = 0 \<or> (\<nexists>l d. (old_base, (l, d)) \<in> set bus \<and> alive d)")
  case True
  have "(\<exists>e. r = Inl e) \<and> bus' = bus"
  proof (cases "resolve alive bus old_base")
    case (Some t)
    then obtain b off d l where e: "(b, (l, d)) \<in> set bus" "unat old_base \<in> span b l" "alive d" "t = (b, off, d)"
      using resolve_Some [OF assms(1)] by (cases t) blast
    have "fst (bus_remove bus old_base old_len) \<noteq> Inr ()"
      using True e bus_remove_Ok(1) [OF assms(1)] bus_inv_base [OF assms(1) e(1,2)] by blast
    then show ?thesis using assms(3) Some bus_remove_Ok(3) [OF assms(1), of old_base old_len] e(4)
      by (auto simp: update_range_def split: prod.splits sum.splits)
  qed (use assms(3) in \<open>auto simp: update_range_def\<close>)
  then show ?thesis using True assms(1) by auto
next
  case False
  then obtain l d where e: "(old_base, (l, d)) \<in> set bus" "alive d" and len: "old_len \<noteq> 0" by blast
  have "unat old_base \<in> span old_base l" using span_nonempty bus_invD(1) [OF assms(1) e(1)] by blast
  then have res: "resolve alive bus old_base = Some (old_base, 0, d)" using resolve_Some [OF assms(1), of alive old_base old_base 0 d] e by auto
  have rm: "fst (bus_remove bus old_base old_len) = Inr ()" using bus_remove_Ok(1) [OF assms(1)] e len by blast
  define bus1 where "bus1 = snd (bus_remove bus old_base old_len)"
  have bus1: "bus_inv bus1" "set bus1 = {e \<in> set bus. fst e \<noteq> old_base}"
    using bus_remove_Ok(2) [OF assms(1) rm] by (auto simp: bus1_def)
  have upd: "bus_insert bus1 d new_base new_len = (r, bus')"
    using rm res assms(3) by (auto simp: update_range_def bus1_def split: prod.splits)
  have free: "r = Inr () \<longleftrightarrow> new_len \<noteq> 0 \<and> (\<forall>b l d. (b, (l, d)) \<in> set bus \<and> b \<noteq> old_base \<longrightarrow> span b l \<inter> span new_base new_len = {})"
    using bus_insert_Ok(1) [OF bus1(1) assms(2), of d] upd bus1(2) by auto
  have ok: "bus_inv bus' \<and> set bus' = insert (new_base, (new_len, d)) {e \<in> set bus. fst e \<noteq> old_base}" if "r = Inr ()"
    using bus_insert_Ok(2) [OF bus1(1) assms(2), of d] upd bus1(2) that by auto
  have refused: "bus' = bus1" if "r \<noteq> Inr ()" using bus_insert_Ok(3) [OF bus1(1) assms(2), of d] upd that by auto
  show ?thesis
  proof (cases "r = Inr ()")
    case True
    then show ?thesis using False free ok e(1) by auto
  next
    case ne: False
    then obtain x where "r = Inl x" by (cases r) auto
    then show ?thesis using False free refused bus1 ne by auto
  qed
qed

theorem update_range_outcomes_witness:
  "let (r, bus') = update_range (\<lambda>_. True) example_bus 0x3f8 8 0xcfc 8
   in (\<exists>e. r = Inl e) \<and> set bus' = {(0xcf8, (8, 2))}"
proof -
  obtain r bus' where u: "update_range (\<lambda>_. True) example_bus 0x3f8 8 0xcfc 8 = (r, bus')" by fastforce
  have mem: "(0xcf8, (8, 2)) \<in> set example_bus" "(0x3f8, (8, 1)) \<in> set example_bus" by (simp_all add: example_bus_eq)
  have "unat (0xcfc :: u64) \<in> span 0xcf8 8 \<inter> span 0xcfc 8" by (simp add: span_def)
  then have clash: "\<not> ((8 :: u64) \<noteq> 0 \<and> (\<forall>b l d. (b, (l, d)) \<in> set example_bus \<and> b \<noteq> 0x3f8 \<longrightarrow> span b l \<inter> span 0xcfc 8 = {}))"
    using mem(1) by force
  have found: "\<not> ((8 :: u64) = 0 \<or> (\<nexists>l d. (0x3f8, (l, d)) \<in> set example_bus \<and> True))" using mem(2) by auto
  have rest: "{e \<in> set example_bus. fst e \<noteq> 0x3f8} = {(0xcf8, (8, 2))}" by (auto simp: example_bus_eq)
  have "unat (0xcfc :: u64) + unat (8 :: u64) < 2 ^ 64" by simp
  from update_range_outcomes [OF example_bus_inv this u] show ?thesis
    unfolding if_not_P [OF found] if_not_P [OF clash] rest u by simp
qed

text \<open>Removing a device by its handle, when all registered devices are alive, removes every one
  of its ranges and nothing else.\<close>

theorem remove_by_device_exact:
  assumes "bus_inv bus" "remove_by_device alive bus device = Some bus'"
  shows "bus_inv bus' \<and> set bus' = {e \<in> set bus. snd (snd e) \<noteq> device}"
proof -
  let ?ks = "map fst (filter (\<lambda>(_, (_, d)). d = device) bus)"
  have bus': "bus' = remove_keys ?ks bus"
    using assms(2) by (auto simp: remove_by_device_def split: if_splits)
  have "fst e \<in> set ?ks \<longleftrightarrow> snd (snd e) = device" if "e \<in> set bus" for e
  proof -
    obtain b l d where e: "e = (b, (l, d))" by (cases e) auto
    have "d' = d" if "(b, (l', d')) \<in> set bus" for l' d'
      using bus_invD(3) [OF assms(1) that] bus_invD(3) [OF assms(1)] \<open>e \<in> set bus\<close> e by simp
    moreover have "b \<in> set ?ks \<longleftrightarrow> (\<exists>l' d'. (b, (l', d')) \<in> set bus \<and> d' = device)" by force
    ultimately have "b \<in> set ?ks \<longleftrightarrow> d = device" using that e by blast
    then show ?thesis by (simp add: e)
  qed
  then show ?thesis using remove_keys_spec [OF assms(1), of ?ks] by (auto simp: bus')
qed

theorem remove_by_device_exact_witness:
  "bus_inv [(0xcf8, (8, 2::nat))]"
proof -
  have "remove_by_device (\<lambda>_. True) example_bus 1 = Some [(0xcf8, (8, 2))]"
    by (simp add: example_bus_eq remove_by_device_def)
  then show ?thesis using remove_by_device_exact [OF example_bus_inv] by blast
qed

end
