(* ===== verification/Pci_Bus.thy ===== *)
theory Pci_Bus
  imports Pci_Configuration Device_Bus "HOL-Library.AList"
begin

text \<open>
  The PCI bus of \<^verbatim>\<open>pci/src/bus.rs\<close>: the root bridge, device slots, and the two ways a guest reaches
  configuration space, the I/O ports 0xcf8 and 0xcfc (\<open>PciConfigIo\<close>) and memory-mapped accesses
  (\<open>PciConfigMmio\<close>).  Devices are shared objects: slots hold handles into a store, as the code holds
  \<open>Arc\<close>s.  What a device does on configuration accesses is the trait \<open>PciDevice\<close>, here a record of
  functions; \<open>None\<close> from them is a panic, which the bus propagates.  The relocation interface is a
  function over its own state.
\<close>

subsection \<open>Devices and the bus\<close>

definition NUM_DEVICE_IDS :: nat where "NUM_DEVICE_IDS = 32"
definition VENDOR_ID_INTEL :: u16 where "VENDOR_ID_INTEL = 0x8086"
definition DEVICE_ID_INTEL_VIRT_PCIE_HOST :: u16 where "DEVICE_ID_INTEL_VIRT_PCIE_HOST = 0x0d57"

datatype pci_root_error =
    PioInsert bus_error
  | MmioInsert bus_error
  | NoPciDeviceSlotAvailable
  | InvalidPciDeviceSlot nat
  | AlreadyInUsePciDeviceSlot nat

record 'd pci_device_ops =
  dev_read_config :: "'d \<Rightarrow> nat \<Rightarrow> 'd \<times> u32"
  dev_write_config :: "'d \<Rightarrow> nat \<Rightarrow> u64 \<Rightarrow> u8 list \<Rightarrow> ('d \<times> bool) option"
  dev_detect :: "'d \<Rightarrow> nat \<Rightarrow> u8 list \<Rightarrow> ('d \<times> bar_reprogramming_params option) option"

text \<open>The root bridge uses its configuration for reads and writes and the default of the trait, no
  relocation, for the rest.\<close>

definition pci_root_new :: "pci_configuration option \<Rightarrow> pci_configuration" where
  "pci_root_new config = (case config of
      Some cfg \<Rightarrow> cfg
    | None \<Rightarrow> pci_new VENDOR_ID_INTEL DEVICE_ID_INTEL_VIRT_PCIE_HOST 0 BridgeDevice
        (bridge_register_value HostBridge) None HeaderDevice 0 0 None)"

definition pci_root_ops :: "le_codec \<Rightarrow> pci_configuration pci_device_ops" where
  "pci_root_ops c =
     \<lparr>dev_read_config = (\<lambda>d reg_idx. (d, read_reg d reg_idx)),
      dev_write_config = (\<lambda>d reg_idx off data.
        map_option (\<lambda>d'. (d', False)) (write_config_register c reg_idx off data d)),
      dev_detect = (\<lambda>d reg_idx data. Some (d, None))\<rparr>"

record ('d, 'r) pci_bus =
  devices :: "(u32 \<times> nat) list"
  store :: "nat \<Rightarrow> 'd"
  device_reloc :: 'r
  device_ids :: "bool list"

definition pci_bus_new :: "nat \<Rightarrow> (nat \<Rightarrow> 'd) \<Rightarrow> 'r \<Rightarrow> ('d, 'r) pci_bus" where
  "pci_bus_new pci_root st rl =
     \<lparr>devices = [(0, pci_root)], store = st, device_reloc = rl,
      device_ids = (replicate NUM_DEVICE_IDS False)[0 := True]\<rparr>"

fun register_mapping :: "'h \<Rightarrow> pci_bar_configuration list \<Rightarrow> 'h bus \<Rightarrow> 'h bus \<Rightarrow>
    'h bus \<times> 'h bus \<times> (pci_root_error + unit)" where
  "register_mapping dev [] io_bus mmio_bus = (io_bus, mmio_bus, Inr ())"
| "register_mapping dev (bar # rest) io_bus mmio_bus =
     (case bc_region_type bar of
        IoRegion \<Rightarrow>
          (case bus_insert io_bus dev (bc_addr bar) (bc_size bar) of
             (Inl e, io') \<Rightarrow> (io', mmio_bus, Inl (PioInsert e))
           | (Inr _, io') \<Rightarrow> register_mapping dev rest io' mmio_bus)
      | _ \<Rightarrow>
          (case bus_insert mmio_bus dev (bc_addr bar) (bc_size bar) of
             (Inl e, mm') \<Rightarrow> (io_bus, mm', Inl (MmioInsert e))
           | (Inr _, mm') \<Rightarrow> register_mapping dev rest io_bus mm'))"

definition add_device :: "u32 \<Rightarrow> nat \<Rightarrow> ('d, 'r) pci_bus \<Rightarrow> ('d, 'r) pci_bus" where
  "add_device device_id h b = b\<lparr>devices := AList.update device_id h (devices b)\<rparr>"

definition pci_remove_by_device :: "nat \<Rightarrow> ('d, 'r) pci_bus \<Rightarrow> ('d, 'r) pci_bus" where
  "pci_remove_by_device h b = b\<lparr>devices := filter (\<lambda>(_, dev). dev \<noteq> h) (devices b)\<rparr>"

fun first_free :: "nat \<Rightarrow> bool list \<Rightarrow> nat option" where
  "first_free idx [] = None"
| "first_free idx (b # bs) = (if \<not> b then Some idx else first_free (Suc idx) bs)"

definition next_device_id :: "('d, 'r) pci_bus \<Rightarrow> (pci_root_error + u32) \<times> ('d, 'r) pci_bus" where
  "next_device_id b = (case first_free 0 (device_ids b) of
      Some idx \<Rightarrow> (Inr (of_nat idx), b\<lparr>device_ids := (device_ids b)[idx := True]\<rparr>)
    | None \<Rightarrow> (Inl NoPciDeviceSlotAvailable, b))"

definition get_device_id :: "nat \<Rightarrow> ('d, 'r) pci_bus \<Rightarrow> (pci_root_error + unit) \<times> ('d, 'r) pci_bus" where
  "get_device_id i b =
     (if i < NUM_DEVICE_IDS then
        if \<not> device_ids b ! i then (Inr (), b\<lparr>device_ids := (device_ids b)[i := True]\<rparr>)
        else (Inl (AlreadyInUsePciDeviceSlot i), b)
      else (Inl (InvalidPciDeviceSlot i), b))"

definition put_device_id :: "nat \<Rightarrow> ('d, 'r) pci_bus \<Rightarrow> (pci_root_error + unit) \<times> ('d, 'r) pci_bus" where
  "put_device_id i b =
     (if i < NUM_DEVICE_IDS then (Inr (), b\<lparr>device_ids := (device_ids b)[i := False]\<rparr>)
      else (Inl (InvalidPciDeviceSlot i), b))"

subsection \<open>Addresses\<close>

definition shift_and_mask :: "u32 \<Rightarrow> nat \<Rightarrow> u32 \<Rightarrow> nat" where
  "shift_and_mask value off msk = unat (drop_bit off value AND msk)"

definition parse_mmio_config_address :: "u32 \<Rightarrow> nat \<times> nat \<times> nat \<times> nat" where
  "parse_mmio_config_address a =
     (shift_and_mask a 20 0xff, shift_and_mask a 15 0x1f, shift_and_mask a 12 0x07, shift_and_mask a 2 0x3ff)"

definition parse_io_config_address :: "u32 \<Rightarrow> nat \<times> nat \<times> nat \<times> nat" where
  "parse_io_config_address a =
     (shift_and_mask a 16 0xff, shift_and_mask a 11 0x1f, shift_and_mask a 8 0x07, shift_and_mask a 2 0x3f)"

subsection \<open>Configuration accesses\<close>

definition read_device :: "'d pci_device_ops \<Rightarrow> nat \<Rightarrow> nat \<Rightarrow> ('d, 'r) pci_bus \<Rightarrow> ('d, 'r) pci_bus \<times> u32" where
  "read_device ops device register b =
     (case map_of (devices b) (of_nat device) of
        None \<Rightarrow> (b, 0xffffffff)
      | Some h \<Rightarrow>
          let (d, v) = dev_read_config ops (store b h) register
          in (b\<lparr>store := (store b)(h := d)\<rparr>, v))"

text \<open>Relocation first, if the write moves a BAR, then the write itself; a failed relocation is only
  logged.\<close>

definition write_device :: "'d pci_device_ops \<Rightarrow> ('r \<Rightarrow> bar_reprogramming_params \<Rightarrow> 'd \<Rightarrow> 'r \<times> 'd) \<Rightarrow>
    nat \<Rightarrow> nat \<Rightarrow> u64 \<Rightarrow> u8 list \<Rightarrow> ('d, 'r) pci_bus \<Rightarrow> (('d, 'r) pci_bus \<times> bool) option" where
  "write_device ops move_bar device register off data b =
     (case map_of (devices b) (of_nat device) of
        None \<Rightarrow> Some (b, False)
      | Some h \<Rightarrow>
          (case dev_detect ops (store b h) register data of
             None \<Rightarrow> None
           | Some (d, params) \<Rightarrow>
               let (r1, d1) = (case params of
                     Some p \<Rightarrow> move_bar (device_reloc b) p d
                   | None \<Rightarrow> (device_reloc b, d))
               in (case dev_write_config ops d1 register off data of
                     None \<Rightarrow> None
                   | Some (d2, barrier) \<Rightarrow>
                       Some (b\<lparr>store := (store b)(h := d2), device_reloc := r1\<rparr>, barrier))))"

definition io_config_space_read :: "'d pci_device_ops \<Rightarrow> u32 \<Rightarrow> ('d, 'r) pci_bus \<Rightarrow> ('d, 'r) pci_bus \<times> u32" where
  "io_config_space_read ops config_address b =
     (if config_address AND 0x80000000 = 0 then (b, 0xffffffff)
      else
        let (bus, device, function, register) = parse_io_config_address (config_address AND NOT 0x80000000)
        in if bus \<noteq> 0 then (b, 0xffffffff)
           else if function > 0 then (b, 0xffffffff)
           else read_device ops device register b)"

definition io_config_space_write :: "'d pci_device_ops \<Rightarrow> ('r \<Rightarrow> bar_reprogramming_params \<Rightarrow> 'd \<Rightarrow> 'r \<times> 'd) \<Rightarrow>
    u32 \<Rightarrow> u64 \<Rightarrow> u8 list \<Rightarrow> ('d, 'r) pci_bus \<Rightarrow> (('d, 'r) pci_bus \<times> bool) option" where
  "io_config_space_write ops move_bar config_address off data b =
     (if unat off + length data > 4 then Some (b, False)
      else if config_address AND 0x80000000 = 0 then Some (b, False)
      else
        let (bus, device, function, register) = parse_io_config_address (config_address AND NOT 0x80000000)
        in if bus \<noteq> 0 then Some (b, False)
           else write_device ops move_bar device register off data b)"

text \<open>The shifts of the two-byte case may reach the width of the register, where the release profile
  takes the amount modulo 32.\<close>

definition set_config_address :: "le_codec \<Rightarrow> u64 \<Rightarrow> u8 list \<Rightarrow> u32 \<Rightarrow> u32" where
  "set_config_address c off data config_address =
     (if unat off + length data > 4 then config_address
      else if length data = 1 then
        let s = unat off * 8 mod 32
        in (config_address AND NOT (push_bit s 0xff)) OR push_bit s (ucast (data ! 0))
      else if length data = 2 then
        let s = unat off * 16 mod 32
        in (config_address AND NOT (push_bit s 0xffff)) OR
           push_bit s (push_bit 8 (ucast (data ! 1)) OR ucast (data ! 0))
      else if length data = 4 then (config_address AND NOT 0xffffffff) OR read_u32 c data
      else config_address)"

definition register_bytes :: "u32 \<Rightarrow> nat \<Rightarrow> nat \<Rightarrow> u8 list" where
  "register_bytes value start len = map (\<lambda>i. ucast (drop_bit (i * 8) value)) [start..<start + len]"

definition config_io_read :: "'d pci_device_ops \<Rightarrow> u64 \<Rightarrow> nat \<Rightarrow> u32 \<Rightarrow> ('d, 'r) pci_bus \<Rightarrow>
    ('d, 'r) pci_bus \<times> u8 list" where
  "config_io_read ops off len config_address b =
     (let (b', value) = (if off \<le> 3 then (b, config_address)
                         else if off \<le> 7 then io_config_space_read ops config_address b
                         else (b, 0xffffffff));
          start = unat off mod 4
      in if start + len \<le> 4 then (b', register_bytes value start len) else (b', replicate len 0xff))"

definition config_io_write :: "le_codec \<Rightarrow> 'd pci_device_ops \<Rightarrow> ('r \<Rightarrow> bar_reprogramming_params \<Rightarrow> 'd \<Rightarrow> 'r \<times> 'd) \<Rightarrow>
    u64 \<Rightarrow> u8 list \<Rightarrow> u32 \<times> ('d, 'r) pci_bus \<Rightarrow> ((u32 \<times> ('d, 'r) pci_bus) \<times> bool) option" where
  "config_io_write c ops move_bar off data s =
     (let (config_address, b) = s
      in if off \<le> 3 then Some ((set_config_address c off data config_address, b), False)
         else if off \<le> 7 then
           map_option (\<lambda>(b', barrier). ((config_address, b'), barrier))
             (io_config_space_write ops move_bar config_address (off - 4) data b)
         else Some (s, False))"

definition mmio_config_space_read :: "'d pci_device_ops \<Rightarrow> u32 \<Rightarrow> ('d, 'r) pci_bus \<Rightarrow> ('d, 'r) pci_bus \<times> u32" where
  "mmio_config_space_read ops config_address b =
     (let (bus, device, function, register) = parse_mmio_config_address config_address
      in if bus \<noteq> 0 then (b, 0xffffffff) else read_device ops device register b)"

definition mmio_config_space_write :: "'d pci_device_ops \<Rightarrow> ('r \<Rightarrow> bar_reprogramming_params \<Rightarrow> 'd \<Rightarrow> 'r \<times> 'd) \<Rightarrow>
    u32 \<Rightarrow> u64 \<Rightarrow> u8 list \<Rightarrow> ('d, 'r) pci_bus \<Rightarrow> ('d, 'r) pci_bus option" where
  "mmio_config_space_write ops move_bar config_address off data b =
     (if unat off + length data > 4 then Some b
      else
        let (bus, device, function, register) = parse_mmio_config_address config_address
        in if bus \<noteq> 0 then Some b
           else map_option fst (write_device ops move_bar device register off data b))"

definition config_mmio_read :: "'d pci_device_ops \<Rightarrow> u64 \<Rightarrow> nat \<Rightarrow> ('d, 'r) pci_bus \<Rightarrow> ('d, 'r) pci_bus \<times> u8 list" where
  "config_mmio_read ops off len b =
     (let start = unat off mod 4
      in if start + len > 4 \<or> off > 0xffffffff then (b, replicate len 0xff)
         else
           let (b', value) = mmio_config_space_read ops (ucast off) b
           in (b', register_bytes value start len))"

definition config_mmio_write :: "'d pci_device_ops \<Rightarrow> ('r \<Rightarrow> bar_reprogramming_params \<Rightarrow> 'd \<Rightarrow> 'r \<times> 'd) \<Rightarrow>
    u64 \<Rightarrow> u8 list \<Rightarrow> ('d, 'r) pci_bus \<Rightarrow> ('d, 'r) pci_bus option" where
  "config_mmio_write ops move_bar off data b =
     (if off > 0xffffffff then Some b
      else mmio_config_space_write ops move_bar (ucast off) (off mod 4) data b)"

subsection \<open>Both access paths reach the same registers\<close>

definition io_address :: "nat \<Rightarrow> nat \<Rightarrow> nat \<Rightarrow> u32" where
  "io_address device function register = of_nat (2 ^ 31 + device * 2 ^ 11 + function * 2 ^ 8 + register * 2 ^ 2)"

definition ecam_address :: "nat \<Rightarrow> nat \<Rightarrow> nat \<Rightarrow> u32" where
  "ecam_address device function register = of_nat (device * 2 ^ 15 + function * 2 ^ 12 + register * 2 ^ 2)"

lemma shift_and_mask_eq: "shift_and_mask v off (mask k) = unat v div 2 ^ off mod 2 ^ k"
  unfolding shift_and_mask_def take_bit_eq_mask [symmetric] unsigned_take_bit_eq unat_drop_bit_eq
  by (simp add: drop_bit_eq_div take_bit_eq_mod)

lemma parse_masks: "(0xff :: u32) = mask 8" "(0x1f :: u32) = mask 5" "(0x07 :: u32) = mask 3"
  "(0x3ff :: u32) = mask 10" "(0x3f :: u32) = mask 6"
  by (simp_all add: mask_eq_exp_minus_1)

lemma address_digits:
  fixes d f r :: nat
  assumes "f < 8" "r < 2 ^ k"
  defines "n \<equiv> d * 2 ^ (k + 5) + f * 2 ^ (k + 2) + r * 2 ^ 2"
  shows "n div 2 ^ 2 mod 2 ^ k = r" "n div 2 ^ (k + 2) mod 2 ^ 3 = f" "n div 2 ^ (k + 5) = d"
proof -
  have n: "n = ((d * 8 + f) * 2 ^ k + r) * 4" by (simp add: n_def power_add algebra_simps)
  then have q: "n div 2 ^ 2 = (d * 8 + f) * 2 ^ k + r" by simp
  then show "n div 2 ^ 2 mod 2 ^ k = r" using assms(2) by simp
  have "n div 2 ^ (k + 2) = n div 2 ^ 2 div 2 ^ k" by (simp add: div_mult2_eq [symmetric] power_add mult.commute)
  then have p: "n div 2 ^ (k + 2) = d * 8 + f" using q assms(2) by simp
  then show "n div 2 ^ (k + 2) mod 2 ^ 3 = f" using assms(1) by simp
  have "n div 2 ^ (k + 5) = n div 2 ^ (k + 2) div 2 ^ 3"
    by (simp add: div_mult2_eq [symmetric] power_add mult.commute)
  then show "n div 2 ^ (k + 5) = d" using p assms(1) by simp
qed

lemma parse_io_address:
  assumes "device < 32" "function < 8" "register < 64"
  shows "io_address device function register AND 0x80000000 \<noteq> 0"
    "parse_io_config_address (io_address device function register AND NOT 0x80000000) =
      (0, device, function, register)"
proof -
  let ?n = "device * 2 ^ 11 + function * 2 ^ 8 + register * 2 ^ 2"
  let ?a = "io_address device function register"
  have lt: "?n < 2 ^ 16" using assms by simp
  have u: "unat ?a = 2 ^ 31 + ?n" unfolding io_address_def using lt by (subst unat_of_nat_small) auto
  have b31: "bit (0x80000000 :: u32) n \<longleftrightarrow> n = 31" for n by (subst bit_pow2 [of _ 31]) auto
  have "bit ?a 31 = bit (unat ?a) 31" by (simp add: bit_unsigned_iff)
  also have "\<dots>"
  proof -
    have "(2 ^ 31 + n) div 2 ^ 31 = (1 :: nat)" if "n < 2 ^ 16" for n using that by simp
    then show ?thesis using lt unfolding u bit_iff_odd by (metis odd_one)
  qed
  finally have "bit (?a AND 0x80000000) 31" by (simp add: bit_and_iff b31 del: bit_numeral_word_iff)
  then show "?a AND 0x80000000 \<noteq> 0" by auto
  have tb: "?a AND NOT 0x80000000 = take_bit 31 ?a"
    by (rule bit_word_eqI, simp only: bit_and_iff bit_not_iff b31 bit_take_bit_iff) auto
  have v: "unat (?a AND NOT 0x80000000) = ?n"
    unfolding tb unsigned_take_bit_eq u using lt by (simp add: take_bit_eq_mod)
  note dg = address_digits [of "function" register 6 device, simplified]
  have "?n div 2 ^ 16 = 0" using lt by simp
  then show "parse_io_config_address (?a AND NOT 0x80000000) = (0, device, function, register)"
    unfolding parse_io_config_address_def parse_masks shift_and_mask_eq v using dg assms by simp
qed

lemma parse_ecam_address:
  assumes "device < 32" "function < 8" "register < 1024"
  shows "parse_mmio_config_address (ecam_address device function register) = (0, device, function, register)"
proof -
  have u: "unat (ecam_address device function register) = device * 2 ^ 15 + function * 2 ^ 12 + register * 2 ^ 2"
    unfolding ecam_address_def using assms by (subst unat_of_nat_small) auto
  note dg = address_digits [of "function" register 10 device, simplified]
  have "(device * 2 ^ 15 + function * 2 ^ 12 + register * 2 ^ 2) div 2 ^ 20 = 0" using assms by simp
  then show ?thesis
    unfolding parse_mmio_config_address_def parse_masks shift_and_mask_eq u using dg assms by simp
qed

text \<open>C35. The two configuration mechanisms address the same registers: on bus 0, the I/O ports with the
  enable bit set and the memory-mapped window reach register \<open>register\<close> of device \<open>device\<close>, for reads
  and for writes.  The function number is honoured by port reads only, which answer all ones for
  functions above 0; port writes and both memory-mapped accesses act on the device whatever the
  function.\<close>

theorem pci_config_paths:
  assumes "device < 32" "function < 8" "register < 64" "unat off + length data \<le> 4"
  shows "io_config_space_read ops (io_address device function register) b =
      (if function = 0 then read_device ops device register b else (b, 0xffffffff)) \<and>
    mmio_config_space_read ops (ecam_address device function register) b = read_device ops device register b \<and>
    io_config_space_write ops mv (io_address device function register) off data b =
      write_device ops mv device register off data b \<and>
    mmio_config_space_write ops mv (ecam_address device function register) off data b =
      map_option fst (write_device ops mv device register off data b)"
proof -
  have "register < 1024" using assms(3) by simp
  then show ?thesis using assms parse_io_address [OF assms(1-3)] parse_ecam_address [OF assms(1,2)]
    by (simp add: io_config_space_read_def mmio_config_space_read_def io_config_space_write_def
        mmio_config_space_write_def Let_def)
qed

theorem pci_config_paths_witness:
  "io_config_space_write (pci_root_ops le_impl) (\<lambda>r p d. (r, d)) (io_address 0 3 1) 0 [7, 0]
     (pci_bus_new 0 (\<lambda>_. pci_root_new None) ()) =
   write_device (pci_root_ops le_impl) (\<lambda>r p d. (r, d)) 0 1 0 [7, 0]
     (pci_bus_new 0 (\<lambda>_. pci_root_new None) ())"
  using pci_config_paths [of 0 3 1 0 "[7, 0]" "pci_root_ops le_impl"
      "pci_bus_new 0 (\<lambda>_. pci_root_new None) ()" "\<lambda>r p d. (r, d)"] by simp

text \<open>A two-byte write to the upper half of the address port replaces the lower half.\<close>

lemma config_address_upper_word:
  assumes "length data = 2"
  shows "set_config_address c 2 data v = set_config_address c 0 data v"
    and "16 \<le> n \<Longrightarrow> bit (set_config_address c 2 data v) n = bit v n"
proof -
  show eq: "set_config_address c 2 data v = set_config_address c 0 data v"
    using assms by (simp add: set_config_address_def)
  have m: "(0xffff :: u32) = mask 16" by (simp add: mask_eq_exp_minus_1)
  assume n: "16 \<le> n"
  then show "bit (set_config_address c 2 data v) n = bit v n"
    unfolding eq set_config_address_def m
    using assms by (auto simp: Let_def bit_or_iff bit_and_iff bit_not_iff bit_mask_iff bit_push_bit_iff bit_ucast_iff
        dest: bit_imp_le_length simp del: mask_numeral)
qed

subsection \<open>Device slots\<close>

lemma first_free_spec:
  "first_free i bs = (if \<exists>k < length bs. \<not> bs ! k
     then Some (i + (LEAST k. k < length bs \<and> \<not> bs ! k)) else None)"
proof (induction bs arbitrary: i)
  case (Cons b bs)
  show ?case
  proof (cases b)
    case False
    then have "(LEAST k. k < length (b # bs) \<and> \<not> (b # bs) ! k) = 0" by (intro Least_equality) auto
    then show ?thesis using False by auto
  next
    case True
    have ex: "(\<exists>k < length (b # bs). \<not> (b # bs) ! k) \<longleftrightarrow> (\<exists>k < length bs. \<not> bs ! k)"
      using True by (auto simp: less_Suc_eq_0_disj)
    have "(LEAST k. k < length (b # bs) \<and> \<not> (b # bs) ! k) = Suc (LEAST k. k < length bs \<and> \<not> bs ! k)"
      if "\<exists>k < length bs. \<not> bs ! k"
    proof -
      obtain k where "k < length bs \<and> \<not> bs ! k" using \<open>\<exists>k < length bs. \<not> bs ! k\<close> by auto
      then show ?thesis using True by (subst Least_Suc [of _ "Suc k"]) auto
    qed
    then show ?thesis using True Cons ex by auto
  qed
qed simp

text \<open>Slot numbers are handed out without clashes: asking for the next slot yields the lowest free
  one, below 32, and marks it; it fails, changing nothing, only when all 32 are taken.  Asking for a
  particular slot succeeds exactly when it exists and is free, and a returned slot is free again;
  no operation touches another slot.\<close>

theorem pci_slots:
  assumes "length (device_ids b) = 32"
  shows "(case next_device_id b of
      (Inr i, b') \<Rightarrow> unat i < 32 \<and> \<not> device_ids b ! unat i \<and> (\<forall>k < unat i. device_ids b ! k) \<and>
        b' = b\<lparr>device_ids := (device_ids b)[unat i := True]\<rparr>
    | (Inl e, b') \<Rightarrow> e = NoPciDeviceSlotAvailable \<and> b' = b \<and> (\<forall>k < 32. device_ids b ! k)) \<and>
    (get_device_id n b = (if n \<ge> 32 then (Inl (InvalidPciDeviceSlot n), b)
       else if device_ids b ! n then (Inl (AlreadyInUsePciDeviceSlot n), b)
       else (Inr (), b\<lparr>device_ids := (device_ids b)[n := True]\<rparr>))) \<and>
    (n < 32 \<longrightarrow> get_device_id n (snd (put_device_id n b)) =
       (Inr (), b\<lparr>device_ids := (device_ids b)[n := True]\<rparr>))"
proof -
  let ?P = "\<lambda>k. k < length (device_ids b) \<and> \<not> device_ids b ! k"
  have slot: "case next_device_id b of
      (Inr i, b') \<Rightarrow> unat i < 32 \<and> \<not> device_ids b ! unat i \<and> (\<forall>k < unat i. device_ids b ! k) \<and>
        b' = b\<lparr>device_ids := (device_ids b)[unat i := True]\<rparr>
    | (Inl e, b') \<Rightarrow> e = NoPciDeviceSlotAvailable \<and> b' = b \<and> (\<forall>k < 32. device_ids b ! k)"
  proof (cases "\<exists>k. ?P k")
    case True
    define l where "l = (LEAST k. ?P k)"
    have l: "?P l" unfolding l_def using True by (rule LeastI_ex)
    have before: "device_ids b ! k" if "k < l" for k
    proof -
      have "\<not> ?P k" using that unfolding l_def by (rule not_less_Least)
      then show ?thesis using that l by simp
    qed
    have u: "unat (of_nat l :: u32) = l" using l assms by (intro unat_of_nat_small) auto
    have "first_free 0 (device_ids b) = Some l" using True by (simp add: first_free_spec l_def)
    then show ?thesis using l u assms before by (simp add: next_device_id_def)
  next
    case False
    then show ?thesis using assms by (auto simp: next_device_id_def first_free_spec)
  qed
  then show ?thesis using assms by (auto simp: get_device_id_def put_device_id_def NUM_DEVICE_IDS_def)
qed

theorem pci_slots_witness:
  "let b = pci_bus_new 0 (\<lambda>_. pci_root_new None) ()
   in (case next_device_id b of (Inr i, b') \<Rightarrow> unat i < 32 \<and> \<not> device_ids b ! unat i | _ \<Rightarrow> False) \<and>
      get_device_id 0 b = (Inl (AlreadyInUsePciDeviceSlot 0), b)"
proof -
  let ?b = "pci_bus_new 0 (\<lambda>_. pci_root_new None) ()"
  have len: "length (device_ids ?b) = 32" by (simp add: pci_bus_new_def NUM_DEVICE_IDS_def)
  have "\<not> device_ids ?b ! 1" "device_ids ?b ! 0" by (simp_all add: pci_bus_new_def NUM_DEVICE_IDS_def nth_list_update)
  then show ?thesis using pci_slots [OF len, of 0] by (auto simp: Let_def split: sum.splits prod.splits)
qed

subsection \<open>Moving a 64-bit BAR\<close>

text \<open>
  The configuration accesses of a virtio device, \<open>VirtioPciDevice\<close> of
  \<^verbatim>\<open>virtio-devices/src/transport/pci_device.rs\<close>: its \<open>PciConfiguration\<close> answers them, except inside the capability
  through which the guest reaches the BARs; what happens there is given by \<open>read_cap\<close> and \<open>write_cap\<close>.  The
  device is its configuration and the rest of its state.
\<close>

definition virtio_pci_ops :: "le_codec \<Rightarrow> nat \<Rightarrow> nat \<Rightarrow> (nat \<Rightarrow> pci_configuration \<times> 'x \<Rightarrow> (pci_configuration \<times> 'x) \<times> u32) \<Rightarrow>
    (nat \<Rightarrow> u8 list \<Rightarrow> pci_configuration \<times> 'x \<Rightarrow> ((pci_configuration \<times> 'x) \<times> bool) option) \<Rightarrow>
    (pci_configuration \<times> 'x) pci_device_ops" where
  "virtio_pci_ops c cap_offset cap_len read_cap write_cap =
     \<lparr>dev_read_config = (\<lambda>d reg_idx.
        let base = reg_idx * 4
        in if base \<ge> cap_offset \<and> base + 4 \<le> cap_offset + cap_len then read_cap (base - cap_offset) d
           else (d, read_reg (fst d) reg_idx)),
      dev_write_config = (\<lambda>d reg_idx off data.
        let base = reg_idx * 4
        in if base + unat off \<ge> cap_offset \<and> base + unat off + length data \<le> cap_offset + cap_len
           then write_cap (base + unat off - cap_offset) data d
           else map_option (\<lambda>pc. ((pc, snd d), False)) (write_config_register c reg_idx off data (fst d))),
      dev_detect = (\<lambda>d reg_idx data.
        map_option (\<lambda>(pc, params). ((pc, snd d), params)) (detect_bar_reprogramming c reg_idx data (fst d)))\<rparr>"

text \<open>A relocation interface that records what it is asked for.\<close>

definition log_move :: "bar_reprogramming_params list \<Rightarrow> bar_reprogramming_params \<Rightarrow> 'd \<Rightarrow> bar_reprogramming_params list \<times> 'd" where
  "log_move requests p d = (requests @ [p], d)"

definition joined :: "u32 \<Rightarrow> u32 \<Rightarrow> u64" where
  "joined hi lo = push_bit 32 (ucast hi) OR ucast lo"

lemma joined_eq_iff: "joined h l = joined h' l' \<longleftrightarrow> h = h' \<and> l = l'"
proof
  assume eq: "joined h l = joined h' l'"
  have high: "\<not> bit l (32 + n)" for l :: u32 and n using bit_imp_le_length [of l "32 + n"] by auto
  have parts: "ucast (drop_bit 32 (joined h l)) = h" "ucast (joined h l) = l" for h l
    by (auto intro!: bit_word_eqI simp: joined_def bit_simps high)
  show "h = h' \<and> l = l'" using parts [of h l] parts [of h' l'] eq by simp
qed simp

definition bar64 :: "nat \<Rightarrow> u64 \<Rightarrow> pci_configuration \<Rightarrow> bool" where
  "bar64 i sz pc \<longleftrightarrow> i + 1 < 6 \<and> bar_type (bars pc ! i) = Some Memory64BitRegion \<and>
     bar_type (bars pc ! (i + 1)) = None \<and> writable_bits pc ! (4 + i) = 0xfffffff0 \<and>
     writable_bits pc ! (5 + i) = 0xffffffff \<and>
     decode_64_bits_bar_size (bar_size (bars pc ! (i + 1))) (bar_size (bars pc ! i)) = Some sz"

definition in_step :: "nat \<Rightarrow> pci_configuration \<Rightarrow> bool" where
  "in_step i pc \<longleftrightarrow> registers pc ! (4 + i) AND 0xfffffff0 = bar_addr (bars pc ! i) AND 0xfffffff0 \<and>
     registers pc ! (5 + i) = bar_addr (bars pc ! (i + 1))"

definition bar64_base :: "nat \<Rightarrow> pci_configuration \<Rightarrow> u64" where
  "bar64_base i pc = joined (bar_addr (bars pc ! (i + 1))) (bar_addr (bars pc ! i) AND 0xfffffff0)"

lemma get_bar_addr_bar64:
  assumes "pci_inv pc" "bar64 i sz pc"
  shows "get_bar_addr i pc = Some (bar64_base i pc)"
  using assms by (simp add: get_bar_addr_def bar64_def pci_inv_def bar64_base_def joined_def BAR0_REG_def
      Let_def or.commute)

lemma dword_write:
  assumes "pci_inv pc" "reg < 10" "4 \<le> reg" "length data = 4" "read_u32 c data \<noteq> 0xffffffff"
  obtains pc' where "write_config_register c reg 0 data pc = Some pc'" "pci_inv pc'"
    "registers pc' ! reg AND writable_bits pc ! reg = read_u32 c data AND writable_bits pc ! reg"
    "\<forall>r. r \<noteq> reg \<longrightarrow> registers pc' ! r = registers pc ! r"
    "writable_bits pc' = writable_bits pc" "bars pc' = bars pc"
proof -
  obtain pc' where p: "write_config_register c reg 0 data pc = Some pc'" "pci_inv pc'"
    "\<forall>n < 32. bit (registers pc' ! reg) n = guest_register c reg 0 data pc n"
    "\<forall>r. r \<noteq> reg \<longrightarrow> registers pc' ! r = registers pc ! r"
    "writable_bits pc' = writable_bits pc" "bars pc' = bars pc"
    using guest_write_ok [OF assms(1), of reg c 0 data] assms(2) by auto
  have "probe_mask c reg data pc = - 1" using assms(2,5) by (simp add: probe_mask_def ROM_BAR_REG_def)
  then have "registers pc' ! reg AND writable_bits pc ! reg = read_u32 c data AND writable_bits pc ! reg"
    using p(3) assms(4)
    by (intro bit_word_eqI) (auto simp: bit_and_iff guest_register_def accepted_access_def guest_value_def)
  then show thesis using p that by blast
qed

text \<open>What a relocation of a 64-bit BAR asks for, if its address changes.\<close>

definition relocation64 :: "u64 \<Rightarrow> u64 \<Rightarrow> u64 \<Rightarrow> bar_reprogramming_params list" where
  "relocation64 old new sz = (if new = old then []
     else [\<lparr>old_base = old, new_base = new, reloc_len = sz, region_type = Memory64BitRegion\<rparr>])"

lemma bar64_lower:
  assumes "pci_inv pc" "bar64 i sz pc" "length lo = 4" "read_u32 c lo \<noteq> 0xffffffff"
  obtains pc1 where "detect_bar_reprogramming c (4 + i) lo pc = Some (pc, None)"
    "write_config_register c (4 + i) 0 lo pc = Some pc1" "pci_inv pc1" "bar64 i sz pc1" "bars pc1 = bars pc"
    "registers pc1 ! (4 + i) AND 0xfffffff0 = read_u32 c lo AND 0xfffffff0" "registers pc1 ! (5 + i) = registers pc ! (5 + i)"
proof -
  have i: "i + 1 < 6" and bar: "bar_type (bars pc ! i) = Some Memory64BitRegion" "writable_bits pc ! (4 + i) = 0xfffffff0"
    using assms(2) by (auto simp: bar64_def)
  have len: "length (writable_bits pc) = 1024" using assms(1) by (auto simp: pci_inv_def)
  have r: "is_bar_reg (4 + i)" using i by (auto simp: is_bar_reg_def pci_const_defs)
  have d: "detect_bar_reprogramming c (4 + i) lo pc = Some (pc, None)"
    using r i len bar(1) assms(3,4) by (simp add: detect_bar_reprogramming_def Let_def)
  obtain pc1 where p: "write_config_register c (4 + i) 0 lo pc = Some pc1" "pci_inv pc1"
    "registers pc1 ! (4 + i) AND writable_bits pc ! (4 + i) = read_u32 c lo AND writable_bits pc ! (4 + i)"
    "\<forall>r. r \<noteq> 4 + i \<longrightarrow> registers pc1 ! r = registers pc ! r"
    "writable_bits pc1 = writable_bits pc" "bars pc1 = bars pc"
    by (rule dword_write [OF assms(1) _ _ assms(3,4), of "4 + i"]) (use i in auto)
  then show thesis using d bar(2) assms(2) by (intro that [of pc1]) (auto simp: bar64_def)
qed

lemma bar64_upper:
  assumes "pci_inv pc" "bar64 i sz pc" "length hi = 4" "read_u32 c hi \<noteq> 0xffffffff"
  defines "new \<equiv> joined (read_u32 c hi) (registers pc ! (4 + i) AND 0xfffffff0)"
  obtains q pc2 p where "detect_bar_reprogramming c (5 + i) hi pc = Some (q, p)"
    "relocation64 (bar64_base i pc) new sz = (case p of None \<Rightarrow> [] | Some x \<Rightarrow> [x])"
    "write_config_register c (5 + i) 0 hi q = Some pc2" "pci_inv pc2" "bar64 i sz pc2" "bar64_base i pc2 = new"
    "registers pc2 ! (5 + i) = read_u32 c hi" "registers pc2 ! (4 + i) = registers pc ! (4 + i)"
    "bar_addr (bars pc2 ! (i + 1)) = read_u32 c hi"
proof -
  let ?vh = "read_u32 c hi" and ?lo = "registers pc ! (4 + i)"
  let ?b = "bars pc ! i" and ?u = "bars pc ! (i + 1)"
  have i: "i + 1 < 6" and bar: "bar_type ?b = Some Memory64BitRegion" "bar_type ?u = None"
    "writable_bits pc ! (4 + i) = 0xfffffff0" "writable_bits pc ! (5 + i) = 0xffffffff"
    "decode_64_bits_bar_size (bar_size ?u) (bar_size ?b) = Some sz"
    using assms(2) by (auto simp: bar64_def)
  have len: "length (writable_bits pc) = 1024" "length (bars pc) = 6" using assms(1) by (auto simp: pci_inv_def)
  have r: "is_bar_reg (5 + i)" using i by (auto simp: is_bar_reg_def pci_const_defs)
  have eq: "new = bar64_base i pc \<longleftrightarrow> ?lo AND 0xfffffff0 = bar_addr ?b AND 0xfffffff0 \<and> ?vh = bar_addr ?u"
    by (auto simp: new_def bar64_base_def joined_eq_iff)
  define q where "q = (if new = bar64_base i pc then pc
    else pc\<lparr>bars := (bars pc)[i + 1 := ?u\<lparr>bar_addr := ?vh\<rparr>, i := ?b\<lparr>bar_addr := ?lo\<rparr>]\<rparr>)"
  have idx: "5 + i - 4 = i + 1" "5 + i - 1 = 4 + i" "i + 1 - 1 = i" by simp_all
  have "detect_bar_reprogramming c (5 + i) hi pc =
      (if ?lo AND 0xfffffff0 \<noteq> bar_addr ?b AND 0xfffffff0 \<or> ?vh \<noteq> bar_addr ?u then
         Some (pc\<lparr>bars := (bars pc)[i + 1 := ?u\<lparr>bar_addr := ?vh\<rparr>, i := ?b\<lparr>bar_addr := ?lo\<rparr>]\<rparr>,
           Some \<lparr>old_base = joined (bar_addr ?u) (bar_addr ?b AND 0xfffffff0), new_base = new,
                 reloc_len = sz, region_type = Memory64BitRegion\<rparr>)
       else Some (pc, None))"
    using r assms(3,4) bar len i unfolding detect_bar_reprogramming_def Let_def idx bar joined_def new_def
    by (simp add: BAR0_REG_def all_ones_32)
  then have d: "detect_bar_reprogramming c (5 + i) hi pc = Some (q, if new = bar64_base i pc then None
      else Some \<lparr>old_base = bar64_base i pc, new_base = new, reloc_len = sz, region_type = Memory64BitRegion\<rparr>)"
    unfolding q_def eq by (simp add: bar64_base_def)
  have q: "pci_inv q" "writable_bits q = writable_bits pc" "registers q = registers pc"
    using assms(1) len i by (auto simp: q_def pci_inv_def)
  obtain pc2 where p: "write_config_register c (5 + i) 0 hi q = Some pc2" "pci_inv pc2"
    "registers pc2 ! (5 + i) AND writable_bits q ! (5 + i) = ?vh AND writable_bits q ! (5 + i)"
    "\<forall>r. r \<noteq> 5 + i \<longrightarrow> registers pc2 ! r = registers q ! r" "writable_bits pc2 = writable_bits q" "bars pc2 = bars q"
    by (rule dword_write [OF q(1) _ _ assms(3,4), of "5 + i"]) (use i in auto)
  have regs: "registers pc2 ! (5 + i) = ?vh" "registers pc2 ! (4 + i) = ?lo"
    using p(3,4) q bar(4) by (auto simp: all_ones_32)
  have bq: "bar_addr (bars q ! (i + 1)) = ?vh" "bar_addr (bars q ! i) AND 0xfffffff0 = ?lo AND 0xfffffff0"
    using len i eq by (auto simp: q_def nth_list_update)
  have "bar64 i sz pc2" using bar i len unfolding bar64_def p(5,6) q(2) by (auto simp: q_def nth_list_update)
  moreover have "bar64_base i pc2 = new" using bq by (simp add: bar64_base_def p(6) new_def)
  ultimately show thesis using p(1,2) regs bq(1) by (intro that [OF d, of pc2]) (auto simp: relocation64_def p(6))
qed

text \<open>One write of a whole register below the capabilities, as the bus performs it on a virtio device.\<close>

lemma write_device_bar:
  assumes "map_of (devices b) (of_nat dev) = Some h" "store b h = (pc, x)" "reg < 16" "64 \<le> cap_offset" "length data = 4"
    and "detect_bar_reprogramming c reg data pc = Some (q, p)" "write_config_register c reg 0 data q = Some pc'"
  shows "write_device (virtio_pci_ops c cap_offset cap_len rd wr) log_move dev reg 0 data b =
    Some (b\<lparr>store := (store b)(h := (pc', x)), device_reloc := device_reloc b @ (case p of None \<Rightarrow> [] | Some r \<Rightarrow> [r])\<rparr>, False)"
  using assms by (cases p) (auto simp: write_device_def virtio_pci_ops_def log_move_def Let_def)

text \<open>C7. Moving a 64-bit BAR of a virtio device in two writes of four bytes, neither of them all ones, when the
  registers agree with the BAR.  If the lower half is written first, that write asks for no relocation and the write of
  the upper half asks for exactly one, from the old base to the new base with the size of the BAR, or for none if the
  address did not change; afterwards the device reports the new base and the registers agree with the BAR again.  If
  the upper half is written first, that write relocates the BAR to the new upper and the old lower half and the write of
  the lower half asks for nothing: the device stays at the mixed address, and unless the lower half is the
  old one the registers and the BAR disagree.\<close>

theorem pci_bar64_relocation:
  assumes "pci_inv pc" "bar64 i sz pc" "in_step i pc"
    and "length lo = 4" "length hi = 4" "read_u32 c lo \<noteq> 0xffffffff" "read_u32 c hi \<noteq> 0xffffffff"
    and "map_of (devices b) (of_nat dev) = Some h" "store b h = (pc, x)" "64 \<le> cap_offset"
    and W: "W = write_device (virtio_pci_ops c cap_offset cap_len rd wr) log_move dev"
    and new: "new = joined (read_u32 c hi) (read_u32 c lo AND 0xfffffff0)"
    and mixed: "mixed = joined (read_u32 c hi) (bar_addr (bars pc ! i) AND 0xfffffff0)"
  shows "(\<exists>b1 b2 pc2. W (4 + i) 0 lo b = Some (b1, False) \<and> W (5 + i) 0 hi b1 = Some (b2, False) \<and>
      device_reloc b1 = device_reloc b \<and>
      device_reloc b2 = device_reloc b @ relocation64 (bar64_base i pc) new sz \<and>
      store b2 h = (pc2, x) \<and> get_bar_addr i pc2 = Some new \<and> bar64 i sz pc2 \<and> in_step i pc2) \<and>
    (\<exists>b1 b2 pc2. W (5 + i) 0 hi b = Some (b1, False) \<and> W (4 + i) 0 lo b1 = Some (b2, False) \<and>
      device_reloc b1 = device_reloc b @ relocation64 (bar64_base i pc) mixed sz \<and>
      device_reloc b2 = device_reloc b1 \<and>
      store b2 h = (pc2, x) \<and> get_bar_addr i pc2 = Some mixed \<and>
      (in_step i pc2 \<longleftrightarrow> read_u32 c lo AND 0xfffffff0 = bar_addr (bars pc ! i) AND 0xfffffff0))"
proof
  have i: "4 + i < 16" "5 + i < 16" using assms(2) by (auto simp: bar64_def)
  have step: "registers pc ! (4 + i) AND 0xfffffff0 = bar_addr (bars pc ! i) AND 0xfffffff0" using assms(3) by (simp add: in_step_def)
  note wd = write_device_bar [where cap_len = cap_len and rd = rd and wr = wr, OF _ _ _ assms(10)]
  show "\<exists>b1 b2 pc2. W (4 + i) 0 lo b = Some (b1, False) \<and> W (5 + i) 0 hi b1 = Some (b2, False) \<and>
      device_reloc b1 = device_reloc b \<and> device_reloc b2 = device_reloc b @ relocation64 (bar64_base i pc) new sz \<and>
      store b2 h = (pc2, x) \<and> get_bar_addr i pc2 = Some new \<and> bar64 i sz pc2 \<and> in_step i pc2"
  proof -
    obtain pc1 where l: "detect_bar_reprogramming c (4 + i) lo pc = Some (pc, None)"
      "write_config_register c (4 + i) 0 lo pc = Some pc1" "pci_inv pc1" "bar64 i sz pc1" "bars pc1 = bars pc"
      "registers pc1 ! (4 + i) AND 0xfffffff0 = read_u32 c lo AND 0xfffffff0"
      by (rule bar64_lower [OF assms(1,2,4,6)])
    obtain q pc2 p where u: "detect_bar_reprogramming c (5 + i) hi pc1 = Some (q, p)"
      "relocation64 (bar64_base i pc1) new sz = (case p of None \<Rightarrow> [] | Some x \<Rightarrow> [x])"
      "write_config_register c (5 + i) 0 hi q = Some pc2" "pci_inv pc2" "bar64 i sz pc2" "bar64_base i pc2 = new"
      "registers pc2 ! (5 + i) = read_u32 c hi" "registers pc2 ! (4 + i) = registers pc1 ! (4 + i)"
      "bar_addr (bars pc2 ! (i + 1)) = read_u32 c hi"
      by (rule bar64_upper [OF l(3,4) assms(5,7)]) (simp add: l(6) new)
    have base: "bar64_base i pc1 = bar64_base i pc" by (simp add: bar64_base_def l(5))
    let ?b = "b\<lparr>store := (store b)(h := (pc1, x))\<rparr>"
    have "W (4 + i) 0 lo b = Some (?b, False)" using wd [OF assms(8,9) i(1) assms(4) l(1,2)] by (simp add: W)
    moreover have "W (5 + i) 0 hi ?b = Some (?b\<lparr>store := (store ?b)(h := (pc2, x)),
        device_reloc := device_reloc b @ relocation64 (bar64_base i pc) new sz\<rparr>, False)"
      using wd [of ?b dev h pc1 x "5 + i" hi c q p pc2] assms(5,8) i(2) u(1,2,3) base by (simp add: W)
    moreover have "in_step i pc2" using u(6-9) l(6) by (auto simp: in_step_def bar64_base_def new joined_eq_iff)
    ultimately show ?thesis using get_bar_addr_bar64 [OF u(4,5)] u(5,6) by auto
  qed
  show "\<exists>b1 b2 pc2. W (5 + i) 0 hi b = Some (b1, False) \<and> W (4 + i) 0 lo b1 = Some (b2, False) \<and>
      device_reloc b1 = device_reloc b @ relocation64 (bar64_base i pc) mixed sz \<and> device_reloc b2 = device_reloc b1 \<and>
      store b2 h = (pc2, x) \<and> get_bar_addr i pc2 = Some mixed \<and>
      (in_step i pc2 \<longleftrightarrow> read_u32 c lo AND 0xfffffff0 = bar_addr (bars pc ! i) AND 0xfffffff0)"
  proof -
    obtain q pc1 p where u: "detect_bar_reprogramming c (5 + i) hi pc = Some (q, p)"
      "relocation64 (bar64_base i pc) mixed sz = (case p of None \<Rightarrow> [] | Some x \<Rightarrow> [x])"
      "write_config_register c (5 + i) 0 hi q = Some pc1" "pci_inv pc1" "bar64 i sz pc1" "bar64_base i pc1 = mixed"
      "registers pc1 ! (5 + i) = read_u32 c hi" "bar_addr (bars pc1 ! (i + 1)) = read_u32 c hi"
      by (rule bar64_upper [OF assms(1,2,5,7)]) (simp add: step mixed)
    obtain pc2 where l: "detect_bar_reprogramming c (4 + i) lo pc1 = Some (pc1, None)"
      "write_config_register c (4 + i) 0 lo pc1 = Some pc2" "pci_inv pc2" "bar64 i sz pc2" "bars pc2 = bars pc1"
      "registers pc2 ! (4 + i) AND 0xfffffff0 = read_u32 c lo AND 0xfffffff0" "registers pc2 ! (5 + i) = registers pc1 ! (5 + i)"
      by (rule bar64_lower [OF u(4,5) assms(4,6)])
    let ?b = "b\<lparr>store := (store b)(h := (pc1, x)), device_reloc := device_reloc b @ relocation64 (bar64_base i pc) mixed sz\<rparr>"
    have "W (5 + i) 0 hi b = Some (?b, False)" using wd [OF assms(8,9) i(2) assms(5) u(1,3)] u(2) by (simp add: W)
    moreover have "W (4 + i) 0 lo ?b = Some (?b\<lparr>store := (store ?b)(h := (pc2, x))\<rparr>, False)"
      using wd [of ?b dev h pc1 x "4 + i" lo c pc1 None pc2] assms(4,8) i(1) l(1,2) by (simp add: W)
    moreover have "bar64_base i pc2 = mixed" using u(6) by (simp add: bar64_base_def l(5))
    moreover have "in_step i pc2 \<longleftrightarrow> read_u32 c lo AND 0xfffffff0 = bar_addr (bars pc ! i) AND 0xfffffff0"
      using u(6-8) l(5-7) by (auto simp: in_step_def bar64_base_def mixed joined_eq_iff)
    ultimately show ?thesis using get_bar_addr_bar64 [OF l(3,4)] by auto
  qed
qed

definition demo_pci_bar :: pci_configuration where
  "demo_pci_bar = fst (the (add_pci_bar demo_bar demo_pci))"

lemma demo_pci_bar_facts: "pci_inv demo_pci_bar" "bar64 0 0x80000 demo_pci_bar" "in_step 0 demo_pci_bar"
  "bar64_base 0 demo_pci_bar = 0xe0000000"
proof -
  obtain p where p: "add_pci_bar demo_bar demo_pci = Some (p, Inr ())" using demo_bar_declared by auto
  then have eq: "demo_pci_bar = p" by (simp add: demo_pci_bar_def)
  have d: "pci_inv p" "declared demo_bar p" using add_pci_bar_declared [OF demo_pci_inv p] by auto
  have len: "length (bars demo_pci) = 6" using demo_pci_inv by (simp add: pci_inv_def)
  have t: "bar_type (bars p ! 1) = bar_type (bars demo_pci ! 1)"
    using p len by (auto simp: add_pci_bar_def demo_bar_def Let_def pci_const_defs nth_list_update
        split: if_splits option.splits)
  have t1: "bar_type (bars p ! Suc 0) = None"
    using t by (simp add: demo_pci_def pci_new_def default_bar_def pci_const_defs Let_def)
  show "pci_inv demo_pci_bar" using d eq by simp
  show "bar64 0 0x80000 demo_pci_bar" "in_step 0 demo_pci_bar" "bar64_base 0 demo_pci_bar = 0xe0000000"
    using d(2) t1 unfolding eq
    by (auto simp: declared_def demo_bar_def bar64_def in_step_def bar64_base_def joined_def Let_def
        decode_64_bits_bar_size_def)
qed

theorem pci_bar64_relocation_witness:
  "let W = write_device (virtio_pci_ops le_impl 0x40 20 (\<lambda>_ d. (d, 0)) (\<lambda>_ _ d. Some (d, False))) log_move 0;
       b = pci_bus_new 7 (\<lambda>_. (demo_pci_bar, ())) []
   in \<exists>b1 b2 p. W 4 0 (enc_u32 le_impl 0xd0000000) b = Some (b1, False) \<and> W 5 0 (enc_u32 le_impl 1) b1 = Some (b2, False) \<and>
     device_reloc b2 = [p] \<and> old_base p = 0xe0000000 \<and> new_base p = 0x1d0000000 \<and> reloc_len p = 0x80000 \<and>
     get_bar_addr 0 (fst (store b2 7)) = Some 0x1d0000000"
proof -
  let ?b = "pci_bus_new 7 (\<lambda>_. (demo_pci_bar, ())) []"
  have r: "read_u32 le_impl (enc_u32 le_impl v) = v" "length (enc_u32 le_impl v) = 4" for v
    using codec_ok_le_impl by (simp_all add: codec_ok_def)
  have j: "joined 1 0xd0000000 = 0x1d0000000" by (simp add: joined_def)
  have ones: "read_u32 le_impl (enc_u32 le_impl 0xd0000000) \<noteq> 0xffffffff" "read_u32 le_impl (enc_u32 le_impl 1) \<noteq> 0xffffffff"
    by (simp_all add: r)
  have dev: "map_of (devices ?b) (of_nat 0) = Some 7" "store ?b 7 = (demo_pci_bar, ())" "device_reloc ?b = []"
    by (simp_all add: pci_bus_new_def)
  show ?thesis
    using conjunct1 [OF pci_bar64_relocation [OF demo_pci_bar_facts(1-3) r(2) r(2) ones dev(1,2) _ refl refl refl,
        of "0x40" 20 "\<lambda>_ d. (d, 0)" "\<lambda>_ _ d. Some (d, False)"]]
    by (auto simp: Let_def r j demo_pci_bar_facts(4) dev(3) relocation64_def)
qed

end
