(* ===== verification/Address_Allocator.thy ===== *)
theory Address_Allocator
  imports Btree_Map "HOL-Library.Monad_Syntax"
begin

text \<open>
  The address allocator of \<^verbatim>\<open>src/vm-allocator/src/address.rs\<close>: ranges of guest addresses, kept in an
  ordered map from start address to size, with a zero-size marker just behind the managed region.
  \<open>GuestAddress\<close> and \<open>GuestUsize\<close> are the 64-bit integers they wrap.  Proved: the layout invariant
  (ranges inside the region, pairwise disjoint, marker last), that every operation keeps it, what
  \<open>allocate\<close> returns on both of its paths, and that the search from the top misses no free block.
\<close>

subsection \<open>Data and operations\<close>

datatype alloc_error = Overflow | Overlap | UnalignedAddress

record address_allocator =
  aa_base :: u64
  aa_end :: u64
  aa_ranges :: "(u64, u64) btree"

definition address_allocator_new :: "u64 \<Rightarrow> u64 \<Rightarrow> address_allocator option" where
  "address_allocator_new base sz =
     (if sz = 0 then None
      else do {
        end_addr \<leftarrow> checked_add base (sz - 1);
        marker \<leftarrow> checked_add base sz;
        Some \<lparr>aa_base = base, aa_end = end_addr, aa_ranges = bt_insert marker 0 []\<rparr>
      })"

definition align_address :: "u64 \<Rightarrow> u64 \<Rightarrow> u64" where
  "align_address address alignment =
     (let align_adjust = (if address mod alignment \<noteq> 0
                          then alignment - address mod alignment else 0)
      in address + align_adjust)"

text \<open>The loop of \<open>available_range\<close> over the ranges in address order, with \<open>prev_end_address\<close>.\<close>

fun available_range_loop ::
  "u64 \<Rightarrow> u64 \<Rightarrow> u64 \<Rightarrow> (u64, u64) btree \<Rightarrow> alloc_error + u64" where
  "available_range_loop aligned req_size prev_end [] = Inl Overflow"
| "available_range_loop aligned req_size prev_end ((address, sz) # rs) =
     (if aligned \<le> address then
        (if prev_end > aligned then Inl Overlap
         else if address - aligned < req_size then Inl Overlap
         else Inr aligned)
      else available_range_loop aligned req_size (address + sz) rs)"

definition available_range ::
  "address_allocator \<Rightarrow> u64 \<Rightarrow> u64 \<Rightarrow> u64 \<Rightarrow> alloc_error + u64" where
  "available_range self req_address req_size alignment =
     (let aligned_address = align_address req_address alignment in
      if aligned_address \<noteq> req_address then Inl UnalignedAddress
      else if aligned_address \<ge> aa_end self \<or> aligned_address < aa_base self then Inl Overflow
      else available_range_loop aligned_address req_size (aa_base self) (aa_ranges self))"

text \<open>The loop of \<open>first_available_range\<close> over the ranges from the highest address down.\<close>

fun first_available_loop :: "u64 \<Rightarrow> u64 \<Rightarrow> u64 \<Rightarrow> (u64 \<times> u64) list \<Rightarrow> u64 option" where
  "first_available_loop base req_size alignment [] = None"
| "first_available_loop base req_size alignment ((address, sz) # rs) =
     (let prev_end_address = (case rs of [] \<Rightarrow> base | (a, s) # _ \<Rightarrow> a + s) in
      case checked_sub address (align_address prev_end_address alignment) of
        Some size_delta \<Rightarrow>
          (let adjust = (if alignment > 1 then alignment - 1 else 0) in
           if size_delta \<ge> req_size
           then Some (align_address (address - (req_size + adjust)) alignment)
           else first_available_loop base req_size alignment rs)
      | None \<Rightarrow> first_available_loop base req_size alignment rs)"

definition first_available_range :: "address_allocator \<Rightarrow> u64 \<Rightarrow> u64 \<Rightarrow> u64 option" where
  "first_available_range self req_size alignment =
     first_available_loop (aa_base self) req_size alignment (rev (aa_ranges self))"

definition allocate ::
  "address_allocator \<Rightarrow> u64 option \<Rightarrow> u64 \<Rightarrow> u64 option \<Rightarrow> u64 option \<times> address_allocator" where
  "allocate self address sz align_size =
     (if sz = 0 then (None, self)
      else
        let alignment = unwrap_or align_size 4 in
        if \<not> is_power_of_two alignment \<or> alignment = 0 then (None, self)
        else
          let new_addr =
            (case address of
               Some req_address \<Rightarrow>
                 (case available_range self req_address sz alignment of
                    Inr addr \<Rightarrow> Some addr
                  | Inl _ \<Rightarrow> None)
             | None \<Rightarrow> first_available_range self sz alignment)
          in case new_addr of
               None \<Rightarrow> (None, self)
             | Some a \<Rightarrow> (Some a, self\<lparr>aa_ranges := bt_insert a sz (aa_ranges self)\<rparr>))"

definition free :: "address_allocator \<Rightarrow> u64 \<Rightarrow> u64 \<Rightarrow> address_allocator" where
  "free self address sz =
     (case bt_get (aa_ranges self) address of
        Some range_size \<Rightarrow>
          (if sz = range_size
           then self\<lparr>aa_ranges := bt_remove address (aa_ranges self)\<rparr> else self)
      | None \<Rightarrow> self)"

subsection \<open>The layout invariant\<close>

text \<open>
  \<open>chain p rs\<close>: the ranges \<open>rs\<close> start at \<open>p\<close> or above and each starts where the one before it ends,
  or later, over the natural numbers (so no end wraps around).
\<close>

fun chain :: "nat \<Rightarrow> (u64 \<times> u64) list \<Rightarrow> bool" where
  "chain p [] = True"
| "chain p ((a, s) # rs) \<longleftrightarrow> p \<le> unat a \<and> chain (unat a + unat s) rs"

fun chain_end :: "nat \<Rightarrow> (u64 \<times> u64) list \<Rightarrow> nat" where
  "chain_end p [] = p"
| "chain_end p ((a, s) # rs) = chain_end (unat a + unat s) rs"

definition live :: "address_allocator \<Rightarrow> (u64 \<times> u64) list" where
  "live self = butlast (aa_ranges self)"

definition alloc_inv :: "address_allocator \<Rightarrow> bool" where
  "alloc_inv self \<longleftrightarrow>
     aa_base self \<le> aa_end self \<and> unat (aa_end self) + 1 < 2 ^ 64 \<and>
     aa_ranges self \<noteq> [] \<and> last (aa_ranges self) = (aa_end self + 1, 0) \<and>
     chain (unat (aa_base self)) (aa_ranges self) \<and> (\<forall>r \<in> set (live self). snd r \<noteq> 0)"

text \<open>The bytes of a range, and the bytes in use.\<close>

definition bytes :: "u64 \<times> u64 \<Rightarrow> nat set" where
  "bytes r = {unat (fst r) ..< unat (fst r) + unat (snd r)}"

definition used :: "address_allocator \<Rightarrow> nat set" where
  "used self = (\<Union>r \<in> set (live self). bytes r)"

definition region :: "address_allocator \<Rightarrow> nat set" where
  "region self = {unat (aa_base self) .. unat (aa_end self)}"

subsection \<open>Chains of ranges\<close>

lemma chain_append: "chain p (xs @ ys) \<longleftrightarrow> chain p xs \<and> chain (chain_end p xs) ys"
  by (induction p xs rule: chain.induct) auto

lemma chain_end_append [simp]: "chain_end p (xs @ ys) = chain_end (chain_end p xs) ys"
  by (induction p xs rule: chain_end.induct) auto

lemma chain_end_ge: "chain p xs \<Longrightarrow> p \<le> chain_end p xs"
  by (induction p xs rule: chain.induct) auto

lemma chain_bounds:
  "chain p xs \<Longrightarrow> r \<in> set xs \<Longrightarrow>
     p \<le> unat (fst r) \<and> unat (fst r) + unat (snd r) \<le> chain_end p xs"
proof (induction p xs rule: chain.induct)
  case (2 p a s rs)
  then show ?case using chain_end_ge [of "unat a + unat s" rs] by auto
qed simp

lemma chain_mono: "chain p xs \<Longrightarrow> q \<le> p \<Longrightarrow> chain q xs"
  by (cases xs) auto

lemma chain_disjoint:
  "chain p (xs @ r # ys) \<Longrightarrow> q \<in> set (xs @ ys) \<Longrightarrow> bytes r \<inter> bytes q = {}"
  using chain_bounds [of p xs q] chain_bounds [of "chain_end p (xs @ [r])" ys q]
  by (cases r) (auto simp: chain_append bytes_def)

text \<open>A block of \<open>req\<close> bytes at \<open>x\<close> fits into a gap of the chain.\<close>

definition fits :: "nat \<Rightarrow> (u64 \<times> u64) list \<Rightarrow> nat \<Rightarrow> nat \<Rightarrow> bool" where
  "fits p rs x req \<longleftrightarrow>
     (\<exists>xs a s ys. rs = xs @ (a, s) # ys \<and> chain_end p xs \<le> x \<and> x + req \<le> unat a)"

lemma fits_here: "p \<le> x \<Longrightarrow> x + req \<le> unat a \<Longrightarrow> fits p ((a, s) # rs) x req"
  unfolding fits_def by (rule exI [where x = "[]"]) auto

lemma fits_later: "fits (unat a + unat s) rs x req \<Longrightarrow> fits p ((a, s) # rs) x req"
  unfolding fits_def by (metis append_Cons chain_end.simps(2))

lemma fits_Cons:
  "fits p ((a, s) # rs) x req \<longleftrightarrow>
     p \<le> x \<and> x + req \<le> unat a \<or> fits (unat a + unat s) rs x req"
proof
  assume "fits p ((a, s) # rs) x req"
  then obtain xs a' s' ys where *: "(a, s) # rs = xs @ (a', s') # ys"
    "chain_end p xs \<le> x" "x + req \<le> unat a'" unfolding fits_def by blast
  then show "p \<le> x \<and> x + req \<le> unat a \<or> fits (unat a + unat s) rs x req"
    by (cases xs) (auto simp: fits_def)
qed (auto intro: fits_here fits_later)

lemma fits_Nil [simp]: "\<not> fits p [] x req"
  by (simp add: fits_def)

lemma fits_snoc:
  "fits p (rs @ [(a, s)]) x req \<longleftrightarrow> fits p rs x req \<or> chain_end p rs \<le> x \<and> x + req \<le> unat a"
  by (induction p rs rule: chain.induct) (auto simp: fits_Cons)

text \<open>Fitting into a gap is being free: inside the region and disjoint from every range.\<close>

lemma fits_iff_free:
  assumes "chain p (rs @ [(m, 0)])" "\<forall>r \<in> set rs. snd r \<noteq> 0" "0 < req"
  shows "fits p (rs @ [(m, 0)]) x req \<longleftrightarrow>
     p \<le> x \<and> x + req \<le> unat m \<and> (\<forall>r \<in> set rs. {x ..< x + req} \<inter> bytes r = {})"
  using assms
proof (induction p rs rule: chain.induct)
  case (1 p)
  then show ?case by (auto simp: fits_Cons)
next
  case (2 p a s rs)
  have s: "0 < unat s" and c: "p \<le> unat a" "chain (unat a + unat s) (rs @ [(m, 0)])"
    using 2 by (auto simp: unat_gt_0)
  have far: "unat a + unat s \<le> unat m"
    using c(2) chain_bounds [of "unat a + unat s" "rs @ [(m, 0)]" "(m, 0)"] by simp
  have later: "unat a + unat s \<le> unat (fst r)" if "r \<in> set rs" for r
    using c(2) chain_bounds [of "unat a + unat s" "rs @ [(m, 0)]" r] that by simp
  have IH: "fits (unat a + unat s) (rs @ [(m, 0)]) x req \<longleftrightarrow>
      unat a + unat s \<le> x \<and> x + req \<le> unat m \<and> (\<forall>r \<in> set rs. {x ..< x + req} \<inter> bytes r = {})"
    using 2 by simp
  have apart: "{x ..< x + req} \<inter> bytes (a, s) = {} \<longleftrightarrow> x + req \<le> unat a \<or> unat a + unat s \<le> x"
    using s 2 by (auto simp: bytes_def)
  show ?case
    using apart c far IH later by (auto simp: fits_Cons bytes_def dest: later)
qed

subsection \<open>Alignment\<close>

lemma align_address_fix:
  assumes "is_power_of_two al"
  shows "align_address a al = a \<longleftrightarrow> unat al dvd unat a"
proof -
  have "unat (a mod al) < unat al"
    using assms by (auto elim!: is_power_of_twoE simp: unat_mod)
  then have "al - a mod al \<noteq> 0" by auto
  moreover have "a mod al = 0 \<longleftrightarrow> unat al dvd unat a"
    by (metis unat_mod unat_0_iff dvd_eq_mod_eq_0)
  ultimately show ?thesis by (auto simp: align_address_def Let_def)
qed

text \<open>Rounding up gives the least multiple at or above the address, where that one is below \<open>2^64\<close>.\<close>

lemma unat_align_address_up:
  assumes al: "is_power_of_two al" and fit: "unat a + unat al \<le> 2 ^ 64"
  shows "unat (align_address a al) = round_up (unat al) (unat a)"
proof -
  have n: "0 < unat al" using al by (auto elim: is_power_of_twoE)
  have lt: "unat (a mod al) < unat al" using n by (simp add: unat_mod)
  have m: "unat a mod unat al = 0 \<longleftrightarrow> a mod al = 0" by (metis unat_mod unat_0_iff)
  show ?thesis
  proof (cases "a mod al = 0")
    case True
    then show ?thesis using m by (simp add: align_address_def round_up_def)
  next
    case False
    then have "unat (al - a mod al) = unat al - unat a mod unat al"
      using lt by (simp add: word_le_nat_alt unat_mod)
    moreover have "unat al - unat a mod unat al < unat al" using False m n by simp
    ultimately have "unat (a + (al - a mod al)) = unat a + (unat al - unat a mod unat al)"
      using fit by (subst unat_add_small) auto
    with False m show ?thesis by (simp add: align_address_def round_up_def)
  qed
qed

text \<open>
  Rounding down as \<open>first_available_range\<close> does it: subtract \<open>alignment - 1\<close> and round up.  The
  subtraction may wrap around below zero; rounding up then wraps back to zero.
\<close>

lemma unat_align_address_down:
  assumes al: "is_power_of_two al" and le: "r \<le> a"
  shows "unat (align_address (a - (r + (if al > 1 then al - 1 else 0))) al) =
           (unat a - unat r) - (unat a - unat r) mod unat al"
proof -
  define x where "x = a - r"
  have x: "unat x = unat a - unat r" using le by (simp add: x_def)
  obtain k where k: "k < 64" "al = 2 ^ k" "unat al = 2 ^ k" "0 < unat al" "unat al dvd 2 ^ 64"
    using al by (auto elim: is_power_of_twoE)
  have one: "1 \<le> al" using k(4) by (simp add: word_le_nat_alt)
  have adj: "(if al > 1 then al - 1 else 0) = al - 1" using one by auto
  have sub: "a - (r + (al - 1)) = x - (al - 1)" by (simp add: x_def)
  have um1: "unat (al - 1) = unat al - 1" using one by simp
  show ?thesis
  proof (cases "unat al - 1 \<le> unat x")
    case True
    then have ux: "unat (x - (al - 1)) = unat x - (unat al - 1)"
      using um1 by (simp add: word_le_nat_alt)
    then have "unat (x - (al - 1)) + unat al \<le> 2 ^ 64"
      using True k(4) unat_lt_2p [of x] by simp
    then show ?thesis
      using True ux k(4) x round_up_minus [of "unat al" "unat x"]
      by (simp add: adj sub unat_align_address_up [OF al])
  next
    case False
    then have small: "unat x + 1 < unat al" by simp
    have u1: "unat (x + 1) = unat x + 1"
      using small unat_lt_2p [of al] by (subst unat_add_small) auto
    have "unat (x + 1 - al) = (2 ^ 64 - unat al) + (unat x + 1)"
      using small u1 unat_lt_2p [of al] by (simp add: unat_sub_if_size word_le_nat_alt word_size)
    moreover obtain q where "2 ^ 64 - unat al = unat al * q"
      using dvd_diff_nat [OF k(5) dvd_refl] by (elim dvdE)
    ultimately have "unat ((x + 1 - al) mod al) = unat (x + 1)"
      using small u1 by (simp add: unat_mod)
    then have "(x + 1 - al) mod al = x + 1" by (simp only: word_unat_eq_iff)
    moreover have "x + 1 \<noteq> 0" using u1 by auto
    ultimately have "align_address (x + 1 - al) al = 0"
      by (simp add: align_address_def)
    moreover have "x - (al - 1) = x + 1 - al" by simp
    ultimately have "align_address (x - (al - 1)) al = 0" by (simp only:)
    then show ?thesis using False x by (simp add: adj sub)
  qed
qed
subsection \<open>The two searches\<close>

lemma available_range_loop_Inr:
  assumes "chain (unat prev) rs" "chain_end (unat prev) rs < 2 ^ 64"
    and "\<forall>r \<in> set (butlast rs). snd r \<noteq> 0" "rs \<noteq> []"
  shows "available_range_loop al req prev rs = Inr x \<longleftrightarrow>
           x = al \<and> fits (unat prev) rs (unat al) (unat req)"
  using assms
proof (induction al req prev rs rule: available_range_loop.induct)
  case (2 al req prev a s rs)
  have c: "chain (unat a + unat s) rs" "chain_end (unat a + unat s) rs < 2 ^ 64"
    using 2 by auto
  have as: "unat (a + s) = unat a + unat s"
    using c chain_end_ge [OF c(1)] by (intro unat_add_small) simp
  have low: "unat a + unat s \<le> unat al" if "fits (unat a + unat s) rs (unat al) (unat req)"
    using that c chain_end_ge chain_append unfolding fits_def by (metis le_trans)
  show ?case
  proof (cases "al \<le> a")
    case True
    have nofit: "\<not> fits (unat a + unat s) rs (unat al) (unat req)"
    proof
      assume f: "fits (unat a + unat s) rs (unat al) (unat req)"
      with low True have "unat s = 0" by (simp add: word_le_nat_alt)
      moreover have "rs \<noteq> []" using f by auto
      ultimately show False using 2 by (auto simp: unat_eq_0)
    qed
    then show ?thesis using True
      by (auto simp: fits_Cons word_le_nat_alt word_less_nat_alt)
  next
    case False
    have "rs \<noteq> []" if "fits (unat a + unat s) rs (unat al) (unat req)" using that by auto
    with False show ?thesis
    proof (cases "rs = []")
      case True
      with False show ?thesis by (auto simp: fits_Cons word_le_nat_alt)
    next
      case ne: False
      have "available_range_loop al req (a + s) rs = Inr x \<longleftrightarrow>
          x = al \<and> fits (unat (a + s)) rs (unat al) (unat req)"
        using 2 False ne c as by (intro "2.IH") auto
      with False as show ?thesis by (auto simp: fits_Cons word_le_nat_alt)
    qed
  qed
qed simp

lemma prev_end_eq:
  "chain_end (unat b) xs < 2 ^ 64 \<Longrightarrow> chain (unat b) xs \<Longrightarrow>
     unat (case rev xs of [] \<Rightarrow> b | (a, s) # _ \<Rightarrow> a + s) = chain_end (unat b) xs"
  by (cases xs rule: rev_cases) (auto simp: unat_add_small)

lemma first_available_loop_snoc:
  assumes "chain (unat b) (xs @ [(a, s)])" "is_power_of_two al"
    and "chain_end (unat b) (xs @ [(a, s)]) + unat al \<le> 2 ^ 64"
  shows "first_available_loop b req al (rev (xs @ [(a, s)])) =
           (if round_up (unat al) (chain_end (unat b) xs) + unat req \<le> unat a
            then Some (align_address (a - (req + (if al > 1 then al - 1 else 0))) al)
            else first_available_loop b req al (rev xs))"
proof -
  define pe where "pe = (case rev xs of [] \<Rightarrow> b | (a, s) # _ \<Rightarrow> a + s)"
  have al: "0 < unat al" using assms(2) by (auto elim: is_power_of_twoE)
  have c: "chain (unat b) xs" "chain_end (unat b) xs \<le> unat a" using assms(1)
    by (auto simp: chain_append)
  then have pe: "unat pe = chain_end (unat b) xs"
    using assms(3) al unfolding pe_def by (intro prev_end_eq) auto
  have "unat (align_address pe al) = round_up (unat al) (chain_end (unat b) xs)"
    using assms(3) c(2) pe by (subst unat_align_address_up [OF assms(2)]) auto
  then show ?thesis
    by (auto simp: pe_def [symmetric] checked_sub_def word_le_nat_alt Let_def split: if_splits)
qed

text \<open>What the search from the top finds is an aligned block in a gap, and if it finds nothing
  there is none.\<close>

lemma first_available_loop_Some:
  assumes "chain (unat b) rs" "is_power_of_two al" "chain_end (unat b) rs + unat al \<le> 2 ^ 64"
    and "first_available_loop b req al (rev rs) = Some x"
  shows "fits (unat b) rs (unat x) (unat req) \<and> unat al dvd unat x"
  using assms
proof (induction rs rule: rev_induct)
  case (snoc r rs)
  obtain a s where r: "r = (a, s)" by (cases r)
  let ?e = "chain_end (unat b) rs"
  have al: "0 < unat al" using snoc.prems(2) by (auto elim: is_power_of_twoE)
  have c: "chain (unat b) rs" "?e \<le> unat a" using snoc.prems(1) by (auto simp: r chain_append)
  show ?case
  proof (cases "round_up (unat al) ?e + unat req \<le> unat a")
    case True
    then have x: "unat x = (unat a - unat req) - (unat a - unat req) mod unat al"
      using snoc.prems first_available_loop_snoc [of b rs a s al req]
        unat_align_address_down [OF snoc.prems(2), of req a]
      by (simp add: r word_le_nat_alt)
    have "round_up (unat al) ?e \<le> unat x"
      unfolding x using True al round_up_dvd [of "unat al" ?e]
      by (intro dvd_le_minus_mod) auto
    moreover have "unat x + unat req \<le> unat a" using x True by simp
    moreover have "unat al dvd unat x" using x by (simp add: minus_mod_eq_mult_div)
    ultimately show ?thesis using round_up_ge [of ?e "unat al"] by (auto simp: r fits_snoc)
  next
    case False
    then have "first_available_loop b req al (rev rs) = Some x"
      using snoc.prems first_available_loop_snoc [of b rs a s al req] by (simp add: r)
    then show ?thesis using snoc c by (auto simp: r fits_snoc)
  qed
qed simp

lemma first_available_loop_None:
  assumes "chain (unat b) rs" "is_power_of_two al" "chain_end (unat b) rs + unat al \<le> 2 ^ 64"
    and "first_available_loop b req al (rev rs) = None"
  shows "\<not> (fits (unat b) rs x (unat req) \<and> unat al dvd x)"
  using assms
proof (induction rs rule: rev_induct)
  case (snoc r rs)
  obtain a s where r: "r = (a, s)" by (cases r)
  let ?e = "chain_end (unat b) rs"
  have al: "0 < unat al" using snoc.prems(2) by (auto elim: is_power_of_twoE)
  have c: "chain (unat b) rs" "?e \<le> unat a" using snoc.prems(1) by (auto simp: r chain_append)
  have no: "\<not> round_up (unat al) ?e + unat req \<le> unat a"
    "first_available_loop b req al (rev rs) = None"
    using snoc.prems first_available_loop_snoc [of b rs a s al req]
    by (auto simp: r split: if_splits)
  then have "\<not> (?e \<le> x \<and> x + unat req \<le> unat a \<and> unat al dvd x)"
    using round_up_least [OF al, of x ?e] by linarith
  moreover have "\<not> (fits (unat b) rs x (unat req) \<and> unat al dvd x)"
    using snoc.prems(2,3) no c by (intro snoc.IH) (auto simp: r)
  ultimately show ?case by (auto simp: r fits_snoc)
qed simp

subsection \<open>What the operations do\<close>

lemma alloc_invE:
  assumes "alloc_inv self"
  obtains m where "aa_ranges self = live self @ [(m, 0)]" "unat m = unat (aa_end self) + 1"
    "m = aa_end self + 1" "chain (unat (aa_base self)) (live self @ [(m, 0)])"
    "\<forall>r \<in> set (live self). snd r \<noteq> 0"
proof
  let ?m = "aa_end self + 1"
  show "aa_ranges self = live self @ [(?m, 0)]"
    using assms unfolding alloc_inv_def live_def by (metis append_butlast_last_id)
  then show "chain (unat (aa_base self)) (live self @ [(?m, 0)])"
    using assms by (simp add: alloc_inv_def)
  show "unat ?m = unat (aa_end self) + 1"
    using assms by (simp add: alloc_inv_def unat_add_small)
  show "\<forall>r \<in> set (live self). snd r \<noteq> 0" using assms by (simp add: alloc_inv_def)
qed simp

lemma alloc_inv_chain_end:
  "alloc_inv self \<Longrightarrow> chain_end (unat (aa_base self)) (aa_ranges self) = unat (aa_end self) + 1"
  by (elim alloc_invE) simp

text \<open>Fitting into a gap of the allocator is being a free block of its region.\<close>

lemma fits_allocator:
  assumes "alloc_inv self" "0 < req"
  shows "fits (unat (aa_base self)) (aa_ranges self) x req \<longleftrightarrow>
           {x ..< x + req} \<subseteq> region self \<and> {x ..< x + req} \<inter> used self = {}"
proof -
  obtain m where m: "aa_ranges self = live self @ [(m, 0)]" "unat m = unat (aa_end self) + 1"
    "chain (unat (aa_base self)) (live self @ [(m, 0)])" "\<forall>r \<in> set (live self). snd r \<noteq> 0"
    using assms(1) by (rule alloc_invE)
  have "{x ..< x + req} \<subseteq> region self \<longleftrightarrow> unat (aa_base self) \<le> x \<and> x + req \<le> unat m"
  proof -
    have "region self = {unat (aa_base self) ..< unat m}"
      using m(2) by (simp add: region_def atLeastLessThanSuc_atLeastAtMost)
    then show ?thesis
      using assms(2) atLeastLessThan_subset_iff [of x "x + req" "unat (aa_base self)" "unat m"] by auto
  qed
  moreover have "{x ..< x + req} \<inter> used self = {} \<longleftrightarrow>
      (\<forall>r \<in> set (live self). {x ..< x + req} \<inter> bytes r = {})"
    by (auto simp: used_def)
  ultimately show ?thesis using fits_iff_free [OF m(3,4) assms(2)] m(1) by simp
qed

text \<open>Inserting a block that fits keeps the layout.\<close>

lemma insert_fitting:
  assumes inv: "alloc_inv self" and sz: "sz \<noteq> 0"
    and fit: "fits (unat (aa_base self)) (aa_ranges self) (unat a) (unat sz)"
  shows "\<exists>xs ys. aa_ranges self = xs @ ys \<and> ys \<noteq> [] \<and> a \<notin> fst ` set xs \<and>
           bt_insert a sz (aa_ranges self) = xs @ (a, sz) # ys \<and>
           chain (unat (aa_base self)) (xs @ (a, sz) # ys)"
proof -
  let ?b = "unat (aa_base self)"
  obtain m where m: "aa_ranges self = live self @ [(m, 0)]"
    "chain ?b (live self @ [(m, 0)])" "\<forall>r \<in> set (live self). snd r \<noteq> 0"
    using inv by (rule alloc_invE)
  obtain xs a' s' ys where split: "aa_ranges self = xs @ (a', s') # ys"
    and low: "chain_end ?b xs \<le> unat a" and high: "unat a + unat sz \<le> unat a'"
    using fit unfolding fits_def by blast
  have "chain ?b (aa_ranges self)" using inv by (simp add: alloc_inv_def)
  then have c: "chain ?b xs" "chain (chain_end ?b xs) ((a', s') # ys)"
    unfolding split by (simp_all add: chain_append)
  have live: "set xs \<subseteq> set (live self)"
    using split by (simp add: live_def butlast_append)
  have below: "fst x < a" if "x \<in> set xs" for x
  proof -
    have "0 < unat (snd x)" using that live m(3) by (auto simp: unat_gt_0)
    then show ?thesis using chain_bounds [OF c(1) that] low by (simp add: word_less_nat_alt)
  qed
  have "0 < unat sz" using sz by (simp add: unat_gt_0)
  then have above: "a < fst y" if "y \<in> set ((a', s') # ys)" for y
    using that high c(2) chain_bounds [of "unat a' + unat s'" ys y]
    by (auto simp: word_less_nat_alt)
  have "bt_insert a sz (aa_ranges self) = xs @ (a, sz) # (a', s') # ys"
    unfolding split using below above by (intro bt_insert_append) auto
  moreover have "chain ?b (xs @ (a, sz) # (a', s') # ys)"
    using c low high by (simp add: chain_append)
  moreover have "a \<notin> fst ` set xs" using below by auto
  ultimately show ?thesis using split by blast
qed

lemma insert_fitting_inv:
  assumes "alloc_inv self" "sz \<noteq> 0"
    and "fits (unat (aa_base self)) (aa_ranges self) (unat a) (unat sz)"
  defines "self' \<equiv> self\<lparr>aa_ranges := bt_insert a sz (aa_ranges self)\<rparr>"
  shows "alloc_inv self'" "set (live self') = insert (a, sz) (set (live self))"
    "free self' a sz = self"
proof -
  obtain xs ys where *: "aa_ranges self = xs @ ys" "ys \<noteq> []" "a \<notin> fst ` set xs"
    "bt_insert a sz (aa_ranges self) = xs @ (a, sz) # ys"
    "chain (unat (aa_base self)) (xs @ (a, sz) # ys)"
    using insert_fitting [OF assms(1-3)] by blast
  have l: "live self' = xs @ (a, sz) # butlast ys" "live self = xs @ butlast ys"
    using * by (auto simp: self'_def live_def butlast_append)
  show "set (live self') = insert (a, sz) (set (live self))" unfolding l by auto
  show "alloc_inv self'"
    using assms(1,2) * l by (auto simp: alloc_inv_def self'_def)
  have "map_of (xs @ (a, sz) # ys) a = Some sz"
    using *(3) by (simp add: map_add_Some_iff map_of_eq_None_iff)
  then show "free self' a sz = self"
    using * bt_remove_append [OF *(3)] by (simp add: free_def self'_def)
qed

lemma available_range_Inr:
  assumes "alloc_inv self" "is_power_of_two al"
  shows "available_range self r sz al = Inr a \<longleftrightarrow>
           a = r \<and> unat al dvd unat r \<and> r < aa_end self \<and> aa_base self \<le> r \<and>
           fits (unat (aa_base self)) (aa_ranges self) (unat r) (unat sz)"
proof -
  have "available_range_loop r sz (aa_base self) (aa_ranges self) = Inr a \<longleftrightarrow>
      a = r \<and> fits (unat (aa_base self)) (aa_ranges self) (unat r) (unat sz)"
    using assms(1) alloc_inv_chain_end [OF assms(1)]
    by (intro available_range_loop_Inr) (auto simp: alloc_inv_def live_def)
  then show ?thesis
    using align_address_fix [OF assms(2), of r] by (auto simp: available_range_def Let_def)
qed

text \<open>Alignments for which rounding the end of the region up stays below \<open>2^64\<close>.\<close>

definition align_ok :: "address_allocator \<Rightarrow> u64 option \<Rightarrow> bool" where
  "align_ok self align_size \<longleftrightarrow> unat (aa_end self) + 1 + unat (unwrap_or align_size 4) \<le> 2 ^ 64"

lemma allocate_cases:
  assumes "alloc_inv self" "align_ok self align" "allocate self addr sz align = (Some a, self')"
  shows "sz \<noteq> 0" "unat (unwrap_or align 4) dvd unat a" "addr = None \<or> addr = Some a"
    "fits (unat (aa_base self)) (aa_ranges self) (unat a) (unat sz)"
    "self' = self\<lparr>aa_ranges := bt_insert a sz (aa_ranges self)\<rparr>"
proof -
  let ?al = "unwrap_or align 4"
  have pow: "is_power_of_two ?al" and "sz \<noteq> 0"
    using assms(3) by (auto simp: allocate_def Let_def split: if_splits)
  have up: "self' = self\<lparr>aa_ranges := bt_insert a sz (aa_ranges self)\<rparr>"
    using assms(3) by (auto simp: allocate_def Let_def split: if_splits option.splits sum.splits)
  have "unat ?al dvd unat a \<and> (addr = None \<or> addr = Some a) \<and>
      fits (unat (aa_base self)) (aa_ranges self) (unat a) (unat sz)"
  proof (cases addr)
    case None
    then have "first_available_loop (aa_base self) sz ?al (rev (aa_ranges self)) = Some a"
      using assms(3)
      by (auto simp: allocate_def Let_def first_available_range_def split: if_splits option.splits)
    moreover have "chain_end (unat (aa_base self)) (aa_ranges self) + unat ?al \<le> 2 ^ 64"
      using assms(2) alloc_inv_chain_end [OF assms(1)] by (simp add: align_ok_def)
    ultimately show ?thesis
      using assms(1) pow None first_available_loop_Some by (auto simp: alloc_inv_def)
  next
    case (Some r)
    then have "available_range self r sz ?al = Inr a"
      using assms(3) by (auto simp: allocate_def Let_def split: if_splits option.splits sum.splits)
    then show ?thesis using Some available_range_Inr [OF assms(1) pow] by simp
  qed
  with \<open>sz \<noteq> 0\<close> up show "sz \<noteq> 0" "unat ?al dvd unat a" "addr = None \<or> addr = Some a"
    "fits (unat (aa_base self)) (aa_ranges self) (unat a) (unat sz)"
    "self' = self\<lparr>aa_ranges := bt_insert a sz (aa_ranges self)\<rparr>" by auto
qed

lemma allocate_None: "allocate self addr sz align = (None, self') \<Longrightarrow> self' = self"
  by (auto simp: allocate_def Let_def split: if_splits option.splits sum.splits)

lemma live_disjoint:
  assumes "alloc_inv self" "q \<in> set (live self)" "r \<in> set (live self)" "q \<noteq> r"
  shows "bytes q \<inter> bytes r = {}"
proof -
  obtain xs ys where "live self = xs @ r # ys" using assms(3) by (meson split_list)
  moreover have "chain (unat (aa_base self)) (live self)"
    using assms(1) by (elim alloc_invE) (simp add: chain_append)
  ultimately show ?thesis
    using chain_disjoint [of _ xs r ys q] assms(2,4) by auto
qed

lemma live_in_region:
  assumes "alloc_inv self" "r \<in> set (live self)"
  shows "bytes r \<subseteq> region self"
  using assms(1)
proof (rule alloc_invE)
  fix m
  assume "chain (unat (aa_base self)) (live self @ [(m, 0)])" "unat m = unat (aa_end self) + 1"
  then show ?thesis
    using assms(2) chain_bounds [of "unat (aa_base self)" "live self" r]
    by (auto simp: chain_append bytes_def region_def)
qed

lemma alloc_inv_bt_wf:
  assumes "alloc_inv self"
  shows "bt_wf (aa_ranges self)"
proof -
  have "bt_wf (rs @ [(m, 0)])" if "chain p (rs @ [(m, 0)])" "\<forall>r \<in> set rs. snd r \<noteq> 0" for p rs m
    using that
  proof (induction p rs rule: chain.induct)
    case (2 p a s rs)
    then have "unat a < unat a + unat s" by (simp add: unat_gt_0)
    then show ?case
      using 2 chain_bounds [of "unat a + unat s" "rs @ [(m, 0)]"]
      by (fastforce simp: word_less_nat_alt)
  qed simp
  then show ?thesis using assms by (elim alloc_invE) simp
qed

lemma free_cases:
  assumes inv: "alloc_inv self" and sz: "sz \<noteq> 0"
  shows "alloc_inv (free self a sz)" "set (live (free self a sz)) = set (live self) - {(a, sz)}"
proof -
  obtain m where m: "aa_ranges self = live self @ [(m, 0)]" "unat m = unat (aa_end self) + 1"
    "m = aa_end self + 1" "chain (unat (aa_base self)) (live self @ [(m, 0)])"
    "\<forall>r \<in> set (live self). snd r \<noteq> 0"
    using inv by (rule alloc_invE)
  have wf: "bt_wf (aa_ranges self)" using inv by (rule alloc_inv_bt_wf)
  have get: "bt_get (aa_ranges self) a = Some sz \<longleftrightarrow> (a, sz) \<in> set (live self)"
    using bt.get_entries [OF wf, of a sz] m(1) sz by auto
  have "alloc_inv (free self a sz) \<and> set (live (free self a sz)) = set (live self) - {(a, sz)}"
  proof (cases "(a, sz) \<in> set (live self)")
    case True
    then obtain xs ys where split: "live self = xs @ (a, sz) # ys" by (meson split_list)
    have dist: "a \<notin> fst ` set xs" "a \<notin> fst ` set ys"
      using bt_wf_distinct [OF wf] by (auto simp: m(1) split)
    have f: "free self a sz = self\<lparr>aa_ranges := (xs @ ys) @ [(m, 0)]\<rparr>"
      using True get bt_remove_append [OF dist(1), of sz "ys @ [(m, 0)]"]
      by (simp add: free_def m(1) split)
    have c: "chain (unat (aa_base self)) ((xs @ ys) @ [(m, 0)])"
      using m(4) unfolding split by (auto simp: chain_append intro: chain_mono)
        (cases ys; auto)
    have l: "live (free self a sz) = xs @ ys" by (simp add: f live_def butlast_append)
    have "\<forall>r \<in> set (live (free self a sz)). snd r \<noteq> 0" using m(5) by (auto simp: l split)
    then have "alloc_inv (free self a sz)"
      using inv c m(3) by (auto simp: f alloc_inv_def)
    moreover have "set (live (free self a sz)) = set (live self) - {(a, sz)}"
      using dist unfolding l split by (auto simp: image_iff)
    ultimately show ?thesis by simp
  next
    case False
    then have "free self a sz = self" using get by (auto simp: free_def split: option.splits)
    with False inv show ?thesis by simp
  qed
  then show "alloc_inv (free self a sz)"
    "set (live (free self a sz)) = set (live self) - {(a, sz)}" by auto
qed

subsection \<open>The contract of a range allocator\<close>

text \<open>
  What the users of an allocator rely on: the blocks held are pairwise disjoint, an allocation adds
  exactly the block it returns, a failed one changes nothing, and freeing removes exactly one block.
  \<open>ok\<close> says which alignments may be asked for.  Sequences of calls are proved once, in the locale.
\<close>

datatype alloc_op = AllocOp "u64 option" u64 "u64 option" | FreeOp u64 u64

fun run_ops ::
  "('a \<Rightarrow> u64 option \<Rightarrow> u64 \<Rightarrow> u64 option \<Rightarrow> u64 option \<times> 'a) \<Rightarrow> ('a \<Rightarrow> u64 \<Rightarrow> u64 \<Rightarrow> 'a) \<Rightarrow>
     'a \<Rightarrow> alloc_op list \<Rightarrow> 'a" where
  "run_ops al fr s [] = s"
| "run_ops al fr s (AllocOp addr sz align # ops) = run_ops al fr (snd (al s addr sz align)) ops"
| "run_ops al fr s (FreeOp addr sz # ops) = run_ops al fr (fr s addr sz) ops"

fun op_ok :: "('a \<Rightarrow> u64 option \<Rightarrow> bool) \<Rightarrow> 'a \<Rightarrow> alloc_op \<Rightarrow> bool" where
  "op_ok ok s (AllocOp addr sz align) = ok s align"
| "op_ok ok s (FreeOp addr sz) = (sz \<noteq> 0)"

locale range_allocator =
  fixes inv :: "'a \<Rightarrow> bool"
    and held :: "'a \<Rightarrow> (u64 \<times> u64) set"
    and ok :: "'a \<Rightarrow> u64 option \<Rightarrow> bool"
    and alloc :: "'a \<Rightarrow> u64 option \<Rightarrow> u64 \<Rightarrow> u64 option \<Rightarrow> u64 option \<times> 'a"
    and release :: "'a \<Rightarrow> u64 \<Rightarrow> u64 \<Rightarrow> 'a"
  assumes held_disjoint: "inv s \<Longrightarrow> q \<in> held s \<Longrightarrow> r \<in> held s \<Longrightarrow> q \<noteq> r \<Longrightarrow> bytes q \<inter> bytes r = {}"
    and alloc_keeps: "inv s \<Longrightarrow> ok s align \<Longrightarrow> inv (snd (alloc s addr sz align))"
    and alloc_Some: "inv s \<Longrightarrow> ok s align \<Longrightarrow> alloc s addr sz align = (Some a, s') \<Longrightarrow>
          held s' = insert (a, sz) (held s) \<and> (a, sz) \<notin> held s"
    and alloc_None: "alloc s addr sz align = (None, s') \<Longrightarrow> s' = s"
    and release_keeps: "inv s \<Longrightarrow> sz \<noteq> 0 \<Longrightarrow> inv (release s a sz)"
    and release_held: "inv s \<Longrightarrow> sz \<noteq> 0 \<Longrightarrow> held (release s a sz) = held s - {(a, sz)}"
    and ok_alloc: "ok (snd (alloc s addr sz align)) = ok s"
    and ok_release: "ok (release s a sz) = ok s"
begin

lemma op_ok_alloc: "op_ok ok (snd (alloc s addr sz align)) = op_ok ok s"
  by (rule ext) (metis op_ok.elims op_ok.simps ok_alloc)

lemma op_ok_release: "op_ok ok (release s a sz) = op_ok ok s"
  by (rule ext) (metis op_ok.elims op_ok.simps ok_release)

lemma run_keeps: "inv s \<Longrightarrow> list_all (op_ok ok s) ops \<Longrightarrow> inv (run_ops alloc release s ops)"
proof (induction ops arbitrary: s)
  case (Cons x ops)
  then show ?case
    by (cases x) (auto simp: op_ok_alloc op_ok_release alloc_keeps release_keeps)
qed simp

lemma run_disjoint:
  assumes "inv s" "list_all (op_ok ok s) ops"
    and "q \<in> held (run_ops alloc release s ops)" "r \<in> held (run_ops alloc release s ops)" "q \<noteq> r"
  shows "bytes q \<inter> bytes r = {}"
  using held_disjoint [OF run_keeps [OF assms(1,2)] assms(3-5)] .

lemma held_until_released:
  "inv s \<Longrightarrow> list_all (op_ok ok s) ops \<Longrightarrow> (a, sz) \<in> held s \<Longrightarrow> FreeOp a sz \<notin> set ops \<Longrightarrow>
     (a, sz) \<in> held (run_ops alloc release s ops)"
proof (induction ops arbitrary: s)
  case (Cons x ops)
  show ?case
  proof (cases x)
    case (AllocOp addr sz' align)
    obtain res s' where al: "alloc s addr sz' align = (res, s')" by (cases "alloc s addr sz' align")
    have "(a, sz) \<in> held s'"
      using Cons.prems al alloc_Some [of s align addr sz'] alloc_None [of s addr sz' align]
      by (cases res) (auto simp: AllocOp)
    moreover have "inv s'" "list_all (op_ok ok s') ops"
      using Cons.prems alloc_keeps [of s align addr sz'] op_ok_alloc [of s addr sz' align]
      by (auto simp: AllocOp al)
    ultimately show ?thesis using Cons by (auto simp: AllocOp al)
  next
    case (FreeOp addr sz')
    then show ?thesis
      using Cons by (auto simp: op_ok_release release_keeps release_held)
  qed
qed simp

end

lemma allocate_static:
  "aa_base (snd (allocate self addr sz align)) = aa_base self"
  "aa_end (snd (allocate self addr sz align)) = aa_end self"
  by (auto simp: allocate_def Let_def split: option.splits sum.splits)

lemma free_static:
  "aa_base (free self addr sz) = aa_base self" "aa_end (free self addr sz) = aa_end self"
  by (auto simp: free_def split: option.splits)

interpretation aa: range_allocator alloc_inv "\<lambda>self. set (live self)" align_ok allocate free
proof unfold_locales
  fix s :: address_allocator and addr sz align a s' q r
  show "bytes q \<inter> bytes r = {}"
    if "alloc_inv s" "q \<in> set (live s)" "r \<in> set (live s)" "q \<noteq> r"
    using that by (rule live_disjoint)
  show "alloc_inv (snd (allocate s addr sz align))" if inv: "alloc_inv s" "align_ok s align"
  proof (cases "allocate s addr sz align")
    case (Pair res s')
    show ?thesis
    proof (cases res)
      case None
      then show ?thesis using allocate_None Pair inv by fastforce
    next
      case (Some x)
      note c = allocate_cases [OF inv Pair [unfolded Some]]
      show ?thesis using insert_fitting_inv(1) [OF inv(1) c(1,4)] c(5) by (simp add: Pair)
    qed
  qed
  show "set (live s') = insert (a, sz) (set (live s)) \<and> (a, sz) \<notin> set (live s)"
    if inv: "alloc_inv s" "align_ok s align" and al: "allocate s addr sz align = (Some a, s')"
  proof -
    note c = allocate_cases [OF inv al]
    have "bytes (a, sz) \<inter> used s = {}"
      using c(1,4) fits_allocator [OF inv(1), of "unat sz" "unat a"]
      by (auto simp: bytes_def unat_gt_0)
    moreover have "bytes (a, sz) \<noteq> {}" using c(1) by (simp add: bytes_def unat_gt_0)
    ultimately have "(a, sz) \<notin> set (live s)" by (auto simp: used_def)
    then show ?thesis using insert_fitting_inv(2) [OF inv(1) c(1,4)] c(5) by simp
  qed
  show "s' = s" if "allocate s addr sz align = (None, s')"
    using that by (rule allocate_None)
  show "alloc_inv (free s a sz)" if "alloc_inv s" "sz \<noteq> 0"
    using that by (rule free_cases(1))
  show "set (live (free s a sz)) = set (live s) - {(a, sz)}" if "alloc_inv s" "sz \<noteq> 0"
    using that by (rule free_cases(2))
  show "align_ok (snd (allocate s addr sz align)) = align_ok s"
    by (rule ext) (simp add: align_ok_def allocate_static)
  show "align_ok (free s a sz) = align_ok s"
    by (rule ext) (simp add: align_ok_def free_static)
qed

lemma address_allocator_new_inv:
  "address_allocator_new base sz = Some self \<Longrightarrow> alloc_inv self \<and> live self = []"
proof -
  assume new: "address_allocator_new base sz = Some self"
  then have sz: "sz \<noteq> 0" and fit: "unat base + unat sz < 2 ^ 64"
    and self: "self = \<lparr>aa_base = base, aa_end = base + (sz - 1), aa_ranges = [(base + sz, 0)]\<rparr>"
    by (auto simp: address_allocator_new_def checked_add_Some split: if_splits
        bind_splits)
  have "0 < unat sz" using sz by (simp add: unat_gt_0)
  moreover have u: "unat (sz - 1) = unat sz - 1" using sz by (simp add: unat_minus_one)
  ultimately have e: "unat (base + (sz - 1)) = unat base + unat sz - 1"
    using fit by (subst unat_add_small) auto
  then show ?thesis using \<open>0 < unat sz\<close> fit
    by (simp add: self alloc_inv_def live_def word_le_nat_alt unat_add_small)
qed

lemma address_allocator_new_region:
  "address_allocator_new base sz = Some self \<Longrightarrow> region self = {unat base ..< unat base + unat sz}"
proof -
  assume new: "address_allocator_new base sz = Some self"
  then have sz: "0 < unat sz" "unat base + unat sz < 2 ^ 64" and self: "aa_base self = base" "aa_end self = base + (sz - 1)"
    by (auto simp: address_allocator_new_def checked_add_Some unat_gt_0 split: if_splits bind_splits)
  have "unat (sz - 1) = unat sz - 1" using sz(1) by (intro unat_minus_one) auto
  then have "unat (base + (sz - 1)) = unat base + unat sz - 1" using sz by (subst unat_add_small) auto
  then show ?thesis using sz(1) by (auto simp: region_def self)
qed

subsection \<open>Properties\<close>

text \<open>A successful allocation returns an aligned block that lies inside the managed region and
  overlaps no block in use, at the requested address when there is one; the allocator then holds
  exactly the blocks it held before and the new one, and its layout invariant still holds.\<close>

theorem allocate_sound:
  assumes "alloc_inv self" "align_ok self align_size"
    and "allocate self address sz align_size = (Some a, self')"
  shows "unat (unwrap_or align_size 4) dvd unat a \<and> (address = None \<or> address = Some a) \<and>
         sz \<noteq> 0 \<and> bytes (a, sz) \<subseteq> region self \<and> bytes (a, sz) \<inter> used self = {} \<and>
         set (live self') = insert (a, sz) (set (live self)) \<and> alloc_inv self'"
proof -
  note c = allocate_cases [OF assms]
  have "0 < unat sz" using c(1) by (simp add: unat_gt_0)
  then have "bytes (a, sz) \<subseteq> region self \<and> bytes (a, sz) \<inter> used self = {}"
    using fits_allocator [OF assms(1)] c(4) by (simp add: bytes_def)
  with c insert_fitting_inv [OF assms(1) c(1,4)] show ?thesis by simp
qed

lemma example_allocator:
  "address_allocator_new 0x1000 0x10000 =
     Some \<lparr>aa_base = 0x1000, aa_end = 0x10fff, aa_ranges = [(0x11000, 0)]\<rparr>"
  by (simp add: address_allocator_new_def checked_add_def)

lemma pow2_0x100: "is_power_of_two (0x100 :: u64)"
  using is_power_of_twoI [of 8, where 'a = 64] by simp

lemma example_allocate:
  "allocate \<lparr>aa_base = 0x1000, aa_end = 0x10fff, aa_ranges = [(0x11000, 0)]\<rparr> None 0x110 (Some 0x100) =
     (Some 0x10e00, \<lparr>aa_base = 0x1000, aa_end = 0x10fff, aa_ranges = [(0x10e00, 0x110), (0x11000, 0)]\<rparr>)"
  by (simp add: allocate_def pow2_0x100 first_available_range_def checked_sub_def align_address_def)

theorem allocate_sound_witness:
  "bytes (0x10e00, 0x110) \<subseteq>
     region \<lparr>aa_base = 0x1000, aa_end = 0x10fff, aa_ranges = [(0x11000, 0)]\<rparr>"
  using allocate_sound [OF _ _ example_allocate]
    address_allocator_new_inv [OF example_allocator] by (simp add: align_ok_def)

text \<open>C17. The search of an allocation without a requested address is complete: provided the alignment fits between
  the end of the region and \<open>2^64\<close> (a larger one wraps around), it succeeds exactly when the size is not zero, the
  alignment is a power of two and some aligned block of the size lies free in the region.\<close>

theorem allocate_complete:
  assumes "alloc_inv self" "align_ok self align_size"
  shows "fst (allocate self None sz align_size) \<noteq> None \<longleftrightarrow>
           sz \<noteq> 0 \<and> is_power_of_two (unwrap_or align_size 4) \<and>
           (\<exists>x. unat (unwrap_or align_size 4) dvd x \<and> {x ..< x + unat sz} \<subseteq> region self \<and>
                {x ..< x + unat sz} \<inter> used self = {})"
proof (cases "sz \<noteq> 0 \<and> is_power_of_two (unwrap_or align_size 4)")
  case False
  then show ?thesis by (auto simp: allocate_def)
next
  case True
  let ?al = "unwrap_or align_size 4"
  have al: "?al \<noteq> 0" using True by (auto elim: is_power_of_twoE)
  have chain: "chain (unat (aa_base self)) (aa_ranges self)"
    "chain_end (unat (aa_base self)) (aa_ranges self) + unat ?al \<le> 2 ^ 64"
    using assms(1,2) alloc_inv_chain_end [OF assms(1)] by (auto simp: align_ok_def alloc_inv_def)
  have "0 < unat sz" using True by (simp add: unat_gt_0)
  note free = fits_allocator [OF assms(1) this]
  have "fst (allocate self None sz align_size) = first_available_range self sz ?al"
    using True al by (simp add: allocate_def split: option.split)
  then show ?thesis
    using first_available_loop_Some [OF chain(1) _ chain(2), of sz]
      first_available_loop_None [OF chain(1) _ chain(2), of sz] free True
    unfolding first_available_range_def by (metis option.exhaust)
qed

theorem allocate_complete_witness:
  "\<exists>x. 0x100 dvd x \<and>
     {x ..< x + 0x110} \<subseteq> region \<lparr>aa_base = 0x1000, aa_end = 0x10fff, aa_ranges = [(0x11000, 0)]\<rparr>"
  using allocate_complete [OF conjunct1 [OF address_allocator_new_inv [OF example_allocator]],
      of "Some 0x100" "0x110"] example_allocate pow2_0x100
  by (auto simp: align_ok_def)

text \<open>C24. An allocation at a requested address succeeds exactly when the size is not zero, the
  alignment is a power of two that divides the address, the block is free, and the address lies
  strictly below the last address of the region (which therefore can never be requested itself).\<close>

theorem allocate_at_iff:
  assumes "alloc_inv self"
  shows "fst (allocate self (Some r) sz align_size) = Some r \<longleftrightarrow>
           sz \<noteq> 0 \<and> is_power_of_two (unwrap_or align_size 4) \<and>
           unat (unwrap_or align_size 4) dvd unat r \<and> r < aa_end self \<and>
           bytes (r, sz) \<subseteq> region self \<and> bytes (r, sz) \<inter> used self = {}"
proof (cases "sz = 0 \<or> \<not> is_power_of_two (unwrap_or align_size 4)")
  case True
  then show ?thesis by (auto simp: allocate_def)
next
  case False
  let ?al = "unwrap_or align_size 4"
  have sz: "0 < unat sz" using False by (simp add: unat_gt_0)
  have al: "?al \<noteq> 0" using False by (auto elim: is_power_of_twoE)
  have "fst (allocate self (Some r) sz align_size) = Some r \<longleftrightarrow>
      available_range self r sz ?al = Inr r"
    using False al by (auto simp: allocate_def split: sum.split option.split)
  moreover have "aa_base self \<le> r" if "bytes (r, sz) \<subseteq> region self"
    using that sz by (auto simp: bytes_def region_def word_le_nat_alt subset_iff)
  ultimately show ?thesis
    using available_range_Inr [OF assms, of ?al r sz] False fits_allocator [OF assms sz, of "unat r"]
    by (auto simp: bytes_def)
qed

theorem allocate_at_iff_witness:
  "fst (allocate \<lparr>aa_base = 0x1000, aa_end = 0x10fff, aa_ranges = [(0x11000, 0)]\<rparr>
     (Some 0x10fff) 1 (Some 1)) \<noteq> Some 0x10fff"
  using allocate_at_iff [OF conjunct1 [OF address_allocator_new_inv [OF example_allocator]],
      of "0x10fff" 1 "Some 1"] by simp

text \<open>C5. After any sequence of allocations and frees on a fresh allocator, the blocks in use lie inside the region
  it was created for and are pairwise disjoint; an allocation that returns an address adds exactly that block, which
  was not in use; and a block in use stays so until that very block is freed.  (Alignments fit between the end of
  the region and \<open>2^64\<close>, as a larger one wraps around, and no free has size zero, which would remove the marker
  behind the region.)\<close>

theorem allocator_run_safe:
  assumes "address_allocator_new base sz = Some self" "list_all (op_ok align_ok self) (ops @ ops')"
  shows "(\<forall>q \<in> set (live (run_ops allocate free self ops)).
       bytes q \<subseteq> {unat base ..< unat base + unat sz} \<and>
       (\<forall>r \<in> set (live (run_ops allocate free self ops)). q \<noteq> r \<longrightarrow> bytes q \<inter> bytes r = {}) \<and>
       (FreeOp (fst q) (snd q) \<notin> set ops' \<longrightarrow> q \<in> set (live (run_ops allocate free self (ops @ ops'))))) \<and>
     (\<forall>addr n align a s'. align_ok self align \<longrightarrow> allocate (run_ops allocate free self ops) addr n align = (Some a, s') \<longrightarrow>
       set (live s') = insert (a, n) (set (live (run_ops allocate free self ops))) \<and>
       (a, n) \<notin> set (live (run_ops allocate free self ops)))"
proof -
  let ?s = "run_ops allocate free self ops"
  have app: "run_ops allocate free self (ops @ ops') = run_ops allocate free ?s ops'" for ops'
    by (induction allocate free self ops rule: run_ops.induct) auto
  have inv: "alloc_inv self" using address_allocator_new_inv assms(1) by blast
  have ok: "op_ok align_ok ?s = op_ok align_ok self"
    by (induction allocate free self ops rule: run_ops.induct) (auto simp: aa.op_ok_alloc aa.op_ok_release)
  then have al: "align_ok ?s align = align_ok self align" for align using op_ok.simps(1) by metis
  have inv1: "alloc_inv ?s" using inv assms(2) by (intro aa.run_keeps) auto
  have "region ?s = region self"
    by (induction allocate free self ops rule: run_ops.induct) (simp_all add: region_def allocate_static free_static)
  then have reg: "region ?s = {unat base ..< unat base + unat sz}" using address_allocator_new_region [OF assms(1)] by simp
  have held: "q \<in> set (live (run_ops allocate free self (ops @ ops')))"
    if "q \<in> set (live ?s)" "FreeOp (fst q) (snd q) \<notin> set ops'" for q
    using aa.held_until_released [OF inv1, of ops' "fst q" "snd q"] that assms(2) app ok by simp
  show ?thesis using live_in_region [OF inv1] reg live_disjoint [OF inv1] held aa.alloc_Some [OF inv1] al by blast
qed

theorem allocator_run_safe_witness:
  "bytes (0x10f00, 0x100) \<inter> bytes (0x10e00, 0x100) = {} \<and> bytes (0x10e00, 0x100) \<subseteq> {0x1000 ..< 0x11000}"
proof -
  let ?s = "\<lparr>aa_base = 0x1000, aa_end = 0x10fff, aa_ranges = [(0x11000, 0)]\<rparr>"
  let ?o = "AllocOp None 0x100 (Some 0x100)"
  have 1: "set (live (run_ops allocate free ?s [?o, ?o])) = {(0x10e00, 0x100), (0x10f00, 0x100)}"
    by (simp add: allocate_def pow2_0x100 first_available_range_def checked_sub_def align_address_def live_def)
  have "list_all (op_ok align_ok ?s) ([?o, ?o] @ [])" by (simp add: align_ok_def)
  from conjunct1 [OF allocator_run_safe [OF example_allocator this], unfolded 1] show ?thesis by auto
qed

text \<open>Freeing a block right after it was allocated restores the allocator exactly.\<close>

theorem free_allocate:
  assumes "alloc_inv self" "align_ok self align_size"
    and "allocate self address sz align_size = (Some a, self')"
  shows "free self' a sz = self"
  using insert_fitting_inv(3) [OF assms(1) allocate_cases(1,4) [OF assms]] allocate_cases(5) [OF assms]
  by simp

theorem free_allocate_witness:
  "free \<lparr>aa_base = 0x1000, aa_end = 0x10fff, aa_ranges = [(0x10e00, 0x110), (0x11000, 0)]\<rparr> 0x10e00 0x110 =
     \<lparr>aa_base = 0x1000, aa_end = 0x10fff, aa_ranges = [(0x11000, 0)]\<rparr>"
  using free_allocate [OF _ _ example_allocate]
    address_allocator_new_inv [OF example_allocator] by (simp add: align_ok_def)

end
