(* ===== verification/System_Allocator.thy ===== *)
theory System_Allocator
  imports Address_Allocator
begin

text \<open>
  Interrupt numbers and the system allocator: \<^verbatim>\<open>src/vm-allocator/src/gsi.rs\<close> (the \<open>x86_64\<close> variants)
  and \<^verbatim>\<open>src/vm-allocator/src/system.rs\<close>.  The page size, which the code asks the operating system
  for, is the argument \<open>pagesize\<close>.  Proved: with one APIC the interrupt lines are handed out in order,
  each once, and never collide with the GSI numbers; and each of the three address spaces of the
  system allocator keeps the contract of a range allocator, whatever happens in the other two.
\<close>

subsection \<open>Interrupt lines and GSIs\<close>

record gsi_apic =
  ga_base :: u32
  ga_irqs :: u32

record gsi_allocator =
  gs_apics :: "(u32, u32) btree"
  gs_next_irq :: u32
  gs_next_gsi :: u32

fun gsi_allocator_add :: "gsi_allocator \<Rightarrow> gsi_apic \<Rightarrow> gsi_allocator" where
  "gsi_allocator_add allocator apic =
     (let a1 = (if ga_base apic < gs_next_irq allocator
                then allocator\<lparr>gs_next_irq := ga_base apic\<rparr> else allocator);
          a2 = (if ga_base apic + ga_irqs apic > gs_next_gsi a1
                then a1\<lparr>gs_next_gsi := ga_base apic + ga_irqs apic\<rparr> else a1)
      in a2\<lparr>gs_apics := bt_insert (ga_base apic) (ga_irqs apic) (gs_apics a2)\<rparr>)"

definition gsi_allocator_new :: "gsi_apic list \<Rightarrow> gsi_allocator" where
  "gsi_allocator_new apics =
     foldl gsi_allocator_add \<lparr>gs_apics = [], gs_next_irq = 0xffffffff, gs_next_gsi = 0\<rparr> apics"

datatype gsi_error = GsiOverflow

definition allocate_gsi :: "gsi_allocator \<Rightarrow> (gsi_error + u32) \<times> gsi_allocator" where
  "allocate_gsi self =
     (let gsi = gs_next_gsi self in
      case checked_add (gs_next_gsi self) 1 of
        Some n \<Rightarrow> (Inr gsi, self\<lparr>gs_next_gsi := n\<rparr>)
      | None \<Rightarrow> (Inl GsiOverflow, self))"

text \<open>The loop over the APICs, with the variable \<open>irq\<close> and the field \<open>next_irq\<close> it updates.\<close>

fun allocate_irq_loop :: "(u32, u32) btree \<Rightarrow> u32 \<Rightarrow> u32 \<Rightarrow> u32 \<times> u32" where
  "allocate_irq_loop [] irq next_irq = (irq, next_irq)"
| "allocate_irq_loop ((base, irqs) # apics) irq next_irq =
     (if next_irq \<ge> base \<and> next_irq < base + irqs
      then allocate_irq_loop apics next_irq (next_irq + 1)
      else allocate_irq_loop apics irq next_irq)"

definition allocate_irq :: "gsi_allocator \<Rightarrow> (gsi_error + u32) \<times> gsi_allocator" where
  "allocate_irq self =
     (let (irq, next_irq) = allocate_irq_loop (gs_apics self) 0 (gs_next_irq self);
          self' = self\<lparr>gs_next_irq := next_irq\<rparr>
      in if irq = 0 then (Inl GsiOverflow, self') else (Inr irq, self'))"

subsection \<open>The system allocator\<close>

record system_allocator =
  sa_io :: address_allocator
  sa_platform_mmio :: address_allocator
  sa_mmio_hole :: address_allocator
  sa_gsi :: gsi_allocator

definition system_allocator_new ::
  "u64 \<Rightarrow> u64 \<Rightarrow> u64 \<Rightarrow> u64 \<Rightarrow> u64 \<Rightarrow> u64 \<Rightarrow> gsi_apic list \<Rightarrow> system_allocator option" where
  "system_allocator_new io_base io_size platform_mmio_base platform_mmio_size
     mmio_hole_base mmio_hole_size apics =
     do {
       io \<leftarrow> address_allocator_new io_base io_size;
       platform \<leftarrow> address_allocator_new platform_mmio_base platform_mmio_size;
       hole \<leftarrow> address_allocator_new mmio_hole_base mmio_hole_size;
       Some \<lparr>sa_io = io, sa_platform_mmio = platform, sa_mmio_hole = hole,
             sa_gsi = gsi_allocator_new apics\<rparr>
     }"

definition ok :: "'e + 'a \<Rightarrow> 'a option" where
  "ok r = (case r of Inr a \<Rightarrow> Some a | Inl _ \<Rightarrow> None)"

definition sys_allocate_irq :: "system_allocator \<Rightarrow> u32 option \<times> system_allocator" where
  "sys_allocate_irq self = (let (r, g) = allocate_irq (sa_gsi self) in (ok r, self\<lparr>sa_gsi := g\<rparr>))"

definition sys_allocate_gsi :: "system_allocator \<Rightarrow> u32 option \<times> system_allocator" where
  "sys_allocate_gsi self = (let (r, g) = allocate_gsi (sa_gsi self) in (ok r, self\<lparr>sa_gsi := g\<rparr>))"

definition allocate_io_addresses ::
  "system_allocator \<Rightarrow> u64 option \<Rightarrow> u64 \<Rightarrow> u64 option \<Rightarrow> u64 option \<times> system_allocator" where
  "allocate_io_addresses self address sz align_size =
     (let (r, a) = allocate (sa_io self) address sz (Some (unwrap_or align_size 0x1))
      in (r, self\<lparr>sa_io := a\<rparr>))"

definition allocate_platform_mmio_addresses ::
  "u64 \<Rightarrow> system_allocator \<Rightarrow> u64 option \<Rightarrow> u64 \<Rightarrow> u64 option \<Rightarrow> u64 option \<times> system_allocator" where
  "allocate_platform_mmio_addresses pagesize self address sz align_size =
     (let (r, a) = allocate (sa_platform_mmio self) address sz (Some (unwrap_or align_size pagesize))
      in (r, self\<lparr>sa_platform_mmio := a\<rparr>))"

definition allocate_mmio_hole_addresses ::
  "u64 \<Rightarrow> system_allocator \<Rightarrow> u64 option \<Rightarrow> u64 \<Rightarrow> u64 option \<Rightarrow> u64 option \<times> system_allocator" where
  "allocate_mmio_hole_addresses pagesize self address sz align_size =
     (let (r, a) = allocate (sa_mmio_hole self) address sz (Some (unwrap_or align_size pagesize))
      in (r, self\<lparr>sa_mmio_hole := a\<rparr>))"

definition free_io_addresses :: "system_allocator \<Rightarrow> u64 \<Rightarrow> u64 \<Rightarrow> system_allocator" where
  "free_io_addresses self address sz = self\<lparr>sa_io := free (sa_io self) address sz\<rparr>"

definition free_platform_mmio_addresses :: "system_allocator \<Rightarrow> u64 \<Rightarrow> u64 \<Rightarrow> system_allocator" where
  "free_platform_mmio_addresses self address sz =
     self\<lparr>sa_platform_mmio := free (sa_platform_mmio self) address sz\<rparr>"

definition free_mmio_hole_addresses :: "system_allocator \<Rightarrow> u64 \<Rightarrow> u64 \<Rightarrow> system_allocator" where
  "free_mmio_hole_addresses self address sz =
     self\<lparr>sa_mmio_hole := free (sa_mmio_hole self) address sz\<rparr>"

definition sys_inv :: "system_allocator \<Rightarrow> bool" where
  "sys_inv self \<longleftrightarrow>
     alloc_inv (sa_io self) \<and> alloc_inv (sa_platform_mmio self) \<and> alloc_inv (sa_mmio_hole self)"

subsection \<open>Each address space is a range allocator\<close>

lemma snd_allocate_inv:
  "alloc_inv s \<Longrightarrow> align_ok s align \<Longrightarrow> allocate s addr sz align = (r, s') \<Longrightarrow> alloc_inv s'"
  using aa.alloc_keeps [of s align addr sz] by simp

lemma align_ok_step: "allocate s addr sz align = (r, s') \<Longrightarrow> align_ok s' = align_ok s"
  using aa.ok_alloc [of s addr sz align] by simp

lemmas sys_defs = sys_inv_def allocate_io_addresses_def allocate_platform_mmio_addresses_def
  allocate_mmio_hole_addresses_def free_io_addresses_def free_platform_mmio_addresses_def
  free_mmio_hole_addresses_def

lemmas free_facts = aa.release_keeps aa.release_held aa.ok_release

lemmas allocate_facts = aa.alloc_None snd_allocate_inv align_ok_step aa.alloc_Some

interpretation io: range_allocator sys_inv "\<lambda>self. set (live (sa_io self))"
  "\<lambda>self align. align_ok (sa_io self) (Some (unwrap_or align 0x1))"
  allocate_io_addresses free_io_addresses
  proof (unfold_locales, goal_cases)
  case 1
  then show ?case using aa.held_disjoint unfolding sys_inv_def by blast
qed (auto simp: sys_defs free_facts split: prod.splits dest: allocate_facts)

interpretation platform: range_allocator sys_inv "\<lambda>self. set (live (sa_platform_mmio self))"
  "\<lambda>self align. align_ok (sa_platform_mmio self) (Some (unwrap_or align pagesize))"
  "allocate_platform_mmio_addresses pagesize" free_platform_mmio_addresses for pagesize
  proof (unfold_locales, goal_cases)
  case 1
  then show ?case using aa.held_disjoint unfolding sys_inv_def by blast
qed (auto simp: sys_defs free_facts split: prod.splits dest: allocate_facts)

interpretation hole: range_allocator sys_inv "\<lambda>self. set (live (sa_mmio_hole self))"
  "\<lambda>self align. align_ok (sa_mmio_hole self) (Some (unwrap_or align pagesize))"
  "allocate_mmio_hole_addresses pagesize" free_mmio_hole_addresses for pagesize
  proof (unfold_locales, goal_cases)
  case 1
  then show ?case using aa.held_disjoint unfolding sys_inv_def by blast
qed (auto simp: sys_defs free_facts split: prod.splits dest: allocate_facts)

lemma system_allocator_new_inv:
  "system_allocator_new ib is pb ps hb hs apics = Some self \<Longrightarrow>
     sys_inv self \<and> live (sa_io self) = [] \<and> live (sa_platform_mmio self) = [] \<and>
     live (sa_mmio_hole self) = [] \<and> sa_gsi self = gsi_allocator_new apics"
  by (auto simp: system_allocator_new_def sys_inv_def split: bind_splits
      dest: address_allocator_new_inv)

subsection \<open>Numbers handed out\<close>

datatype number_req = ReqIrq | ReqGsi

fun number_step :: "number_req \<Rightarrow> system_allocator \<Rightarrow> u32 option \<times> system_allocator" where
  "number_step ReqIrq self = sys_allocate_irq self"
| "number_step ReqGsi self = sys_allocate_gsi self"

fun number_run :: "number_req list \<Rightarrow> system_allocator \<Rightarrow> (number_req \<times> u32 option) list" where
  "number_run [] self = []"
| "number_run (q # qs) self =
     (let (r, self') = number_step q self in (q, r) # number_run qs self')"

definition num_inv :: "u32 \<Rightarrow> u32 \<Rightarrow> gsi_allocator \<Rightarrow> bool" where
  "num_inv b n g \<longleftrightarrow> b \<noteq> 0 \<and> unat b + unat n < 2 ^ 32 \<and> gs_apics g = [(b, n)] \<and>
     b \<le> gs_next_irq g \<and> gs_next_irq g \<le> b + n \<and> b + n \<le> gs_next_gsi g"

lemma gsi_allocator_new_inv:
  assumes "ga_base apic \<noteq> 0" "unat (ga_base apic) + unat (ga_irqs apic) < 2 ^ 32"
  shows "num_inv (ga_base apic) (ga_irqs apic) (gsi_allocator_new [apic])"
proof -
  let ?b = "ga_base apic" and ?n = "ga_irqs apic"
  have "unat (?b + ?n) = unat ?b + unat ?n" using assms(2) by (intro unat_add_small) simp
  moreover have "unat ?b \<le> 0xffffffff" using assms(2) by simp
  ultimately show ?thesis
    using assms by (auto simp: num_inv_def gsi_allocator_new_def Let_def word_le_nat_alt
        word_less_nat_alt unat_eq_0 not_less)
qed

text \<open>One request: what it returns and how the counters move.\<close>

lemma number_step_spec:
  assumes inv: "num_inv b n (sa_gsi self)" and st: "number_step q self = (r, self')"
  defines "g \<equiv> sa_gsi self" and "g' \<equiv> sa_gsi self'"
  shows "num_inv b n g' \<and> gs_next_irq g \<le> gs_next_irq g' \<and> gs_next_gsi g \<le> gs_next_gsi g' \<and>
    (\<forall>x. r = Some x \<longrightarrow>
      (case q of ReqIrq \<Rightarrow> gs_next_irq g \<le> x \<and> x < gs_next_irq g' \<and> x < b + n
               | ReqGsi \<Rightarrow> gs_next_gsi g \<le> x \<and> x < gs_next_gsi g'))"
proof (cases q)
  case ReqIrq
  have bn: "unat (b + n) = unat b + unat n" using inv by (simp add: num_inv_def unat_add_small)
  have up: "unat (gs_next_irq g + 1) = unat (gs_next_irq g) + 1" if "gs_next_irq g < b + n"
    using that bn inv by (subst unat_add_small) (auto simp: num_inv_def word_less_nat_alt)
  have nz: "gs_next_irq g \<noteq> 0" using inv by (auto simp: num_inv_def g_def)
  show ?thesis
    using inv st nz up bn
    by (auto simp: ReqIrq sys_allocate_irq_def allocate_irq_def num_inv_def g_def g'_def ok_def
        unat_simps split: prod.splits if_splits)
next
  case ReqGsi
  then show ?thesis
    using inv st
    by (auto simp: sys_allocate_gsi_def allocate_gsi_def num_inv_def g_def g'_def ok_def
        checked_add_Some unat_add_small unat_simps split: prod.splits if_splits option.splits)
qed

lemma number_run_spec:
  assumes "num_inv b n (sa_gsi self)"
  shows "distinct (filter (\<lambda>r. r \<noteq> None) (map snd (number_run qs self))) \<and>
    (\<forall>(q, r) \<in> set (number_run qs self). \<forall>x. r = Some x \<longrightarrow>
      (case q of ReqIrq \<Rightarrow> gs_next_irq (sa_gsi self) \<le> x \<and> x < b + n
               | ReqGsi \<Rightarrow> gs_next_gsi (sa_gsi self) \<le> x))"
  using assms
proof (induction qs arbitrary: self)
  case (Cons q qs)
  obtain r self' where st: "number_step q self = (r, self')" by (cases "number_step q self")
  note spec = number_step_spec [OF Cons.prems st]
  have inv': "num_inv b n (sa_gsi self')" using spec by blast
  note IH = Cons.IH [OF inv']
  have gsi: "b + n \<le> gs_next_gsi (sa_gsi self)" "gs_next_irq (sa_gsi self') \<le> b + n"
    using Cons.prems inv' by (auto simp: num_inv_def)
  have fresh: "Some x \<noteq> r'" if "r = Some x" "(q', r') \<in> set (number_run qs self')" for x q' r'
    using IH spec gsi that by (cases q; cases q') (fastforce simp: not_less)+
  have "distinct (filter (\<lambda>r. r \<noteq> None) (map snd (number_run (q # qs) self)))"
    using IH st fresh by (cases r) auto
  moreover have "\<forall>(q', r') \<in> set (number_run (q # qs) self). \<forall>x. r' = Some x \<longrightarrow>
      (case q' of ReqIrq \<Rightarrow> gs_next_irq (sa_gsi self) \<le> x \<and> x < b + n
               | ReqGsi \<Rightarrow> gs_next_gsi (sa_gsi self) \<le> x)"
    using IH st spec by (fastforce split: number_req.splits intro: order_trans)
  ultimately show ?case by blast
qed simp

subsection \<open>Properties\<close>

text \<open>C25. On a system allocator with one APIC (at a non-zero base, its lines below \<open>2^32\<close>), any
  sequence of interrupt and GSI requests hands out pairwise different numbers: interrupt lines of
  the APIC for the former, numbers behind its last line for the latter.\<close>

theorem numbers_distinct:
  assumes "system_allocator_new ib is pb ps hb hs [apic] = Some self"
    and "ga_base apic \<noteq> 0" "unat (ga_base apic) + unat (ga_irqs apic) < 2 ^ 32"
  shows "distinct (filter (\<lambda>r. r \<noteq> None) (map snd (number_run qs self))) \<and>
    (\<forall>(q, r) \<in> set (number_run qs self). \<forall>x. r = Some x \<longrightarrow>
      (case q of ReqIrq \<Rightarrow> ga_base apic \<le> x \<and> x < ga_base apic + ga_irqs apic
               | ReqGsi \<Rightarrow> ga_base apic + ga_irqs apic \<le> x))"
proof -
  have inv: "num_inv (ga_base apic) (ga_irqs apic) (sa_gsi self)"
    using gsi_allocator_new_inv [OF assms(2,3)] system_allocator_new_inv [OF assms(1)] by simp
  then have "ga_base apic \<le> gs_next_irq (sa_gsi self)"
    "ga_base apic + ga_irqs apic \<le> gs_next_gsi (sa_gsi self)" by (auto simp: num_inv_def)
  then show ?thesis
    using number_run_spec [OF inv, of qs] by (fastforce split: number_req.splits intro: order_trans)
qed

definition example_system :: system_allocator where
  "example_system =
     \<lparr>sa_io = \<lparr>aa_base = 0, aa_end = 0xffff, aa_ranges = [(0x10000, 0)]\<rparr>,
      sa_platform_mmio = \<lparr>aa_base = 0x10000000, aa_end = 0x1fffffff, aa_ranges = [(0x20000000, 0)]\<rparr>,
      sa_mmio_hole = \<lparr>aa_base = 0x20000000, aa_end = 0x200fffff, aa_ranges = [(0x20100000, 0)]\<rparr>,
      sa_gsi = \<lparr>gs_apics = [(5, 19)], gs_next_irq = 5, gs_next_gsi = 24\<rparr>\<rparr>"

lemma example_system_new:
  "system_allocator_new 0 0x10000 0x10000000 0x10000000 0x20000000 0x100000
     [\<lparr>ga_base = 5, ga_irqs = 19\<rparr>] = Some example_system"
  by (simp add: system_allocator_new_def address_allocator_new_def checked_add_def
      gsi_allocator_new_def example_system_def)

theorem numbers_distinct_witness:
  "map snd (number_run [ReqIrq, ReqGsi, ReqIrq, ReqGsi] example_system) =
     [Some 5, Some 24, Some 6, Some 25] \<and> distinct [Some (5::u32), Some 24, Some 6, Some 25]"
proof -
  have 1: "map snd (number_run [ReqIrq, ReqGsi, ReqIrq, ReqGsi] example_system) =
      [Some 5, Some 24, Some 6, Some 25]"
    by (simp add: example_system_def sys_allocate_irq_def sys_allocate_gsi_def allocate_irq_def
        allocate_gsi_def ok_def checked_add_def)
  show ?thesis
    using numbers_distinct [OF example_system_new, of "[ReqIrq, ReqGsi, ReqIrq, ReqGsi]"] 1 by simp
qed

text \<open>In every address space of the system allocator, a block obtained earlier stays held,
  disjoint from all others of its space, through any later sequence of requests and frees of that
  space that does not free the block itself (shown here for the 32-bit MMIO hole).\<close>

lemma mmio_hole_run_safe:
  assumes "sys_inv self"
    and "list_all (op_ok (\<lambda>self align. align_ok (sa_mmio_hole self) (Some (unwrap_or align pagesize))) self) ops"
    and "r \<in> set (live (sa_mmio_hole self))" "FreeOp (fst r) (snd r) \<notin> set ops"
  defines "self' \<equiv> run_ops (allocate_mmio_hole_addresses pagesize) free_mmio_hole_addresses self ops"
  shows "sys_inv self' \<and> r \<in> set (live (sa_mmio_hole self')) \<and>
    (\<forall>q \<in> set (live (sa_mmio_hole self')). q \<noteq> r \<longrightarrow> bytes q \<inter> bytes r = {})"
proof -
  have inv: "sys_inv self'" unfolding self'_def using assms(1,2) by (rule hole.run_keeps)
  have held: "r \<in> set (live (sa_mmio_hole self'))"
    using hole.held_until_released [OF assms(1,2), of "fst r" "snd r"] assms(3,4)
    by (simp add: self'_def)
  then show ?thesis using inv hole.held_disjoint [OF inv _ held] by blast
qed

end
