(* ===== verification/Pci_Relocation.thy ===== *)
theory Pci_Relocation
  imports Pci_Bus System_Allocator
begin

text \<open>
  Relocation of a PCI BAR in the VMM: \<open>AddressManager::move_bar\<close> of
  \<^verbatim>\<open>vmm/src/device_manager.rs\<close>, which the PCI bus calls when a guest reprograms a BAR.  It takes
  the old range back from the allocator and claims the new one, moves the device on the port or MMIO
  bus and updates the resource recorded in the device tree.  What follows in the source talks to the
  hypervisor and the device only (ioeventfds, shared memory regions, the device's own \<open>move_bar\<close>);
  whether that succeeds is the argument \<open>tail_ok\<close>.
\<close>

subsection \<open>The address manager\<close>

datatype pci_bar_type = Io | Mmio32 | Mmio64

fun region_type_from :: "pci_bar_type \<Rightarrow> pci_bar_region_type" where
  "region_type_from Io = IoRegion"
| "region_type_from Mmio32 = Memory32BitRegion"
| "region_type_from Mmio64 = Memory64BitRegion"

datatype resource =
    PioAddressRange u16 u16
  | MmioAddressRange u64 u64
  | PciBar nat u64 u64 pci_bar_type bool
  | LegacyIrq u32
  | MsiIrq u32 u32
  | MacAddress string
  | KvmMemSlot u32

datatype relocation_error =
    AllocationFailed
  | BusUpdateFailed bus_error
  | ResourceNotFound u64 string
  | DeviceNotFound string
  | DeviceUpdateFailed

record 'h address_manager =
  am_allocator :: system_allocator
  am_io_bus :: "'h bus"
  am_mmio_bus :: "'h bus"
  am_device_tree :: "(string \<times> resource list) list"
  am_pci_mmio_allocators :: "address_allocator list"

text \<open>The loop over the allocators of the PCI segments stops at the first that contains the old base.\<close>

fun move_in_segment :: "u64 \<Rightarrow> u64 \<Rightarrow> u64 \<Rightarrow> address_allocator list \<Rightarrow> address_allocator list \<times> bool" where
  "move_in_segment old new len [] = ([], True)"
| "move_in_segment old new len (al # als) =
     (if aa_base al \<le> old \<and> old \<le> aa_end al then
        let (r, al') = allocate (free al old len) (Some new) len (Some len)
        in (al' # als, r \<noteq> None)
      else let (als', okay) = move_in_segment old new len als in (al # als', okay))"

fun update_resources :: "pci_bar_region_type \<Rightarrow> u64 \<Rightarrow> u64 \<Rightarrow> resource list \<Rightarrow> resource list \<times> bool" where
  "update_resources ty old new [] = ([], False)"
| "update_resources ty old new (r # rs) =
     (case r of
        PciBar idx base sz ty' pre \<Rightarrow>
          if region_type_from ty' = ty \<and> base = old then (PciBar idx new sz ty' pre # rs, True)
          else let (rs', f) = update_resources ty old new rs in (r # rs', f)
      | _ \<Rightarrow> let (rs', f) = update_resources ty old new rs in (r # rs', f))"

definition update_device_tree :: "string option \<Rightarrow> pci_bar_region_type \<Rightarrow> u64 \<Rightarrow> u64 \<Rightarrow>
    (string \<times> resource list) list \<Rightarrow> (string \<times> resource list) list \<times> (relocation_error + unit)" where
  "update_device_tree dev_id ty old new tree =
     (case dev_id of
        None \<Rightarrow> (tree, Inr ())
      | Some i \<Rightarrow>
          (case map_of tree i of
             None \<Rightarrow> (tree, Inl (DeviceNotFound i))
           | Some rs \<Rightarrow>
               let (rs', updated) = update_resources ty old new rs;
                   tree' = AList.update i rs' tree
               in (tree', if updated then Inr () else Inl (ResourceNotFound old i))))"

definition claim_range :: "u64 \<Rightarrow> bar_reprogramming_params \<Rightarrow> 'h address_manager \<Rightarrow> 'h address_manager \<times> bool" where
  "claim_range pagesize p am =
     (case region_type p of
        IoRegion \<Rightarrow>
          let (r, a) = allocate_io_addresses (free_io_addresses (am_allocator am) (old_base p) (reloc_len p))
                         (Some (new_base p)) (reloc_len p) None
          in (am\<lparr>am_allocator := a\<rparr>, r \<noteq> None)
      | Memory32BitRegion \<Rightarrow>
          let (r, a) = allocate_mmio_hole_addresses pagesize
                         (free_mmio_hole_addresses (am_allocator am) (old_base p) (reloc_len p))
                         (Some (new_base p)) (reloc_len p) (Some (reloc_len p))
          in (am\<lparr>am_allocator := a\<rparr>, r \<noteq> None)
      | Memory64BitRegion \<Rightarrow>
          let (als, okay) = move_in_segment (old_base p) (new_base p) (reloc_len p) (am_pci_mmio_allocators am)
          in (am\<lparr>am_pci_mmio_allocators := als\<rparr>, okay))"

definition move_on_bus :: "('h \<Rightarrow> bool) \<Rightarrow> bar_reprogramming_params \<Rightarrow> 'h address_manager \<Rightarrow>
    'h address_manager \<times> (bus_error + unit)" where
  "move_on_bus alive p am =
     (if region_type p = IoRegion then
        let (r, b) = update_range alive (am_io_bus am) (old_base p) (reloc_len p) (new_base p) (reloc_len p)
        in (am\<lparr>am_io_bus := b\<rparr>, r)
      else
        let (r, b) = update_range alive (am_mmio_bus am) (old_base p) (reloc_len p) (new_base p) (reloc_len p)
        in (am\<lparr>am_mmio_bus := b\<rparr>, r))"

definition move_bar :: "u64 \<Rightarrow> ('h \<Rightarrow> bool) \<Rightarrow> string option \<Rightarrow> bool \<Rightarrow> bar_reprogramming_params \<Rightarrow>
    'h address_manager \<Rightarrow> 'h address_manager \<times> (relocation_error + unit)" where
  "move_bar pagesize alive dev_id tail_ok p am =
     (let (am1, okay) = claim_range pagesize p am
      in if \<not> okay then (am1, Inl AllocationFailed)
         else
           let (am2, r) = move_on_bus alive p am1
           in case r of
                Inl e \<Rightarrow> (am2, Inl (BusUpdateFailed e))
              | Inr _ \<Rightarrow>
                  let (tree, t) = update_device_tree dev_id (region_type p) (old_base p) (new_base p)
                                    (am_device_tree am2);
                      am3 = am2\<lparr>am_device_tree := tree\<rparr>
                  in case t of
                       Inl e \<Rightarrow> (am3, Inl e)
                     | Inr _ \<Rightarrow> (am3, if tail_ok then Inr () else Inl DeviceUpdateFailed))"

subsection \<open>Outcomes for 64-bit BARs\<close>

lemma move_in_segment_spec:
  assumes "\<forall>j < k. \<not> (aa_base (als ! j) \<le> old \<and> old \<le> aa_end (als ! j))" "k < length als"
    "aa_base (als ! k) \<le> old" "old \<le> aa_end (als ! k)"
  shows "move_in_segment old new len als =
    (als[k := snd (allocate (free (als ! k) old len) (Some new) len (Some len))],
     fst (allocate (free (als ! k) old len) (Some new) len (Some len)) \<noteq> None)"
  using assms
proof (induction als arbitrary: k)
  case (Cons al als)
  show ?case
  proof (cases k)
    case 0
    then show ?thesis using Cons.prems by (simp split: prod.splits)
  next
    case (Suc n)
    have "\<not> (aa_base al \<le> old \<and> old \<le> aa_end al)" using Cons.prems(1) Suc by force
    moreover have "move_in_segment old new len als =
        (als[n := snd (allocate (free (als ! n) old len) (Some new) len (Some len))],
         fst (allocate (free (als ! n) old len) (Some new) len (Some len)) \<noteq> None)"
      by (rule Cons.IH) (use Cons.prems Suc in \<open>force+\<close>)
    ultimately show ?thesis using Suc by auto
  qed
qed simp

lemma realloc_cases:
  assumes "alloc_inv al" "align_ok al (Some len)" "len \<noteq> 0"
    "allocate (free al old len) (Some new) len (Some len) = (r, al')"
  shows "alloc_inv al' \<and> (r = None \<or> r = Some new) \<and>
    set (live al') = (if r = None then set (live al) - {(old, len)}
                      else insert (new, len) (set (live al) - {(old, len)}))"
proof -
  note f = free_cases [OF assms(1,3), of old]
  have ok: "align_ok (free al old len) (Some len)" using assms(2) aa.ok_release by metis
  show ?thesis
  proof (cases r)
    case None
    then have "al' = free al old len" using allocate_None assms(4) by blast
    then show ?thesis using f None by simp
  next
    case (Some a)
    have "a = new" using allocate_cases(3) [OF f(1) ok] assms(4) Some by auto
    moreover have "alloc_inv al'" using snd_allocate_inv [OF f(1) ok assms(4)] .
    moreover have "set (live al') = insert (a, len) (set (live (free al old len)))"
      using aa.alloc_Some [OF f(1) ok] assms(4) Some by simp
    ultimately show ?thesis using f Some by simp
  qed
qed

text \<open>C8. Relocating a 64-bit BAR of a registered device, whose range is held by its segment's allocator,
  ends in one of three ways.  When it gets past the address spaces, the allocator holds the new range
  instead of the old one and the device answers on the MMIO bus exactly at the new range.  When the
  new range cannot be claimed, the old range has been given back to the allocator nevertheless, while
  the device still answers there.  When the bus refuses, the allocator holds the new range.  The
  allocator and the bus stay consistent in themselves in all cases.\<close>

theorem move_bar64_outcomes:
  assumes "bus_inv (am_mmio_bus am)" "region_type p = Memory64BitRegion" "reloc_len p \<noteq> 0"
    and "unat (new_base p) + unat (reloc_len p) < 2 ^ 64"
    and "k < length (am_pci_mmio_allocators am)" "al = am_pci_mmio_allocators am ! k"
    and "aa_base al \<le> old_base p" "old_base p \<le> aa_end al"
    and "\<forall>j < k. \<not> (aa_base (am_pci_mmio_allocators am ! j) \<le> old_base p \<and>
      old_base p \<le> aa_end (am_pci_mmio_allocators am ! j))"
    and "alloc_inv al" "align_ok al (Some (reloc_len p))"
    and "move_bar pagesize alive dev_id tail_ok p am = (am', r)"
  shows "let al' = am_pci_mmio_allocators am' ! k;
             rest = set (live al) - {(old_base p, reloc_len p)}
    in alloc_inv al' \<and> bus_inv (am_mmio_bus am') \<and>
      (case r of
         Inl AllocationFailed \<Rightarrow> set (live al') = rest \<and> am_mmio_bus am' = am_mmio_bus am
       | Inl (BusUpdateFailed _) \<Rightarrow> set (live al') = insert (new_base p, reloc_len p) rest
       | _ \<Rightarrow> set (live al') = insert (new_base p, reloc_len p) rest \<and>
           (\<exists>l d. (old_base p, (l, d)) \<in> set (am_mmio_bus am) \<and> alive d \<and>
              set (am_mmio_bus am') = insert (new_base p, (reloc_len p, d))
                {e \<in> set (am_mmio_bus am). fst e \<noteq> old_base p}))"
proof -
  obtain q al' where al': "allocate (free al (old_base p) (reloc_len p)) (Some (new_base p)) (reloc_len p)
      (Some (reloc_len p)) = (q, al')" by fastforce
  note rc = realloc_cases [OF assms(10,11,3) al']
  have seg: "move_in_segment (old_base p) (new_base p) (reloc_len p) (am_pci_mmio_allocators am) =
      ((am_pci_mmio_allocators am)[k := al'], q \<noteq> None)"
    using move_in_segment_spec [of k "am_pci_mmio_allocators am" "old_base p"] assms(5-9) al' by simp
  define am1 where "am1 = am\<lparr>am_pci_mmio_allocators := (am_pci_mmio_allocators am)[k := al']\<rparr>"
  have c: "claim_range pagesize p am = (am1, q \<noteq> None)" by (simp add: claim_range_def assms(2) seg am1_def)
  obtain ur b where ur: "update_range alive (am_mmio_bus am) (old_base p) (reloc_len p) (new_base p) (reloc_len p) =
      (ur, b)" by fastforce
  have mb: "move_on_bus alive p am1 = (am1\<lparr>am_mmio_bus := b\<rparr>, ur)" using assms(2) ur by (simp add: move_on_bus_def am1_def)
  note uc = update_range_cases [OF assms(1,4,3) ur]
  show ?thesis
  proof (cases q)
    case None
    then have "am' = am1" "r = Inl AllocationFailed" using assms(12) c by (simp_all add: move_bar_def)
    then show ?thesis using rc None assms(1,5) by (simp add: am1_def Let_def)
  next
    case (Some a)
    have mv: "am_pci_mmio_allocators am' = (am_pci_mmio_allocators am)[k := al']" "am_mmio_bus am' = b"
      "ur = Inl e \<Longrightarrow> r = Inl (BusUpdateFailed e)"
      "ur = Inr () \<Longrightarrow> r \<noteq> Inl AllocationFailed \<and> (\<forall>e. r \<noteq> Inl (BusUpdateFailed e))" for e
      using assms(12) c mb Some
      by (auto simp: move_bar_def am1_def Let_def update_device_tree_def split: sum.splits prod.splits option.splits if_splits)
    show ?thesis
    proof (cases ur)
      case (Inl e)
      then show ?thesis using mv rc uc assms(5) Some by (simp add: Let_def)
    next
      case (Inr u)
      then show ?thesis using mv rc uc assms(5) Some
        by (auto simp: Let_def split: sum.splits relocation_error.splits)
    qed
  qed
qed

definition demo_allocator :: address_allocator where
  "demo_allocator = \<lparr>aa_base = 0, aa_end = 0xffff,
     aa_ranges = [(0x4000, 0x1000), (0x8000, 0x1000), (0x10000, 0)]\<rparr>"

definition demo_manager :: "nat address_manager" where
  "demo_manager = \<lparr>am_allocator = example_system, am_io_bus = [],
     am_mmio_bus = [(0x4000, (0x1000, 1)), (0x8000, (0x1000, 2))], am_device_tree = [],
     am_pci_mmio_allocators = [demo_allocator]\<rparr>"

definition demo_params :: bar_reprogramming_params where
  "demo_params = \<lparr>old_base = 0x4000, new_base = 0x8000, reloc_len = 0x1000,
     region_type = Memory64BitRegion\<rparr>"

theorem move_bar64_outcomes_witness:
  "\<exists>am'. move_bar 0x1000 (\<lambda>_. True) None True demo_params demo_manager = (am', Inl AllocationFailed) \<and>
     (0x4000, 0x1000) \<notin> set (live (am_pci_mmio_allocators am' ! 0)) \<and>
     (0x4000, (0x1000, 1)) \<in> set (am_mmio_bus am')"
proof -
  have inv: "alloc_inv demo_allocator" "align_ok demo_allocator (Some 0x1000)" "bus_inv (am_mmio_bus demo_manager)"
    by (auto simp: alloc_inv_def demo_allocator_def live_def align_ok_def bus_inv_def demo_manager_def span_def)
  have run: "snd (move_bar 0x1000 (\<lambda>_. True) None True demo_params demo_manager) = Inl AllocationFailed"
    by code_simp
  then obtain am' where am': "move_bar 0x1000 (\<lambda>_. True) None True demo_params demo_manager = (am', Inl AllocationFailed)"
    by (metis prod.collapse)
  have sel: "am_pci_mmio_allocators demo_manager = [demo_allocator]" "region_type demo_params = Memory64BitRegion"
    "reloc_len demo_params = 0x1000" "old_base demo_params = 0x4000" "new_base demo_params = 0x8000"
    "aa_base demo_allocator = 0" "aa_end demo_allocator = 0xffff"
    by (simp_all add: demo_manager_def demo_params_def demo_allocator_def)
  show ?thesis
    using move_bar64_outcomes [OF inv(3) sel(2) _ _ _ _ _ _ _ inv(1) _ am', of 0] inv(2) am'
    by (auto simp: sel Let_def demo_manager_def)
qed

end
