(* ===== verification/Pci_Caps.thy ===== *)
theory Pci_Caps
  imports Pci_Configuration
begin

text \<open>
  The capability list as a guest walks it: the byte view of the configuration space and the chain of
  capabilities that \<open>add_capability\<close> of \<^verbatim>\<open>pci/src/configuration.rs\<close> builds in it.
\<close>

subsection \<open>Bytes of the configuration space\<close>

definition cfg_byte :: "pci_configuration \<Rightarrow> nat \<Rightarrow> u8" where
  "cfg_byte pc i = ucast (drop_bit (8 * (i mod 4)) (registers pc ! (i div 4)))"

lemma bit_cfg_byte: "k < 8 \<Longrightarrow> bit (cfg_byte pc i) k = bit (registers pc ! (i div 4)) (8 * (i mod 4) + k)"
  by (simp add: cfg_byte_def bit_ucast_iff bit_drop_bit_eq)

lemma cfg_byte_write:
  assumes "length (registers pc) = 1024" "i < 4096"
  shows "cfg_byte (write_byte_internal i v False pc) j = (if j = i then v else cfg_byte pc j)"
proof (rule bit_word_eqI)
  fix k assume "k < LENGTH(8)"
  then have k: "k < 8" by simp
  let ?s = "8 * (j mod 4) + k" and ?t = "(i mod 4) * 8"
  have i: "i div 4 < 1024" "i mod 4 < 4" "i div 4 * 4 + i mod 4 = i" using assms(2) by auto
  have s: "?s < 32" using k by (simp add: mod_less_divisor) 
  note w = write_byte_registers [OF assms(1) i(1,2), of v False "j div 4", unfolded i(3)]
  show "bit (cfg_byte (write_byte_internal i v False pc) j) k = bit (if j = i then v else cfg_byte pc j) k"
  proof (cases "j div 4 = i div 4")
    case False
    then have "j \<noteq> i" by auto
    then show ?thesis using False w by (simp add: bit_cfg_byte [OF k])
  next
    case True
    have ji: "j = i \<longleftrightarrow> j mod 4 = i mod 4" using True by (metis div_mult_mod_eq)
    have "bit (cfg_byte (write_byte_internal i v False pc) j) k =
        (if ?t \<le> ?s \<and> ?s - ?t < 8 then bit v (?s - ?t) else bit (registers pc ! (j div 4)) ?s)"
    proof -
      have r: "registers (write_byte_internal i v False pc) ! (j div 4) =
          (registers pc ! (j div 4) AND NOT (push_bit ?t 0xff AND 0xffffffff)) OR
            (push_bit ?t (ucast v) AND 0xffffffff)"
        using w True by simp
      show ?thesis unfolding bit_cfg_byte [OF k] r masked_write_bit(2) [OF s] const_bits_32 bit_ucast_iff
        using s by (auto dest: bit_imp_le_length)
    qed
    moreover have "?t \<le> ?s \<and> ?s - ?t < 8 \<longleftrightarrow> j mod 4 = i mod 4" using k by linarith
    ultimately show ?thesis using ji by (simp add: bit_cfg_byte [OF k] mult.commute)
  qed
qed

lemma cfg_byte_write_cap:
  "length (registers pc) = 1024 \<Longrightarrow> off + length bs \<le> 4096 \<Longrightarrow>
   cfg_byte (write_cap_bytes off bs pc) j = (if off \<le> j \<and> j < off + length bs then bs ! (j - off) else cfg_byte pc j)"
proof (induction off bs pc rule: write_cap_bytes.induct)
  case (2 off b bs pc)
  then show ?case by (auto simp: cfg_byte_write nth_Cons' not_less_eq_eq)
qed auto

lemma write_cap_frames [simp]:
  "length (registers (write_cap_bytes off bs pc)) = length (registers pc)"
  "writable_bits (write_cap_bytes off bs pc) = writable_bits pc"
  "bars (write_cap_bytes off bs pc) = bars pc"
  "pc_msix (write_cap_bytes off bs pc) = pc_msix pc"
  by (induction off bs pc rule: write_cap_bytes.induct) simp_all

lemma registers_before_write:
  "r < off div 4 \<Longrightarrow> registers (write_byte_internal off v ap pc) ! r = registers pc ! r"
  "r < off div 4 \<Longrightarrow> registers (write_cap_bytes off bs pc) ! r = registers pc ! r"
proof -
  show one: "registers (write_byte_internal off v ap pc) ! r = registers pc ! r" if "r < off div 4" for off v ap pc
    using that by (simp add: write_byte_internal_def Let_def)
  show "r < off div 4 \<Longrightarrow> registers (write_cap_bytes off bs pc) ! r = registers pc ! r"
  proof (induction off bs pc rule: write_cap_bytes.induct)
    case (2 off b bs pc)
    moreover have "r < Suc off div 4" using 2(2) by (meson Suc_leI div_le_mono le_SucI le_refl order_less_le_trans)
    ultimately show ?case by (simp add: one)
  qed simp
qed

subsection \<open>The chain\<close>

type_synonym placed_cap = "nat \<times> pci_capability_id \<times> u8 list"

text \<open>Only the length of the body counts for the space a capability gets, not the two header bytes before it: when another
  capability follows, its header lies over the end of a body whose length leaves the remainder 3 or 0 modulo 4.
  \<open>kept\<close> is the number of bytes of the body that remain.\<close>

definition kept :: "u8 list \<Rightarrow> placed_cap list \<Rightarrow> nat" where
  "kept bs r = (if r = [] then length bs else
     length bs - (if length bs mod 4 = 3 then 1 else if length bs mod 4 = 0 then 2 else 0))"

text \<open>A walk from the byte at \<open>loc\<close>: it holds the offset of the next capability, whose identifier and
  body are there, and whose next pointer continues the walk; zero ends it.\<close>

fun cap_chain :: "pci_configuration \<Rightarrow> nat \<Rightarrow> placed_cap list \<Rightarrow> bool" where
  "cap_chain pc loc [] = (cfg_byte pc loc = 0)"
| "cap_chain pc loc ((p, k, bs) # r) =
     (unat (cfg_byte pc loc) = p \<and> cfg_byte pc p = cap_id_as_u8 k \<and>
      (\<forall>i \<in> set [0..<kept bs r]. cfg_byte pc (p + 2 + i) = bs ! i) \<and> cap_chain pc (p + 1) r)"

fun laid_out :: "nat \<Rightarrow> nat \<Rightarrow> placed_cap list \<Rightarrow> nat \<Rightarrow> bool" where
  "laid_out loc lo [] hi = (loc < lo \<and> lo = hi \<and> lo mod 4 = 0)"
| "laid_out loc lo ((p, k, bs) # r) hi =
     (loc < lo \<and> lo = p \<and> lo mod 4 = 0 \<and> bs \<noteq> [] \<and> laid_out (p + 1) (next_dword p (length bs)) r hi)"

lemma next_dword_after: "p mod 4 = 0 \<Longrightarrow> bs \<noteq> [] \<Longrightarrow> p + 4 \<le> next_dword p (length bs)" "next_dword p n mod 4 = 0"
  unfolding next_dword_def Let_def by (cases bs; simp; presburger) simp

lemma kept_before_next:
  "p mod 4 = 0 \<Longrightarrow> i < kept bs (x # r) \<Longrightarrow> p + 2 + i < next_dword p (length bs)" "kept bs (x # r) \<le> kept bs r'" "kept bs r' \<le> length bs"
  unfolding kept_def next_dword_def Let_def by (simp split: if_splits; presburger) simp_all

definition tail_of :: "nat \<Rightarrow> placed_cap list \<Rightarrow> nat" where
  "tail_of loc l = (if l = [] then loc else fst (last l) + 1)"

lemma laid_out_bounds:
  "laid_out loc lo l hi \<Longrightarrow> loc < lo \<and> lo \<le> hi \<and> hi mod 4 = 0 \<and> loc \<le> tail_of loc l \<and> tail_of loc l < hi \<and>
    (l \<noteq> [] \<longrightarrow> lo < tail_of loc l)"
proof (induction loc lo l hi rule: laid_out.induct)
  case (2 loc lo p k bs r hi)
  then have "laid_out (p + 1) (next_dword p (length bs)) r hi" "p + 4 \<le> next_dword p (length bs)"
    using next_dword_after(1) [of p bs] by auto
  with 2 show ?case by (cases "r = []") (auto simp: tail_of_def)
qed (simp add: tail_of_def)

lemma cap_chain_snoc:
  assumes "laid_out loc lo l hi" "cap_chain pc loc l" "bs \<noteq> []"
    and "\<And>j. loc \<le> j \<Longrightarrow> j < hi \<Longrightarrow> j \<noteq> tail_of loc l \<Longrightarrow> cfg_byte pc' j = cfg_byte pc j"
    and "unat (cfg_byte pc' (tail_of loc l)) = hi" "cfg_byte pc' hi = cap_id_as_u8 k"
    and "cfg_byte pc' (hi + 1) = 0" "\<And>i. i < length bs \<Longrightarrow> cfg_byte pc' (hi + 2 + i) = bs ! i"
  shows "cap_chain pc' loc (l @ [(hi, k, bs)]) \<and> laid_out loc lo (l @ [(hi, k, bs)]) (next_dword hi (length bs))"
  using assms
proof (induction l arbitrary: loc lo)
  case Nil
  then have "hi + 4 \<le> next_dword hi (length bs)" using next_dword_after(1) [of hi bs] by auto
  with Nil show ?case by (auto simp: tail_of_def kept_def next_dword_after)
next
  case (Cons e r)
  obtain p q cs where e: "e = (p, q, cs)" by (cases e)
  let ?n = "next_dword p (length cs)" and ?r = "r @ [(hi, k, bs)]"
  have lay: "loc < lo" "lo = p" "p mod 4 = 0" "cs \<noteq> []" "laid_out (p + 1) ?n r hi" using Cons.prems(1) e by auto
  have tl: "tail_of loc (e # r) = tail_of (p + 1) r" by (simp add: tail_of_def e)
  obtain x r' where r: "?r = x # r'" by (cases ?r) auto
  have same: "cfg_byte pc' j = cfg_byte pc j" if "j = loc \<or> j = p \<or> (\<exists>i < kept cs ?r. j = p + 2 + i)" for j
  proof -
    have "j < ?n" "j \<noteq> p + 1"
      using that lay(1,2) next_dword_after(1) [OF lay(3,4)] kept_before_next(1) [OF lay(3), of _ cs x r'] unfolding r by auto
    moreover have "tail_of (p + 1) r = p + 1 \<or> ?n < tail_of (p + 1) r" "?n \<le> hi"
      using laid_out_bounds [OF lay(5)] by (auto simp: tail_of_def)
    ultimately show ?thesis using Cons.prems(4) [of j] that lay(1,2) unfolding tl by fastforce
  qed
  have "cap_chain pc' (p + 1) ?r \<and> laid_out (p + 1) ?n ?r (next_dword hi (length bs))"
    using Cons.prems unfolding tl by (intro Cons.IH) (auto simp: e)
  moreover have "kept cs ?r \<le> kept cs r" unfolding r by (rule kept_before_next(2))
  ultimately show ?case using Cons.prems(2) lay(1-4) same by (simp add: e)
qed

definition cap_end :: "pci_configuration \<Rightarrow> nat" where
  "cap_end pc = (case last_capability pc of Some (off, len) \<Rightarrow> next_dword off len | None \<Rightarrow> FIRST_CAPABILITY_OFFSET)"

definition caps_ok :: "pci_configuration \<Rightarrow> placed_cap list \<Rightarrow> bool" where
  "caps_ok pc l \<longleftrightarrow> cap_chain pc CAPABILITY_LIST_HEAD_OFFSET l \<and>
     laid_out CAPABILITY_LIST_HEAD_OFFSET FIRST_CAPABILITY_OFFSET l (cap_end pc) \<and>
     last_capability pc = (if l = [] then None else Some (fst (last l), length (snd (snd (last l)))))"

lemma add_capability_ok:
  assumes "pci_inv pc" "caps_ok pc l"
    and "add_capability k bs pc = (pc', Inr off)"
  shows "caps_ok pc' (l @ [(off, k, bs)]) \<and> pci_inv pc' \<and> bit (registers pc' ! 1) 20"
proof -
  let ?H = CAPABILITY_LIST_HEAD_OFFSET
  have len: "length (registers pc) = 1024" using assms(1) by (simp add: pci_inv_def)
  have last: "last_capability pc = (if l = [] then None else Some (fst (last l), length (snd (snd (last l)))))"
    and chain: "cap_chain pc ?H l" "laid_out ?H FIRST_CAPABILITY_OFFSET l (cap_end pc)"
    using assms(2) by (auto simp: caps_ok_def)
  have at: "(case last_capability pc of Some (off, len) \<Rightarrow> (next_dword off len, off + 1)
      | None \<Rightarrow> (FIRST_CAPABILITY_OFFSET, ?H)) = (cap_end pc, tail_of ?H l)"
    using last by (auto simp: cap_end_def tail_of_def)
  define p1 where "p1 = pc\<lparr>registers := (registers pc)[STATUS_REG :=
      registers pc ! STATUS_REG OR STATUS_REG_CAPABILITIES_USED_MASK]\<rparr>"
  define p4 where "p4 = write_byte_internal (cap_end pc + 1) 0 False
      (write_byte_internal (cap_end pc) (cap_id_as_u8 k) False
        (write_byte_internal (tail_of ?H l) (of_nat (cap_end pc)) False p1))"
  define p5 where "p5 = write_cap_bytes (cap_end pc + 2) bs p4"
  have ne: "bs \<noteq> []" and fit: "cap_end pc + length bs \<le> 192" and off: "off = cap_end pc"
    using assms(3) unfolding add_capability_def Let_def at by (auto simp: CAPABILITY_MAX_OFFSET_def split: if_splits)
  have regs: "registers pc' = registers p5" and lc: "last_capability pc' = Some (off, length bs)"
    and frame: "length (writable_bits pc') = length (writable_bits pc)" "bars pc' = bars pc" "pc_msix pc' = pc_msix pc"
    using assms(3) ne fit unfolding add_capability_def Let_def at
    by (auto simp: CAPABILITY_MAX_OFFSET_def p5_def p4_def p1_def off split: pci_capability_id.splits)
  have b: "?H < 0x40" "cap_end pc < 256" "tail_of ?H l < cap_end pc" "?H \<le> tail_of ?H l" "0x40 \<le> cap_end pc"
    using laid_out_bounds [OF chain(2)] fit by (auto simp: CAPABILITY_LIST_HEAD_OFFSET_def FIRST_CAPABILITY_OFFSET_def)
  have l5: "length (registers p1) = 1024" "length (registers p4) = 1024" by (simp_all add: p1_def p4_def len)
  have byte: "cfg_byte pc' j = (if cap_end pc + 2 \<le> j \<and> j < cap_end pc + 2 + length bs then bs ! (j - (cap_end pc + 2))
      else if j = cap_end pc + 1 then 0 else if j = cap_end pc then cap_id_as_u8 k
      else if j = tail_of ?H l then of_nat (cap_end pc) else cfg_byte pc j)" if "?H \<le> j" for j
  proof -
    have "cfg_byte p1 j = cfg_byte pc j"
      using that by (simp add: cfg_byte_def p1_def STATUS_REG_def CAPABILITY_LIST_HEAD_OFFSET_def)
    then have "cfg_byte p5 j = (if cap_end pc + 2 \<le> j \<and> j < cap_end pc + 2 + length bs then bs ! (j - (cap_end pc + 2))
      else if j = cap_end pc + 1 then 0 else if j = cap_end pc then cap_id_as_u8 k
      else if j = tail_of ?H l then of_nat (cap_end pc) else cfg_byte pc j)"
      using b fit l5 by (simp add: p5_def cfg_byte_write_cap) (simp add: p4_def cfg_byte_write l5)
    then show ?thesis by (simp add: cfg_byte_def regs)
  qed
  have e': "cap_end pc' = next_dword (cap_end pc) (length bs)" by (simp add: cap_end_def lc off)
  have "cap_chain pc' ?H (l @ [(cap_end pc, k, bs)]) \<and>
      laid_out ?H FIRST_CAPABILITY_OFFSET (l @ [(cap_end pc, k, bs)]) (cap_end pc')"
    using b unfolding e'
    by (intro cap_chain_snoc [OF chain(2,1) ne]) (simp_all add: byte e' unat_of_nat_small)
  moreover have "pci_inv pc'" using assms(1) frame regs l5
    by (simp add: pci_inv_def p5_def)
  moreover have "bit (registers p5 ! 1) 20"
  proof -
    have d: "1 < (cap_end pc + 2) div 4" "1 < (cap_end pc + 1) div 4" "1 < cap_end pc div 4" "1 < tail_of ?H l div 4"
      using b by (auto simp: CAPABILITY_LIST_HEAD_OFFSET_def less_eq_div_iff_mult_less_eq Suc_le_eq [symmetric])
    have "bit (STATUS_REG_CAPABILITIES_USED_MASK) n \<longleftrightarrow> n = 20" for n
      unfolding STATUS_REG_CAPABILITIES_USED_MASK_def by (subst bit_pow2 [of _ 20]) auto
    then show ?thesis unfolding p5_def p4_def registers_before_write [OF d(1)]
        registers_before_write [OF d(2)] registers_before_write [OF d(3)] registers_before_write [OF d(4)]
      using len by (simp add: p1_def STATUS_REG_def bit_or_iff)
  qed
  ultimately show ?thesis using lc regs by (simp add: caps_ok_def off)
qed

lemma add_capability_success:
  "(\<exists>pc'. add_capability k bs pc = (pc', Inr off)) \<longleftrightarrow> bs \<noteq> [] \<and> cap_end pc + length bs \<le> 192 \<and> off = cap_end pc"
  by (auto simp: add_capability_def cap_end_def Let_def CAPABILITY_MAX_OFFSET_def split: option.splits)

fun add_capabilities :: "(pci_capability_id \<times> u8 list) list \<Rightarrow> pci_configuration \<Rightarrow>
    (pci_configuration \<times> nat list) option" where
  "add_capabilities [] pc = Some (pc, [])"
| "add_capabilities ((k, bs) # r) pc = (case add_capability k bs pc of
      (pc', Inl e) \<Rightarrow> None
    | (pc', Inr off) \<Rightarrow> map_option (\<lambda>(p, offs). (p, off # offs)) (add_capabilities r pc'))"

text \<open>Where the capabilities go, and whether they all fit.\<close>

fun cap_offsets :: "nat \<Rightarrow> (pci_capability_id \<times> u8 list) list \<Rightarrow> nat list" where
  "cap_offsets off [] = []"
| "cap_offsets off ((k, bs) # r) = off # cap_offsets (next_dword off (length bs)) r"

fun caps_fit :: "nat \<Rightarrow> (pci_capability_id \<times> u8 list) list \<Rightarrow> bool" where
  "caps_fit off [] = True"
| "caps_fit off ((k, bs) # r) = (bs \<noteq> [] \<and> off + length bs \<le> 192 \<and> caps_fit (next_dword off (length bs)) r)"

lemma length_cap_offsets [simp]: "length (cap_offsets off caps) = length caps"
  by (induction off caps rule: cap_offsets.induct) simp_all

lemma add_capabilities_ok:
  assumes "pci_inv pc" "caps_ok pc l"
  shows "if caps_fit (cap_end pc) caps
    then \<exists>pc'. add_capabilities caps pc = Some (pc', cap_offsets (cap_end pc) caps) \<and> pci_inv pc' \<and>
      caps_ok pc' (l @ zip (cap_offsets (cap_end pc) caps) caps) \<and> (caps \<noteq> [] \<longrightarrow> bit (registers pc' ! 1) 20)
    else add_capabilities caps pc = None"
  using assms
proof (induction caps arbitrary: pc l)
  case (Cons e r)
  obtain k bs where e: "e = (k, bs)" by (cases e)
  show ?case
  proof (cases "bs \<noteq> [] \<and> cap_end pc + length bs \<le> 192")
    case True
    then obtain p where p: "add_capability k bs pc = (p, Inr (cap_end pc))"
      using add_capability_success [of k bs pc "cap_end pc"] by auto
    have ok: "caps_ok p (l @ [(cap_end pc, k, bs)])" "pci_inv p" "bit (registers p ! 1) 20"
      using add_capability_ok [OF Cons.prems p] by auto
    have "cap_end p = next_dword (cap_end pc) (length bs)" using ok(1) by (simp add: caps_ok_def cap_end_def [of p])
    then show ?thesis using Cons.IH [OF ok(2,1)] ok(3) True p by (cases r) (auto simp: e split: if_splits)
  next
    case False
    then have "add_capabilities (e # r) pc = None"
      using add_capability_success [of k bs pc] by (auto simp: e split: prod.splits sum.splits)
    then show ?thesis using False by (auto simp: e)
  qed
qed simp

text \<open>C23. The capabilities of a device form the list a guest walks.  Adding capabilities one after the other to a
  configuration without any succeeds exactly when no body is empty and the offset and the body length of each add up to at most 192, and puts
  each at the dword behind the body length of the one before, from 0x40 on.  The chain from the list head then visits
  all of them in order, each with its identifier, ends with a null pointer, and the status register announces the list.  A body
  is intact if it is the last one or if its length leaves the remainder 1 or 2 modulo 4; otherwise it lacks its last byte
  (remainder 3) or its last two bytes (remainder 0), which the header of the next capability replaces.\<close>

theorem pci_capability_list:
  assumes "pci_inv pc" "last_capability pc = None" "cfg_byte pc CAPABILITY_LIST_HEAD_OFFSET = 0"
  shows "if caps_fit 0x40 caps
    then \<exists>pc'. add_capabilities caps pc = Some (pc', cap_offsets 0x40 caps) \<and>
      cap_chain pc' CAPABILITY_LIST_HEAD_OFFSET (zip (cap_offsets 0x40 caps) caps) \<and>
      (caps \<noteq> [] \<longrightarrow> bit (registers pc' ! 1) 20)
    else add_capabilities caps pc = None"
proof -
  have e: "cap_end pc = 0x40" using assms(2) by (simp add: cap_end_def FIRST_CAPABILITY_OFFSET_def)
  then have "caps_ok pc []"
    using assms(2,3) by (simp add: caps_ok_def CAPABILITY_LIST_HEAD_OFFSET_def FIRST_CAPABILITY_OFFSET_def)
  from add_capabilities_ok [OF assms(1) this, of caps, unfolded e] show ?thesis by (auto simp: caps_ok_def split: if_splits)
qed

theorem pci_capability_list_witness:
  "\<exists>pc'. add_capabilities [(VendorSpecific, replicate 16 1), (MsiX, replicate 10 2)] demo_pci = Some (pc', [0x40, 0x50]) \<and>
    cap_chain pc' CAPABILITY_LIST_HEAD_OFFSET [(0x40, VendorSpecific, replicate 16 1), (0x50, MsiX, replicate 10 2)]"
proof -
  let ?caps = "[(VendorSpecific, replicate 16 1), (MsiX, replicate 10 2)]"
  have z: "last_capability demo_pci = None" "cfg_byte demo_pci CAPABILITY_LIST_HEAD_OFFSET = 0"
    by (simp_all add: demo_pci_def pci_new_def cfg_byte_def pci_const_defs Let_def nth_list_update)
  have fit: "caps_fit 0x40 ?caps" "cap_offsets 0x40 ?caps = [0x40, 0x50]" by (simp_all add: next_dword_def)
  from pci_capability_list [OF demo_pci_inv z, of ?caps, unfolded if_P [OF fit(1)] fit(2)] show ?thesis by auto
qed

subsection \<open>Declaring BARs and capabilities keeps the shape of a configuration\<close>

lemma add_capability_inv:
  assumes "pci_inv pc"
  shows "pci_inv (fst (add_capability k bs pc))"
  using assms
  by (auto simp: add_capability_def Let_def pci_inv_def split: prod.splits option.splits pci_capability_id.splits)

lemma add_pci_bar_inv:
  assumes "pci_inv pc"
  shows "bc_idx cfg < 6 \<Longrightarrow> \<exists>pc' r. add_pci_bar cfg pc = Some (pc', r) \<and> pci_inv pc' \<and> (\<forall>e. r = Inl e \<longrightarrow> pc' = pc)"
    and "6 \<le> bc_idx cfg \<Longrightarrow> add_pci_bar cfg pc = None"
proof -
  have len: "length (bars pc) = 6" using assms by (simp add: pci_inv_def)
  show "6 \<le> bc_idx cfg \<Longrightarrow> add_pci_bar cfg pc = None" using len by (simp add: add_pci_bar_def Let_def)
  assume "bc_idx cfg < 6"
  then have "add_pci_bar cfg pc \<noteq> None" using len
    by (simp add: add_pci_bar_def Let_def split: option.splits pci_bar_region_type.splits sum.splits prod.splits)
  then obtain pc' r where r: "add_pci_bar cfg pc = Some (pc', r)" by auto
  show "\<exists>pc' r. add_pci_bar cfg pc = Some (pc', r) \<and> pci_inv pc' \<and> (\<forall>e. r = Inl e \<longrightarrow> pc' = pc)"
  proof (cases r)
    case (Inl e)
    then have "pc' = pc" using r
      by (auto simp: add_pci_bar_def Let_def split: if_splits option.splits sum.splits prod.splits)
    then show ?thesis using r assms by auto
  next
    case (Inr u)
    then show ?thesis using r add_pci_bar_declared [OF assms, of cfg pc'] by auto
  qed
qed

end
