(* ===== verification/Pci_Msi.thy ===== *)
theory Pci_Msi
  imports Pci_Msix
begin

text \<open>
  MSI, \<^verbatim>\<open>pci/src/msi.rs\<close>: the capability structure with its optional 64-bit address and
  per-vector mask, guest updates of it, and the routes they set up in the interrupt source group,
  whose calls are recorded as for MSI-X.
\<close>

subsection \<open>Constants and the capability\<close>

definition MSI_CTL_ENABLE :: u16 where "MSI_CTL_ENABLE = 0x1"
definition MSI_CTL_MULTI_MSG_ENABLE :: u16 where "MSI_CTL_MULTI_MSG_ENABLE = 0x70"
definition MSI_CTL_64_BITS :: u16 where "MSI_CTL_64_BITS = 0x80"
definition MSI_CTL_PER_VECTOR :: u16 where "MSI_CTL_PER_VECTOR = 0x100"
definition MSI_MSG_CTL_OFFSET :: u64 where "MSI_MSG_CTL_OFFSET = 0x2"
definition MSI_MSG_ADDR_LO_OFFSET :: u64 where "MSI_MSG_ADDR_LO_OFFSET = 0x4"
definition MSI_MSG_ADDR_LO_MASK :: u32 where "MSI_MSG_ADDR_LO_MASK = 0xfffffffc"

definition msi_num_enabled_vectors :: "u16 \<Rightarrow> nat" where
  "msi_num_enabled_vectors msg_ctl =
     (let field = drop_bit 4 msg_ctl AND 7
      in if field > 5 then 0 else 2 ^ unat field)"

record msi_cap =
  cm_msg_ctl :: u16
  cm_msg_addr_lo :: u32
  cm_msg_addr_hi :: u32
  cm_msg_data :: u16
  cm_mask_bits :: u32
  cm_pending_bits :: u32

definition addr_64_bits :: "msi_cap \<Rightarrow> bool" where
  "addr_64_bits k \<longleftrightarrow> cm_msg_ctl k AND MSI_CTL_64_BITS = MSI_CTL_64_BITS"

definition per_vector_mask :: "msi_cap \<Rightarrow> bool" where
  "per_vector_mask k \<longleftrightarrow> cm_msg_ctl k AND MSI_CTL_PER_VECTOR = MSI_CTL_PER_VECTOR"

definition msi_cap_enabled :: "msi_cap \<Rightarrow> bool" where
  "msi_cap_enabled k \<longleftrightarrow> cm_msg_ctl k AND MSI_CTL_ENABLE = MSI_CTL_ENABLE"

definition num_enabled_vectors :: "msi_cap \<Rightarrow> nat" where
  "num_enabled_vectors k = msi_num_enabled_vectors (cm_msg_ctl k)"

text \<open>The shift amount of a right shift is taken modulo the width, as in the release profile.\<close>

definition vector_masked :: "msi_cap \<Rightarrow> nat \<Rightarrow> bool" where
  "vector_masked k vector \<longleftrightarrow>
     (if \<not> per_vector_mask k then False else drop_bit (vector mod 32) (cm_mask_bits k) AND 1 = 1)"

definition msi_cap_size :: "msi_cap \<Rightarrow> u64" where
  "msi_cap_size k = 0xa + (if addr_64_bits k then 0x4 else 0) + (if per_vector_mask k then 0xa else 0)"

definition merge_msg_ctl :: "u16 \<Rightarrow> u16 \<Rightarrow> u16" where
  "merge_msg_ctl ctl value =
     (ctl AND NOT (MSI_CTL_ENABLE OR MSI_CTL_MULTI_MSG_ENABLE)) OR
     (value AND (MSI_CTL_ENABLE OR MSI_CTL_MULTI_MSG_ENABLE))"

definition msi_cap_update :: "le_codec \<Rightarrow> u64 \<Rightarrow> u8 list \<Rightarrow> msi_cap \<Rightarrow> msi_cap" where
  "msi_cap_update c off data k =
     (let (msg_data_offset, addr_hi_offset, mask_bits_offset) =
            (if addr_64_bits k then (0xc, Some 0x8, if per_vector_mask k then Some 0x10 else None)
             else (0x8, None, if per_vector_mask k then Some 0xc else None))
      in if length data = 2 then
           let value = read_u16 c data
           in if off = MSI_MSG_CTL_OFFSET then k\<lparr>cm_msg_ctl := merge_msg_ctl (cm_msg_ctl k) value\<rparr>
              else if off = msg_data_offset then k\<lparr>cm_msg_data := value\<rparr>
              else k
         else if length data = 4 then
           let value = read_u32 c data
           in if off = 0 then k\<lparr>cm_msg_ctl := merge_msg_ctl (cm_msg_ctl k) (ucast (drop_bit 16 value))\<rparr>
              else if off = MSI_MSG_ADDR_LO_OFFSET then k\<lparr>cm_msg_addr_lo := value AND MSI_MSG_ADDR_LO_MASK\<rparr>
              else if off = msg_data_offset then k\<lparr>cm_msg_data := ucast value\<rparr>
              else if addr_hi_offset = Some off then k\<lparr>cm_msg_addr_hi := value\<rparr>
              else if mask_bits_offset = Some off then k\<lparr>cm_mask_bits := value\<rparr>
              else k
         else k)"

subsection \<open>The configuration object\<close>

record msi_config =
  mi_cap :: msi_cap
  mi_isg :: "isg_call list"

definition msi_new :: "u16 \<Rightarrow> isg_call list \<Rightarrow> msi_config" where
  "msi_new msg_ctl grp =
     \<lparr>mi_cap = \<lparr>cm_msg_ctl = msg_ctl, cm_msg_addr_lo = 0, cm_msg_addr_hi = 0, cm_msg_data = 0,
                cm_mask_bits = 0, cm_pending_bits = 0\<rparr>, mi_isg = grp\<rparr>"

definition msi_route :: "msi_cap \<Rightarrow> nat \<Rightarrow> isg_call" where
  "msi_route k idx =
     IsgUpdate idx \<lparr>high_addr = cm_msg_addr_hi k, low_addr = cm_msg_addr_lo k,
                    msi_data = ucast (cm_msg_data k), msi_devid = 0\<rparr> (vector_masked k idx)"

text \<open>Restoring stops at the first call that the group refuses; \<open>ok\<close> is the outcome of a call.\<close>

fun msi_restore_routes :: "(isg_call \<Rightarrow> bool) \<Rightarrow> isg_call list \<Rightarrow> isg_call list \<times> bool" where
  "msi_restore_routes ok [] = ([], True)"
| "msi_restore_routes ok (k # ks) =
     (if ok k then let (ls, r) = msi_restore_routes ok ks in (k # ls, r) else ([k], False))"

definition msi_set_state :: "(isg_call \<Rightarrow> bool) \<Rightarrow> msi_cap \<Rightarrow> msi_config \<Rightarrow> msi_config \<times> (msix_error + unit)" where
  "msi_set_state ok s m =
     (let m1 = m\<lparr>mi_cap := s\<rparr>
      in if msi_cap_enabled s then
           let (ks, r) = msi_restore_routes ok (map (msi_route s) [0..<num_enabled_vectors s]);
               m2 = m1\<lparr>mi_isg := mi_isg m1 @ ks\<rparr>
           in if \<not> r then (m2, Inl UpdateInterruptRoute)
              else let m3 = m2\<lparr>mi_isg := mi_isg m2 @ [IsgEnable]\<rparr>
                   in if ok IsgEnable then (m3, Inr ()) else (m3, Inl EnableInterruptRoute)
         else (m1, Inr ()))"

definition msi_update :: "le_codec \<Rightarrow> u64 \<Rightarrow> u8 list \<Rightarrow> msi_config \<Rightarrow> msi_config" where
  "msi_update c off data m =
     (let old_enabled = msi_cap_enabled (mi_cap m);
          k = msi_cap_update c off data (mi_cap m);
          calls = (if msi_cap_enabled k then
                     map (msi_route k) [0..<num_enabled_vectors k] @ (if \<not> old_enabled then [IsgEnable] else [])
                   else if old_enabled then [IsgDisable] else [])
      in m\<lparr>mi_cap := k, mi_isg := mi_isg m @ calls\<rparr>)"

subsection \<open>What guest updates can change\<close>

lemma num_enabled_vectors_bound: "num_enabled_vectors k \<in> {0, 1, 2, 4, 8, 16, 32}"
proof -
  define f where "f = unat (drop_bit 4 (cm_msg_ctl k) AND 7)"
  have "f \<le> 5 \<Longrightarrow> f = 0 \<or> f = 1 \<or> f = 2 \<or> f = 3 \<or> f = 4 \<or> f = 5" by arith
  then show ?thesis
    by (auto simp: num_enabled_vectors_def msi_num_enabled_vectors_def Let_def f_def [symmetric]
        word_less_nat_alt not_less)
qed

lemma msi_const_bits:
  "bit (0x70 :: u16) n \<longleftrightarrow> 4 \<le> n \<and> n < 7" "bit (0x80 :: u16) n \<longleftrightarrow> n = 7" "bit (0x100 :: u16) n \<longleftrightarrow> n = 8"
proof -
  have "(0x70 :: u16) = push_bit 4 (mask 3)" by (simp add: mask_eq_exp_minus_1 push_bit_eq_mult)
  then show "bit (0x70 :: u16) n \<longleftrightarrow> 4 \<le> n \<and> n < 7"
    by (simp only: bit_push_bit_iff bit_mask_iff) auto
qed (subst bit_pow2 [of _ 7] bit_pow2 [of _ 8]; auto)+

text \<open>The bits of message control a guest may change: enable and the three bits of the number of
  enabled vectors.\<close>

definition msi_writable :: "nat \<Rightarrow> bool" where
  "msi_writable n \<longleftrightarrow> n = 0 \<or> n = 4 \<or> n = 5 \<or> n = 6"

lemma msi_ctl_bits:
  fixes old v :: u16
  assumes "\<not> msi_writable n"
  shows "bit (merge_msg_ctl old v) n = bit old n"
proof -
  have "\<not> bit (MSI_CTL_ENABLE OR MSI_CTL_MULTI_MSG_ENABLE) n"
    unfolding MSI_CTL_ENABLE_def MSI_CTL_MULTI_MSG_ENABLE_def bit_or_iff msi_const_bits
    using assms by (auto simp: msi_writable_def bit_1_iff)
  then show ?thesis by (auto simp: merge_msg_ctl_def bit_or_iff bit_and_iff bit_not_iff dest: bit_imp_le_length)
qed

lemma msi_cap_update_keeps:
  "\<not> msi_writable n \<Longrightarrow> bit (cm_msg_ctl (msi_cap_update c off data k)) n = bit (cm_msg_ctl k) n"
  "cm_pending_bits (msi_cap_update c off data k) = cm_pending_bits k"
  "cm_msg_addr_lo k AND 3 = 0 \<Longrightarrow> cm_msg_addr_lo (msi_cap_update c off data k) AND 3 = 0"
  by (simp_all add: msi_cap_update_def Let_def msi_ctl_bits MSI_MSG_ADDR_LO_MASK_def and.assoc split: prod.split)

definition group_enabled :: "isg_call list \<Rightarrow> bool" where
  "group_enabled ks = fold (\<lambda>k b. case k of IsgEnable \<Rightarrow> True | IsgDisable \<Rightarrow> False | _ \<Rightarrow> b) ks False"

lemma group_enabled_simps [simp]:
  "group_enabled [] = False"
  "group_enabled (ks @ [IsgEnable]) = True" "group_enabled (ks @ [IsgDisable]) = False"
  "group_enabled (ks @ map (msi_route k) is) = group_enabled ks"
proof -
  have "fold (\<lambda>k b. case k of IsgEnable \<Rightarrow> True | IsgDisable \<Rightarrow> False | _ \<Rightarrow> b) (map (msi_route k) is) b = b" for b
    by (induction "is" arbitrary: b) (simp_all add: msi_route_def)
  then show "group_enabled (ks @ map (msi_route k) is) = group_enabled ks" by (simp add: group_enabled_def)
qed (simp_all add: group_enabled_def)

fun msi_run :: "le_codec \<Rightarrow> (u64 \<times> u8 list) list \<Rightarrow> msi_config \<Rightarrow> msi_config" where
  "msi_run c [] m = m"
| "msi_run c ((off, data) # ws) m = msi_run c ws (msi_update c off data m)"

definition msi_inv :: "u16 \<Rightarrow> msi_config \<Rightarrow> bool" where
  "msi_inv ctl m \<longleftrightarrow> (\<forall>n. \<not> msi_writable n \<longrightarrow> bit (cm_msg_ctl (mi_cap m)) n = bit ctl n) \<and>
     cm_msg_addr_lo (mi_cap m) AND 3 = 0 \<and> cm_pending_bits (mi_cap m) = 0 \<and>
     group_enabled (mi_isg m) = msi_cap_enabled (mi_cap m) \<and>
     (\<forall>i cfg b. IsgUpdate i cfg b \<in> set (mi_isg m) \<longrightarrow> i < 32)"

lemma msi_inv_update:
  assumes "msi_inv ctl m"
  shows "msi_inv ctl (msi_update c off data m)"
proof -
  let ?k = "msi_cap_update c off data (mi_cap m)"
  have g: "group_enabled (mi_isg (msi_update c off data m)) = msi_cap_enabled ?k"
    using assms group_enabled_simps(2) [of "mi_isg m @ map (msi_route ?k) [0..<num_enabled_vectors ?k]"]
    by (auto simp: msi_update_def msi_inv_def Let_def)
  have "num_enabled_vectors ?k \<le> 32" using num_enabled_vectors_bound [of ?k] by auto
  then have "\<forall>i cfg b. IsgUpdate i cfg b \<in> set (mi_isg (msi_update c off data m)) \<longrightarrow> i < 32"
    using assms by (auto simp: msi_update_def msi_inv_def Let_def msi_route_def split: if_splits)
  then show ?thesis using assms g msi_cap_update_keeps
    by (simp add: msi_inv_def) (simp add: msi_update_def Let_def msi_cap_update_keeps)
qed

text \<open>C37. Whatever a guest writes to the MSI capability, it changes only what it may: of the message
  control bits only enable and the number of enabled vectors, so the layout of the structure (64-bit
  address, per-vector masks) stays as built; the reserved low bits of the address stay zero and the
  pending bits are never written.  The interrupt source group is enabled exactly while the enable
  bit is set, and only vectors below 32 are ever routed.\<close>

theorem msi_guest_writes:
  assumes "ctl AND MSI_CTL_ENABLE = 0" "m = msi_run c ws (msi_new ctl [])"
  shows "(\<forall>n. \<not> msi_writable n \<longrightarrow> bit (cm_msg_ctl (mi_cap m)) n = bit ctl n) \<and>
    cm_msg_addr_lo (mi_cap m) AND 3 = 0 \<and> cm_pending_bits (mi_cap m) = 0 \<and>
    group_enabled (mi_isg m) = msi_cap_enabled (mi_cap m) \<and>
    (\<forall>i cfg b. IsgUpdate i cfg b \<in> set (mi_isg m) \<longrightarrow> i < 32)"
proof -
  have step: "msi_inv ctl x \<Longrightarrow> msi_inv ctl (msi_run c ws x)" for x
    by (induction c ws x rule: msi_run.induct) (simp_all add: msi_inv_update)
  have "msi_inv ctl (msi_new ctl [])"
    using assms(1) by (auto simp: msi_inv_def msi_new_def msi_cap_enabled_def MSI_CTL_ENABLE_def)
  then show ?thesis using step assms(2) unfolding msi_inv_def by blast
qed

theorem msi_guest_writes_witness:
  "let m = msi_run le_impl [(2, [0x21, 0xff])] (msi_new 0x0184 [])
   in group_enabled (mi_isg m) \<and> bit (cm_msg_ctl (mi_cap m)) 2 \<and> \<not> bit (cm_msg_ctl (mi_cap m)) 9"
proof -
  let ?m = "msi_run le_impl [(2, [0x21, 0xff])] (msi_new 0x0184 [])"
  have "msi_cap_enabled (mi_cap ?m)"
    by (simp add: msi_update_def msi_cap_update_def msi_new_def msi_cap_enabled_def addr_64_bits_def
        MSI_CTL_64_BITS_def MSI_MSG_CTL_OFFSET_def merge_msg_ctl_def MSI_CTL_ENABLE_def MSI_CTL_MULTI_MSG_ENABLE_def
        le_impl_def le_value_def Let_def)
  moreover have "bit (0x0184 :: u16) 2" "\<not> bit (0x0184 :: u16) 9" by (simp_all add: bit_iff_odd)
  ultimately show ?thesis
    using msi_guest_writes [of "0x0184" ?m le_impl "[(2, [0x21, 0xff])]"]
    by (auto simp: MSI_CTL_ENABLE_def msi_writable_def Let_def simp del: msi_run.simps)
qed

end
