(* ===== verification/Io_Monad.thy ===== *)
theory Io_Monad
  imports Byte_Order
begin

text \<open>
  Fallible code that mutates its state, as the disk image code is written: a computation maps a
  state to an outcome and a state.  The state survives an error, as it does when \<open>?\<close> returns early
  from a method on \<open>&mut self\<close>; a panic ends the program.  Loops carry a bound, and running into it
  is the outcome \<open>Stuck\<close>, which the correctness lemmas exclude.  \<open>wp\<close> gives the weakest
  precondition of a computation; the rules collected in \<open>wp_simps\<close> execute a definition
  symbolically and \<open>wp_mono\<close> applies the specification of an operation that it calls.
\<close>

subsection \<open>Computations\<close>

datatype ('e, 'a) outcome = Ok 'a | Err 'e | Panic | Stuck

type_synonym ('s, 'e, 'a) io = "'s \<Rightarrow> ('e, 'a) outcome \<times> 's"

definition ret :: "'a \<Rightarrow> ('s, 'e, 'a) io" where
  "ret x s = (Ok x, s)"

definition throw :: "'e \<Rightarrow> ('s, 'e, 'a) io" where
  "throw e s = (Err e, s)"

definition panic :: "('s, 'e, 'a) io" where
  "panic s = (Panic, s)"

definition stuck :: "('s, 'e, 'a) io" where
  "stuck s = (Stuck, s)"

definition bnd :: "('s, 'e, 'a) io \<Rightarrow> ('a \<Rightarrow> ('s, 'e, 'b) io) \<Rightarrow> ('s, 'e, 'b) io" where
  "bnd m f s = (case m s of (Ok x, t) \<Rightarrow> f x t | (Err e, t) \<Rightarrow> (Err e, t) | (Panic, t) \<Rightarrow> (Panic, t)
     | (Stuck, t) \<Rightarrow> (Stuck, t))"

definition seq :: "('s, 'e, 'a) io \<Rightarrow> ('s, 'e, 'b) io \<Rightarrow> ('s, 'e, 'b) io" where
  "seq m n = bnd m (\<lambda>_. n)"

definition gets :: "('s \<Rightarrow> 'a) \<Rightarrow> ('s, 'e, 'a) io" where
  "gets f s = (Ok (f s), s)"

definition modify :: "('s \<Rightarrow> 's) \<Rightarrow> ('s, 'e, unit) io" where
  "modify f s = (Ok (), f s)"

text \<open>\<open>map_err\<close>, a \<open>match\<close> on the result, and an operation on a part of the state.\<close>

definition map_err :: "('e \<Rightarrow> 'f) \<Rightarrow> ('s, 'e, 'a) io \<Rightarrow> ('s, 'f, 'a) io" where
  "map_err g m s = (case m s of (Ok x, t) \<Rightarrow> (Ok x, t) | (Err e, t) \<Rightarrow> (Err (g e), t)
     | (Panic, t) \<Rightarrow> (Panic, t) | (Stuck, t) \<Rightarrow> (Stuck, t))"

definition attempt :: "('s, 'e, 'a) io \<Rightarrow> ('s, 'f, 'e + 'a) io" where
  "attempt m s = (case m s of (Ok x, t) \<Rightarrow> (Ok (Inr x), t) | (Err e, t) \<Rightarrow> (Ok (Inl e), t)
     | (Panic, t) \<Rightarrow> (Panic, t) | (Stuck, t) \<Rightarrow> (Stuck, t))"

definition zoom :: "('s \<Rightarrow> 't) \<Rightarrow> ('t \<Rightarrow> 's \<Rightarrow> 's) \<Rightarrow> ('t, 'e, 'a) io \<Rightarrow> ('s, 'e, 'a) io" where
  "zoom g p m s = (case m (g s) of (r, t) \<Rightarrow> (r, p t s))"

text \<open>Unwrapping an option and indexing a slice, both of which may panic, and \<open>ok_or\<close>.\<close>

definition unwrap :: "'a option \<Rightarrow> ('s, 'e, 'a) io" where
  "unwrap x = (case x of Some a \<Rightarrow> ret a | None \<Rightarrow> panic)"

definition index :: "'a list \<Rightarrow> nat \<Rightarrow> ('s, 'e, 'a) io" where
  "index xs i = (if i < length xs then ret (xs ! i) else panic)"

definition get_or :: "'e \<Rightarrow> 'a list \<Rightarrow> nat \<Rightarrow> ('s, 'e, 'a) io" where
  "get_or e xs i = (if i < length xs then ret (xs ! i) else throw e)"

fun for_each :: "'a list \<Rightarrow> ('a \<Rightarrow> ('s, 'e, unit) io) \<Rightarrow> ('s, 'e, unit) io" where
  "for_each [] f = ret ()"
| "for_each (x # xs) f = seq (f x) (for_each xs f)"

subsection \<open>Weakest preconditions\<close>

definition wp :: "('s, 'e, 'a) io \<Rightarrow> ('a \<Rightarrow> 's \<Rightarrow> bool) \<Rightarrow> ('e \<Rightarrow> 's \<Rightarrow> bool) \<Rightarrow> 's \<Rightarrow> bool" where
  "wp m Q R s = (case m s of (Ok x, t) \<Rightarrow> Q x t | (Err e, t) \<Rightarrow> R e t | (Panic, t) \<Rightarrow> False
     | (Stuck, t) \<Rightarrow> False)"

named_theorems wp_simps \<open>weakest preconditions of the control structures\<close>

lemma wp_ret [wp_simps]: "wp (ret x) Q R s = Q x s"
  by (simp add: wp_def ret_def)

lemma wp_throw [wp_simps]: "wp (throw e) Q R s = R e s"
  by (simp add: wp_def throw_def)

lemma wp_panic [wp_simps]: "wp panic Q R s = False"
  by (simp add: wp_def panic_def)

lemma wp_stuck [wp_simps]: "wp stuck Q R s = False"
  by (simp add: wp_def stuck_def)

lemma wp_bnd [wp_simps]: "wp (bnd m f) Q R s = wp m (\<lambda>x. wp (f x) Q R) R s"
  by (simp add: wp_def bnd_def split: prod.split outcome.split)

lemma wp_seq [wp_simps]: "wp (seq m n) Q R s = wp m (\<lambda>_. wp n Q R) R s"
  by (simp add: seq_def wp_bnd)

lemma wp_gets [wp_simps]: "wp (gets f) Q R s = Q (f s) s"
  by (simp add: wp_def gets_def)

lemma wp_modify [wp_simps]: "wp (modify f) Q R s = Q () (f s)"
  by (simp add: wp_def modify_def)

lemma wp_map_err [wp_simps]: "wp (map_err g m) Q R s = wp m Q (\<lambda>e. R (g e)) s"
  by (simp add: wp_def map_err_def split: prod.split outcome.split)

lemma wp_attempt [wp_simps]: "wp (attempt m) Q R s = wp m (\<lambda>x. Q (Inr x)) (\<lambda>e. Q (Inl e)) s"
  by (simp add: wp_def attempt_def split: prod.split outcome.split)

lemma wp_zoom [wp_simps]:
  "wp (zoom g p m) Q R s = wp m (\<lambda>x t. Q x (p t s)) (\<lambda>e t. R e (p t s)) (g s)"
  by (simp add: wp_def zoom_def split: prod.split outcome.split)

lemma wp_unwrap [wp_simps]: "wp (unwrap x) Q R s = (\<exists>a. x = Some a \<and> Q a s)"
  by (simp add: unwrap_def wp_simps split: option.split)

lemma wp_index [wp_simps]: "wp (index xs i) Q R s = (i < length xs \<and> Q (xs ! i) s)"
  by (simp add: index_def wp_simps)

lemma wp_get_or [wp_simps]:
  "wp (get_or e xs i) Q R s = (if i < length xs then Q (xs ! i) s else R e s)"
  by (simp add: get_or_def wp_simps)

lemma wp_if [wp_simps]: "wp (if b then m else n) Q R s = (if b then wp m Q R s else wp n Q R s)"
  by simp

lemma wp_ret_fun: "wp (ret x) Q R = Q x"
  by (simp add: fun_eq_iff wp_ret)

lemma wp_mono:
  assumes "wp m Q R s" "\<And>x t. Q x t \<Longrightarrow> Q' x t" "\<And>e t. R e t \<Longrightarrow> R' e t"
  shows "wp m Q' R' s"
  using assms by (auto simp: wp_def split: prod.splits outcome.splits)

lemma wp_eq: "m s = n t \<Longrightarrow> wp n Q R t \<Longrightarrow> wp m Q R s"
  by (simp add: wp_def)

lemma wp_conj:
  assumes "wp m Q R s" "wp m Q' R' s"
  shows "wp m (\<lambda>x t. Q x t \<and> Q' x t) (\<lambda>e t. R e t \<and> R' e t) s"
  using assms by (auto simp: wp_def split: prod.splits outcome.splits)

text \<open>A loop over a list keeps what every iteration keeps.\<close>

lemma wp_for_each:
  assumes "\<And>x xs s. I (x # xs) s \<Longrightarrow> wp (f x) (\<lambda>_. I xs) R s" "I xs s"
  shows "wp (for_each xs f) (\<lambda>_. I []) R s"
  using assms(2)
proof (induction xs arbitrary: s)
  case (Cons x xs)
  show ?case
    by (simp add: wp_simps) (rule wp_mono [OF assms(1) [OF Cons.prems]], auto intro: Cons.IH)
qed (simp add: wp_simps)

text \<open>What a computation returned, read off its weakest precondition.\<close>

lemma wp_result:
  "m s = (Ok x, t) \<Longrightarrow> wp m Q R s \<Longrightarrow> Q x t"
  "m s = (Err e, t) \<Longrightarrow> wp m Q R s \<Longrightarrow> R e t"
  "m s = (Panic, t) \<Longrightarrow> \<not> wp m Q R s"
  "m s = (Stuck, t) \<Longrightarrow> \<not> wp m Q R s"
  by (simp_all add: wp_def)

lemma wp_cases:
  assumes "wp m Q R s"
  obtains (Ok) x t where "m s = (Ok x, t)" "Q x t" | (Err) e t where "m s = (Err e, t)" "R e t"
  using assms by (auto simp: wp_def split: prod.splits outcome.splits)

end
