(* ===== verification/Raw_File.thy ===== *)
theory Raw_File
  imports Io_Monad
begin

text \<open>
  Host files and \<^verbatim>\<open>src/qcow/src/raw_file.rs\<close>.  \<open>host_file\<close> is the part of \<open>std::fs::File\<close> that the
  image code uses: contents, length and position.  The script of events says how the next system
  calls end: completely, after fewer bytes than asked for, or with an error; an empty script means
  that the host completes every call.  \<open>RawFile\<close> adds direct I/O: on a file opened that way an access
  goes through a bounce buffer unless position, buffer address and length are all aligned.
\<close>

subsection \<open>Contents\<close>

text \<open>Bytes of a file from an offset on, and the effect of writing there.\<close>

definition bytes_at :: "(nat \<Rightarrow> u8) \<Rightarrow> nat \<Rightarrow> nat \<Rightarrow> u8 list" where
  "bytes_at d off n = map d [off..<off + n]"

definition store :: "(nat \<Rightarrow> u8) \<Rightarrow> nat \<Rightarrow> u8 list \<Rightarrow> nat \<Rightarrow> u8" where
  "store d off bs i = (if off \<le> i \<and> i < off + length bs then bs ! (i - off) else d i)"

definition zeroed :: "(nat \<Rightarrow> u8) \<Rightarrow> nat \<Rightarrow> nat \<Rightarrow> nat \<Rightarrow> u8" where
  "zeroed d off n i = (if off \<le> i \<and> i < off + n then 0 else d i)"

subsection \<open>Files of the host\<close>

datatype io_err = OsError nat | UnexpectedEof | WriteZero | InvalidData | OtherError

definition EINTR :: nat where "EINTR = 4"
definition EINVAL :: nat where "EINVAL = 22"
definition ENOSPC :: nat where "ENOSPC = 28"
definition ENOTSUP :: nat where "ENOTSUP = 95"

datatype io_event = Full | Short nat | Fault nat

fun limit :: "io_event \<Rightarrow> nat \<Rightarrow> nat" where
  "limit (Short k) n = min k n"
| "limit e n = n"

record host_file =
  hf_data :: "nat \<Rightarrow> u8"
  hf_len :: nat
  hf_pos :: nat
  hf_script :: "io_event list"

text \<open>The event that decides how the next system call ends.\<close>

definition next_event :: "('x host_file_scheme, io_err, io_event) io" where
  "next_event f = (case hf_script f of
       [] \<Rightarrow> (Ok Full, f)
     | Fault c # es \<Rightarrow> (Err (OsError c), f\<lparr>hf_script := es\<rparr>)
     | e # es \<Rightarrow> (Ok e, f\<lparr>hf_script := es\<rparr>))"

definition file_read :: "nat \<Rightarrow> ('x host_file_scheme, io_err, u8 list) io" where
  "file_read n = bnd next_event (\<lambda>e. bnd (gets (\<lambda>f. bytes_at (hf_data f) (hf_pos f) (min (limit e n) (hf_len f - hf_pos f))))
     (\<lambda>bs. seq (modify (\<lambda>f. f\<lparr>hf_pos := hf_pos f + length bs\<rparr>)) (ret bs)))"

definition put_bytes :: "nat \<Rightarrow> u8 list \<Rightarrow> ('x host_file_scheme, io_err, unit) io" where
  "put_bytes off bs = modify (\<lambda>f. if bs = [] then f
     else f\<lparr>hf_data := store (hf_data f) off bs, hf_len := max (hf_len f) (off + length bs)\<rparr>)"

definition file_write :: "u8 list \<Rightarrow> ('x host_file_scheme, io_err, nat) io" where
  "file_write bs = bnd next_event (\<lambda>e. let w = take (limit e (length bs)) bs in
     bnd (gets hf_pos) (\<lambda>p. seq (put_bytes p w) (seq (modify (\<lambda>f. f\<lparr>hf_pos := p + length w\<rparr>)) (ret (length w)))))"

definition file_seek :: "nat \<Rightarrow> ('x host_file_scheme, io_err, nat) io" where
  "file_seek pos = (if pos < 2 ^ 63 then seq (modify (\<lambda>f. f\<lparr>hf_pos := pos\<rparr>)) (ret pos) else throw (OsError EINVAL))"

definition file_set_len :: "nat \<Rightarrow> ('x host_file_scheme, io_err, unit) io" where
  "file_set_len n = (if n < 2 ^ 63 then seq next_event
       (modify (\<lambda>f. f\<lparr>hf_data := (\<lambda>i. if i < n then hf_data f i else 0), hf_len := n\<rparr>))
     else throw (OsError EINVAL))"

definition file_sync :: "('x host_file_scheme, io_err, unit) io" where
  "file_sync = seq next_event (ret ())"

subsection \<open>RawFile\<close>

record raw_file = host_file +
  rf_alignment :: nat
  rf_position :: nat

definition BLK_ALIGNMENTS :: "nat list" where
  "BLK_ALIGNMENTS = [512, 4096]"

text \<open>
  \<open>RawFile::new\<close>; whether the host accepts a transfer of a given alignment is the argument
  \<open>is_valid_alignment\<close>.
\<close>

definition raw_file_new :: "host_file \<Rightarrow> (nat \<Rightarrow> bool) \<Rightarrow> bool \<Rightarrow> raw_file" where
  "raw_file_new file is_valid_alignment direct_io = host_file.extend file (raw_file.fields
     (if direct_io then (case filter is_valid_alignment BLK_ALIGNMENTS of [] \<Rightarrow> 0 | a # _ \<Rightarrow> a) else 0) 0)"

definition raw_round_up :: "nat \<Rightarrow> nat \<Rightarrow> nat" where
  "raw_round_up align offset = (offset div (align + 1) + 1) * align"

definition raw_round_down :: "nat \<Rightarrow> nat \<Rightarrow> nat" where
  "raw_round_down align offset = offset div align * align"

definition raw_is_aligned :: "'x raw_file_scheme \<Rightarrow> nat \<Rightarrow> nat \<Rightarrow> bool" where
  "raw_is_aligned f ptr n \<longleftrightarrow> rf_alignment f = 0 \<or>
     (rf_position f mod rf_alignment f = 0 \<and> ptr mod rf_alignment f = 0 \<and> n mod rf_alignment f = 0)"

definition raw_advance :: "nat \<Rightarrow> ('x raw_file_scheme, io_err, unit) io" where
  "raw_advance k = bnd (gets rf_position) (\<lambda>p. if p + k < 2 ^ 64 then modify (\<lambda>f. f\<lparr>rf_position := p + k\<rparr>) else panic)"

definition raw_seek :: "nat \<Rightarrow> ('x raw_file_scheme, io_err, nat) io" where
  "raw_seek pos = bnd (file_seek pos) (\<lambda>p. seq (modify (\<lambda>f. f\<lparr>rf_position := p\<rparr>)) (ret p))"

definition raw_seek_end :: "('x raw_file_scheme, io_err, nat) io" where
  "raw_seek_end = bnd (gets hf_len) raw_seek"

text \<open>\<open>self.seek(SeekFrom::Current(n)).unwrap()\<close>.\<close>

definition raw_seek_current :: "nat \<Rightarrow> ('x raw_file_scheme, io_err, unit) io" where
  "raw_seek_current n = bnd (gets hf_pos) (\<lambda>p. bnd (attempt (raw_seek (p + n)))
     (\<lambda>r. case r of Inl _ \<Rightarrow> panic | Inr _ \<Rightarrow> ret ()))"

text \<open>The zero-filled bounce buffer after \<open>pread64\<close> filled its first bytes.\<close>

definition bounce :: "(nat \<Rightarrow> u8) \<Rightarrow> nat \<Rightarrow> nat \<Rightarrow> nat \<Rightarrow> u8 list" where
  "bounce d pos got n = bytes_at d pos got @ replicate (n - got) 0"

definition raw_pread :: "nat \<Rightarrow> nat \<Rightarrow> ('x raw_file_scheme, io_err, nat \<times> u8 list) io" where
  "raw_pread pos n = bnd next_event (\<lambda>e. gets (\<lambda>f. let got = min (limit e n) (hf_len f - pos) in
     (got, bounce (hf_data f) pos got n)))"

text \<open>
  \<open>Read::read\<close> into a buffer of \<open>n\<close> bytes at address \<open>ptr\<close>; the result is what was read.  The
  allocation of the bounce buffer may fail like a system call.
\<close>

definition raw_read :: "nat \<Rightarrow> nat \<Rightarrow> ('x raw_file_scheme, io_err, u8 list) io" where
  "raw_read ptr n = bnd (gets id) (\<lambda>f.
     if raw_is_aligned f ptr n then
       bnd (file_read n) (\<lambda>bs. seq (raw_advance (length bs)) (ret bs))
     else
       let rounded_pos = raw_round_down (rf_alignment f) (rf_position f);
           file_offset = rf_position f - rounded_pos;
           rounded_len = raw_round_up (rf_alignment f) (file_offset + n)
       in seq next_event (bnd (raw_pread rounded_pos rounded_len) (\<lambda>(got, tmp_buf).
            if got < file_offset then ret []
            else if rounded_len < file_offset + n then panic
            else
              let to_copy = min (got - file_offset) n
              in seq (raw_seek_current to_copy) (ret (take to_copy (drop file_offset tmp_buf))))))"

definition raw_write :: "nat \<Rightarrow> u8 list \<Rightarrow> ('x raw_file_scheme, io_err, nat) io" where
  "raw_write ptr buf = bnd (gets id) (\<lambda>f.
     if raw_is_aligned f ptr (length buf) then
       bnd (file_write buf) (\<lambda>r. seq (raw_advance r) (ret r))
     else
       let rounded_pos = raw_round_down (rf_alignment f) (rf_position f);
           file_offset = rf_position f - rounded_pos;
           rounded_len = raw_round_up (rf_alignment f) (file_offset + length buf)
       in seq next_event (bnd (raw_pread rounded_pos rounded_len) (\<lambda>(got, tmp_buf).
            if rounded_len < file_offset + length buf then panic
            else bnd next_event (\<lambda>e.
              let written = limit e rounded_len
              in seq (put_bytes rounded_pos (take written (write_at file_offset buf tmp_buf)))
                   (if written < file_offset then ret 0
                    else
                      let to_seek = min (written - file_offset) (length buf)
                      in seq (raw_seek_current to_seek) (ret to_seek))))))"

text \<open>
  \<open>Read::read_exact\<close> and \<open>Write::write_all\<close> of the standard library: repeat until everything is
  transferred, retry interrupted calls.  Every iteration moves a byte or consumes an event, so the
  sum of both bounds the loop.
\<close>

fun read_exact_loop :: "nat \<Rightarrow> nat \<Rightarrow> nat \<Rightarrow> ('x raw_file_scheme, io_err, u8 list) io" where
  "read_exact_loop fuel ptr n = (if n = 0 then ret [] else case fuel of 0 \<Rightarrow> stuck | Suc fuel' \<Rightarrow>
     bnd (attempt (raw_read ptr n)) (\<lambda>r. case r of
       Inl e \<Rightarrow> if e = OsError EINTR then read_exact_loop fuel' ptr n else throw e
     | Inr bs \<Rightarrow> if bs = [] then throw UnexpectedEof
         else bnd (read_exact_loop fuel' (ptr + length bs) (n - length bs)) (\<lambda>cs. ret (bs @ cs))))"

definition read_exact :: "nat \<Rightarrow> nat \<Rightarrow> ('x raw_file_scheme, io_err, u8 list) io" where
  "read_exact ptr n = bnd (gets (\<lambda>f. n + length (hf_script f) + 1)) (\<lambda>fuel. read_exact_loop fuel ptr n)"

fun write_all_loop :: "nat \<Rightarrow> nat \<Rightarrow> u8 list \<Rightarrow> ('x raw_file_scheme, io_err, unit) io" where
  "write_all_loop fuel ptr bs = (if bs = [] then ret () else case fuel of 0 \<Rightarrow> stuck | Suc fuel' \<Rightarrow>
     bnd (attempt (raw_write ptr bs)) (\<lambda>r. case r of
       Inl e \<Rightarrow> if e = OsError EINTR then write_all_loop fuel' ptr bs else throw e
     | Inr k \<Rightarrow> if k = 0 then throw WriteZero else write_all_loop fuel' (ptr + k) (drop k bs)))"

definition write_all :: "nat \<Rightarrow> u8 list \<Rightarrow> ('x raw_file_scheme, io_err, unit) io" where
  "write_all ptr bs = bnd (gets (\<lambda>f. length bs + length (hf_script f) + 1)) (\<lambda>fuel. write_all_loop fuel ptr bs)"

text \<open>
  Filling a \<open>BufWriter\<close> whose capacity is the size of all items and dropping it: with more than one
  item everything is written when the writer is dropped, and an error at that point is lost; a
  single item does not fit below the capacity and is written through.
\<close>

definition buffered_write :: "nat \<Rightarrow> u8 list list \<Rightarrow> ('x raw_file_scheme, io_err, unit) io" where
  "buffered_write ptr items = (if length items \<le> 1 then write_all ptr (concat items)
     else seq (attempt (write_all ptr (concat items))) (ret ()))"

declare read_exact_loop.simps [simp del] write_all_loop.simps [simp del]

subsection \<open>Contents, read and written\<close>

lemma length_slice [simp]: "length (bytes_at d off n) = n"
  by (simp add: bytes_at_def)

lemma nth_slice [simp]: "i < n \<Longrightarrow> bytes_at d off n ! i = d (off + i)"
  by (simp add: bytes_at_def)

lemma slice_cong: "(\<And>i. i < n \<Longrightarrow> d (off + i) = d' (off' + i)) \<Longrightarrow> bytes_at d off n = bytes_at d' off' n"
  by (rule nth_equalityI) simp_all

lemma slice_store: "bytes_at (store d off bs) off (length bs) = bs"
  by (rule nth_equalityI) (simp_all add: store_def)

lemma slice_append: "bytes_at d off (m + n) = bytes_at d off m @ bytes_at d (off + m) n"
  by (rule nth_equalityI) (auto simp: nth_append)

lemma take_slice: "take k (bytes_at d off n) = bytes_at d off (min k n)"
  by (rule nth_equalityI) simp_all

lemma drop_slice: "drop k (bytes_at d off n) = bytes_at d (off + k) (n - k)"
  by (rule nth_equalityI) (simp_all add: add.assoc)

lemma store_Nil [simp]: "store d off [] = d"
  by (rule ext) (auto simp: store_def)

lemma store_append: "store (store d off xs) (off + length xs) ys = store d off (xs @ ys)"
  by (rule ext) (auto simp: store_def nth_append)

subsection \<open>A host that completes every call\<close>

text \<open>
  Without direct I/O and with an empty script the file operations have plain equations; only the
  position moves besides what is written.
\<close>

definition quiet :: "'x raw_file_scheme \<Rightarrow> bool" where
  "quiet f \<longleftrightarrow> hf_script f = [] \<and> rf_alignment f = 0"

lemma next_event_quiet: "hf_script f = [] \<Longrightarrow> next_event f = (Ok Full, f)"
  by (simp add: next_event_def)

lemmas io_defs = bnd_def seq_def gets_def modify_def ret_def throw_def panic_def attempt_def

lemma raw_seek_eq: "pos < 2 ^ 63 \<Longrightarrow> raw_seek pos f = (Ok pos, f\<lparr>hf_pos := pos, rf_position := pos\<rparr>)"
  by (simp add: raw_seek_def file_seek_def io_defs)

lemma raw_read_eq:
  assumes "quiet f" "rf_position f + n < 2 ^ 64"
  shows "raw_read ptr n f = (let k = min n (hf_len f - hf_pos f) in
    (Ok (bytes_at (hf_data f) (hf_pos f) k), f\<lparr>hf_pos := hf_pos f + k, rf_position := rf_position f + k\<rparr>))"
  using assms by (simp add: quiet_def raw_read_def raw_is_aligned_def file_read_def next_event_quiet
      raw_advance_def io_defs Let_def)

lemma raw_write_eq:
  assumes "quiet f" "rf_position f + length bs < 2 ^ 64" "bs \<noteq> []"
  shows "raw_write ptr bs f = (Ok (length bs), f\<lparr>hf_data := store (hf_data f) (hf_pos f) bs,
    hf_len := max (hf_len f) (hf_pos f + length bs), hf_pos := hf_pos f + length bs,
    rf_position := rf_position f + length bs\<rparr>)"
  using assms by (simp add: quiet_def raw_write_def raw_is_aligned_def file_write_def next_event_quiet
      raw_advance_def put_bytes_def io_defs Let_def)

lemma read_exact_eq:
  assumes "quiet f" "rf_position f + n < 2 ^ 64" "hf_pos f + n \<le> hf_len f"
  shows "read_exact ptr n f =
    (Ok (bytes_at (hf_data f) (hf_pos f) n), f\<lparr>hf_pos := hf_pos f + n, rf_position := rf_position f + n\<rparr>)"
proof -
  have "read_exact_loop (Suc k) ptr n f =
    (Ok (bytes_at (hf_data f) (hf_pos f) n), f\<lparr>hf_pos := hf_pos f + n, rf_position := rf_position f + n\<rparr>)" for k
  proof (cases "n = 0")
    case True
    then show ?thesis by (simp add: read_exact_loop.simps ret_def bytes_at_def)
  next
    case False
    then have "bytes_at (hf_data f) (hf_pos f) n \<noteq> []"
      by (metis length_slice list.size(3))
    moreover have "min n (hf_len f - hf_pos f) = n" using assms(3) by simp
    ultimately show ?thesis
      using False raw_read_eq [OF assms(1,2), of ptr]
      by (simp add: read_exact_loop.simps [of "Suc k"] read_exact_loop.simps [of _ _ 0] io_defs Let_def)
  qed
  then show ?thesis by (simp add: read_exact_def io_defs)
qed

lemma read_exact_eof:
  assumes "quiet f" "rf_position f + n < 2 ^ 64" "hf_len f < hf_pos f + n" "0 < n"
  shows "\<exists>f'. read_exact ptr n f = (Err UnexpectedEof, f')"
proof -
  have eof: "hf_len g \<le> hf_pos g \<Longrightarrow> quiet g \<Longrightarrow> rf_position g + m < 2 ^ 64 \<Longrightarrow> 0 < m \<Longrightarrow>
      \<exists>f'. read_exact_loop (Suc k) q m g = (Err UnexpectedEof, f')" for q m k and g :: "'a raw_file_scheme"
    by (simp add: read_exact_loop.simps raw_read_eq io_defs Let_def bytes_at_def)
  show ?thesis
  proof (cases "hf_len f \<le> hf_pos f")
    case True
    then show ?thesis using eof [OF True assms(1,2,4)] by (simp add: read_exact_def io_defs)
  next
    case False
    let ?k = "hf_len f - hf_pos f"
    let ?g = "f\<lparr>hf_pos := hf_pos f + ?k, rf_position := rf_position f + ?k\<rparr>"
    have "quiet ?g" using assms(1) by (simp add: quiet_def)
    then obtain f' where r: "read_exact_loop (Suc (n + length (hf_script f) - 1)) (ptr + ?k) (n - ?k) ?g = (Err UnexpectedEof, f')"
      using eof [of ?g "n - ?k"] assms(2,3) False by fastforce
    have "bytes_at (hf_data f) (hf_pos f) ?k \<noteq> []" "min n ?k = ?k" "Suc (n + length (hf_script f) - 1) = n + length (hf_script f)"
      using False assms(3,4) by (auto simp: bytes_at_def)
    then show ?thesis
      using r raw_read_eq [OF assms(1,2), of ptr] assms(4)
      by (simp add: read_exact_def read_exact_loop.simps [of "Suc _"] io_defs Let_def del: read_exact_loop.simps)
  qed
qed

lemma write_all_eq:
  assumes "quiet f" "rf_position f + length bs < 2 ^ 64" "bs \<noteq> []"
  shows "write_all ptr bs f = (Ok (), f\<lparr>hf_data := store (hf_data f) (hf_pos f) bs,
    hf_len := max (hf_len f) (hf_pos f + length bs), hf_pos := hf_pos f + length bs,
    rf_position := rf_position f + length bs\<rparr>)"
  using assms raw_write_eq [OF assms, of ptr]
  by (simp add: write_all_def write_all_loop.simps [of "Suc _"] write_all_loop.simps [of _ _ "[]"] io_defs)

lemma buffered_write_eq:
  assumes "quiet f" "rf_position f + length (concat items) < 2 ^ 64" "concat items \<noteq> []"
  shows "buffered_write ptr items f = (Ok (), f\<lparr>hf_data := store (hf_data f) (hf_pos f) (concat items),
    hf_len := max (hf_len f) (hf_pos f + length (concat items)), hf_pos := hf_pos f + length (concat items),
    rf_position := rf_position f + length (concat items)\<rparr>)"
  using write_all_eq [OF assms] by (simp add: buffered_write_def io_defs)

subsection \<open>Direct I/O\<close>

text \<open>The rounding of the source is too small as soon as quotient and remainder exceed the alignment.\<close>

lemma raw_round_up_less:
  "raw_round_up a x < x \<longleftrightarrow> a < x div (a + 1) + x mod (a + 1)"
proof -
  have "x = x div (a + 1) * a + (x div (a + 1) + x mod (a + 1))"
    using div_mult_mod_eq [of x "a + 1"] by (simp add: algebra_simps)
  then show ?thesis unfolding raw_round_up_def by (simp add: algebra_simps) linarith
qed

lemma raw_round_down_eq: "raw_round_down a p = p - p mod a"
  by (simp add: raw_round_down_def minus_mod_eq_div_mult)

lemma raw_seek_current_eq:
  "hf_pos f + n < 2 ^ 63 \<Longrightarrow>
     raw_seek_current n f = (Ok (), f\<lparr>hf_pos := hf_pos f + n, rf_position := hf_pos f + n\<rparr>)"
  by (simp add: raw_seek_current_def raw_seek_eq io_defs)

lemma bounce_nth:
  "i < n \<Longrightarrow> bounce d pos (min n (len - pos)) n ! i = (if pos + i < len then d (pos + i) else 0)"
  by (auto simp: bounce_def nth_append)

lemma length_bounce [simp]: "got \<le> n \<Longrightarrow> length (bounce d pos got n) = n"
  by (simp add: bounce_def)

lemma store_bounce:
  assumes "fo + length buf \<le> n" "\<forall>i \<ge> len. d i = 0"
  shows "store d pos (write_at fo buf (bounce d pos (min n (len - pos)) n)) = store d (pos + fo) buf"
proof (rule ext)
  fix i
  have len: "length (write_at fo buf (bounce d pos (min n (len - pos)) n)) = n"
    using assms(1) by (simp add: length_write_at)
  have b: "d i = bounce d pos (min n (len - pos)) n ! (i - pos)" if "pos \<le> i" "i < pos + n"
    using bounce_nth [of "i - pos" n d pos len] that assms(2) by auto
  show "store d pos (write_at fo buf (bounce d pos (min n (len - pos)) n)) i = store d (pos + fo) buf i"
  proof (cases "pos \<le> i \<and> i < pos + n")
    case True
    then show ?thesis using assms(1) b by (auto simp: store_def len nth_write_at)
  next
    case False
    then show ?thesis using assms(1) by (auto simp: store_def len)
  qed
qed

definition direct_ready :: "'x raw_file_scheme \<Rightarrow> nat \<Rightarrow> nat \<Rightarrow> bool" where
  "direct_ready f p n \<longleftrightarrow> 0 < rf_alignment f \<and> hf_script f = [] \<and> hf_pos f = p \<and> rf_position f = p \<and>
     p + n < 2 ^ 63 \<and> (\<forall>i \<ge> hf_len f. hf_data f i = 0)"

lemma raw_write_direct:
  assumes "direct_ready f p (length buf)" "\<not> raw_is_aligned f ptr (length buf)" "rf_alignment f = a"
    "need = p mod a + length buf" "need \<le> raw_round_up a need"
  shows "raw_write ptr buf f = (Ok (length buf), f\<lparr>hf_data := store (hf_data f) p buf,
    hf_len := max (hf_len f) (p - p mod a + raw_round_up a need), hf_pos := p + length buf,
    rf_position := p + length buf\<rparr>)"
proof -
  have f: "hf_script f = []" "hf_pos f = p" "rf_position f = p" "p + length buf < 2 ^ 63" "0 < a"
    "\<forall>i \<ge> hf_len f. hf_data f i = 0"
    using assms(1,3) by (auto simp: direct_ready_def)
  define rp fo n' where d: "rp = p - p mod a" "fo = p mod a" "n' = raw_round_up a need"
  define tmp where tmp: "tmp = bounce (hf_data f) rp (min n' (hf_len f - rp)) n'"
  have off: "raw_round_down a p = rp" "p - rp = fo" "rp + fo = p" "p - p mod a = rp"
    by (simp_all add: d raw_round_down_eq)
  have need: "fo + length buf = need" "need \<le> n'" "raw_round_up a need = n'" using assms(4,5) by (simp_all add: d)
  have len: "length (write_at fo buf tmp) = n'" using need by (simp add: tmp length_write_at)
  have "0 < n'" using f(5) by (simp add: d raw_round_up_def)
  then have ne: "write_at fo buf tmp \<noteq> []" using len by fastforce
  have st: "store (hf_data f) rp (write_at fo buf tmp) = store (hf_data f) p buf"
    using store_bounce [of fo buf n' "hf_len f" "hf_data f" rp] need f(6) off(3) by (simp add: tmp)
  have k: "min (n' - fo) (length buf) = length buf" "\<not> n' < fo" "\<not> n' < need" using need by auto
  have "raw_write ptr buf f = seq (put_bytes rp (take n' (write_at fo buf tmp)))
      (seq (raw_seek_current (length buf)) (ret (length buf))) f"
    using assms(2) f(1,3) need(1,3) k(2,3)
    by (simp add: raw_write_def raw_pread_def assms(3) off tmp [symmetric] k(1) next_event_quiet io_defs Let_def)
  then show ?thesis using f(2,4) ne
    by (simp add: len put_bytes_def st need(3) off(4) raw_seek_current_eq io_defs)
qed

lemma raw_read_direct:
  assumes "direct_ready f p n" "\<not> raw_is_aligned f ptr n" "rf_alignment f = a"
    "need = p mod a + n" "need \<le> raw_round_up a need"
  shows "\<exists>g. raw_read ptr n f = (Ok (bytes_at (hf_data f) p (min n (hf_len f - p))), g)"
proof -
  have f: "hf_script f = []" "hf_pos f = p" "rf_position f = p" "p + n < 2 ^ 63" "0 < a"
    using assms(1,3) by (auto simp: direct_ready_def)
  define rp fo n' where d: "rp = p - p mod a" "fo = p mod a" "n' = raw_round_up a need"
  define got where got: "got = min n' (hf_len f - rp)"
  have off: "raw_round_down a p = rp" "p - rp = fo" "rp + fo = p" by (simp_all add: d raw_round_down_eq)
  have need: "fo + n = need" "need \<le> n'" "raw_round_up a need = n'" using assms(4,5) by (simp_all add: d)
  have k: "min (got - fo) n = min n (hf_len f - p)" "got < fo \<Longrightarrow> hf_len f \<le> p"
    using need off(3) by (auto simp: got)
  have b: "take (min n (hf_len f - p)) (drop fo (bounce (hf_data f) rp got n'))
      = bytes_at (hf_data f) p (min n (hf_len f - p))" (is "?l = ?r")
  proof (rule nth_equalityI)
    show "length ?l = length ?r" using need by (simp add: got)
    show "?l ! i = ?r ! i" if "i < length ?l" for i
      using that bounce_nth [of "fo + i" n' "hf_data f" rp "hf_len f"] need
      by (auto simp: got add.assoc [symmetric] off(3))
  qed
  have s: "hf_pos f + min n (hf_len f - p) < 2 ^ 63" using f(2,4) by simp
  have r: "raw_read ptr n f = (if got < fo then (Ok [], f)
      else seq (raw_seek_current (min (got - fo) n)) (ret (take (min (got - fo) n) (drop fo (bounce (hf_data f) rp got n')))) f)"
    using assms(2) f(1,3) need
    by (simp add: raw_read_def raw_pread_def assms(3) off got [symmetric] next_event_quiet io_defs Let_def)
  show ?thesis
  proof (cases "got < fo")
    case True
    then show ?thesis using k(2) by (simp add: r bytes_at_def)
  next
    case False
    then show ?thesis by (simp only: r k(1) b if_False) (simp add: raw_seek_current_eq [OF s] io_defs)
  qed
qed

text \<open>C39. Direct I/O through the bounce buffer: an unaligned write panics exactly when the rounded
  length is too small for the bytes, which happens from twice the alignment plus one on; otherwise
  it writes exactly the bytes given, may extend the file up to the rounded end, and the bytes are
  read back at the same position.\<close>

theorem raw_file_direct_io:
  assumes "direct_ready f p (length buf)" "\<not> raw_is_aligned f ptr (length buf)" "rf_alignment f = a"
    "need = p mod a + length buf" "raw_write ptr buf f = (r, g)"
  shows "(r = Panic \<longleftrightarrow> a < need div (a + 1) + need mod (a + 1)) \<and>
    (need \<le> 2 * a \<longrightarrow> r \<noteq> Panic) \<and> (need = 2 * a + 1 \<longrightarrow> r = Panic) \<and>
    (r \<noteq> Panic \<longrightarrow> r = Ok (length buf) \<and> hf_data g = store (hf_data f) p buf \<and>
       hf_len g = max (hf_len f) (p - p mod a + raw_round_up a need) \<and>
       (\<exists>g'. raw_read ptr (length buf) (g\<lparr>hf_pos := p, rf_position := p\<rparr>) = (Ok buf, g')))"
proof -
  have a: "0 < a" "hf_script f = []" "rf_position f = p" using assms(1,3) by (auto simp: direct_ready_def)
  have off: "p - (p - p mod a) = p mod a" by simp
  have pan: "raw_round_up a need < need \<Longrightarrow> r = Panic"
    using assms(2,5) a by (simp add: raw_write_def raw_pread_def raw_round_down_eq assms(3) off
        assms(4) [symmetric] next_event_quiet io_defs Let_def)
  have ok: "r = Ok (length buf) \<and> hf_data g = store (hf_data f) p buf \<and>
       hf_len g = max (hf_len f) (p - p mod a + raw_round_up a need) \<and>
       (\<exists>g'. raw_read ptr (length buf) (g\<lparr>hf_pos := p, rf_position := p\<rparr>) = (Ok buf, g'))"
    if need: "\<not> raw_round_up a need < need"
  proof -
    note w = raw_write_direct [OF assms(1-4)]
    let ?g = "g\<lparr>hf_pos := p, rf_position := p\<rparr>"
    have up: "need \<le> raw_round_up a need" using need by simp
    have g: "r = Ok (length buf)" "hf_data g = store (hf_data f) p buf"
      "hf_len g = max (hf_len f) (p - p mod a + raw_round_up a need)" "hf_script g = []" "rf_alignment g = a"
      using w [OF up] assms(3,5) a(2) by auto
    have le: "p + length buf \<le> hf_len g" using g(3) up assms(4) mod_less_eq_dividend [of p a] by linarith
    have "direct_ready ?g p (length buf)"
      using assms(1) g le a(1) by (auto simp: direct_ready_def store_def)
    moreover have "\<not> raw_is_aligned ?g ptr (length buf)"
      using assms(2) g(5) a(3) assms(3) by (simp add: raw_is_aligned_def)
    ultimately obtain g' where "raw_read ptr (length buf) ?g = (Ok (bytes_at (hf_data g) p (min (length buf) (hf_len g - p))), g')"
      using raw_read_direct [of ?g p "length buf" ptr a need] g(5) assms(4) up by auto
    moreover have "min (length buf) (hf_len g - p) = length buf" using le by simp
    ultimately show ?thesis using g(1-3) by (auto simp: slice_store)
  qed
  have "need div (a + 1) = 1" if "a < need" "need \<le> 2 * a" using that by (intro div_nat_eqI) simp_all
  then have small: "need \<le> 2 * a \<Longrightarrow> \<not> raw_round_up a need < need"
    by (cases "need \<le> a") (simp_all add: raw_round_up_def)
  have "(2 * a + 1) div (a + 1) = 1" "(2 * a + 1) mod (a + 1) = a"
    by (auto simp: div_nat_eqI mod_nat_eqI)
  then have big: "need = 2 * a + 1 \<Longrightarrow> raw_round_up a need < need" by (simp add: raw_round_up_less)
  show ?thesis using pan ok small big raw_round_up_less [of a need] by auto
qed

definition demo_direct :: raw_file where
  "demo_direct = \<lparr>hf_data = (\<lambda>_. 0), hf_len = 4096, hf_pos = 512, hf_script = [], rf_alignment = 512, rf_position = 512\<rparr>"

theorem raw_file_direct_io_witness:
  "fst (raw_write 0 (replicate 1025 7) demo_direct) = Panic \<and>
   fst (raw_write 0 (replicate 1000 7) demo_direct) = Ok 1000"
proof -
  have r: "direct_ready demo_direct 512 n" if "n < 2000" for n
    using that by (simp add: direct_ready_def demo_direct_def)
  have al: "\<not> raw_is_aligned demo_direct 0 1025" "\<not> raw_is_aligned demo_direct 0 1000" "rf_alignment demo_direct = 512"
    by (simp_all add: raw_is_aligned_def demo_direct_def)
  have panics: "fst (raw_write 0 buf demo_direct) = Panic" if len: "length buf = 1025" for buf
  proof -
    obtain g r where e: "raw_write 0 buf demo_direct = (r, g)" by (rule prod.exhaust)
    have "1025 = 512 mod 512 + length buf" by (simp add: len)
    from raw_file_direct_io [OF _ _ al(3) this e, unfolded len, OF r al(1)] have "r = Panic" by simp
    then show ?thesis by (simp add: e)
  qed
  have returns: "fst (raw_write 0 buf demo_direct) = Ok 1000" if len: "length buf = 1000" for buf
  proof -
    obtain g r where e: "raw_write 0 buf demo_direct = (r, g)" by (rule prod.exhaust)
    have "1000 = 512 mod 512 + length buf" by (simp add: len)
    from raw_file_direct_io [OF _ _ al(3) this e, unfolded len, OF r al(2)] have "r = Ok 1000" by simp
    then show ?thesis by (simp add: e)
  qed
  show ?thesis by (intro conjI panics returns length_replicate)
qed

end
