(* ===== verification/Qcow_Tables.thy ===== *)
theory Qcow_Tables
  imports Raw_File "HOL-Library.AList"
begin

text \<open>
  The tables of a qcow image: \<^verbatim>\<open>src/qcow/src/qcow_raw_file.rs\<close> (big-endian tables in the image file,
  allocation at its end) and \<^verbatim>\<open>src/qcow/src/vec_cache.rs\<close> (tables cached in memory).  Offsets are
  natural numbers: the entries of the L1 and L2 tables are masked below \<open>2^56\<close> when they are read and
  the size of the disk is limited on opening.  The addresses of the blocks of counts are neither masked
  nor checked by the source; the invariants of the later theories confine them to the file.
  What is not part of the repository is an argument: the byte order conversions, the operations of
  \<open>vmm_sys_util\<close> that write zeros and punch holes, the addresses of buffers and the order in which
  a hash map iterates over its keys.
\<close>

subsection \<open>Environment\<close>

type_synonym contents = "(nat \<Rightarrow> u8) \<times> nat"

record qcow_env =
  qe_be :: le_codec
  qe_buf :: nat
  qe_pick :: "nat list \<Rightarrow> nat"
  qe_zero :: "nat \<Rightarrow> nat \<Rightarrow> contents \<Rightarrow> (io_err + nat) \<times> contents"
  qe_punch :: "nat \<Rightarrow> nat \<Rightarrow> contents \<Rightarrow> (io_err + unit) \<times> contents"

text \<open>
  What the image code relies on: the conversions round trip, writing zeros writes zeros, and a
  punched hole reads as zeros within an unchanged length, or the call fails and changes nothing.
\<close>

definition env_ok :: "qcow_env \<Rightarrow> bool" where
  "env_ok E \<longleftrightarrow> codec_ok (qe_be E) \<and>
     (\<forall>off n d l. qe_zero E off n (d, l) = (Inr n, (zeroed d off n, max l (off + n)))) \<and>
     (\<forall>off n d l. (\<exists>e. qe_punch E off n (d, l) = (Inl e, (d, l))) \<or> qe_punch E off n (d, l) = (Inr (), (zeroed d off n, l)))"

definition on_contents :: "(contents \<Rightarrow> (io_err + 'a) \<times> contents) \<Rightarrow> ('x host_file_scheme, io_err, 'a) io" where
  "on_contents g f = (case g (hf_data f, hf_len f) of (r, (d, l)) \<Rightarrow>
     ((case r of Inl e \<Rightarrow> Err e | Inr x \<Rightarrow> Ok x), f\<lparr>hf_data := d, hf_len := l\<rparr>))"

subsection \<open>QcowRawFile\<close>

record qcow_raw_file = raw_file +
  qr_cluster_size :: nat
  qr_cluster_mask :: nat

definition qcow_raw_from :: "raw_file \<Rightarrow> nat \<Rightarrow> qcow_raw_file option" where
  "qcow_raw_from file cluster_size = (if length (filter (bit cluster_size) [0..<64]) \<noteq> 1 then None
     else Some (raw_file.extend file (qcow_raw_file.fields cluster_size (cluster_size - 1))))"

text \<open>\<open>read_u64_into\<close> and \<open>read_u16_into\<close> convert item by item.\<close>

definition u64s :: "le_codec \<Rightarrow> nat \<Rightarrow> u8 list \<Rightarrow> u64 list" where
  "u64s C n bs = map (\<lambda>i. read_u64 C (drop (8 * i) bs)) [0..<n]"

definition u16s :: "le_codec \<Rightarrow> nat \<Rightarrow> u8 list \<Rightarrow> u16 list" where
  "u16s C n bs = map (\<lambda>i. read_u16 C (drop (2 * i) bs)) [0..<n]"

definition mask_entry :: "u64 option \<Rightarrow> u64 \<Rightarrow> nat" where
  "mask_entry msk e = unat (case msk of Some m \<Rightarrow> e AND m | None \<Rightarrow> e)"

definition read_pointer_table ::
    "qcow_env \<Rightarrow> nat \<Rightarrow> nat \<Rightarrow> u64 option \<Rightarrow> (qcow_raw_file, io_err, nat list) io" where
  "read_pointer_table E offset count msk = seq (raw_seek offset)
     (bnd (read_exact (qe_buf E) (8 * count)) (\<lambda>bs. ret (map (mask_entry msk) (u64s (qe_be E) count bs))))"

definition read_pointer_cluster :: "qcow_env \<Rightarrow> nat \<Rightarrow> u64 option \<Rightarrow> (qcow_raw_file, io_err, nat list) io" where
  "read_pointer_cluster E offset msk =
     bnd (gets qr_cluster_size) (\<lambda>cs. read_pointer_table E offset (cs div 8) msk)"

definition pointer_item :: "le_codec \<Rightarrow> u64 \<Rightarrow> nat \<Rightarrow> u8 list" where
  "pointer_item C non_zero_flags addr = enc_u64 C (if addr = 0 then 0 else of_nat addr OR non_zero_flags)"

definition write_pointer_table :: "qcow_env \<Rightarrow> nat \<Rightarrow> nat list \<Rightarrow> u64 \<Rightarrow> (qcow_raw_file, io_err, unit) io" where
  "write_pointer_table E offset table non_zero_flags = seq (raw_seek offset)
     (buffered_write (qe_buf E) (map (pointer_item (qe_be E) non_zero_flags) table))"

definition read_refcount_block :: "qcow_env \<Rightarrow> nat \<Rightarrow> (qcow_raw_file, io_err, u16 list) io" where
  "read_refcount_block E offset = bnd (gets qr_cluster_size) (\<lambda>cs. seq (raw_seek offset)
     (bnd (read_exact (qe_buf E) (2 * (cs div 2))) (\<lambda>bs. ret (u16s (qe_be E) (cs div 2) bs))))"

definition write_refcount_block :: "qcow_env \<Rightarrow> nat \<Rightarrow> u16 list \<Rightarrow> (qcow_raw_file, io_err, unit) io" where
  "write_refcount_block E offset table = seq (raw_seek offset)
     (buffered_write (qe_buf E) (map (enc_u16 (qe_be E)) table))"

text \<open>\<open>(file_end + self.cluster_size - 1) & !self.cluster_mask\<close>, on 64 bits.\<close>

definition next_cluster :: "nat \<Rightarrow> nat \<Rightarrow> nat \<Rightarrow> nat" where
  "next_cluster file_end cs m = unat ((of_nat (file_end + cs - 1) :: u64) AND NOT (of_nat m))"

definition add_cluster_end :: "nat \<Rightarrow> (qcow_raw_file, io_err, nat option) io" where
  "add_cluster_end max_valid_cluster_offset = bnd raw_seek_end (\<lambda>file_end. bnd (gets id) (\<lambda>f.
     let new_cluster_address = next_cluster file_end (qr_cluster_size f) (qr_cluster_mask f)
     in if new_cluster_address > max_valid_cluster_offset then ret None
        else seq (file_set_len (new_cluster_address + qr_cluster_size f)) (ret (Some new_cluster_address))))"

definition cluster_offset :: "qcow_raw_file \<Rightarrow> nat \<Rightarrow> nat" where
  "cluster_offset f address = address AND qr_cluster_mask f"

text \<open>\<open>write_zeroes\<close> zeroes from the position of the file and then advances it, as a write would.\<close>

definition zero_cluster :: "qcow_env \<Rightarrow> nat \<Rightarrow> (qcow_raw_file, io_err, unit) io" where
  "zero_cluster E address = seq (raw_seek address) (bnd (gets id) (\<lambda>f.
     bnd (on_contents (qe_zero E (hf_pos f) (qr_cluster_size f))) (\<lambda>n. seq (raw_seek (hf_pos f + n)) (ret ()))))"

subsection \<open>VecCache and CacheMap\<close>

record 'a vec_cache =
  vc_vec :: "'a list"
  vc_dirty :: bool

definition vec_cache_new :: "nat \<Rightarrow> 'a::zero vec_cache" where
  "vec_cache_new count = \<lparr>vc_vec = replicate count 0, vc_dirty = True\<rparr>"

definition vec_cache_from_vec :: "'a list \<Rightarrow> 'a vec_cache" where
  "vec_cache_from_vec v = \<lparr>vc_vec = v, vc_dirty = False\<rparr>"

definition mark_clean :: "'a vec_cache \<Rightarrow> 'a vec_cache" where
  "mark_clean v = v\<lparr>vc_dirty := False\<rparr>"

text \<open>\<open>IndexMut\<close>: the entry changes and the table becomes dirty; out of range it panics.\<close>

definition vec_set :: "nat \<Rightarrow> 'a \<Rightarrow> 'a vec_cache \<Rightarrow> 'a vec_cache" where
  "vec_set i x v = v\<lparr>vc_vec := (vc_vec v)[i := x], vc_dirty := True\<rparr>"

definition vec_in :: "nat \<Rightarrow> 'a vec_cache \<Rightarrow> bool" where
  "vec_in i v \<longleftrightarrow> i < length (vc_vec v)"

record 'a cache_map =
  cm_capacity :: nat
  cm_map :: "(nat \<times> 'a vec_cache) list"

definition cache_map_new :: "nat \<Rightarrow> 'a cache_map" where
  "cache_map_new capacity = \<lparr>cm_capacity = capacity, cm_map = []\<rparr>"

definition cm_get :: "'a cache_map \<Rightarrow> nat \<Rightarrow> 'a vec_cache option" where
  "cm_get c = map_of (cm_map c)"

definition cm_put :: "nat \<Rightarrow> 'a vec_cache \<Rightarrow> 'a cache_map \<Rightarrow> 'a cache_map" where
  "cm_put i v c = c\<lparr>cm_map := AList.update i v (cm_map c)\<rparr>"

definition cm_remove :: "nat \<Rightarrow> 'a cache_map \<Rightarrow> 'a cache_map" where
  "cm_remove i c = c\<lparr>cm_map := AList.delete i (cm_map c)\<rparr>"

text \<open>
  \<open>CacheMap::insert\<close>: a full map evicts the first key its iterator yields, and a dirty table is
  handed to the write callback; when the callback fails the evicted table is gone.  The state is the
  cache together with the file.
\<close>

definition cm_insert ::
    "(nat list \<Rightarrow> nat) \<Rightarrow> (nat \<Rightarrow> 'a vec_cache \<Rightarrow> ('f, io_err, unit) io) \<Rightarrow> nat \<Rightarrow> 'a vec_cache \<Rightarrow>
     ('a cache_map \<times> 'f, io_err, unit) io" where
  "cm_insert pick write_callback i block = bnd (gets fst) (\<lambda>c.
     seq (if length (cm_map c) = cm_capacity c then
            (if cm_map c = [] then panic
             else
               let to_evict = pick (map fst (cm_map c))
               in case cm_get c to_evict of
                    None \<Rightarrow> ret ()
                  | Some evicted \<Rightarrow> seq (modify (\<lambda>(c, f). (cm_remove to_evict c, f)))
                      (if vc_dirty evicted then zoom snd (\<lambda>f (c, _). (c, f)) (write_callback to_evict evicted)
                       else ret ()))
          else ret ())
       (modify (\<lambda>(c, f). (cm_put i block c, f))))"

subsection \<open>Bytes of tables\<close>

lemma env_okD:
  assumes "env_ok E"
  shows "codec_ok (qe_be E)" "qe_zero E off n (d, l) = (Inr n, (zeroed d off n, max l (off + n)))"
    "(\<exists>e. qe_punch E off n (d, l) = (Inl e, (d, l))) \<or> qe_punch E off n (d, l) = (Inr (), (zeroed d off n, l))"
  using assms by (simp_all add: env_ok_def)

lemma length_concat_items: "(\<And>x. length (g x) = k) \<Longrightarrow> length (concat (map g xs)) = k * length xs"
  by (induction xs) simp_all

lemma drop_concat_items:
  assumes "\<And>x. length (g x) = k"
  shows "drop (k * i) (concat (map g xs)) = concat (map g (drop i xs))"
proof (induction i arbitrary: xs)
  case (Suc i)
  show ?case
  proof (cases xs)
    case (Cons x ys)
    then show ?thesis using Suc.IH [of ys] by (simp add: assms)
  qed simp
qed simp

lemma take_drop_concat_items:
  assumes "\<And>x. length (g x) = k" "i < length xs"
  shows "take k (drop (k * i) (concat (map g xs))) = g (xs ! i)"
  using assms by (simp add: drop_concat_items Cons_nth_drop_Suc [symmetric])

lemma u64s_items:
  assumes "codec_ok C"
  shows "u64s C (length vs) (concat (map (enc_u64 C) vs)) = vs"
proof (rule nth_equalityI)
  fix i assume "i < length (u64s C (length vs) (concat (map (enc_u64 C) vs)))"
  then have i: "i < length vs" by (simp add: u64s_def)
  have "read_u64 C (enc_u64 C (vs ! i)) = vs ! i" using assms by (simp add: codec_ok_def)
  then show "u64s C (length vs) (concat (map (enc_u64 C) vs)) ! i = vs ! i"
    using i assms by (simp add: u64s_def codec_take(3) [OF assms, of "drop _ _"] take_drop_concat_items codec_lens)
qed (simp add: u64s_def)

lemma u16s_items:
  assumes "codec_ok C"
  shows "u16s C (length vs) (concat (map (enc_u16 C) vs)) = vs"
proof (rule nth_equalityI)
  fix i assume "i < length (u16s C (length vs) (concat (map (enc_u16 C) vs)))"
  then have i: "i < length vs" by (simp add: u16s_def)
  have "read_u16 C (enc_u16 C (vs ! i)) = vs ! i" using assms by (simp add: codec_ok_def)
  then show "u16s C (length vs) (concat (map (enc_u16 C) vs)) ! i = vs ! i"
    using i assms by (simp add: u16s_def codec_take(1) [OF assms, of "drop _ _"] take_drop_concat_items codec_lens)
qed (simp add: u16s_def)

lemma length_u64s [simp]: "length (u64s C n bs) = n"
  by (simp add: u64s_def)

lemma length_u16s [simp]: "length (u16s C n bs) = n"
  by (simp add: u16s_def)

definition pointer_bytes :: "le_codec \<Rightarrow> u64 \<Rightarrow> nat list \<Rightarrow> u8 list" where
  "pointer_bytes C fl t = concat (map (pointer_item C fl) t)"

definition count_bytes :: "le_codec \<Rightarrow> u16 list \<Rightarrow> u8 list" where
  "count_bytes C t = concat (map (enc_u16 C) t)"

lemma length_pointer_bytes: "codec_ok C \<Longrightarrow> length (pointer_bytes C fl t) = 8 * length t"
  by (simp add: pointer_bytes_def pointer_item_def length_concat_items codec_lens)

lemma length_count_bytes: "codec_ok C \<Longrightarrow> length (count_bytes C t) = 2 * length t"
  by (simp add: count_bytes_def length_concat_items codec_lens)

lemma u64s_pointer_bytes:
  "codec_ok C \<Longrightarrow> u64s C (length t) (pointer_bytes C fl t) = map (\<lambda>a. if a = 0 then 0 else of_nat a OR fl) t"
  using u64s_items [of C "map (\<lambda>a. if a = 0 then 0 else of_nat a OR fl) t"]
  by (simp add: pointer_bytes_def pointer_item_def [abs_def] comp_def)

subsection \<open>Table accesses on a quiet file\<close>

definition at_pos :: "nat \<Rightarrow> 'x raw_file_scheme \<Rightarrow> 'x raw_file_scheme" where
  "at_pos p f = f\<lparr>hf_pos := p, rf_position := p\<rparr>"

lemma at_pos_simps [simp]:
  "hf_data (at_pos p f) = hf_data f" "hf_len (at_pos p f) = hf_len f" "quiet (at_pos p f) = quiet f"
  "qr_cluster_size (at_pos p g) = qr_cluster_size g" "qr_cluster_mask (at_pos p g) = qr_cluster_mask g"
  "hf_pos (at_pos p f) = p" "rf_position (at_pos p f) = p" "at_pos p (at_pos p' f) = at_pos p f"
  "at_pos p f\<lparr>hf_data := d\<rparr> = at_pos p (f\<lparr>hf_data := d\<rparr>)"
  by (simp_all add: at_pos_def quiet_def)

lemma quiet_simps [simp]:
  "quiet (f\<lparr>hf_data := d\<rparr>) = quiet f" "quiet (f\<lparr>hf_len := l\<rparr>) = quiet f"
  by (simp_all add: quiet_def)

text \<open>Files of the same shape differ at most in contents and position.\<close>

definition same_shape :: "qcow_raw_file \<Rightarrow> qcow_raw_file \<Rightarrow> bool" where
  "same_shape f g \<longleftrightarrow> hf_len g = hf_len f \<and> quiet g = quiet f \<and>
     qr_cluster_size g = qr_cluster_size f \<and> qr_cluster_mask g = qr_cluster_mask f"

lemma same_shape_at_pos [simp]: "same_shape f (at_pos p (f\<lparr>hf_data := d\<rparr>))" "same_shape f f" "same_shape f (at_pos p f)"
  by (simp_all add: same_shape_def)

lemma read_at_eq:
  assumes "quiet f" "off + n \<le> hf_len f" "hf_len f < 2 ^ 63"
  shows "seq (raw_seek off) (read_exact ptr n) f = (Ok (bytes_at (hf_data f) off n), at_pos (off + n) f)"
proof -
  have "quiet (f\<lparr>hf_pos := off, rf_position := off\<rparr>)" using assms(1) by (simp add: quiet_def)
  then show ?thesis using assms(2,3)
    by (simp add: seq_def bnd_def raw_seek_eq read_exact_eq at_pos_def)
qed

lemma read_pointer_table_eq:
  assumes "quiet f" "off + 8 * n \<le> hf_len f" "hf_len f < 2 ^ 63"
  shows "read_pointer_table E off n msk f =
    (Ok (map (mask_entry msk) (u64s (qe_be E) n (bytes_at (hf_data f) off (8 * n)))), at_pos (off + 8 * n) f)"
  using read_at_eq [OF assms, of "qe_buf E"]
  by (simp add: read_pointer_table_def seq_def bnd_def ret_def split: prod.splits outcome.splits)

lemma read_refcount_block_eq:
  assumes "quiet f" "off + 2 * (qr_cluster_size f div 2) \<le> hf_len f" "hf_len f < 2 ^ 63"
  shows "read_refcount_block E off f =
    (let n = qr_cluster_size f div 2 in (Ok (u16s (qe_be E) n (bytes_at (hf_data f) off (2 * n))), at_pos (off + 2 * n) f))"
  using read_at_eq [OF assms, of "qe_buf E"]
  by (simp add: read_refcount_block_def Let_def seq_def bnd_def ret_def gets_def split: prod.splits outcome.splits)

lemma write_at_eq:
  assumes "quiet f" "off + length (concat items) \<le> hf_len f" "hf_len f < 2 ^ 63" "concat items \<noteq> []"
  shows "seq (raw_seek off) (buffered_write ptr items) f =
    (Ok (), at_pos (off + length (concat items)) (f\<lparr>hf_data := store (hf_data f) off (concat items)\<rparr>))"
proof -
  have "quiet (f\<lparr>hf_pos := off, rf_position := off\<rparr>)" using assms(1) by (simp add: quiet_def)
  moreover have "max (hf_len f) (off + length (concat items)) = hf_len f" using assms(2) by (rule max_absorb1)
  ultimately show ?thesis using assms(2-4)
    by (simp add: seq_def bnd_def raw_seek_eq buffered_write_eq at_pos_def)
qed

lemma write_pointer_table_eq:
  assumes "quiet f" "codec_ok (qe_be E)" "off + 8 * length t \<le> hf_len f" "hf_len f < 2 ^ 63" "t \<noteq> []"
  shows "write_pointer_table E off t fl f =
    (Ok (), at_pos (off + 8 * length t) (f\<lparr>hf_data := store (hf_data f) off (pointer_bytes (qe_be E) fl t)\<rparr>))"
proof -
  have l: "length (concat (map (pointer_item (qe_be E) fl) t)) = 8 * length t"
    using length_pointer_bytes [OF assms(2)] by (simp add: pointer_bytes_def)
  then have "concat (map (pointer_item (qe_be E) fl) t) \<noteq> []" using assms(5) by fastforce
  then show ?thesis using write_at_eq [OF assms(1) _ assms(4), of off "map (pointer_item (qe_be E) fl) t"] l assms(3)
    by (simp add: write_pointer_table_def pointer_bytes_def)
qed

lemma write_refcount_block_eq:
  assumes "quiet f" "codec_ok (qe_be E)" "off + 2 * length t \<le> hf_len f" "hf_len f < 2 ^ 63" "t \<noteq> []"
  shows "write_refcount_block E off t f =
    (Ok (), at_pos (off + 2 * length t) (f\<lparr>hf_data := store (hf_data f) off (count_bytes (qe_be E) t)\<rparr>))"
proof -
  have l: "length (concat (map (enc_u16 (qe_be E)) t)) = 2 * length t"
    using length_count_bytes [OF assms(2)] by (simp add: count_bytes_def)
  then have "concat (map (enc_u16 (qe_be E)) t) \<noteq> []" using assms(5) by fastforce
  then show ?thesis using write_at_eq [OF assms(1) _ assms(4), of off "map (enc_u16 (qe_be E)) t"] l assms(3)
    by (simp add: write_refcount_block_def count_bytes_def)
qed

lemma unat_push_drop: "unat (push_bit k (drop_bit k w)) = unat w div 2 ^ k * 2 ^ k" for w :: u64
proof -
  have l: "unat w < 2 ^ 64" using unat_lt_2p [of w] by simp
  have "unat (push_bit k (drop_bit k w)) = take_bit 64 (take_bit 64 (unat w) div 2 ^ k * 2 ^ k)"
    unfolding unsigned_push_bit_eq unsigned_drop_bit_eq by (simp add: push_bit_eq_mult drop_bit_eq_div)
  also have "\<dots> = take_bit 64 (unat w div 2 ^ k * 2 ^ k)" using l by (simp add: take_bit_nat_eq_self)
  also have "\<dots> = unat w div 2 ^ k * 2 ^ k"
    by (rule take_bit_nat_eq_self) (rule le_less_trans [OF _ l], simp)
  finally show ?thesis .
qed

lemma next_cluster_eq:
  assumes "file_end + 2 ^ k < 2 ^ 64" "k < 64"
  shows "next_cluster file_end (2 ^ k) (2 ^ k - 1) = (file_end + 2 ^ k - 1) div 2 ^ k * 2 ^ k"
proof -
  let ?w = "of_nat (file_end + 2 ^ k - 1) :: u64"
  have u: "unat ?w = file_end + 2 ^ k - 1" using assms(1) by (simp add: unat_of_nat_small)
  have m: "of_nat (2 ^ k - 1) = (mask k :: u64)" by (simp add: mask_eq_exp_minus_1 of_nat_diff)
  have "?w AND NOT (mask k) = push_bit k (drop_bit k ?w)"
    by (rule bit_word_eqI) (auto simp: bit_simps)
  then show ?thesis unfolding next_cluster_def m by (simp only: unat_push_drop u)
qed

subsection \<open>Cache maps\<close>

lemma cm_get_put [simp]: "cm_get (cm_put i v c) j = (if j = i then Some v else cm_get c j)"
  by (simp add: cm_get_def cm_put_def update_conv')

lemma cm_get_remove [simp]: "cm_get (cm_remove i c) j = (if j = i then None else cm_get c j)"
  by (simp add: cm_get_def cm_remove_def delete_conv')

lemma cm_capacity_simps [simp]: "cm_capacity (cm_put i v c) = cm_capacity c" "cm_capacity (cm_remove i c) = cm_capacity c"
  by (simp_all add: cm_put_def cm_remove_def)

lemma cm_get_keys: "cm_get c i \<noteq> None \<longleftrightarrow> i \<in> set (map fst (cm_map c))"
  by (force simp: cm_get_def map_of_eq_None_iff)

text \<open>
  An insertion writes at most one cached table to the file, one that was dirty, and drops it from
  the cache; apart from that the new table is added.
\<close>

lemma cm_insert_cases:
  assumes "0 < cm_capacity c"
    "\<And>k v. cm_get c k = Some v \<Longrightarrow> vc_dirty v \<Longrightarrow> wb k v f = (Ok (), g k v)"
  obtains f' c' where "cm_insert pick wb i block (c, f) = (Ok (), (cm_put i block c', f'))"
    "cm_capacity c' = cm_capacity c"
    "c' = c \<and> f' = f \<or> (\<exists>k v. cm_get c k = Some v \<and> c' = cm_remove k c \<and> f' = (if vc_dirty v then g k v else f))"
proof -
  have "\<exists>f' c'. cm_insert pick wb i block (c, f) = (Ok (), (cm_put i block c', f')) \<and>
    cm_capacity c' = cm_capacity c \<and>
    (c' = c \<and> f' = f \<or> (\<exists>k v. cm_get c k = Some v \<and> c' = cm_remove k c \<and> f' = (if vc_dirty v then g k v else f)))"
  proof (cases "length (cm_map c) = cm_capacity c")
    case False
    then show ?thesis by (auto simp: cm_insert_def bnd_def seq_def gets_def modify_def ret_def)
  next
    case True
    let ?k = "pick (map fst (cm_map c))"
    have ne: "cm_map c \<noteq> []" using True assms(1) by auto
    show ?thesis
    proof (cases "cm_get c ?k")
      case None
      then show ?thesis using True ne
        by (auto simp: cm_insert_def Let_def bnd_def seq_def gets_def modify_def ret_def)
    next
      case (Some v)
      have w: "vc_dirty v \<Longrightarrow> wb ?k v f = (Ok (), g ?k v)" using assms(2) [OF Some] .
      have "cm_insert pick wb i block (c, f) = (Ok (), (cm_put i block (cm_remove ?k c), if vc_dirty v then g ?k v else f))"
        using True ne Some w
        by (simp add: cm_insert_def Let_def bnd_def seq_def gets_def modify_def ret_def zoom_def)
      then show ?thesis using Some by (intro exI conjI disjI2) (assumption, simp_all)
    qed
  qed
  then show ?thesis using that by blast
qed

subsection \<open>Tables behind a cache\<close>

text \<open>
  The table with index \<open>i\<close> lives in the cluster \<open>ptr i\<close> of the file unless it is cached.  What a user
  of the cache sees is \<open>table_view\<close>; a clean cached table agrees with its cluster.
\<close>

definition table_view ::
    "(u8 list \<Rightarrow> 'a list option) \<Rightarrow> nat \<Rightarrow> (nat \<Rightarrow> u8) \<Rightarrow> (nat \<Rightarrow> nat) \<Rightarrow> 'a cache_map \<Rightarrow> nat \<Rightarrow> 'a list option" where
  "table_view parse n d ptr c i = (case cm_get c i of Some v \<Rightarrow> Some (vc_vec v) | None \<Rightarrow> parse (bytes_at d (ptr i) n))"

definition tables_synced ::
    "(u8 list \<Rightarrow> 'a list option) \<Rightarrow> nat \<Rightarrow> (nat \<Rightarrow> u8) \<Rightarrow> (nat \<Rightarrow> nat) \<Rightarrow> 'a cache_map \<Rightarrow> bool" where
  "tables_synced parse n d ptr c \<longleftrightarrow>
     (\<forall>i v. cm_get c i = Some v \<longrightarrow> \<not> vc_dirty v \<longrightarrow> parse (bytes_at d (ptr i) n) = Some (vc_vec v))"

definition within :: "nat \<Rightarrow> nat \<Rightarrow> nat \<Rightarrow> bool" where
  "within n c x \<longleftrightarrow> c \<le> x \<and> x < c + n"

text \<open>Aligned clusters with different addresses have no byte in common.\<close>

lemma cluster_apart:
  assumes "(n :: nat) dvd a" "n dvd b" "a \<noteq> b"
  shows "a + n \<le> b \<or> b + n \<le> a"
proof -
  have "u * n + n \<le> v * n \<or> v * n + n \<le> u * n" if "u \<noteq> v" for u v
  proof -
    have "Suc u \<le> v \<or> Suc v \<le> u" using that by auto
    then have "Suc u * n \<le> v * n \<or> Suc v * n \<le> u * n" by (meson mult_le_mono1)
    then show ?thesis by (simp add: add.commute)
  qed
  moreover obtain u v where "a = u * n" "b = v * n" using assms(1,2) by (metis dvd_div_mult_self)
  ultimately show ?thesis using assms(3) by auto
qed

lemma cluster_apart_within:
  "n dvd a \<Longrightarrow> n dvd b \<Longrightarrow> within n a x \<Longrightarrow> within n b x \<Longrightarrow> a = b"
  using cluster_apart [of n a b] by (auto simp: within_def)

text \<open>
  Tables whose addresses are the non-zero entries of \<open>ptrs\<close>: they lie in distinct clusters inside the
  file, cached tables belong to such entries and are valid, and clean ones agree with the file.
\<close>

definition tables_ok ::
    "(u8 list \<Rightarrow> 'a list option) \<Rightarrow> (nat \<Rightarrow> 'a list \<Rightarrow> bool) \<Rightarrow> nat list \<Rightarrow> 'a cache_map \<Rightarrow> qcow_raw_file \<Rightarrow> bool" where
  "tables_ok parse valid ptrs c f \<longleftrightarrow> quiet f \<and> hf_len f < 2 ^ 63 \<and> 0 < qr_cluster_size f \<and> 0 < cm_capacity c \<and>
     (\<forall>t v. cm_get c t = Some v \<longrightarrow> t < length ptrs \<and> ptrs ! t \<noteq> 0 \<and> valid (qr_cluster_size f) (vc_vec v)) \<and>
     tables_synced parse (qr_cluster_size f) (hf_data f) (nth ptrs) c \<and>
     (\<forall>t < length ptrs. ptrs ! t \<noteq> 0 \<longrightarrow> qr_cluster_size f dvd ptrs ! t \<and> ptrs ! t + qr_cluster_size f \<le> hf_len f) \<and>
     (\<forall>t < length ptrs. \<forall>u < length ptrs. ptrs ! t \<noteq> 0 \<longrightarrow> ptrs ! t = ptrs ! u \<longrightarrow> t = u)"

definition table_cluster :: "nat list \<Rightarrow> nat \<Rightarrow> bool" where
  "table_cluster ptrs c \<longleftrightarrow> c \<noteq> 0 \<and> (\<exists>t < length ptrs. ptrs ! t = c)"

definition view_of :: "(u8 list \<Rightarrow> 'a list option) \<Rightarrow> nat list \<Rightarrow> 'a cache_map \<Rightarrow> qcow_raw_file \<Rightarrow> nat \<Rightarrow> 'a list option" where
  "view_of parse ptrs c f = table_view parse (qr_cluster_size f) (hf_data f) (nth ptrs) c"

lemma tables_okD:
  assumes "tables_ok parse valid ptrs c f"
  shows "quiet f" "hf_len f < 2 ^ 63" "0 < qr_cluster_size f" "0 < cm_capacity c"
    "cm_get c t = Some v \<Longrightarrow> t < length ptrs \<and> ptrs ! t \<noteq> 0 \<and> valid (qr_cluster_size f) (vc_vec v)"
    "tables_synced parse (qr_cluster_size f) (hf_data f) (nth ptrs) c"
    "t < length ptrs \<Longrightarrow> ptrs ! t \<noteq> 0 \<Longrightarrow> qr_cluster_size f dvd ptrs ! t \<and> ptrs ! t + qr_cluster_size f \<le> hf_len f"
    "t < length ptrs \<Longrightarrow> u < length ptrs \<Longrightarrow> ptrs ! t \<noteq> 0 \<Longrightarrow> ptrs ! t = ptrs ! u \<Longrightarrow> t = u"
  using assms unfolding tables_ok_def by blast+

lemma tables_apart:
  assumes "tables_ok parse valid ptrs c f" "t < length ptrs" "u < length ptrs" "ptrs ! t \<noteq> 0" "ptrs ! u \<noteq> 0" "t \<noteq> u"
  shows "ptrs ! t + qr_cluster_size f \<le> ptrs ! u \<or> ptrs ! u + qr_cluster_size f \<le> ptrs ! t"
  using tables_okD(7) [OF assms(1,2,4)] tables_okD(7) [OF assms(1,3,5)] tables_okD(8) [OF assms(1-4)] assms(6)
  by (intro cluster_apart) auto

text \<open>Changes that leave the clusters of all tables alone.\<close>

lemma view_of_file:
  assumes "qr_cluster_size f' = qr_cluster_size f" "t < length ptrs" "ptrs ! t \<noteq> 0"
    "\<And>x. within (qr_cluster_size f) (ptrs ! t) x \<Longrightarrow> hf_data f' x = hf_data f x"
  shows "view_of parse ptrs c f' t = view_of parse ptrs c f t"
proof -
  have "bytes_at (hf_data f') (ptrs ! t) (qr_cluster_size f) = bytes_at (hf_data f) (ptrs ! t) (qr_cluster_size f)"
    by (rule slice_cong) (simp add: assms(4) within_def)
  then show ?thesis by (simp add: view_of_def table_view_def assms(1) split: option.split)
qed

lemma tables_ok_file:
  assumes "tables_ok parse valid ptrs c f" "quiet f'" "hf_len f \<le> hf_len f'" "hf_len f' < 2 ^ 63"
    "qr_cluster_size f' = qr_cluster_size f"
    "\<And>b x. table_cluster ptrs b \<Longrightarrow> within (qr_cluster_size f) b x \<Longrightarrow> hf_data f' x = hf_data f x"
  shows "tables_ok parse valid ptrs c f'"
proof -
  have "bytes_at (hf_data f') (ptrs ! t) (qr_cluster_size f) = bytes_at (hf_data f) (ptrs ! t) (qr_cluster_size f)"
    if "t < length ptrs" "ptrs ! t \<noteq> 0" for t
    by (rule slice_cong, rule assms(6) [of "ptrs ! t"]) (use that in \<open>auto simp: table_cluster_def within_def\<close>)
  then have "tables_synced parse (qr_cluster_size f) (hf_data f') (nth ptrs) c"
    using tables_okD(5,6) [OF assms(1)] unfolding tables_synced_def by metis
  then show ?thesis using assms(1-5) unfolding tables_ok_def by fastforce
qed

text \<open>Changing a cached table, and moving a table that is dirty or not cached to a fresh cluster.\<close>

lemma tables_ok_put:
  assumes "tables_ok parse valid ptrs c f" "cm_get c t \<noteq> None" "valid (qr_cluster_size f) (vc_vec v)" "vc_dirty v"
  shows "tables_ok parse valid ptrs (cm_put t v c) f"
  using assms unfolding tables_ok_def tables_synced_def by (auto split: if_splits)

definition fresh_for :: "nat list \<Rightarrow> qcow_raw_file \<Rightarrow> nat \<Rightarrow> bool" where
  "fresh_for ptrs f a \<longleftrightarrow> a \<noteq> 0 \<and> qr_cluster_size f dvd a \<and> a + qr_cluster_size f \<le> hf_len f \<and> a \<notin> set ptrs"

lemma tables_ok_move:
  assumes "tables_ok parse valid ptrs c f" "t < length ptrs" "fresh_for ptrs f a"
    "\<And>v. cm_get c t = Some v \<Longrightarrow> vc_dirty v"
  shows "tables_ok parse valid (ptrs[t := a]) c f"
proof -
  have a: "a \<noteq> 0" "qr_cluster_size f dvd a" "a + qr_cluster_size f \<le> hf_len f" "\<And>u. u < length ptrs \<Longrightarrow> ptrs ! u \<noteq> a"
    using assms(3) by (auto simp: fresh_for_def)
  have "tables_synced parse (qr_cluster_size f) (hf_data f) (nth (ptrs[t := a])) c"
    using tables_okD(6) [OF assms(1)] assms(4) unfolding tables_synced_def by (metis nth_list_update_neq)
  moreover have "\<forall>u < length ptrs. \<forall>w < length ptrs. ptrs[t := a] ! u \<noteq> 0 \<longrightarrow> ptrs[t := a] ! u = ptrs[t := a] ! w \<longrightarrow> u = w"
    using tables_okD(8) [OF assms(1)] a(4) assms(2) by (auto simp: nth_list_update)
  moreover have "\<forall>k v. cm_get c k = Some v \<longrightarrow> k < length ptrs \<and> ptrs[t := a] ! k \<noteq> 0 \<and> valid (qr_cluster_size f) (vc_vec v)"
    using tables_okD(5) [OF assms(1)] a(1) assms(2) by (auto simp: nth_list_update)
  moreover have "\<forall>u < length ptrs. ptrs[t := a] ! u \<noteq> 0 \<longrightarrow>
      qr_cluster_size f dvd ptrs[t := a] ! u \<and> ptrs[t := a] ! u + qr_cluster_size f \<le> hf_len f"
    using tables_okD(7) [OF assms(1)] a(2,3) assms(2) by (simp add: nth_list_update)
  ultimately show ?thesis
    using tables_okD(1-4) [OF assms(1)] unfolding tables_ok_def by simp
qed

lemma view_of_move:
  "u \<noteq> t \<or> cm_get c t \<noteq> None \<Longrightarrow> view_of parse (ptrs[t := a]) c f u = view_of parse ptrs c f u"
  by (cases "u = t") (auto simp: view_of_def table_view_def split: option.split)

text \<open>
  The contract of a table format, and what follows for the cache: evicting a table changes neither
  what any table reads as nor the agreement of clean tables with the file, and nothing but the
  cluster of a cached table.
\<close>

locale table_format =
  fixes good :: "'e \<Rightarrow> bool"
    and image :: "'e \<Rightarrow> 'a list \<Rightarrow> u8 list"
    and parse :: "'e \<Rightarrow> u8 list \<Rightarrow> 'a list option"
    and valid :: "nat \<Rightarrow> 'a list \<Rightarrow> bool"
  assumes parse_image: "good e \<Longrightarrow> valid n t \<Longrightarrow> parse e (image e t) = Some t"
    and length_image: "good e \<Longrightarrow> valid n t \<Longrightarrow> length (image e t) = n"
begin

text \<open>The file after the table with index \<open>k\<close> was written to its cluster.\<close>

definition saved :: "'e \<Rightarrow> nat list \<Rightarrow> nat \<Rightarrow> 'a list \<Rightarrow> qcow_raw_file \<Rightarrow> qcow_raw_file \<Rightarrow> bool" where
  "saved e ptrs k t f f' \<longleftrightarrow> same_shape f f' \<and> hf_data f' = store (hf_data f) (ptrs ! k) (image e t)"

lemma saved_read:
  assumes "good e" "valid (qr_cluster_size f) t" "saved e ptrs k t f f'"
  shows "parse e (bytes_at (hf_data f') (ptrs ! k) (qr_cluster_size f)) = Some t"
  using assms slice_store [of "hf_data f" "ptrs ! k" "image e t"] by (simp add: parse_image length_image saved_def)

lemma saved_frame:
  assumes "good e" "valid (qr_cluster_size f) t" "saved e ptrs k t f f'" "\<not> within (qr_cluster_size f) (ptrs ! k) x"
  shows "hf_data f' x = hf_data f x"
  using assms by (auto simp: saved_def store_def within_def length_image)

lemma saved_other:
  assumes "good e" "tables_ok (parse e) valid ptrs c f" "saved e ptrs k t f f'" "valid (qr_cluster_size f) t"
    "k < length ptrs" "ptrs ! k \<noteq> 0" "j < length ptrs" "ptrs ! j \<noteq> 0" "j \<noteq> k"
  shows "bytes_at (hf_data f') (ptrs ! j) (qr_cluster_size f) = bytes_at (hf_data f) (ptrs ! j) (qr_cluster_size f)"
proof (rule slice_cong)
  fix i assume "i < qr_cluster_size f"
  then have "\<not> within (qr_cluster_size f) (ptrs ! k) (ptrs ! j + i)"
    using tables_apart [OF assms(2,5,7,6,8)] assms(9) by (auto simp: within_def)
  then show "hf_data f' (ptrs ! j + i) = hf_data f (ptrs ! j + i)" by (rule saved_frame [OF assms(1,4,3)])
qed

text \<open>Writing a cached table to its cluster, after which it may be marked clean or dropped.\<close>

lemma saved_tables:
  assumes good: "good e" and ok: "tables_ok (parse e) valid ptrs c f" and v: "cm_get c k = Some v"
    and sv: "saved e ptrs k (vc_vec v) f f'" and c': "c' = cm_remove k c \<or> c' = cm_put k (mark_clean v) c \<or> c' = c"
  shows "tables_ok (parse e) valid ptrs c' f'"
    and "j < length ptrs \<Longrightarrow> ptrs ! j \<noteq> 0 \<Longrightarrow> view_of (parse e) ptrs c' f' j = view_of (parse e) ptrs c f j"
proof -
  note D = tables_okD [OF ok]
  have k: "k < length ptrs" "ptrs ! k \<noteq> 0" "valid (qr_cluster_size f) (vc_vec v)" using D(5) [OF v] by auto
  have sh: "qr_cluster_size f' = qr_cluster_size f" "hf_len f' = hf_len f" "quiet f' = quiet f"
    using sv by (simp_all add: saved_def same_shape_def)
  note self = saved_read [OF good k(3) sv]
  note other = saved_other [OF good ok sv k(3) k(1,2)]
  have get: "cm_get c' i = (if i \<noteq> k then cm_get c i else if c' = cm_remove k c then None
      else if c' = cm_put k (mark_clean v) c then Some (mark_clean v) else Some v)" for i
    using c' v by auto
  show "view_of (parse e) ptrs c' f' j = view_of (parse e) ptrs c f j" if "j < length ptrs" "ptrs ! j \<noteq> 0"
    using other [OF that] self v by (cases "j = k") (simp_all add: view_of_def table_view_def sh get mark_clean_def split: option.split)
  have "tables_synced (parse e) (qr_cluster_size f) (hf_data f') (nth ptrs) c'"
    unfolding tables_synced_def
  proof (intro allI impI)
    fix i w assume w: "cm_get c' i = Some w" "\<not> vc_dirty w"
    show "parse e (bytes_at (hf_data f') (ptrs ! i) (qr_cluster_size f)) = Some (vc_vec w)"
    proof (cases "i = k")
      case True
      then have "vc_vec w = vc_vec v" using w(1) by (auto simp: get mark_clean_def split: if_splits)
      then show ?thesis using self True by simp
    next
      case False
      then have "cm_get c i = Some w" using w(1) by (simp add: get)
      then show ?thesis using other D(5) D(6) w(2) False by (simp add: tables_synced_def)
    qed
  qed
  moreover have "cm_get c' i = Some w \<Longrightarrow> i < length ptrs \<and> ptrs ! i \<noteq> 0 \<and> valid (qr_cluster_size f) (vc_vec w)" for i w
    using D(5) [of i] k by (auto simp: get mark_clean_def split: if_splits)
  moreover have "cm_capacity c' = cm_capacity c" using c' by auto
  ultimately show "tables_ok (parse e) valid ptrs c' f'"
    using ok unfolding tables_ok_def by (auto simp: sh)
qed

text \<open>An insertion into the cache.\<close>

lemma tables_ok_add:
  assumes "tables_ok (parse e) valid ptrs c f" "t < length ptrs" "ptrs ! t \<noteq> 0" "valid (qr_cluster_size f) (vc_vec v)"
    "\<not> vc_dirty v \<Longrightarrow> parse e (bytes_at (hf_data f) (ptrs ! t) (qr_cluster_size f)) = Some (vc_vec v)"
  shows "tables_ok (parse e) valid ptrs (cm_put t v c) f"
  using assms unfolding tables_ok_def tables_synced_def by (auto split: if_splits)

lemma insert_ok:
  assumes good: "good e" and ok: "tables_ok (parse e) valid ptrs c f"
    and t: "t < length ptrs" "ptrs ! t \<noteq> 0" and v: "valid (qr_cluster_size f) (vc_vec v)"
      "\<not> vc_dirty v \<Longrightarrow> parse e (bytes_at (hf_data f) (ptrs ! t) (qr_cluster_size f)) = Some (vc_vec v)"
    and none: "cm_get c t = None"
    and wb: "\<And>k w. cm_get c k = Some w \<Longrightarrow> vc_dirty w \<Longrightarrow> \<exists>f'. wb k w f = (Ok (), f') \<and> saved e ptrs k (vc_vec w) f f'"
  obtains c' f' where "cm_insert pick wb t v (c, f) = (Ok (), (c', f'))" "same_shape f f'" "cm_get c' t = Some v"
    "tables_ok (parse e) valid ptrs c' f'"
    "\<And>x. (\<And>b. table_cluster ptrs b \<Longrightarrow> \<not> within (qr_cluster_size f) b x) \<Longrightarrow> hf_data f' x = hf_data f x"
    "\<And>u. u < length ptrs \<Longrightarrow> ptrs ! u \<noteq> 0 \<Longrightarrow> u \<noteq> t \<Longrightarrow> view_of (parse e) ptrs c' f' u = view_of (parse e) ptrs c f u"
proof -
  note D = tables_okD [OF ok]
  define g where "g k w = (SOME f'. wb k w f = (Ok (), f') \<and> saved e ptrs k (vc_vec w) f f')" for k w
  have g: "wb k w f = (Ok (), g k w)" "saved e ptrs k (vc_vec w) f (g k w)" if "cm_get c k = Some w" "vc_dirty w" for k w
    using someI_ex [OF wb [OF that]] by (simp_all add: g_def)
  obtain f' c' where ins: "cm_insert pick wb t v (c, f) = (Ok (), (cm_put t v c', f'))"
    "c' = c \<and> f' = f \<or> (\<exists>k w. cm_get c k = Some w \<and> c' = cm_remove k c \<and> f' = (if vc_dirty w then g k w else f))"
    by (rule cm_insert_cases [where g = g and wb = wb and f = f, OF D(4) g(1)])
  have "tables_ok (parse e) valid ptrs c' f' \<and> same_shape f f' \<and>
    (\<forall>x. (\<forall>b. table_cluster ptrs b \<longrightarrow> \<not> within (qr_cluster_size f) b x) \<longrightarrow> hf_data f' x = hf_data f x) \<and>
    (\<forall>u < length ptrs. ptrs ! u \<noteq> 0 \<longrightarrow> view_of (parse e) ptrs c' f' u = view_of (parse e) ptrs c f u) \<and>
    bytes_at (hf_data f') (ptrs ! t) (qr_cluster_size f) = bytes_at (hf_data f) (ptrs ! t) (qr_cluster_size f)"
    using ins(2)
  proof (elim disjE exE conjE)
    fix k w assume k: "cm_get c k = Some w" "c' = cm_remove k c" "f' = (if vc_dirty w then g k w else f)"
    have kp: "k < length ptrs" "ptrs ! k \<noteq> 0" "valid (qr_cluster_size f) (vc_vec w)" "t \<noteq> k"
      using D(5) [OF k(1)] k(1) none by auto
    show ?thesis
    proof (cases "vc_dirty w")
      case True
      note sv = g(2) [OF k(1) True]
      have f': "f' = g k w" using k(3) True by simp
      show ?thesis unfolding f'
        using saved_tables [OF good ok k(1) sv, of c'] saved_frame [OF good kp(3) sv] k(2) sv kp(1,2)
          saved_other [OF good ok sv kp(3) kp(1,2) t kp(4)]
        by (auto simp: saved_def table_cluster_def)
    next
      case False
      then have f': "f' = f" using k(3) by simp
      have "view_of (parse e) ptrs c' f u = view_of (parse e) ptrs c f u" for u
        using D(6) k(1,2) False by (simp add: view_of_def table_view_def tables_synced_def)
      moreover have "tables_ok (parse e) valid ptrs c' f"
        using ok k(2) unfolding tables_ok_def tables_synced_def by (auto split: if_splits)
      ultimately show ?thesis by (simp add: f')
    qed
  qed (use ok in simp_all)
  then have r: "tables_ok (parse e) valid ptrs c' f'" "same_shape f f'" "qr_cluster_size f' = qr_cluster_size f"
    "\<And>x. (\<And>b. table_cluster ptrs b \<Longrightarrow> \<not> within (qr_cluster_size f) b x) \<Longrightarrow> hf_data f' x = hf_data f x"
    "\<And>u. u < length ptrs \<Longrightarrow> ptrs ! u \<noteq> 0 \<Longrightarrow> view_of (parse e) ptrs c' f' u = view_of (parse e) ptrs c f u"
    "bytes_at (hf_data f') (ptrs ! t) (qr_cluster_size f) = bytes_at (hf_data f) (ptrs ! t) (qr_cluster_size f)"
    by (auto simp: same_shape_def)
  show ?thesis
  proof (rule that [OF ins(1) r(2)])
    show "tables_ok (parse e) valid ptrs (cm_put t v c') f'"
      using v r(3,6) by (intro tables_ok_add [OF r(1) t]) simp_all
  qed (use r(4,5) in \<open>simp_all add: view_of_def table_view_def\<close>)
qed

end

end
