(* ===== verification/Qcow_Refcount.thy ===== *)
theory Qcow_Refcount
  imports Qcow_Tables
begin

text \<open>
  Reference counts of a qcow image, \<^verbatim>\<open>src/qcow/src/refcount.rs\<close>.  The state of the operations is the
  structure together with the image file.
\<close>

subsection \<open>Operations\<close>

datatype refcount_error =
  EvictingRefCounts io_err | InvalidIndex | NeedCluster nat | NeedNewCluster | ReadingRefCounts io_err

record ref_count =
  rc_ref_table :: "nat vec_cache"
  rc_refcount_table_offset :: nat
  rc_refblock_cache :: "u16 cache_map"
  rc_refcount_block_entries :: nat
  rc_cluster_size :: nat
  rc_max_valid_cluster_offset :: nat

type_synonym ('e, 'a) rc_io = "(ref_count \<times> qcow_raw_file, 'e, 'a) io"

definition on_file :: "(qcow_raw_file, 'e, 'a) io \<Rightarrow> ('e, 'a) rc_io" where
  "on_file m = zoom snd (\<lambda>f (rc, _). (rc, f)) m"

definition on_rc :: "(ref_count \<Rightarrow> ref_count) \<Rightarrow> ('e, unit) rc_io" where
  "on_rc g = modify (\<lambda>(rc, f). (g rc, f))"

text \<open>The arithmetic of \<open>new\<close> wraps, for an empty table in particular.\<close>

definition ref_count_new :: "qcow_env \<Rightarrow> nat \<Rightarrow> nat \<Rightarrow> nat \<Rightarrow> nat \<Rightarrow> (qcow_raw_file, io_err, ref_count) io" where
  "ref_count_new E refcount_table_offset refcount_table_entries refcount_block_entries cluster_size =
     bnd (read_pointer_table E refcount_table_offset refcount_table_entries None) (\<lambda>t.
       let max_valid_cluster_index = (length t * refcount_block_entries + 2 ^ 64 - 1) mod 2 ^ 64
       in ret \<lparr>rc_ref_table = vec_cache_from_vec t, rc_refcount_table_offset = refcount_table_offset,
            rc_refblock_cache = cache_map_new 50, rc_refcount_block_entries = refcount_block_entries,
            rc_cluster_size = cluster_size, rc_max_valid_cluster_offset = max_valid_cluster_index * cluster_size mod 2 ^ 64\<rparr>)"

definition get_refcount_index :: "ref_count \<Rightarrow> nat \<Rightarrow> nat \<times> nat" where
  "get_refcount_index rc address =
     (address div rc_cluster_size rc div rc_refcount_block_entries rc,
      address div rc_cluster_size rc mod rc_refcount_block_entries rc)"

text \<open>The closure that writes an evicted block to the cluster its table entry names.\<close>

definition rc_write_back :: "qcow_env \<Rightarrow> nat list \<Rightarrow> nat \<Rightarrow> u16 vec_cache \<Rightarrow> (qcow_raw_file, io_err, unit) io" where
  "rc_write_back E ref_table i evicted = bnd (index ref_table i) (\<lambda>a. write_refcount_block E a (vc_vec evicted))"

definition rc_insert :: "qcow_env \<Rightarrow> nat \<Rightarrow> u16 vec_cache \<Rightarrow> (io_err, unit) rc_io" where
  "rc_insert E i block = bnd (gets (\<lambda>(rc, _). vc_vec (rc_ref_table rc))) (\<lambda>ref_table.
     zoom (\<lambda>(rc, f). (rc_refblock_cache rc, f)) (\<lambda>(c, f) (rc, _). (rc\<lparr>rc_refblock_cache := c\<rparr>, f))
       (cm_insert (qe_pick E) (rc_write_back E ref_table) i block))"

definition set_ref_table :: "nat \<Rightarrow> nat \<Rightarrow> ref_count \<Rightarrow> ref_count" where
  "set_ref_table i addr rc = rc\<lparr>rc_ref_table := vec_set i addr (rc_ref_table rc)\<rparr>"

text \<open>
  \<open>set_cluster_refcount\<close>.  The new cluster is consumed by the first step that needs it; the second
  step sees what is left.
\<close>

definition rc_fill_cache ::
    "qcow_env \<Rightarrow> nat \<Rightarrow> nat \<Rightarrow> (nat \<times> u16 vec_cache) option \<Rightarrow>
     (refcount_error, (nat \<times> u16 vec_cache) option) rc_io" where
  "rc_fill_cache E table_index block_addr_disk new_cluster = bnd (gets fst) (\<lambda>rc.
     if cm_get (rc_refblock_cache rc) table_index \<noteq> None then ret new_cluster
     else case new_cluster of
       Some (addr, table) \<Rightarrow> seq (on_rc (set_ref_table table_index addr))
         (seq (map_err EvictingRefCounts (rc_insert E table_index table)) (ret None))
     | None \<Rightarrow> throw (if block_addr_disk = 0 then NeedNewCluster else NeedCluster block_addr_disk))"

definition rc_move_block ::
    "nat \<Rightarrow> nat \<Rightarrow> (nat \<times> u16 vec_cache) option \<Rightarrow> (refcount_error, nat option) rc_io" where
  "rc_move_block table_index block_addr_disk new_cluster = bnd (gets fst) (\<lambda>rc.
     bnd (unwrap (cm_get (rc_refblock_cache rc) table_index)) (\<lambda>block.
       if \<not> vc_dirty block then
         (case new_cluster of
            Some (addr, _) \<Rightarrow> seq (on_rc (set_ref_table table_index addr)) (ret (Some block_addr_disk))
          | None \<Rightarrow> throw NeedNewCluster)
       else ret None))"

definition rc_store_count :: "nat \<Rightarrow> nat \<Rightarrow> u16 \<Rightarrow> (refcount_error, unit) rc_io" where
  "rc_store_count table_index block_index refcount = bnd (gets fst) (\<lambda>rc.
     bnd (unwrap (cm_get (rc_refblock_cache rc) table_index)) (\<lambda>block.
       if vec_in block_index block then
         on_rc (\<lambda>rc. rc\<lparr>rc_refblock_cache := cm_put table_index (vec_set block_index refcount block) (rc_refblock_cache rc)\<rparr>)
       else panic))"

definition rc_set_cluster_refcount ::
    "qcow_env \<Rightarrow> nat \<Rightarrow> u16 \<Rightarrow> (nat \<times> u16 vec_cache) option \<Rightarrow> (refcount_error, nat option) rc_io" where
  "rc_set_cluster_refcount E cluster_address refcount new_cluster = bnd (gets fst) (\<lambda>rc.
     case get_refcount_index rc cluster_address of (table_index, block_index) \<Rightarrow>
       bnd (get_or InvalidIndex (vc_vec (rc_ref_table rc)) table_index) (\<lambda>block_addr_disk.
       bnd (rc_fill_cache E table_index block_addr_disk new_cluster) (\<lambda>new_cluster.
       bnd (rc_move_block table_index block_addr_disk new_cluster) (\<lambda>dropped_cluster.
       seq (rc_store_count table_index block_index refcount) (ret dropped_cluster)))))"

text \<open>Reading a block into the cache, as \<open>get_cluster_refcount\<close> and \<open>refcount_block\<close> do.\<close>

definition rc_load :: "qcow_env \<Rightarrow> nat \<Rightarrow> nat \<Rightarrow> (refcount_error, u16 vec_cache) rc_io" where
  "rc_load E table_index block_addr_disk = seq (bnd (gets fst) (\<lambda>rc.
     if cm_get (rc_refblock_cache rc) table_index \<noteq> None then ret ()
     else bnd (map_err ReadingRefCounts (on_file (read_refcount_block E block_addr_disk))) (\<lambda>t.
       map_err EvictingRefCounts (rc_insert E table_index (vec_cache_from_vec t)))))
     (bnd (gets fst) (\<lambda>rc. unwrap (cm_get (rc_refblock_cache rc) table_index)))"

definition get_cluster_refcount :: "qcow_env \<Rightarrow> nat \<Rightarrow> (refcount_error, u16) rc_io" where
  "get_cluster_refcount E address = bnd (gets fst) (\<lambda>rc.
     case get_refcount_index rc address of (table_index, block_index) \<Rightarrow>
       bnd (get_or InvalidIndex (vc_vec (rc_ref_table rc)) table_index) (\<lambda>block_addr_disk.
       if block_addr_disk = 0 then ret 0
       else bnd (rc_load E table_index block_addr_disk) (\<lambda>block. index (vc_vec block) block_index)))"

definition refcount_block :: "qcow_env \<Rightarrow> nat \<Rightarrow> (refcount_error, u16 list option) rc_io" where
  "refcount_block E table_index = bnd (gets fst) (\<lambda>rc.
     bnd (get_or InvalidIndex (vc_vec (rc_ref_table rc)) table_index) (\<lambda>block_addr_disk.
     if block_addr_disk = 0 then ret None
     else bnd (rc_load E table_index block_addr_disk) (\<lambda>block. ret (Some (vc_vec block)))))"

definition flush_block :: "qcow_env \<Rightarrow> nat \<Rightarrow> (io_err, unit) rc_io" where
  "flush_block E table_index = bnd (gets fst) (\<lambda>rc.
     case cm_get (rc_refblock_cache rc) table_index of
       None \<Rightarrow> ret ()
     | Some block \<Rightarrow>
         if \<not> vc_dirty block then ret ()
         else bnd (index (vc_vec (rc_ref_table rc)) table_index) (\<lambda>addr.
           if addr \<noteq> 0 then seq (on_file (write_refcount_block E addr (vc_vec block)))
             (on_rc (\<lambda>rc. rc\<lparr>rc_refblock_cache := cm_put table_index (mark_clean block) (rc_refblock_cache rc)\<rparr>))
           else throw (OsError EINVAL)))"

definition flush_blocks :: "qcow_env \<Rightarrow> (io_err, unit) rc_io" where
  "flush_blocks E = bnd (gets (\<lambda>(rc, _). map fst (cm_map (rc_refblock_cache rc)))) (\<lambda>ks. for_each ks (flush_block E))"

definition flush_table :: "qcow_env \<Rightarrow> (io_err, bool) rc_io" where
  "flush_table E = bnd (gets fst) (\<lambda>rc.
     if vc_dirty (rc_ref_table rc) then
       seq (on_file (write_pointer_table E (rc_refcount_table_offset rc) (vc_vec (rc_ref_table rc)) 0))
         (seq (on_rc (\<lambda>rc. rc\<lparr>rc_ref_table := mark_clean (rc_ref_table rc)\<rparr>)) (ret True))
     else ret False)"

subsection \<open>Blocks in the file and in the cache\<close>

definition parse_counts :: "le_codec \<Rightarrow> u8 list \<Rightarrow> u16 list option" where
  "parse_counts C bs = Some (u16s C (length bs div 2) bs)"

definition valid_counts :: "nat \<Rightarrow> u16 list \<Rightarrow> bool" where
  "valid_counts n t \<longleftrightarrow> 2 * length t = n"

interpretation rb: table_format codec_ok count_bytes parse_counts valid_counts
proof unfold_locales
  fix C n t assume c: "codec_ok C" and v: "valid_counts n t"
  show l: "length (count_bytes C t) = n" using v by (simp add: length_count_bytes [OF c] valid_counts_def)
  then have "length (count_bytes C t) div 2 = length t" using v by (auto simp: valid_counts_def)
  then show "parse_counts C (count_bytes C t) = Some t"
    by (simp add: parse_counts_def count_bytes_def u16s_items [OF c])
qed

abbreviation ref_tab :: "ref_count \<Rightarrow> nat list" where
  "ref_tab rc \<equiv> vc_vec (rc_ref_table rc)"

definition block_view :: "qcow_env \<Rightarrow> ref_count \<Rightarrow> qcow_raw_file \<Rightarrow> nat \<Rightarrow> u16 list option" where
  "block_view E rc f = view_of (parse_counts (qe_be E)) (ref_tab rc) (rc_refblock_cache rc) f"

definition rc_ok :: "qcow_env \<Rightarrow> ref_count \<Rightarrow> qcow_raw_file \<Rightarrow> bool" where
  "rc_ok E rc f \<longleftrightarrow> codec_ok (qe_be E) \<and> even (qr_cluster_size f) \<and> rc_cluster_size rc = qr_cluster_size f \<and>
     2 * rc_refcount_block_entries rc = qr_cluster_size f \<and>
     tables_ok (parse_counts (qe_be E)) valid_counts (ref_tab rc) (rc_refblock_cache rc) f"

lemma rc_okD:
  assumes "rc_ok E rc f"
  shows "codec_ok (qe_be E)" "even (qr_cluster_size f)" "rc_cluster_size rc = qr_cluster_size f"
    "2 * rc_refcount_block_entries rc = qr_cluster_size f"
    "tables_ok (parse_counts (qe_be E)) valid_counts (ref_tab rc) (rc_refblock_cache rc) f"
  using assms by (simp_all add: rc_ok_def)

text \<open>The count of a cluster, as a user of the interface sees it.\<close>

definition count_of :: "qcow_env \<Rightarrow> ref_count \<Rightarrow> qcow_raw_file \<Rightarrow> nat \<Rightarrow> u16" where
  "count_of E rc f c = (case get_refcount_index rc c of (t, b) \<Rightarrow>
     if ref_tab rc ! t = 0 then 0 else the (block_view E rc f t) ! b)"

text \<open>
  Steps that change neither the table nor what the blocks read as: contents change only in the
  clusters of the blocks.
\<close>

definition rc_same :: "qcow_env \<Rightarrow> ref_count \<times> qcow_raw_file \<Rightarrow> ref_count \<times> qcow_raw_file \<Rightarrow> bool" where
  "rc_same E s s' \<longleftrightarrow> (case (s, s') of ((rc, f), (rc', f')) \<Rightarrow>
     rc_ok E rc' f' \<and> same_shape f f' \<and> ref_tab rc' = ref_tab rc \<and>
     (vc_dirty (rc_ref_table rc) \<longrightarrow> vc_dirty (rc_ref_table rc')) \<and>
     rc_refcount_table_offset rc' = rc_refcount_table_offset rc \<and>
     rc_refcount_block_entries rc' = rc_refcount_block_entries rc \<and> rc_cluster_size rc' = rc_cluster_size rc \<and>
     rc_max_valid_cluster_offset rc' = rc_max_valid_cluster_offset rc \<and>
     (\<forall>x. (\<forall>b. table_cluster (ref_tab rc) b \<longrightarrow> \<not> within (qr_cluster_size f) b x) \<longrightarrow> hf_data f' x = hf_data f x) \<and>
     (\<forall>t < length (ref_tab rc). ref_tab rc ! t \<noteq> 0 \<longrightarrow> block_view E rc' f' t = block_view E rc f t))"

lemma rc_write_back_saved:
  assumes "rc_ok E rc f" "cm_get (rc_refblock_cache rc) k = Some w"
  shows "\<exists>f'. rc_write_back E (ref_tab rc) k w f = (Ok (), f') \<and> rb.saved (qe_be E) (ref_tab rc) k (vc_vec w) f f'"
proof -
  note D = rc_okD [OF assms(1)] and T = tables_okD [OF rc_okD(5) [OF assms(1)]]
  have k: "k < length (ref_tab rc)" "ref_tab rc ! k \<noteq> 0" "2 * length (vc_vec w) = qr_cluster_size f"
    using T(5) [OF assms(2)] by (auto simp: valid_counts_def)
  then have "ref_tab rc ! k + 2 * length (vc_vec w) \<le> hf_len f" "vc_vec w \<noteq> []" using T(3,7) by auto
  then show ?thesis using k D(1) T(1,2)
    by (simp add: rc_write_back_def write_refcount_block_eq index_def bnd_def ret_def rb.saved_def)
qed

lemma rc_insert_ok:
  assumes ok: "rc_ok E rc f" and t: "t < length (ref_tab rc)" "ref_tab rc ! t \<noteq> 0"
    and v: "2 * length (vc_vec v) = qr_cluster_size f"
      "\<not> vc_dirty v \<Longrightarrow> parse_counts (qe_be E) (bytes_at (hf_data f) (ref_tab rc ! t) (qr_cluster_size f)) = Some (vc_vec v)"
    and none: "cm_get (rc_refblock_cache rc) t = None"
  obtains c f' where "rc_insert E t v (rc, f) = (Ok (), (rc\<lparr>rc_refblock_cache := c\<rparr>, f'))" "same_shape f f'"
    "cm_get c t = Some v" "rc_ok E (rc\<lparr>rc_refblock_cache := c\<rparr>) f'"
    "\<And>x. (\<And>b. table_cluster (ref_tab rc) b \<Longrightarrow> \<not> within (qr_cluster_size f) b x) \<Longrightarrow> hf_data f' x = hf_data f x"
    "\<And>u. u < length (ref_tab rc) \<Longrightarrow> ref_tab rc ! u \<noteq> 0 \<Longrightarrow> u \<noteq> t \<Longrightarrow>
       block_view E (rc\<lparr>rc_refblock_cache := c\<rparr>) f' u = block_view E rc f u"
proof -
  note D = rc_okD [OF ok]
  have vv: "valid_counts (qr_cluster_size f) (vc_vec v)" using v(1) by (simp add: valid_counts_def)
  obtain c f' where r: "cm_insert (qe_pick E) (rc_write_back E (ref_tab rc)) t v (rc_refblock_cache rc, f) = (Ok (), (c, f'))"
    "same_shape f f'" "cm_get c t = Some v" "tables_ok (parse_counts (qe_be E)) valid_counts (ref_tab rc) c f'"
    "\<And>x. (\<And>b. table_cluster (ref_tab rc) b \<Longrightarrow> \<not> within (qr_cluster_size f) b x) \<Longrightarrow> hf_data f' x = hf_data f x"
    "\<And>u. u < length (ref_tab rc) \<Longrightarrow> ref_tab rc ! u \<noteq> 0 \<Longrightarrow> u \<noteq> t \<Longrightarrow>
       view_of (parse_counts (qe_be E)) (ref_tab rc) c f' u = view_of (parse_counts (qe_be E)) (ref_tab rc) (rc_refblock_cache rc) f u"
    by (rule rb.insert_ok [OF D(1,5) t vv v(2) none, of "rc_write_back E (ref_tab rc)" "qe_pick E"])
      (assumption, rule rc_write_back_saved [OF ok], assumption, blast)
  show ?thesis
  proof (rule that [of c f'])
    show "rc_insert E t v (rc, f) = (Ok (), (rc\<lparr>rc_refblock_cache := c\<rparr>, f'))"
      using r(1) by (simp add: rc_insert_def bnd_def gets_def zoom_def)
    show "rc_ok E (rc\<lparr>rc_refblock_cache := c\<rparr>) f'" using D r(2,4) by (simp add: rc_ok_def same_shape_def)
  qed (use r in \<open>simp_all add: block_view_def\<close>)
qed

text \<open>Storing into a cached block, and giving a block that is dirty or not cached a fresh cluster.\<close>

definition put_block :: "nat \<Rightarrow> u16 vec_cache \<Rightarrow> ref_count \<Rightarrow> ref_count" where
  "put_block t v rc = rc\<lparr>rc_refblock_cache := cm_put t v (rc_refblock_cache rc)\<rparr>"

lemma rc_ok_put:
  "rc_ok E rc f \<Longrightarrow> cm_get (rc_refblock_cache rc) t \<noteq> None \<Longrightarrow> 2 * length (vc_vec v) = qr_cluster_size f \<Longrightarrow> vc_dirty v \<Longrightarrow>
     rc_ok E (put_block t v rc) f"
  by (simp add: rc_ok_def put_block_def tables_ok_put valid_counts_def)

lemma rc_ok_move:
  "rc_ok E rc f \<Longrightarrow> t < length (ref_tab rc) \<Longrightarrow> fresh_for (ref_tab rc) f a \<Longrightarrow>
     (\<And>v. cm_get (rc_refblock_cache rc) t = Some v \<Longrightarrow> vc_dirty v) \<Longrightarrow> rc_ok E (set_ref_table t a rc) f"
  by (simp add: rc_ok_def set_ref_table_def vec_set_def tables_ok_move)

lemma rc_index_in:
  assumes "rc_ok E rc f" "get_refcount_index rc c = (t, b)"
  shows "b < rc_refcount_block_entries rc" "2 * b < qr_cluster_size f"
proof -
  have "0 < rc_refcount_block_entries rc"
    using rc_okD(4) [OF assms(1)] tables_okD(3) [OF rc_okD(5) [OF assms(1)]] by simp
  then show "b < rc_refcount_block_entries rc" using assms(2) by (auto simp: get_refcount_index_def)
  then show "2 * b < qr_cluster_size f" using rc_okD(4) [OF assms(1)] by simp
qed

subsection \<open>Setting a count\<close>

text \<open>The cases of \<open>set_cluster_refcount\<close>, by the state of the block.\<close>

lemmas rc_set_defs = rc_set_cluster_refcount_def rc_fill_cache_def rc_move_block_def rc_store_count_def
  get_or_def unwrap_def on_rc_def map_err_def io_defs vec_in_def

lemma rc_set_dirty:
  assumes "get_refcount_index rc c = (t, b)" "t < length (ref_tab rc)"
    "cm_get (rc_refblock_cache rc) t = Some v" "vc_dirty v" "b < length (vc_vec v)"
  shows "rc_set_cluster_refcount E c n new (rc, f) = (Ok None, (put_block t (vec_set b n v) rc, f))"
  using assms by (simp add: rc_set_defs put_block_def)

lemma rc_set_clean:
  assumes "get_refcount_index rc c = (t, b)" "t < length (ref_tab rc)"
    "cm_get (rc_refblock_cache rc) t = Some v" "\<not> vc_dirty v" "b < length (vc_vec v)"
  shows "rc_set_cluster_refcount E c n None (rc, f) = (Err NeedNewCluster, (rc, f))"
    "rc_set_cluster_refcount E c n (Some (a, w)) (rc, f) =
      (Ok (Some (ref_tab rc ! t)), (set_ref_table t a (put_block t (vec_set b n v) rc), f))"
  using assms by (simp_all add: rc_set_defs put_block_def set_ref_table_def)

lemma rc_set_absent:
  assumes "get_refcount_index rc c = (t, b)" "t < length (ref_tab rc)" "cm_get (rc_refblock_cache rc) t = None"
  shows "rc_set_cluster_refcount E c n None (rc, f) =
    (Err (if ref_tab rc ! t = 0 then NeedNewCluster else NeedCluster (ref_tab rc ! t)), (rc, f))"
  using assms by (simp add: rc_set_defs)

lemma rc_set_new:
  assumes "get_refcount_index rc c = (t, b)" "t < length (ref_tab rc)" "cm_get (rc_refblock_cache rc) t = None"
    "rc_insert E t w (set_ref_table t a rc, f) = (Ok (), (rc', f'))" "cm_get (rc_refblock_cache rc') t = Some w"
    "b < length (vc_vec w)"
  shows "rc_set_cluster_refcount E c n (Some (a, w)) (rc, f) =
    (if vc_dirty w then (Ok None, (put_block t (vec_set b n w) rc', f')) else (Err NeedNewCluster, (rc', f')))"
  using assms by (simp add: rc_set_defs put_block_def)

text \<open>What a store does to the counts.\<close>

lemma block_view_put:
  "block_view E (put_block t v rc) f u = (if u = t then Some (vc_vec v) else block_view E rc f u)"
  by (simp add: block_view_def view_of_def table_view_def put_block_def)

lemma block_view_move:
  "u \<noteq> t \<or> cm_get (rc_refblock_cache rc) t \<noteq> None \<Longrightarrow> block_view E (set_ref_table t a rc) f u = block_view E rc f u"
  by (simp add: block_view_def set_ref_table_def vec_set_def view_of_move)

lemma rc_simps [simp]:
  "ref_tab (put_block t v rc) = ref_tab rc" "ref_tab (set_ref_table t a rc) = (ref_tab rc)[t := a]"
  "get_refcount_index (put_block t v rc) = get_refcount_index rc"
  "get_refcount_index (set_ref_table t a rc) = get_refcount_index rc"
  "rc_refblock_cache (set_ref_table t a rc) = rc_refblock_cache rc"
  "rc_refblock_cache (put_block t v rc) = cm_put t v (rc_refblock_cache rc)"
  "rc_max_valid_cluster_offset (put_block t v rc) = rc_max_valid_cluster_offset rc"
  "rc_max_valid_cluster_offset (set_ref_table t a rc) = rc_max_valid_cluster_offset rc"
  "rc_refcount_table_offset (put_block t v rc) = rc_refcount_table_offset rc"
  "rc_refcount_table_offset (set_ref_table t a rc) = rc_refcount_table_offset rc"
  "rc_refcount_block_entries (put_block t v rc) = rc_refcount_block_entries rc"
  "rc_refcount_block_entries (set_ref_table t a rc) = rc_refcount_block_entries rc"
  "rc_cluster_size (put_block t v rc) = rc_cluster_size rc"
  "rc_cluster_size (set_ref_table t a rc) = rc_cluster_size rc"
  "vc_dirty (rc_ref_table (put_block t v rc)) = vc_dirty (rc_ref_table rc)" "vc_dirty (rc_ref_table (set_ref_table t a rc))"
  by (simp_all add: put_block_def set_ref_table_def vec_set_def get_refcount_index_def fun_eq_iff)

lemma view_cached: "cm_get (rc_refblock_cache rc) t = Some v \<Longrightarrow> block_view E rc f t = Some (vc_vec v)"
  by (simp add: block_view_def view_of_def table_view_def)

lemma count_of_put:
  assumes "get_refcount_index rc c = (t, b)" "cm_get (rc_refblock_cache rc) t = Some v" "ref_tab rc ! t \<noteq> 0"
    "b < length (vc_vec v)" "get_refcount_index rc c' = (t', b')" "t' < length (ref_tab rc)"
  shows "count_of E (put_block t (vec_set b n v) rc) f c' = (if (t', b') = (t, b) then n else count_of E rc f c')"
  using assms by (auto simp: count_of_def block_view_put view_cached vec_set_def nth_list_update)

lemma count_of_move:
  assumes "cm_get (rc_refblock_cache rc) t \<noteq> None" "ref_tab rc ! t \<noteq> 0" "a \<noteq> 0" "t < length (ref_tab rc)"
  shows "count_of E (set_ref_table t a rc) f c = count_of E rc f c"
  using assms by (auto simp: count_of_def block_view_move nth_list_update split: prod.split)

text \<open>Reading a count loads its block and changes nothing that can be seen.\<close>

lemma rc_same_refl: "rc_ok E rc f \<Longrightarrow> rc_same E (rc, f) (rc, f)"
  by (simp add: rc_same_def)

lemma rc_load_ok:
  assumes ok: "rc_ok E rc f" and t: "t < length (ref_tab rc)" "ref_tab rc ! t \<noteq> 0"
  shows "\<exists>v s'. rc_load E t (ref_tab rc ! t) (rc, f) = (Ok v, s') \<and> Some (vc_vec v) = block_view E rc f t \<and>
    2 * length (vc_vec v) = qr_cluster_size f \<and> rc_same E (rc, f) s' \<and> cm_get (rc_refblock_cache (fst s')) t = Some v"
proof (cases "cm_get (rc_refblock_cache rc) t")
  case (Some v)
  then show ?thesis using tables_okD(5) [OF rc_okD(5) [OF ok] Some]
    by (simp add: rc_load_def io_defs unwrap_def rc_same_refl [OF ok] view_cached valid_counts_def)
next
  case None
  note D = rc_okD [OF ok] and T = tables_okD [OF rc_okD(5) [OF ok]]
  let ?n = "qr_cluster_size f" and ?a = "ref_tab rc ! t"
  let ?t = "u16s (qe_be E) (?n div 2) (bytes_at (hf_data f) ?a ?n)"
  have n: "2 * (?n div 2) = ?n" using D(2) by simp
  have rd: "read_refcount_block E ?a f = (Ok ?t, at_pos (?a + ?n) f)"
    using read_refcount_block_eq [OF T(1) _ T(2), of ?a E] T(7) [OF t] n by (simp add: Let_def)
  let ?f = "at_pos (?a + ?n) f"
  have ok': "rc_ok E rc ?f" using D T(1,2) by (simp add: rc_ok_def tables_ok_def)
  have vt: "parse_counts (qe_be E) (bytes_at (hf_data f) ?a ?n) = Some ?t" by (simp add: parse_counts_def)
  obtain c f' where r: "rc_insert E t (vec_cache_from_vec ?t) (rc, ?f) = (Ok (), (rc\<lparr>rc_refblock_cache := c\<rparr>, f'))" "same_shape ?f f'"
    "cm_get c t = Some (vec_cache_from_vec ?t)" "rc_ok E (rc\<lparr>rc_refblock_cache := c\<rparr>) f'"
    "\<And>x. (\<And>b. table_cluster (ref_tab rc) b \<Longrightarrow> \<not> within ?n b x) \<Longrightarrow> hf_data f' x = hf_data f x"
    "\<And>u. u < length (ref_tab rc) \<Longrightarrow> ref_tab rc ! u \<noteq> 0 \<Longrightarrow> u \<noteq> t \<Longrightarrow>
       block_view E (rc\<lparr>rc_refblock_cache := c\<rparr>) f' u = block_view E rc ?f u"
    using rc_insert_ok [OF ok' t, of "vec_cache_from_vec ?t"] None vt n by (auto simp: vec_cache_from_vec_def)
  have view: "block_view E rc g u = block_view E rc f u" if "g = ?f" for g u
    using that by (simp add: block_view_def view_of_def)
  have vt': "block_view E rc f t = Some ?t"
    using None vt by (simp add: block_view_def view_of_def table_view_def)
  have "rc_load E t ?a (rc, f) = (Ok (vec_cache_from_vec ?t), (rc\<lparr>rc_refblock_cache := c\<rparr>, f'))"
    using None rd r(1,3) by (simp add: rc_load_def on_file_def zoom_def map_err_def io_defs unwrap_def)
  moreover have "block_view E (rc\<lparr>rc_refblock_cache := c\<rparr>) f' u = block_view E rc f u"
    if "u < length (ref_tab rc)" "ref_tab rc ! u \<noteq> 0" for u
    using r(3) r(6) [OF that] view [OF refl] vt' view_cached [of "rc\<lparr>rc_refblock_cache := c\<rparr>" t "vec_cache_from_vec ?t" E f']
    by (cases "u = t") (simp_all add: vec_cache_from_vec_def)
  then have "rc_same E (rc, f) (rc\<lparr>rc_refblock_cache := c\<rparr>, f')"
    using r(2,4,5) by (simp add: rc_same_def same_shape_def)
  ultimately show ?thesis using vt' r(3) n by (auto simp: vec_cache_from_vec_def)
qed

lemma get_cluster_refcount_ok:
  assumes ok: "rc_ok E rc f" and i: "get_refcount_index rc c = (t, b)" "t < length (ref_tab rc)"
  shows "\<exists>s'. get_cluster_refcount E c (rc, f) = (Ok (count_of E rc f c), s') \<and> rc_same E (rc, f) s'"
proof (cases "ref_tab rc ! t = 0")
  case True
  then show ?thesis using i rc_same_refl [OF ok] by (simp add: get_cluster_refcount_def get_or_def io_defs count_of_def)
next
  case False
  obtain v s' where r: "rc_load E t (ref_tab rc ! t) (rc, f) = (Ok v, s')" "Some (vc_vec v) = block_view E rc f t"
    "2 * length (vc_vec v) = qr_cluster_size f" "rc_same E (rc, f) s'"
    using rc_load_ok [OF ok i(2) False] by blast
  have "b < length (vc_vec v)" using rc_index_in(2) [OF ok i(1)] r(3) by simp
  then have "get_cluster_refcount E c (rc, f) = (Ok (vc_vec v ! b), s')"
    using r(1) i False by (simp add: get_cluster_refcount_def get_or_def io_defs index_def)
  moreover have "count_of E rc f c = vc_vec v ! b" using i(1) False r(2) by (simp add: count_of_def flip: r(2))
  ultimately show ?thesis using r(4) by simp
qed

lemma count_of_same:
  assumes "rc_same E (rc, f) (rc', f')" "get_refcount_index rc c = (t, b)" "t < length (ref_tab rc)"
  shows "count_of E rc' f' c = count_of E rc f c"
  using assms by (auto simp: count_of_def rc_same_def get_refcount_index_def)

subsection \<open>Flushing\<close>

lemma rc_same_trans:
  assumes "rc_same E s s'" "rc_same E s' s''"
  shows "rc_same E s s''"
proof -
  obtain rc f rc' f' rc'' f'' where e: "s = (rc, f)" "s' = (rc', f')" "s'' = (rc'', f'')" by (metis prod.exhaust)
  show ?thesis using assms unfolding e rc_same_def same_shape_def by simp
qed

lemma flush_block_ok:
  assumes ok: "rc_ok E rc f"
  shows "\<exists>s'. flush_block E k (rc, f) = (Ok (), s') \<and> rc_same E (rc, f) s' \<and>
    (\<forall>j v. cm_get (rc_refblock_cache (fst s')) j = Some v \<longrightarrow> vc_dirty v \<longrightarrow>
       j \<noteq> k \<and> cm_get (rc_refblock_cache rc) j = Some v)"
proof (cases "\<exists>v. cm_get (rc_refblock_cache rc) k = Some v \<and> vc_dirty v")
  case False
  then have "flush_block E k (rc, f) = (Ok (), (rc, f))"
    by (auto simp: flush_block_def io_defs split: option.split)
  then show ?thesis using False rc_same_refl [OF ok] by auto
next
  case True
  then obtain v where v: "cm_get (rc_refblock_cache rc) k = Some v" "vc_dirty v" by auto
  note D = rc_okD [OF ok] and T = tables_okD [OF rc_okD(5) [OF ok]]
  have k: "k < length (ref_tab rc)" "ref_tab rc ! k \<noteq> 0" using T(5) [OF v(1)] by auto
  obtain f' where w: "rc_write_back E (ref_tab rc) k v f = (Ok (), f')" "rb.saved (qe_be E) (ref_tab rc) k (vc_vec v) f f'"
    using rc_write_back_saved [OF ok v(1)] by blast
  let ?rc = "rc\<lparr>rc_refblock_cache := cm_put k (mark_clean v) (rc_refblock_cache rc)\<rparr>"
  have "flush_block E k (rc, f) = (Ok (), (?rc, f'))"
    using v k w(1) by (simp add: flush_block_def rc_write_back_def on_file_def zoom_def on_rc_def index_def io_defs
        split: prod.splits outcome.splits)
  moreover note st = rb.saved_tables [OF D(1,5) v(1) w(2), of "cm_put k (mark_clean v) (rc_refblock_cache rc)"]
  have "rc_same E (rc, f) (?rc, f')"
    using st rb.saved_frame [OF D(1) _ w(2)] T(5) [OF v(1)] w(2) D
    unfolding rc_same_def rb.saved_def same_shape_def table_cluster_def rc_ok_def block_view_def by auto
  ultimately show ?thesis by (auto simp: mark_clean_def split: if_splits)
qed

lemma flush_blocks_ok:
  assumes ok: "rc_ok E rc f"
  shows "wp (flush_blocks E) (\<lambda>_ s. rc_same E (rc, f) s \<and>
    (\<forall>j v. cm_get (rc_refblock_cache (fst s)) j = Some v \<longrightarrow> \<not> vc_dirty v)) (\<lambda>_ _. False) (rc, f)"
proof -
  let ?I = "\<lambda>ks s. rc_same E (rc, f) s \<and>
    (\<forall>j v. cm_get (rc_refblock_cache (fst s)) j = Some v \<longrightarrow> vc_dirty v \<longrightarrow> j \<in> set ks)"
  have "wp (flush_block E k) (\<lambda>_. ?I ks) (\<lambda>_ _. False) s" if "?I (k # ks) s" for k ks s
  proof -
    obtain rc' f' where s: "s = (rc', f')" by (cases s)
    have "rc_ok E rc' f'" using that s by (simp add: rc_same_def)
    then obtain s' where r: "flush_block E k s = (Ok (), s')" "rc_same E s s'"
      "\<forall>j v. cm_get (rc_refblock_cache (fst s')) j = Some v \<longrightarrow> vc_dirty v \<longrightarrow> j \<noteq> k \<and> cm_get (rc_refblock_cache rc') j = Some v"
      using flush_block_ok [of E rc' f' k] s by blast
    then show ?thesis using that s rc_same_trans [OF conjunct1 [OF that] r(2)] by (auto simp: wp_def)
  qed
  moreover have "?I (map fst (cm_map (rc_refblock_cache rc))) (rc, f)"
    using rc_same_refl [OF ok] cm_get_keys [of "rc_refblock_cache rc"] by fastforce
  ultimately have "wp (for_each (map fst (cm_map (rc_refblock_cache rc))) (flush_block E)) (\<lambda>_. ?I []) (\<lambda>_ _. False) (rc, f)"
    by (rule wp_for_each)
  then show ?thesis by (simp add: flush_blocks_def wp_simps)
qed

end
