(* ===== verification/Qcow_Header.thy ===== *)
theory Qcow_Header
  imports Qcow_Tables
begin

text \<open>
  The header of a qcow image, \<open>QcowHeader\<close> of \<^verbatim>\<open>src/qcow/src/qcow.rs\<close>: its fields at their width,
  reading it from and writing it to the image file, and the geometry of a new image.
\<close>

subsection \<open>Constants and errors\<close>

definition MAX_QCOW_FILE_SIZE :: u64 where "MAX_QCOW_FILE_SIZE = 0x100000000000"
definition QCOW_MAGIC :: u32 where "QCOW_MAGIC = 0x514649fb"
definition DEFAULT_CLUSTER_BITS :: u32 where "DEFAULT_CLUSTER_BITS = 16"
definition MIN_CLUSTER_BITS :: u32 where "MIN_CLUSTER_BITS = 9"
definition MAX_CLUSTER_BITS :: u32 where "MAX_CLUSTER_BITS = 21"
definition MAX_RAM_POINTER_TABLE_SIZE :: nat where "MAX_RAM_POINTER_TABLE_SIZE = 35000000"
definition DEFAULT_REFCOUNT_ORDER :: u32 where "DEFAULT_REFCOUNT_ORDER = 4"
definition V2_BARE_HEADER_SIZE :: u32 where "V2_BARE_HEADER_SIZE = 72"
definition V3_BARE_HEADER_SIZE :: u32 where "V3_BARE_HEADER_SIZE = 104"
definition COMPATIBLE_FEATURES_LAZY_REFCOUNTS :: u64 where "COMPATIBLE_FEATURES_LAZY_REFCOUNTS = 1"

datatype qcow_error =
  BackingFilesNotSupported | CompressedBlocksNotSupported | EvictingCache io_err | FileTooBig nat |
  GettingFileSize io_err | GettingRefcount | InvalidClusterIndex | InvalidClusterSize | InvalidIndexError |
  InvalidL1TableOffset | InvalidL1TableSize nat | InvalidMagic | InvalidOffset nat |
  InvalidRefcountTableOffset | InvalidRefcountTableSize nat | NoFreeClusters | NoRefcountClusters |
  NotEnoughSpaceForRefcounts | OpeningFile io_err | ReadingData io_err | ReadingHeader io_err |
  ReadingPointers io_err | ReadingRefCountBlock | ReadingRefCountsError io_err | RebuildingRefCounts io_err |
  RefcountTableOffEnd | RefcountTableTooLarge | SeekingFile io_err | SettingFileSize io_err |
  SettingRefcountRefcount io_err | SizeTooSmallForNumberOfClusters | TooManyL1Entries nat |
  TooManyRefcounts nat | UnsupportedRefcountOrder | UnsupportedVersion nat | WritingData io_err | WritingHeader io_err

subsection \<open>The header\<close>

record qcow_header =
  qh_magic :: u32
  qh_version :: u32
  qh_backing_file_offset :: u64
  qh_backing_file_size :: u32
  qh_cluster_bits :: u32
  qh_size :: u64
  qh_crypt_method :: u32
  qh_l1_size :: u32
  qh_l1_table_offset :: u64
  qh_refcount_table_offset :: u64
  qh_refcount_table_clusters :: u32
  qh_nb_snapshots :: u32
  qh_snapshots_offset :: u64
  qh_incompatible_features :: u64
  qh_compatible_features :: u64
  qh_autoclear_features :: u64
  qh_refcount_order :: u32
  qh_header_size :: u32

definition read_u32_from_file :: "qcow_env \<Rightarrow> (raw_file, qcow_error, u32) io" where
  "read_u32_from_file E = map_err ReadingHeader (bnd (read_exact (qe_buf E) 4) (\<lambda>bs. ret (read_u32 (qe_be E) bs)))"

definition read_u64_from_file :: "qcow_env \<Rightarrow> (raw_file, qcow_error, u64) io" where
  "read_u64_from_file E = map_err ReadingHeader (bnd (read_exact (qe_buf E) 8) (\<lambda>bs. ret (read_u64 (qe_be E) bs)))"

definition v3_u64 :: "qcow_env \<Rightarrow> u32 \<Rightarrow> u64 \<Rightarrow> (raw_file, qcow_error, u64) io" where
  "v3_u64 E version v = (if version = 2 then ret v else read_u64_from_file E)"

definition v3_u32 :: "qcow_env \<Rightarrow> u32 \<Rightarrow> u32 \<Rightarrow> (raw_file, qcow_error, u32) io" where
  "v3_u32 E version v = (if version = 2 then ret v else read_u32_from_file E)"

definition qcow_header_new :: "qcow_env \<Rightarrow> (raw_file, qcow_error, qcow_header) io" where
  "qcow_header_new E =
     seq (map_err ReadingHeader (raw_seek 0))
     (bnd (read_u32_from_file E) (\<lambda>magic. if magic \<noteq> QCOW_MAGIC then throw InvalidMagic else
      bnd (read_u32_from_file E) (\<lambda>version.
      bnd (read_u64_from_file E) (\<lambda>backing_file_offset.
      bnd (read_u32_from_file E) (\<lambda>backing_file_size.
      bnd (read_u32_from_file E) (\<lambda>cluster_bits.
      bnd (read_u64_from_file E) (\<lambda>sz.
      bnd (read_u32_from_file E) (\<lambda>crypt_method.
      bnd (read_u32_from_file E) (\<lambda>l1_size.
      bnd (read_u64_from_file E) (\<lambda>l1_table_offset.
      bnd (read_u64_from_file E) (\<lambda>refcount_table_offset.
      bnd (read_u32_from_file E) (\<lambda>refcount_table_clusters.
      bnd (read_u32_from_file E) (\<lambda>nb_snapshots.
      bnd (read_u64_from_file E) (\<lambda>snapshots_offset.
      bnd (v3_u64 E version 0) (\<lambda>incompatible_features.
      bnd (v3_u64 E version 0) (\<lambda>compatible_features.
      bnd (v3_u64 E version 0) (\<lambda>autoclear_features.
      bnd (v3_u32 E version DEFAULT_REFCOUNT_ORDER) (\<lambda>refcount_order.
      bnd (v3_u32 E version V2_BARE_HEADER_SIZE) (\<lambda>header_size.
        ret \<lparr>qh_magic = magic, qh_version = version, qh_backing_file_offset = backing_file_offset,
          qh_backing_file_size = backing_file_size, qh_cluster_bits = cluster_bits, qh_size = sz,
          qh_crypt_method = crypt_method, qh_l1_size = l1_size, qh_l1_table_offset = l1_table_offset,
          qh_refcount_table_offset = refcount_table_offset, qh_refcount_table_clusters = refcount_table_clusters,
          qh_nb_snapshots = nb_snapshots, qh_snapshots_offset = snapshots_offset,
          qh_incompatible_features = incompatible_features, qh_compatible_features = compatible_features,
          qh_autoclear_features = autoclear_features, qh_refcount_order = refcount_order,
          qh_header_size = header_size\<rparr>)))))))))))))))))))"

text \<open>The header that a prefix of the image stands for.\<close>

definition parse_header :: "le_codec \<Rightarrow> u8 list \<Rightarrow> qcow_header option" where
  "parse_header C bs = (let w = (\<lambda>k. read_u32 C (drop k bs)); d = (\<lambda>k. read_u64 C (drop k bs)); v2 = (w 4 = 2) in
     if w 0 \<noteq> QCOW_MAGIC then None else Some \<lparr>qh_magic = w 0, qh_version = w 4, qh_backing_file_offset = d 8,
       qh_backing_file_size = w 16, qh_cluster_bits = w 20, qh_size = d 24, qh_crypt_method = w 32, qh_l1_size = w 36,
       qh_l1_table_offset = d 40, qh_refcount_table_offset = d 48, qh_refcount_table_clusters = w 56,
       qh_nb_snapshots = w 60, qh_snapshots_offset = d 64,
       qh_incompatible_features = (if v2 then 0 else d 72), qh_compatible_features = (if v2 then 0 else d 80),
       qh_autoclear_features = (if v2 then 0 else d 88), qh_refcount_order = (if v2 then DEFAULT_REFCOUNT_ORDER else w 96),
       qh_header_size = (if v2 then V2_BARE_HEADER_SIZE else w 100)\<rparr>)"

text \<open>The header as the image has it once its counts are valid: not marked for a rebuild.\<close>

definition clear_lazy :: "qcow_header \<Rightarrow> qcow_header" where
  "clear_lazy h = h\<lparr>qh_compatible_features := qh_compatible_features h AND NOT COMPATIBLE_FEATURES_LAZY_REFCOUNTS\<rparr>"

definition write_u32_to_file :: "qcow_env \<Rightarrow> u32 \<Rightarrow> ('x raw_file_scheme, qcow_error, unit) io" where
  "write_u32_to_file E v = map_err WritingHeader (write_all (qe_buf E) (enc_u32 (qe_be E) v))"

definition write_u64_to_file :: "qcow_env \<Rightarrow> u64 \<Rightarrow> ('x raw_file_scheme, qcow_error, unit) io" where
  "write_u64_to_file E v = map_err WritingHeader (write_all (qe_buf E) (enc_u64 (qe_be E) v))"

text \<open>
  \<open>write_to\<close>; the shift by \<open>cluster_bits\<close> uses its low six bits, and the sums wrap.
\<close>

definition last_table_byte :: "qcow_header \<Rightarrow> u64" where
  "last_table_byte h = qh_refcount_table_offset h
     + ucast (qh_refcount_table_clusters h) * push_bit (unat (qh_cluster_bits h) mod 64) 1 - 2"

definition qcow_header_write_to :: "qcow_env \<Rightarrow> qcow_header \<Rightarrow> ('x raw_file_scheme, qcow_error, unit) io" where
  "qcow_header_write_to E h =
     seq (write_u32_to_file E (qh_magic h))
     (seq (write_u32_to_file E (qh_version h))
     (seq (write_u64_to_file E (qh_backing_file_offset h))
     (seq (write_u32_to_file E (qh_backing_file_size h))
     (seq (write_u32_to_file E (qh_cluster_bits h))
     (seq (write_u64_to_file E (qh_size h))
     (seq (write_u32_to_file E (qh_crypt_method h))
     (seq (write_u32_to_file E (qh_l1_size h))
     (seq (write_u64_to_file E (qh_l1_table_offset h))
     (seq (write_u64_to_file E (qh_refcount_table_offset h))
     (seq (write_u32_to_file E (qh_refcount_table_clusters h))
     (seq (write_u32_to_file E (qh_nb_snapshots h))
     (seq (write_u64_to_file E (qh_snapshots_offset h))
     (seq (write_u64_to_file E (qh_incompatible_features h))
     (seq (write_u64_to_file E (qh_compatible_features h))
     (seq (write_u64_to_file E (qh_autoclear_features h))
     (seq (write_u32_to_file E (qh_refcount_order h))
     (seq (write_u32_to_file E (qh_header_size h))
     (seq (map_err WritingHeader (raw_seek (unat (last_table_byte h))))
     (seq (map_err WritingHeader (raw_write (qe_buf E) [0])) (ret ()))))))))))))))))))))"

subsection \<open>Geometry\<close>

definition div_round_up :: "'a::len word \<Rightarrow> 'a word \<Rightarrow> 'a word" where
  "div_round_up dividend divisor = dividend div divisor + (if dividend mod divisor \<noteq> 0 then 1 else 0)"

definition SIZE_OF_QCOW_HEADER :: nat where "SIZE_OF_QCOW_HEADER = 104"

definition max_refcount_clusters :: "u32 \<Rightarrow> u32 \<Rightarrow> u32 \<Rightarrow> u64" where
  "max_refcount_clusters refcount_order cluster_size num_clusters =
     (let refcount_bytes = push_bit (unat refcount_order mod 64) (1 :: u64) div 8;
          for_data = div_round_up (ucast num_clusters * refcount_bytes) (ucast cluster_size :: u64);
          for_refcounts = div_round_up (for_data * refcount_bytes) (ucast cluster_size :: u64)
      in for_data + for_refcounts)"

definition create_for_size :: "u32 \<Rightarrow> u64 \<Rightarrow> qcow_header" where
  "create_for_size version sz =
     (let cluster_size = push_bit (unat DEFAULT_CLUSTER_BITS) (1 :: u32);
          l2_size = cluster_size div 8;
          num_clusters = ucast (div_round_up sz (ucast cluster_size)) :: u32;
          num_l2_clusters = div_round_up num_clusters l2_size;
          l1_clusters = div_round_up num_l2_clusters cluster_size;
          header_clusters = div_round_up (of_nat SIZE_OF_QCOW_HEADER) cluster_size;
          max_rc = ucast (max_refcount_clusters DEFAULT_REFCOUNT_ORDER cluster_size
            (num_clusters + l1_clusters + num_l2_clusters + header_clusters)) :: u32
      in \<lparr>qh_magic = QCOW_MAGIC, qh_version = version, qh_backing_file_offset = 0, qh_backing_file_size = 0,
          qh_cluster_bits = DEFAULT_CLUSTER_BITS, qh_size = sz, qh_crypt_method = 0, qh_l1_size = num_l2_clusters,
          qh_l1_table_offset = ucast cluster_size,
          qh_refcount_table_offset = ucast (cluster_size * (l1_clusters + 1)),
          qh_refcount_table_clusters = div_round_up (max_rc * 8) cluster_size,
          qh_nb_snapshots = 0, qh_snapshots_offset = 0, qh_incompatible_features = 0,
          qh_compatible_features = 0, qh_autoclear_features = 0, qh_refcount_order = DEFAULT_REFCOUNT_ORDER,
          qh_header_size = (if version = 2 then V2_BARE_HEADER_SIZE else V3_BARE_HEADER_SIZE)\<rparr>)"

subsection \<open>Header bytes\<close>

definition header_bytes :: "le_codec \<Rightarrow> qcow_header \<Rightarrow> u8 list" where
  "header_bytes C h = enc_u32 C (qh_magic h) @ enc_u32 C (qh_version h) @ enc_u64 C (qh_backing_file_offset h) @
     enc_u32 C (qh_backing_file_size h) @ enc_u32 C (qh_cluster_bits h) @ enc_u64 C (qh_size h) @
     enc_u32 C (qh_crypt_method h) @ enc_u32 C (qh_l1_size h) @ enc_u64 C (qh_l1_table_offset h) @
     enc_u64 C (qh_refcount_table_offset h) @ enc_u32 C (qh_refcount_table_clusters h) @ enc_u32 C (qh_nb_snapshots h) @
     enc_u64 C (qh_snapshots_offset h) @ enc_u64 C (qh_incompatible_features h) @ enc_u64 C (qh_compatible_features h) @
     enc_u64 C (qh_autoclear_features h) @ enc_u32 C (qh_refcount_order h) @ enc_u32 C (qh_header_size h)"

text \<open>A version 2 header has no place for the later fields.\<close>

definition as_version :: "qcow_header \<Rightarrow> qcow_header" where
  "as_version h = (if qh_version h = 2 then h\<lparr>qh_incompatible_features := 0, qh_compatible_features := 0,
     qh_autoclear_features := 0, qh_refcount_order := DEFAULT_REFCOUNT_ORDER, qh_header_size := V2_BARE_HEADER_SIZE\<rparr> else h)"

lemma codec_read_prefix:
  assumes "codec_ok C"
  shows "read_u32 C (enc_u32 C v @ xs) = v" "read_u64 C (enc_u64 C w @ xs) = w"
    "read_u32 C (enc_u32 C v) = v" "read_u64 C (enc_u64 C w) = w"
proof -
  have "take 4 (enc_u32 C v @ xs) = enc_u32 C v" "take 8 (enc_u64 C w @ xs) = enc_u64 C w"
    using codec_lens [OF assms] by simp_all
  then show "read_u32 C (enc_u32 C v @ xs) = v" "read_u64 C (enc_u64 C w @ xs) = w"
    using codec_take(2,3) [OF assms] assms by (metis codec_ok_def)+
  show "read_u32 C (enc_u32 C v) = v" "read_u64 C (enc_u64 C w) = w" using assms by (simp_all add: codec_ok_def)
qed

lemma length_header_bytes: "codec_ok C \<Longrightarrow> length (header_bytes C h) = 104"
  by (simp add: header_bytes_def codec_lens)

lemma parse_header_bytes:
  assumes "codec_ok C" "qh_magic h = QCOW_MAGIC"
  shows "parse_header C (header_bytes C h) = Some (as_version h)"
  using assms(2) by (simp add: parse_header_def header_bytes_def Let_def codec_read_prefix [OF assms(1)] codec_lens [OF assms(1)] as_version_def)

text \<open>Reading the header on a quiet file.\<close>

lemma read_word_eq:
  assumes "quiet f" "p + 8 \<le> hf_len f" "hf_len f < 2 ^ 63"
  shows "read_u64_from_file E (at_pos p f) = (Ok (read_u64 (qe_be E) (bytes_at (hf_data f) p 8)), at_pos (p + 8) f)"
  using assms read_exact_eq [of "at_pos p f" 8 "qe_buf E"] by (simp add: read_u64_from_file_def map_err_def io_defs at_pos_def quiet_def)

lemma read_half_eq:
  assumes "quiet f" "p + 4 \<le> hf_len f" "hf_len f < 2 ^ 63"
  shows "read_u32_from_file E (at_pos p f) = (Ok (read_u32 (qe_be E) (bytes_at (hf_data f) p 4)), at_pos (p + 4) f)"
  using assms read_exact_eq [of "at_pos p f" 4 "qe_buf E"] by (simp add: read_u32_from_file_def map_err_def io_defs at_pos_def quiet_def)

lemma codec_read_at:
  assumes "codec_ok C"
  shows "p + 4 \<le> n \<Longrightarrow> read_u32 C (drop p (bytes_at d 0 n)) = read_u32 C (bytes_at d p 4)"
    "p + 8 \<le> n \<Longrightarrow> read_u64 C (drop p (bytes_at d 0 n)) = read_u64 C (bytes_at d p 8)"
proof -
  have "take k (drop p (bytes_at d 0 n)) = bytes_at d p k" if "p + k \<le> n" for k
    using that by (simp add: drop_slice take_slice)
  then show "p + 4 \<le> n \<Longrightarrow> read_u32 C (drop p (bytes_at d 0 n)) = read_u32 C (bytes_at d p 4)"
    "p + 8 \<le> n \<Longrightarrow> read_u64 C (drop p (bytes_at d 0 n)) = read_u64 C (bytes_at d p 8)"
    using codec_take(2,3) [OF assms, of "drop p (bytes_at d 0 n)"] by simp_all
qed

lemma bnd_step: "m s = (Ok x, t) \<Longrightarrow> bnd m k s = k x t"
  by (simp add: bnd_def)

lemma qcow_header_new_eq:
  assumes "quiet f" "104 \<le> hf_len f" "hf_len f < 2 ^ 63" "codec_ok (qe_be E)"
    and h: "parse_header (qe_be E) (bytes_at (hf_data f) 0 104) = Some h"
  shows "\<exists>p. qcow_header_new E f = (Ok h, at_pos p f)"
proof -
  let ?w = "\<lambda>p. read_u32 (qe_be E) (bytes_at (hf_data f) p 4)" and ?d = "\<lambda>p. read_u64 (qe_be E) (bytes_at (hf_data f) p 8)"
  have seek: "seq (map_err ReadingHeader (raw_seek 0)) m f = m (at_pos 0 f)" for m :: "(raw_file, qcow_error, 'a) io"
    by (simp add: seq_def bnd_def map_err_def raw_seek_eq at_pos_def)
  have w: "bnd (read_u32_from_file E) k (at_pos p f) = k (?w p) (at_pos (p + 4) f)"
    if "p + 4 \<le> 104" for p and k :: "u32 \<Rightarrow> (raw_file, qcow_error, 'a) io"
    using read_half_eq [OF assms(1) _ assms(3), of p E] that assms(2) by (intro bnd_step) simp
  have d: "bnd (read_u64_from_file E) k (at_pos p f) = k (?d p) (at_pos (p + 8) f)"
    if "p + 8 \<le> 104" for p and k :: "u64 \<Rightarrow> (raw_file, qcow_error, 'a) io"
    using read_word_eq [OF assms(1) _ assms(3), of p E] that assms(2) by (intro bnd_step) simp
  have r: "bnd (ret x) k = k x" for x and k :: "'a \<Rightarrow> (raw_file, qcow_error, 'b) io" by (simp add: fun_eq_iff bnd_def ret_def)
  have z: "read_u32 (qe_be E) (bytes_at (hf_data f) 0 104) = ?w 0" using codec_read_at(1) [OF assms(4), of 0 104] by simp
  have m: "?w 0 = QCOW_MAGIC" using h by (simp add: parse_header_def Let_def z split: if_splits)
  note H = h [symmetric, unfolded parse_header_def Let_def]
  show ?thesis
  proof (cases "?w 4 = 2")
    case True
    then have "qcow_header_new E f = (Ok h, at_pos 72 f)" using H m
      by (simp add: codec_read_at [OF assms(4)] z
          qcow_header_new_def v3_u64_def v3_u32_def seek w d r) (simp add: ret_def)
    then show ?thesis by blast
  next
    case False
    then have "qcow_header_new E f = (Ok h, at_pos 104 f)" using H m
      by (simp add: codec_read_at [OF assms(4)] z
          qcow_header_new_def v3_u64_def v3_u32_def seek w d) (simp add: ret_def)
    then show ?thesis by blast
  qed
qed

text \<open>Writing it, on a quiet file.\<close>

definition put_at :: "nat \<Rightarrow> u8 list \<Rightarrow> 'x raw_file_scheme \<Rightarrow> 'x raw_file_scheme" where
  "put_at p bs f = f\<lparr>hf_data := store (hf_data f) p bs, hf_len := max (hf_len f) (p + length bs)\<rparr>"

lemma put_at_append: "put_at (p + length xs) ys (put_at p xs f) = put_at p (xs @ ys) f"
  by (simp add: put_at_def store_append max.assoc)

lemma put_at_simps [simp]:
  "quiet (put_at p bs f) = quiet f" "hf_len (put_at p bs f) = max (hf_len f) (p + length bs)"
  "hf_data (put_at p bs f) = store (hf_data f) p bs"
  "qr_cluster_size (put_at p bs g) = qr_cluster_size g" "qr_cluster_mask (put_at p bs g) = qr_cluster_mask g"
  by (simp_all add: put_at_def)

lemma write_all_at:
  assumes "quiet f" "p + length bs < 2 ^ 63" "bs \<noteq> []"
  shows "write_all ptr bs (at_pos p f) = (Ok (), at_pos (p + length bs) (put_at p bs f))"
  using assms write_all_eq [of "at_pos p f" bs ptr] by (simp add: at_pos_def put_at_def quiet_def)

lemma qcow_header_write_eq:
  fixes f :: "'x raw_file_scheme"
  assumes "quiet f" "codec_ok (qe_be E)" "unat (last_table_byte h) < 2 ^ 63"
  shows "qcow_header_write_to E h (at_pos 0 f) = (Ok (), at_pos (unat (last_table_byte h) + 1)
    (put_at (unat (last_table_byte h)) [0] (put_at 0 (header_bytes (qe_be E) h) f)))"
proof -
  let ?C = "qe_be E"
  have w: "seq (write_u32_to_file E v) m (at_pos p (put_at 0 bs f)) = m (at_pos (p + 4) (put_at 0 (bs @ enc_u32 ?C v) f))"
    if "p = length bs" "p < 104" for p v bs and m :: "('x raw_file_scheme, qcow_error, 'a) io"
    using write_all_at [of "put_at 0 bs f" p "enc_u32 ?C v" "qe_buf E"] that assms(1) codec_lens(2) [OF assms(2), of v]
      put_at_append [of 0 bs "enc_u32 ?C v" f]
    by (fastforce simp: seq_def write_u32_to_file_def map_err_def bnd_def)
  have d: "seq (write_u64_to_file E v) m (at_pos p (put_at 0 bs f)) = m (at_pos (p + 8) (put_at 0 (bs @ enc_u64 ?C v) f))"
    if "p = length bs" "p < 104" for p v bs and m :: "('x raw_file_scheme, qcow_error, 'a) io"
    using write_all_at [of "put_at 0 bs f" p "enc_u64 ?C v" "qe_buf E"] that assms(1) codec_lens(3) [OF assms(2), of v]
      put_at_append [of 0 bs "enc_u64 ?C v" f]
    by (fastforce simp: seq_def write_u64_to_file_def map_err_def bnd_def)
  let ?g = "put_at 0 (header_bytes ?C h) f" and ?l = "unat (last_table_byte h)"
  have start: "at_pos 0 f = at_pos 0 (put_at 0 [] f)" by (simp add: put_at_def)
  have "seq (map_err WritingHeader (raw_seek ?l)) (seq (map_err WritingHeader (raw_write (qe_buf E) [0])) (ret ())) (at_pos 104 ?g) =
      (Ok (), at_pos (?l + 1) (put_at ?l [0] ?g))"
    using raw_write_eq [of "at_pos ?l ?g" "[0]" "qe_buf E"] assms(1,3)
    by (simp add: seq_def bnd_def map_err_def raw_seek_eq ret_def) (simp add: at_pos_def put_at_def quiet_def ret_def)
  then show ?thesis unfolding qcow_header_write_to_def start
    by (simp add: w d codec_lens [OF assms(2)] flip: append_assoc) (simp add: header_bytes_def)
qed


end
