(* ===== verification/Qcow_File.thy ===== *)
theory Qcow_File
  imports Qcow_Refcount Qcow_Header
begin

text \<open>
  A qcow image as a virtual disk, \<open>QcowFile\<close> of \<^verbatim>\<open>src/qcow/src/qcow.rs\<close>: translation of guest addresses
  through the L1 and L2 tables, allocation and release of clusters, reading, writing, discarding,
  flushing and the search for data and holes.  Fuel bounds three loops.  \<open>set_cluster_refcount\<close> goes
  round at most three times for one count, and recurses only after it took a cluster from the pool of
  free ones or from the end of the file, so the number of clusters still to be had bounds the depth.
  Every round of the transfer loops moves at least one byte.
\<close>

subsection \<open>State\<close>

definition L1_TABLE_OFFSET_MASK :: u64 where "L1_TABLE_OFFSET_MASK = 0x00fffffffffffe00"
definition L2_TABLE_OFFSET_MASK :: u64 where "L2_TABLE_OFFSET_MASK = 0x00fffffffffffe00"
definition COMPRESSED_FLAG :: u64 where "COMPRESSED_FLAG = 0x4000000000000000"
definition CLUSTER_USED_FLAG :: u64 where "CLUSTER_USED_FLAG = 0x8000000000000000"

record qcow_file =
  q_raw_file :: qcow_raw_file
  q_header :: qcow_header
  q_l1_table :: "nat vec_cache"
  q_l2_entries :: nat
  q_l2_cache :: "nat cache_map"
  q_refcounts :: ref_count
  q_current_offset :: nat
  q_unref_clusters :: "nat list"
  q_avail_clusters :: "nat list"

type_synonym 'a qcow_io = "(qcow_file, io_err, 'a) io"

definition on_raw :: "(qcow_raw_file, 'e, 'a) io \<Rightarrow> (qcow_file, 'e, 'a) io" where
  "on_raw m = zoom q_raw_file (\<lambda>f q. q\<lparr>q_raw_file := f\<rparr>) m"

definition on_refcounts :: "('e, 'a) rc_io \<Rightarrow> (qcow_file, 'e, 'a) io" where
  "on_refcounts m = zoom (\<lambda>q. (q_refcounts q, q_raw_file q)) (\<lambda>(rc, f) q. q\<lparr>q_refcounts := rc, q_raw_file := f\<rparr>) m"

subsection \<open>Address arithmetic\<close>

definition virtual_size :: "qcow_file \<Rightarrow> nat" where
  "virtual_size q = unat (qh_size (q_header q))"

definition q_cluster_size :: "qcow_file \<Rightarrow> nat" where
  "q_cluster_size q = qr_cluster_size (q_raw_file q)"

definition limit_range_file :: "qcow_file \<Rightarrow> nat \<Rightarrow> nat \<Rightarrow> nat" where
  "limit_range_file q address count =
     (if address + count \<ge> 2 ^ 64 \<or> address > virtual_size q then 0 else min count (virtual_size q - address))"

definition limit_range_cluster :: "qcow_file \<Rightarrow> nat \<Rightarrow> nat \<Rightarrow> nat" where
  "limit_range_cluster q address count = min count (q_cluster_size q - cluster_offset (q_raw_file q) address)"

definition l1_table_index :: "qcow_file \<Rightarrow> nat \<Rightarrow> nat" where
  "l1_table_index q address = address div q_cluster_size q div q_l2_entries q"

definition l2_table_index :: "qcow_file \<Rightarrow> nat \<Rightarrow> nat" where
  "l2_table_index q address = address div q_cluster_size q mod q_l2_entries q"

subsection \<open>L2 tables\<close>

definition read_l2_cluster :: "qcow_env \<Rightarrow> nat \<Rightarrow> (qcow_raw_file, io_err, nat list) io" where
  "read_l2_cluster E cluster_addr = bnd (read_pointer_cluster E cluster_addr None) (\<lambda>file_values.
     if \<exists>entry \<in> set file_values. of_nat entry AND COMPRESSED_FLAG \<noteq> 0 then throw (OsError ENOTSUP)
     else ret (map (\<lambda>entry. unat (of_nat entry AND L2_TABLE_OFFSET_MASK)) file_values))"

definition l2_write_back :: "qcow_env \<Rightarrow> nat list \<Rightarrow> nat \<Rightarrow> nat vec_cache \<Rightarrow> (qcow_raw_file, io_err, unit) io" where
  "l2_write_back E l1_table i evicted =
     bnd (index l1_table i) (\<lambda>a. write_pointer_table E a (vc_vec evicted) CLUSTER_USED_FLAG)"

definition l2_insert :: "qcow_env \<Rightarrow> nat \<Rightarrow> nat vec_cache \<Rightarrow> unit qcow_io" where
  "l2_insert E i table = bnd (gets (\<lambda>q. vc_vec (q_l1_table q))) (\<lambda>l1_table.
     zoom (\<lambda>q. (q_l2_cache q, q_raw_file q)) (\<lambda>(c, f) q. q\<lparr>q_l2_cache := c, q_raw_file := f\<rparr>)
       (cm_insert (qe_pick E) (l2_write_back E l1_table) i table))"

text \<open>The table of an L1 entry that has one, read into the cache if it is not there.\<close>

definition l2_load :: "qcow_env \<Rightarrow> nat \<Rightarrow> nat \<Rightarrow> unit qcow_io" where
  "l2_load E l1_index l2_addr_disk = bnd (gets q_l2_cache) (\<lambda>c.
     if cm_get c l1_index \<noteq> None then ret ()
     else bnd (on_raw (read_l2_cluster E l2_addr_disk)) (\<lambda>t. l2_insert E l1_index (vec_cache_from_vec t)))"

definition l2_entry :: "nat \<Rightarrow> nat \<Rightarrow> nat qcow_io" where
  "l2_entry l1_index l2_index = bnd (gets q_l2_cache) (\<lambda>c.
     bnd (unwrap (cm_get c l1_index)) (\<lambda>t. index (vc_vec t) l2_index))"

definition l2_set :: "nat \<Rightarrow> nat \<Rightarrow> nat \<Rightarrow> unit qcow_io" where
  "l2_set l1_index l2_index addr = bnd (gets q_l2_cache) (\<lambda>c.
     bnd (unwrap (cm_get c l1_index)) (\<lambda>t.
       if vec_in l2_index t then modify (\<lambda>q. q\<lparr>q_l2_cache := cm_put l1_index (vec_set l2_index addr t) c\<rparr>) else panic))"

definition l1_set :: "nat \<Rightarrow> nat \<Rightarrow> unit qcow_io" where
  "l1_set l1_index addr = bnd (gets q_l1_table) (\<lambda>t.
     if vec_in l1_index t then modify (\<lambda>q. q\<lparr>q_l1_table := vec_set l1_index addr t\<rparr>) else panic)"

definition l1_entry :: "nat \<Rightarrow> nat qcow_io" where
  "l1_entry l1_index = bnd (gets (\<lambda>q. vc_vec (q_l1_table q))) (\<lambda>t. get_or (OsError EINVAL) t l1_index)"

subsection \<open>Allocation and reference counts\<close>

definition get_new_cluster :: "qcow_env \<Rightarrow> nat qcow_io" where
  "get_new_cluster E = bnd (gets id) (\<lambda>q.
     if q_avail_clusters q \<noteq> [] then
       let free_cluster = last (q_avail_clusters q)
       in seq (modify (\<lambda>q. q\<lparr>q_avail_clusters := butlast (q_avail_clusters q)\<rparr>))
            (seq (on_raw (zero_cluster E free_cluster)) (ret free_cluster))
     else bnd (on_raw (add_cluster_end (rc_max_valid_cluster_offset (q_refcounts q)))) (\<lambda>r. case r of
       Some new_cluster \<Rightarrow> ret new_cluster
     | None \<Rightarrow> throw (OsError ENOSPC)))"

text \<open>
  The loop of \<open>set_cluster_refcount\<close>: it returns the clusters it added and the one it dropped.
\<close>

fun refcount_loop :: "qcow_env \<Rightarrow> nat \<Rightarrow> nat \<Rightarrow> u16 \<Rightarrow> (nat \<times> u16 vec_cache) option \<Rightarrow> nat list \<Rightarrow>
    (nat list \<times> nat list) qcow_io" where
  "refcount_loop E 0 address refcount new_cluster added_clusters = stuck"
| "refcount_loop E (Suc fuel) address refcount new_cluster added_clusters =
     bnd (attempt (on_refcounts (rc_set_cluster_refcount E address refcount new_cluster))) (\<lambda>r. case r of
       Inr None \<Rightarrow> ret (added_clusters, [])
     | Inr (Some freed_cluster) \<Rightarrow> ret (added_clusters, [freed_cluster])
     | Inl (EvictingRefCounts e) \<Rightarrow> throw e
     | Inl InvalidIndex \<Rightarrow> throw (OsError EINVAL)
     | Inl (NeedCluster addr) \<Rightarrow> bnd (on_raw (read_refcount_block E addr)) (\<lambda>t.
         refcount_loop E fuel address refcount (Some (addr, vec_cache_from_vec t)) added_clusters)
     | Inl NeedNewCluster \<Rightarrow> bnd (get_new_cluster E) (\<lambda>addr. bnd (gets q_refcounts) (\<lambda>rc.
         refcount_loop E fuel address refcount (Some (addr, vec_cache_new (rc_refcount_block_entries rc)))
           (added_clusters @ [addr])))
     | Inl (ReadingRefCounts e) \<Rightarrow> throw e)"

fun set_refcount_fuel :: "qcow_env \<Rightarrow> nat \<Rightarrow> nat \<Rightarrow> u16 \<Rightarrow> nat list qcow_io" where
  "set_refcount_fuel E 0 address refcount = stuck"
| "set_refcount_fuel E (Suc fuel) address refcount =
     bnd (refcount_loop E 4 address refcount None []) (\<lambda>(added_clusters, unref_clusters).
       seq (for_each added_clusters (\<lambda>addr. seq (set_refcount_fuel E fuel addr 1) (ret ())))
         (ret unref_clusters))"

text \<open>The clusters that can still be taken: those in the pool and those up to the last valid offset.\<close>

definition clusters_left :: "qcow_file \<Rightarrow> nat" where
  "clusters_left q = length (q_avail_clusters q)
     + (rc_max_valid_cluster_offset (q_refcounts q) + q_cluster_size q - hf_len (q_raw_file q))"

definition set_cluster_refcount :: "qcow_env \<Rightarrow> nat \<Rightarrow> u16 \<Rightarrow> nat list qcow_io" where
  "set_cluster_refcount E address refcount =
     bnd (gets clusters_left) (\<lambda>n. set_refcount_fuel E (n + 1) address refcount)"

definition add_unref :: "nat list \<Rightarrow> unit qcow_io" where
  "add_unref cs = modify (\<lambda>q. q\<lparr>q_unref_clusters := q_unref_clusters q @ cs\<rparr>)"

definition append_data_cluster :: "qcow_env \<Rightarrow> nat qcow_io" where
  "append_data_cluster E = bnd (get_new_cluster E) (\<lambda>new_addr.
     bnd (set_cluster_refcount E new_addr 1) (\<lambda>newly_unref. seq (add_unref newly_unref) (ret new_addr)))"

subsection \<open>Translation\<close>

definition file_offset_read :: "qcow_env \<Rightarrow> nat \<Rightarrow> nat option qcow_io" where
  "file_offset_read E address = bnd (gets id) (\<lambda>q.
     if address \<ge> virtual_size q then throw (OsError EINVAL)
     else
       let l1_index = l1_table_index q address; l2_index = l2_table_index q address
       in bnd (l1_entry l1_index) (\<lambda>l2_addr_disk.
          if l2_addr_disk = 0 then ret None
          else seq (l2_load E l1_index l2_addr_disk)
            (bnd (l2_entry l1_index l2_index) (\<lambda>cluster_addr.
               if cluster_addr = 0 then ret None
               else ret (Some (cluster_addr + cluster_offset (q_raw_file q) address))))))"

text \<open>\<open>update_cluster_addr\<close> returns the reference counts it wants set, in the order it pushed them.\<close>

definition update_cluster_addr :: "qcow_env \<Rightarrow> nat \<Rightarrow> nat \<Rightarrow> nat \<Rightarrow> (nat \<times> u16) list qcow_io" where
  "update_cluster_addr E l1_index l2_index cluster_addr = bnd (gets id) (\<lambda>q.
     bnd (unwrap (cm_get (q_l2_cache q) l1_index)) (\<lambda>table.
       bnd (if \<not> vc_dirty table then
              bnd (index (vc_vec (q_l1_table q)) l1_index) (\<lambda>addr.
              seq (if addr \<noteq> 0 then add_unref [addr] else ret ())
              (bnd (get_new_cluster E) (\<lambda>new_addr.
               seq (l1_set l1_index new_addr)
                 (ret ((if addr \<noteq> 0 then [(addr, 0)] else []) @ [(new_addr, 1)])))))
            else ret []) (\<lambda>set_refcounts.
       seq (l2_set l1_index l2_index cluster_addr) (ret set_refcounts))))"

definition l2_load_or_new :: "qcow_env \<Rightarrow> nat \<Rightarrow> nat \<Rightarrow> (nat \<times> u16) list qcow_io" where
  "l2_load_or_new E l1_index l2_addr_disk = bnd (gets id) (\<lambda>q.
     if cm_get (q_l2_cache q) l1_index \<noteq> None then ret []
     else if l2_addr_disk = 0 then
       bnd (get_new_cluster E) (\<lambda>new_addr. seq (l1_set l1_index new_addr)
         (seq (l2_insert E l1_index (vec_cache_new (q_l2_entries q))) (ret [(new_addr, 1)])))
     else bnd (on_raw (read_l2_cluster E l2_addr_disk)) (\<lambda>t.
       seq (l2_insert E l1_index (vec_cache_from_vec t)) (ret [])))"

definition set_refcounts_loop :: "qcow_env \<Rightarrow> (nat \<times> u16) list \<Rightarrow> unit qcow_io" where
  "set_refcounts_loop E set_refcounts = for_each set_refcounts (\<lambda>(addr, count).
     bnd (set_cluster_refcount E addr count) add_unref)"

definition file_offset_write :: "qcow_env \<Rightarrow> nat \<Rightarrow> nat qcow_io" where
  "file_offset_write E address = bnd (gets id) (\<lambda>q.
     if address \<ge> virtual_size q then throw (OsError EINVAL)
     else
       let l1_index = l1_table_index q address; l2_index = l2_table_index q address
       in bnd (l1_entry l1_index) (\<lambda>l2_addr_disk.
          bnd (l2_load_or_new E l1_index l2_addr_disk) (\<lambda>set_refcounts.
          bnd (l2_entry l1_index l2_index) (\<lambda>a.
          bnd (if a = 0 then
                 bnd (append_data_cluster E) (\<lambda>cluster_addr.
                 bnd (update_cluster_addr E l1_index l2_index cluster_addr) (\<lambda>more.
                   ret (cluster_addr, set_refcounts @ more)))
               else ret (a, set_refcounts)) (\<lambda>(cluster_addr, set_refcounts).
          seq (set_refcounts_loop E set_refcounts)
            (ret (cluster_addr + cluster_offset (q_raw_file q) address)))))))"

definition cluster_allocated :: "qcow_env \<Rightarrow> nat \<Rightarrow> bool qcow_io" where
  "cluster_allocated E address = bnd (gets id) (\<lambda>q.
     if address \<ge> virtual_size q then throw (OsError EINVAL)
     else
       let l1_index = l1_table_index q address; l2_index = l2_table_index q address
       in bnd (l1_entry l1_index) (\<lambda>l2_addr_disk.
          if l2_addr_disk = 0 then ret False
          else seq (l2_load E l1_index l2_addr_disk)
            (bnd (l2_entry l1_index l2_index) (\<lambda>cluster_addr. ret (cluster_addr \<noteq> 0)))))"

subsection \<open>Reading and writing\<close>

fun read_loop :: "qcow_env \<Rightarrow> nat \<Rightarrow> nat \<Rightarrow> nat \<Rightarrow> u8 list qcow_io" where
  "read_loop E fuel curr_addr left = (if left = 0 then ret [] else case fuel of 0 \<Rightarrow> stuck | Suc fuel' \<Rightarrow>
     bnd (file_offset_read E curr_addr) (\<lambda>file_offset. bnd (gets id) (\<lambda>q.
       let count = limit_range_cluster q curr_addr left
       in bnd (case file_offset of
            Some offset \<Rightarrow> seq (on_raw (raw_seek offset)) (on_raw (read_exact (qe_buf E) count))
          | None \<Rightarrow> ret (replicate count 0)) (\<lambda>bs.
          bnd (read_loop E fuel' (curr_addr + count) (left - count)) (\<lambda>rest. ret (bs @ rest))))))"

text \<open>\<open>Read::read\<close> for a buffer of \<open>n\<close> bytes; the result is what was read.\<close>

definition qcow_read :: "qcow_env \<Rightarrow> nat \<Rightarrow> u8 list qcow_io" where
  "qcow_read E n = bnd (gets id) (\<lambda>q.
     let address = q_current_offset q; read_count = limit_range_file q address n
     in bnd (read_loop E read_count address read_count) (\<lambda>bs.
        seq (modify (\<lambda>q. q\<lparr>q_current_offset := q_current_offset q + read_count\<rparr>)) (ret bs)))"

fun write_loop :: "qcow_env \<Rightarrow> nat \<Rightarrow> nat \<Rightarrow> u8 list \<Rightarrow> unit qcow_io" where
  "write_loop E fuel curr_addr buf = (if buf = [] then ret () else case fuel of 0 \<Rightarrow> stuck | Suc fuel' \<Rightarrow>
     bnd (file_offset_write E curr_addr) (\<lambda>offset. bnd (gets id) (\<lambda>q.
       let count = limit_range_cluster q curr_addr (length buf)
       in seq (on_raw (raw_seek offset)) (seq (on_raw (raw_write (qe_buf E) (take count buf)))
            (write_loop E fuel' (curr_addr + count) (drop count buf))))))"

definition qcow_write :: "qcow_env \<Rightarrow> u8 list \<Rightarrow> nat qcow_io" where
  "qcow_write E buf = bnd (gets id) (\<lambda>q.
     let address = q_current_offset q; write_count = limit_range_file q address (length buf)
     in seq (write_loop E write_count address (take write_count buf))
        (seq (modify (\<lambda>q. q\<lparr>q_current_offset := q_current_offset q + write_count\<rparr>)) (ret write_count)))"

datatype seek_from = SeekStart nat | SeekEnd int | SeekCurrent int

definition seek_by :: "nat \<Rightarrow> int \<Rightarrow> nat option" where
  "seek_by base off =
     (if off < 0 then (if off = - (2 ^ 63) \<or> int base + off < 0 then None else Some (nat (int base + off)))
      else if int base + off < 2 ^ 64 then Some (nat (int base + off)) else None)"

definition qcow_seek :: "seek_from \<Rightarrow> nat qcow_io" where
  "qcow_seek pos = bnd (gets id) (\<lambda>q.
     let new_offset = (case pos of SeekStart off \<Rightarrow> Some off | SeekEnd off \<Rightarrow> seek_by (virtual_size q) off
                       | SeekCurrent off \<Rightarrow> seek_by (q_current_offset q) off)
     in case new_offset of
          Some off \<Rightarrow> if off \<le> virtual_size q then seq (modify (\<lambda>q. q\<lparr>q_current_offset := off\<rparr>)) (ret off)
                    else throw (OsError EINVAL)
        | None \<Rightarrow> throw (OsError EINVAL))"

subsection \<open>Discarding\<close>

definition deallocate_cluster :: "qcow_env \<Rightarrow> nat \<Rightarrow> unit qcow_io" where
  "deallocate_cluster E address = bnd (gets id) (\<lambda>q.
     if address \<ge> virtual_size q then throw (OsError EINVAL)
     else
       let l1_index = l1_table_index q address; l2_index = l2_table_index q address
       in bnd (l1_entry l1_index) (\<lambda>l2_addr_disk.
          if l2_addr_disk = 0 then ret ()
          else seq (l2_load E l1_index l2_addr_disk)
            (bnd (l2_entry l1_index l2_index) (\<lambda>cluster_addr.
             if cluster_addr = 0 then ret ()
             else bnd (map_err (\<lambda>_. InvalidData) (on_refcounts (get_cluster_refcount E cluster_addr))) (\<lambda>refcount.
               if refcount = 0 then throw (OsError EINVAL)
               else bnd (set_cluster_refcount E cluster_addr (refcount - 1)) (\<lambda>newly_unref.
                 seq (add_unref newly_unref)
                 (seq (l2_set l1_index l2_index 0)
                 (if refcount - 1 = 0 then
                    seq (attempt (on_raw (on_contents (qe_punch E cluster_addr (q_cluster_size q)))))
                      (add_unref [cluster_addr])
                  else ret ()))))))))"

fun deallocate_loop :: "qcow_env \<Rightarrow> nat \<Rightarrow> nat \<Rightarrow> nat \<Rightarrow> unit qcow_io" where
  "deallocate_loop E fuel curr_addr left = (if left = 0 then ret () else case fuel of 0 \<Rightarrow> stuck | Suc fuel' \<Rightarrow>
     bnd (gets id) (\<lambda>q.
       let count = limit_range_cluster q curr_addr left
       in seq (if count = q_cluster_size q then deallocate_cluster E curr_addr
               else bnd (file_offset_read E curr_addr) (\<lambda>r. case r of
                   Some offset \<Rightarrow> seq (on_raw (on_contents (qe_zero E offset count))) (ret ())
                 | None \<Rightarrow> ret ()))
            (deallocate_loop E fuel' (curr_addr + count) (left - count))))"

definition deallocate_bytes :: "qcow_env \<Rightarrow> nat \<Rightarrow> nat \<Rightarrow> unit qcow_io" where
  "deallocate_bytes E address n = bnd (gets id) (\<lambda>q.
     let write_count = limit_range_file q address n in deallocate_loop E write_count address write_count)"

text \<open>\<open>punch_hole\<close>: with 64-bit \<open>usize\<close> the first chunk is everything.\<close>

definition qcow_punch_hole :: "qcow_env \<Rightarrow> nat \<Rightarrow> nat \<Rightarrow> unit qcow_io" where
  "qcow_punch_hole E offset n = (if n > 0 then deallocate_bytes E offset n else ret ())"

definition qcow_write_zeroes_at :: "qcow_env \<Rightarrow> nat \<Rightarrow> nat \<Rightarrow> nat qcow_io" where
  "qcow_write_zeroes_at E offset n = seq (qcow_punch_hole E offset n) (ret n)"

subsection \<open>Flushing\<close>

definition sync_l2 :: "qcow_env \<Rightarrow> nat \<Rightarrow> unit qcow_io" where
  "sync_l2 E l1_index = bnd (gets id) (\<lambda>q. case cm_get (q_l2_cache q) l1_index of
       None \<Rightarrow> ret ()
     | Some l2_table \<Rightarrow>
         if \<not> vc_dirty l2_table then ret ()
         else bnd (index (vc_vec (q_l1_table q)) l1_index) (\<lambda>addr.
           if addr \<noteq> 0 then seq (on_raw (write_pointer_table E addr (vc_vec l2_table) CLUSTER_USED_FLAG))
             (modify (\<lambda>q. q\<lparr>q_l2_cache := cm_put l1_index (mark_clean l2_table) (q_l2_cache q)\<rparr>))
           else throw (OsError EINVAL)))"

definition sync_l1 :: "qcow_env \<Rightarrow> bool qcow_io" where
  "sync_l1 E = bnd (gets id) (\<lambda>q. if vc_dirty (q_l1_table q) then
       seq (on_raw (write_pointer_table E (unat (qh_l1_table_offset (q_header q))) (vc_vec (q_l1_table q)) 0))
         (seq (modify (\<lambda>q. q\<lparr>q_l1_table := mark_clean (q_l1_table q)\<rparr>)) (ret True))
     else ret False)"

definition sync_caches :: "qcow_env \<Rightarrow> unit qcow_io" where
  "sync_caches E =
     seq (bnd (gets (\<lambda>q. map fst (cm_map (q_l2_cache q)))) (\<lambda>ks. for_each ks (sync_l2 E)))
     (seq (on_refcounts (flush_blocks E))
     (seq (on_raw file_sync)
     (bnd (sync_l1 E) (\<lambda>sync_required.
      bnd (on_refcounts (flush_table E)) (\<lambda>table_changed.
      if sync_required \<or> table_changed then on_raw file_sync else ret ())))))"

definition qcow_flush :: "qcow_env \<Rightarrow> unit qcow_io" where
  "qcow_flush E = seq (sync_caches E)
     (modify (\<lambda>q. q\<lparr>q_avail_clusters := q_avail_clusters q @ q_unref_clusters q, q_unref_clusters := []\<rparr>))"

subsection \<open>Data and holes\<close>

fun find_loop :: "qcow_env \<Rightarrow> nat \<Rightarrow> nat \<Rightarrow> bool \<Rightarrow> nat option qcow_io" where
  "find_loop E fuel cluster_addr allocated = bnd (gets id) (\<lambda>q.
     if cluster_addr \<ge> virtual_size q then ret None else case fuel of 0 \<Rightarrow> stuck | Suc fuel' \<Rightarrow>
     bnd (cluster_allocated E cluster_addr) (\<lambda>b.
       if b = allocated then ret (Some cluster_addr)
       else find_loop E fuel' (cluster_addr + q_cluster_size q) allocated))"

definition find_allocated_cluster :: "qcow_env \<Rightarrow> nat \<Rightarrow> bool \<Rightarrow> nat option qcow_io" where
  "find_allocated_cluster E address allocated = bnd (gets id) (\<lambda>q.
     if address \<ge> virtual_size q then ret None
     else bnd (cluster_allocated E address) (\<lambda>b.
       if b = allocated then ret (Some address)
       else find_loop E (virtual_size q) ((address div q_cluster_size q + 1) * q_cluster_size q) allocated))"

definition seek_hole :: "qcow_env \<Rightarrow> nat \<Rightarrow> nat option qcow_io" where
  "seek_hole E offset = bnd (find_allocated_cluster E offset False) (\<lambda>r. case r of
       None \<Rightarrow> bnd (gets id) (\<lambda>q. if offset < virtual_size q then bnd (qcow_seek (SeekEnd 0)) (\<lambda>off. ret (Some off)) else ret None)
     | Some off \<Rightarrow> seq (qcow_seek (SeekStart off)) (ret (Some off)))"

definition seek_data :: "qcow_env \<Rightarrow> nat \<Rightarrow> nat option qcow_io" where
  "seek_data E offset = bnd (find_allocated_cluster E offset True) (\<lambda>r. case r of
       None \<Rightarrow> ret None
     | Some off \<Rightarrow> seq (qcow_seek (SeekStart off)) (ret (Some off)))"

subsection \<open>The format of L2 tables\<close>

text \<open>Addresses of clusters survive the flags that are set on writing and masked on reading.\<close>

definition entry_ok :: "nat \<Rightarrow> bool" where
  "entry_ok a \<longleftrightarrow> 512 dvd a \<and> a < 2 ^ 56"

lemma qcow_flag_bits:
  "bit CLUSTER_USED_FLAG n \<longleftrightarrow> n = 63" "bit COMPRESSED_FLAG n \<longleftrightarrow> n = 62"
  "bit L2_TABLE_OFFSET_MASK n \<longleftrightarrow> 9 \<le> n \<and> n < 56" "bit L1_TABLE_OFFSET_MASK n \<longleftrightarrow> 9 \<le> n \<and> n < 56"
proof -
  show "bit CLUSTER_USED_FLAG n \<longleftrightarrow> n = 63" unfolding CLUSTER_USED_FLAG_def by (subst bit_pow2 [where k = 63]) auto
  show "bit COMPRESSED_FLAG n \<longleftrightarrow> n = 62" unfolding COMPRESSED_FLAG_def by (subst bit_pow2 [where k = 62]) auto
  have m: "(0x00fffffffffffe00 :: u64) = push_bit 9 (mask 47)" by (simp add: mask_eq_exp_minus_1)
  show "bit L2_TABLE_OFFSET_MASK n \<longleftrightarrow> 9 \<le> n \<and> n < 56" "bit L1_TABLE_OFFSET_MASK n \<longleftrightarrow> 9 \<le> n \<and> n < 56"
    unfolding L2_TABLE_OFFSET_MASK_def L1_TABLE_OFFSET_MASK_def m bit_push_bit_iff bit_mask_iff by auto
qed

lemma entry_ok_bits:
  assumes "entry_ok a"
  shows "unat (of_nat a :: u64) = a" "bit (of_nat a :: u64) n \<Longrightarrow> 9 \<le> n \<and> n < 56"
proof -
  let ?w = "of_nat a :: u64"
  show u: "unat ?w = a" using assms by (simp add: entry_ok_def unat_of_nat_small)
  assume b: "bit ?w n"
  have "n < 56" using bit_small [of ?w 56 n] u assms b by (simp add: entry_ok_def)
  obtain k where "a = 512 * k" using assms by (auto simp: entry_ok_def elim: dvdE)
  then have "a = push_bit 9 k" by (simp add: push_bit_eq_mult)
  moreover have "bit a n" using b by (simp add: bit_of_nat_iff)
  ultimately show "9 \<le> n \<and> n < 56" using \<open>n < 56\<close> by (simp add: bit_push_bit_iff)
qed

lemma entry_flags:
  assumes "entry_ok a"
  shows "(of_nat a OR CLUSTER_USED_FLAG) AND COMPRESSED_FLAG = 0"
    "unat ((of_nat a OR CLUSTER_USED_FLAG) AND L2_TABLE_OFFSET_MASK) = a"
    "unat (of_nat a AND L1_TABLE_OFFSET_MASK) = a"
proof -
  let ?w = "of_nat a :: u64"
  note b = entry_ok_bits [OF assms]
  show "(?w OR CLUSTER_USED_FLAG) AND COMPRESSED_FLAG = 0"
    by (rule bit_word_eqI) (auto simp: bit_and_iff bit_or_iff qcow_flag_bits dest: b(2))
  have "(?w OR CLUSTER_USED_FLAG) AND L2_TABLE_OFFSET_MASK = ?w" "?w AND L1_TABLE_OFFSET_MASK = ?w"
    by (rule bit_word_eqI, auto simp: bit_and_iff bit_or_iff qcow_flag_bits dest: b(2))+
  then show "unat ((of_nat a OR CLUSTER_USED_FLAG) AND L2_TABLE_OFFSET_MASK) = a"
    "unat (of_nat a AND L1_TABLE_OFFSET_MASK) = a" using b(1) by simp_all
qed

definition parse_l2 :: "le_codec \<Rightarrow> u8 list \<Rightarrow> nat list option" where
  "parse_l2 C bs = (let es = u64s C (length bs div 8) bs in
     if \<exists>e \<in> set es. e AND COMPRESSED_FLAG \<noteq> 0 then None else Some (map (\<lambda>e. unat (e AND L2_TABLE_OFFSET_MASK)) es))"

definition valid_l2 :: "nat \<Rightarrow> nat list \<Rightarrow> bool" where
  "valid_l2 n t \<longleftrightarrow> 8 * length t = n \<and> (\<forall>a \<in> set t. entry_ok a)"

definition l2_image :: "le_codec \<Rightarrow> nat list \<Rightarrow> u8 list" where
  "l2_image C t = pointer_bytes C CLUSTER_USED_FLAG t"

interpretation l2: table_format codec_ok l2_image parse_l2 valid_l2
proof unfold_locales
  fix C n t assume c: "codec_ok C" and v: "valid_l2 n t"
  show "length (l2_image C t) = n" using v by (simp add: l2_image_def length_pointer_bytes [OF c] valid_l2_def)
  define g where "g = (\<lambda>a. if a = 0 then 0 else of_nat a OR CLUSTER_USED_FLAG)"
  have e: "unat (g a AND L2_TABLE_OFFSET_MASK) = a" "g a AND COMPRESSED_FLAG = 0" if "a \<in> set t" for a
    using entry_flags [of a] v that by (auto simp: valid_l2_def g_def)
  have "u64s C (length (l2_image C t) div 8) (l2_image C t) = map g t"
    by (simp add: l2_image_def length_pointer_bytes [OF c] u64s_pointer_bytes [OF c] g_def)
  then show "parse_l2 C (l2_image C t) = Some t" using e by (simp add: parse_l2_def Let_def map_idI)
qed

text \<open>Reading a table, and writing one back when it leaves the cache.\<close>

lemma read_l2_cluster_eq:
  assumes "quiet f" "a + qr_cluster_size f \<le> hf_len f" "hf_len f < 2 ^ 63" "8 dvd qr_cluster_size f"
    "parse_l2 (qe_be E) (bytes_at (hf_data f) a (qr_cluster_size f)) = Some t"
  shows "read_l2_cluster E a f = (Ok t, at_pos (a + qr_cluster_size f) f)"
proof -
  have n: "8 * (qr_cluster_size f div 8) = qr_cluster_size f" using assms(4) by simp
  let ?es = "u64s (qe_be E) (qr_cluster_size f div 8) (bytes_at (hf_data f) a (qr_cluster_size f))"
  have "read_pointer_cluster E a None f = (Ok (map unat ?es), at_pos (a + qr_cluster_size f) f)"
    using read_pointer_table_eq [OF assms(1) _ assms(3), of a "qr_cluster_size f div 8" E None] assms(2) n
    by (simp add: read_pointer_cluster_def bnd_def gets_def mask_entry_def [abs_def])
  moreover have "\<forall>e \<in> set ?es. e AND COMPRESSED_FLAG = 0" "t = map (\<lambda>e. unat (e AND L2_TABLE_OFFSET_MASK)) ?es"
    using assms(5) by (auto simp: parse_l2_def Let_def split: if_splits)
  ultimately show ?thesis by (simp add: read_l2_cluster_def bnd_def ret_def)
qed

lemma l2_write_back_saved:
  assumes "codec_ok (qe_be E)" "tables_ok (parse_l2 (qe_be E)) valid_l2 l1 c f" "cm_get c k = Some w"
  shows "\<exists>f'. l2_write_back E l1 k w f = (Ok (), f') \<and> l2.saved (qe_be E) l1 k (vc_vec w) f f'"
proof -
  note T = tables_okD [OF assms(2)]
  have k: "k < length l1" "l1 ! k \<noteq> 0" "8 * length (vc_vec w) = qr_cluster_size f"
    using T(5) [OF assms(3)] by (auto simp: valid_l2_def)
  then have "l1 ! k + 8 * length (vc_vec w) \<le> hf_len f" "vc_vec w \<noteq> []" using T(3,7) by auto
  then show ?thesis using k assms(1) T(1,2)
    by (simp add: l2_write_back_def write_pointer_table_eq index_def bnd_def ret_def l2.saved_def l2_image_def)
qed

end
