(* ===== verification/Qcow_Pool.thy ===== *)
theory Qcow_Pool
  imports Qcow_File
begin

text \<open>
  The free clusters of an image and the clusters of its reference counts.  \<open>pool\<close> is the invariant
  of that part of the state; a cluster is foreign when it is neither free nor holds counts.  Taking a
  cluster and setting a count keep the pool well-formed and touch no foreign cluster, whatever it is
  used for; they either succeed or run out of space.
\<close>

subsection \<open>Invariant and frame\<close>

abbreviation q_data :: "qcow_file \<Rightarrow> nat \<Rightarrow> u8" where
  "q_data q \<equiv> hf_data (q_raw_file q)"

abbreviation q_len :: "qcow_file \<Rightarrow> nat" where
  "q_len q \<equiv> hf_len (q_raw_file q)"

abbreviation q_max :: "qcow_file \<Rightarrow> nat" where
  "q_max q \<equiv> rc_max_valid_cluster_offset (q_refcounts q)"

abbreviation q_rt :: "qcow_file \<Rightarrow> nat list" where
  "q_rt q \<equiv> ref_tab (q_refcounts q)"

definition cluster_geom :: "qcow_raw_file \<Rightarrow> bool" where
  "cluster_geom f \<longleftrightarrow> (\<exists>k \<in> {9..21}. qr_cluster_size f = 2 ^ k) \<and> qr_cluster_mask f = qr_cluster_size f - 1"

definition pool :: "qcow_env \<Rightarrow> qcow_file \<Rightarrow> bool" where
  "pool E q \<longleftrightarrow> env_ok E \<and> cluster_geom (q_raw_file q) \<and> rc_ok E (q_refcounts q) (q_raw_file q) \<and>
     q_cluster_size q dvd q_max q \<and> q_max q + q_cluster_size q < 2 ^ 56 \<and>
     q_max q div q_cluster_size q div rc_refcount_block_entries (q_refcounts q) < length (q_rt q) \<and>
     0 < q_len q \<and> q_len q \<le> q_max q + q_cluster_size q \<and> (\<forall>x \<ge> q_len q. q_data q x = 0) \<and>
     distinct (q_avail_clusters q) \<and>
     (\<forall>c \<in> set (q_avail_clusters q). c \<noteq> 0 \<and> q_cluster_size q dvd c \<and> c < q_len q \<and> \<not> table_cluster (q_rt q) c)"

lemma poolD:
  assumes "pool E q"
  shows "env_ok E" "cluster_geom (q_raw_file q)" "rc_ok E (q_refcounts q) (q_raw_file q)"
    "q_cluster_size q dvd q_max q" "q_max q + q_cluster_size q < 2 ^ 56"
    "q_max q div q_cluster_size q div rc_refcount_block_entries (q_refcounts q) < length (q_rt q)"
    "0 < q_len q" "q_len q \<le> q_max q + q_cluster_size q" "x \<ge> q_len q \<Longrightarrow> q_data q x = 0"
    "distinct (q_avail_clusters q)"
    "c \<in> set (q_avail_clusters q) \<Longrightarrow> c \<noteq> 0 \<and> q_cluster_size q dvd c \<and> c < q_len q \<and> \<not> table_cluster (q_rt q) c"
  using assms unfolding pool_def by blast+

definition foreign :: "qcow_file \<Rightarrow> nat \<Rightarrow> bool" where
  "foreign q c \<longleftrightarrow> q_cluster_size q dvd c \<and> c < q_len q \<and> c \<notin> set (q_avail_clusters q) \<and> \<not> table_cluster (q_rt q) c"

text \<open>The parts of the state that the pool does not own, except for the clusters in \<open>X\<close>.\<close>

definition keep_but :: "nat set \<Rightarrow> qcow_file \<Rightarrow> qcow_file \<Rightarrow> bool" where
  "keep_but X q q' \<longleftrightarrow> q_header q' = q_header q \<and> q_l1_table q' = q_l1_table q \<and> q_l2_entries q' = q_l2_entries q \<and>
     q_l2_cache q' = q_l2_cache q \<and> q_current_offset q' = q_current_offset q \<and> q_unref_clusters q' = q_unref_clusters q \<and>
     q_cluster_size q' = q_cluster_size q \<and> qr_cluster_mask (q_raw_file q') = qr_cluster_mask (q_raw_file q) \<and>
     q_max q' = q_max q \<and> rc_refcount_table_offset (q_refcounts q') = rc_refcount_table_offset (q_refcounts q) \<and>
     rc_refcount_block_entries (q_refcounts q') = rc_refcount_block_entries (q_refcounts q) \<and>
     length (q_rt q') = length (q_rt q) \<and> q_len q \<le> q_len q' \<and>
     (\<not> vc_dirty (rc_ref_table (q_refcounts q')) \<longrightarrow> \<not> vc_dirty (rc_ref_table (q_refcounts q)) \<and> q_rt q' = q_rt q) \<and>
     set (q_avail_clusters q') \<subseteq> set (q_avail_clusters q) \<and>
     (\<forall>c. foreign q c \<longrightarrow> c \<notin> X \<longrightarrow> foreign q' c \<and> (\<forall>x. within (q_cluster_size q) c x \<longrightarrow> q_data q' x = q_data q x))"

abbreviation keep :: "qcow_file \<Rightarrow> qcow_file \<Rightarrow> bool" where
  "keep \<equiv> keep_but {}"

lemma keep_refl [simp]: "keep_but X q q"
  by (simp add: keep_but_def)

lemma keep_trans: "keep_but X q q' \<Longrightarrow> keep_but X q' q'' \<Longrightarrow> keep_but X q q''"
  unfolding keep_but_def by auto

lemma keep_then: "keep q q' \<Longrightarrow> keep_but {b} q' q'' \<Longrightarrow> \<not> foreign q b \<Longrightarrow> keep q q''"
  unfolding keep_but_def by auto

text \<open>The count of a cluster in the whole state.\<close>

definition q_count :: "qcow_env \<Rightarrow> qcow_file \<Rightarrow> nat \<Rightarrow> u16" where
  "q_count E q c = count_of E (q_refcounts q) (q_raw_file q) c"

lemma cluster_geomD:
  assumes "cluster_geom f"
  shows "0 < qr_cluster_size f" "512 dvd qr_cluster_size f" "8 dvd qr_cluster_size f" "even (qr_cluster_size f)"
    "qr_cluster_size f \<le> 2 ^ 21" "qr_cluster_mask f = qr_cluster_size f - 1"
proof -
  obtain k where k: "9 \<le> k" "k \<le> 21" "qr_cluster_size f = 2 ^ k" using assms by (auto simp: cluster_geom_def)
  then obtain j where "k = 9 + j" by (metis le_Suc_ex)
  then show "512 dvd qr_cluster_size f" using k(3) by (simp add: power_add)
  then show "8 dvd qr_cluster_size f" "even (qr_cluster_size f)" by (auto elim: dvd_trans [rotated])
  show "0 < qr_cluster_size f" "qr_cluster_size f \<le> 2 ^ 21" using k(2,3) power_increasing [of k 21 "2 :: nat"] by simp_all
  show "qr_cluster_mask f = qr_cluster_size f - 1" using assms by (simp add: cluster_geom_def)
qed

lemma cluster_offset_eq: "cluster_geom f \<Longrightarrow> cluster_offset f a = a mod qr_cluster_size f"
proof -
  assume "cluster_geom f"
  then obtain k where k: "qr_cluster_size f = 2 ^ k" "qr_cluster_mask f = 2 ^ k - 1" by (auto simp: cluster_geom_def)
  have "a AND (2 ^ k - 1) = take_bit k a" by (simp only: take_bit_eq_mask mask_eq_exp_minus_1)
  then show ?thesis by (simp only: cluster_offset_def k take_bit_eq_mod)
qed

lemma pool_len: "pool E q \<Longrightarrow> q_len q < 2 ^ 57"
  using poolD(5,8) [of E q] by simp

text \<open>Aligned clusters inside the file can be counted.\<close>

lemma pool_index:
  assumes "pool E q" "q_cluster_size q dvd c" "c < q_len q" "get_refcount_index (q_refcounts q) c = (t, b)"
  shows "t < length (q_rt q)"
proof -
  let ?n = "q_cluster_size q"
  have n: "0 < ?n" "rc_cluster_size (q_refcounts q) = ?n"
    using cluster_geomD(1) [OF poolD(2) [OF assms(1)]] rc_okD(3) [OF poolD(3) [OF assms(1)]] by (simp_all add: q_cluster_size_def)
  have "c < q_max q + ?n" using assms(3) poolD(8) [OF assms(1)] by simp
  then have "c \<le> q_max q" using cluster_apart [OF assms(2) poolD(4) [OF assms(1)]] by (cases "c = q_max q") auto
  then have "c div ?n div rc_refcount_block_entries (q_refcounts q) \<le> q_max q div ?n div rc_refcount_block_entries (q_refcounts q)"
    by (intro div_le_mono)
  then show ?thesis using poolD(6) [OF assms(1)] assms(4) n(2) by (auto simp: get_refcount_index_def)
qed

lemma index_inj:
  assumes "pool E q" "q_cluster_size q dvd c" "q_cluster_size q dvd c'"
    "get_refcount_index (q_refcounts q) c = get_refcount_index (q_refcounts q) c'"
  shows "c = c'"
proof -
  have n: "rc_cluster_size (q_refcounts q) = q_cluster_size q"
    using rc_okD(3) [OF poolD(3) [OF assms(1)]] by (simp add: q_cluster_size_def)
  have digits: "x = y" if "x div e = y div e" "x mod e = y mod e" for x y e :: nat
    using that by (metis div_mult_mod_eq)
  have "c div q_cluster_size q = c' div q_cluster_size q"
    using assms(4) unfolding get_refcount_index_def n prod.inject
    by (elim conjE) (rule digits [where e = "rc_refcount_block_entries (q_refcounts q)"])
  then show ?thesis using assms(2,3) by (metis dvd_div_mult_self)
qed

text \<open>A change of the file that leaves the clusters of the counts alone.\<close>

lemma rc_ok_file:
  assumes "rc_ok E rc f" "quiet f'" "hf_len f \<le> hf_len f'" "hf_len f' < 2 ^ 63" "qr_cluster_size f' = qr_cluster_size f"
    "\<forall>b x. table_cluster (ref_tab rc) b \<longrightarrow> within (qr_cluster_size f) b x \<longrightarrow> hf_data f' x = hf_data f x"
  shows "rc_ok E rc f'" "get_refcount_index rc c = (t, b) \<Longrightarrow> t < length (ref_tab rc) \<Longrightarrow> count_of E rc f' c = count_of E rc f c"
proof -
  note D = rc_okD [OF assms(1)]
  show "rc_ok E rc f'" using D tables_ok_file [OF D(5) assms(2-5)] assms(6) by (simp add: rc_ok_def assms(5))
  show "count_of E rc f' c = count_of E rc f c" if i: "get_refcount_index rc c = (t, b)" "t < length (ref_tab rc)"
  proof (cases "ref_tab rc ! t = 0")
    case False
    have "block_view E rc f' t = block_view E rc f t" unfolding block_view_def
      by (rule view_of_file [OF assms(5) i(2) False]) (use assms(6) i(2) False in \<open>auto simp: table_cluster_def\<close>)
    then show ?thesis using i by (simp add: count_of_def)
  qed (use i in \<open>simp add: count_of_def\<close>)
qed

subsection \<open>Taking a cluster\<close>

text \<open>A cluster that was just taken: zeroed, inside the file, free or beyond the file before.\<close>

definition taken :: "qcow_file \<Rightarrow> qcow_file \<Rightarrow> nat \<Rightarrow> bool" where
  "taken q q' c \<longleftrightarrow> (c \<in> set (q_avail_clusters q) \<or> q_len q \<le> c) \<and> c \<noteq> 0 \<and> foreign q' c \<and>
     c + q_cluster_size q \<le> q_len q' \<and> (\<forall>x. within (q_cluster_size q) c x \<longrightarrow> q_data q' x = 0)"

definition counts_same :: "qcow_env \<Rightarrow> qcow_file \<Rightarrow> qcow_file \<Rightarrow> bool" where
  "counts_same E q q' \<longleftrightarrow> q_refcounts q' = q_refcounts q \<and>
     (\<forall>c t b. get_refcount_index (q_refcounts q) c = (t, b) \<longrightarrow> t < length (q_rt q) \<longrightarrow> q_count E q' c = q_count E q c)"

lemma pool_change:
  assumes p: "pool E q" and q': "q' = q\<lparr>q_raw_file := f', q_avail_clusters := av\<rparr>"
    and f': "quiet f'" "qr_cluster_size f' = q_cluster_size q" "qr_cluster_mask f' = qr_cluster_mask (q_raw_file q)"
      "q_len q \<le> hf_len f'" "hf_len f' \<le> q_max q + q_cluster_size q" "\<And>x. x \<ge> hf_len f' \<Longrightarrow> hf_data f' x = 0"
      "\<And>c x. foreign q c \<or> table_cluster (q_rt q) c \<Longrightarrow> within (q_cluster_size q) c x \<Longrightarrow> hf_data f' x = q_data q x"
    and av: "distinct av" "set av \<subseteq> set (q_avail_clusters q)"
  shows "pool E q' \<and> keep q q' \<and> counts_same E q q'"
proof (intro conjI)
  note D = poolD [OF p]
  note same = f'(2) [unfolded q_cluster_size_def]
  have len: "hf_len f' < 2 ^ 63" using f'(5) D(5) by simp
  have b: "\<forall>b x. table_cluster (q_rt q) b \<longrightarrow> within (qr_cluster_size (q_raw_file q)) b x \<longrightarrow> hf_data f' x = q_data q x"
    using f'(7) by (metis q_cluster_size_def)
  note rc = rc_ok_file [OF D(3) f'(1,4) len same b]
  have "\<forall>c \<in> set av. c \<noteq> 0 \<and> q_cluster_size q dvd c \<and> c < hf_len f' \<and> \<not> table_cluster (q_rt q) c"
    using D(11) av(2) f'(4) by (meson less_le_trans subsetD)
  then show "pool E q'" unfolding pool_def q'
    using D(1,2,4-7) rc(1) f'(2-6) av(1) by (simp add: q_cluster_size_def cluster_geom_def)
  show "keep q q'" using f' av(2) by (auto simp: keep_but_def q' foreign_def q_cluster_size_def)
  show "counts_same E q q'" using rc(2) by (auto simp: counts_same_def q' q_count_def)
qed

lemma zero_cluster_eq:
  assumes "env_ok E" "a + qr_cluster_size f < 2 ^ 63"
  shows "zero_cluster E a f = (Ok (), at_pos (a + qr_cluster_size f) (f\<lparr>hf_data := zeroed (hf_data f) a (qr_cluster_size f),
    hf_len := max (hf_len f) (a + qr_cluster_size f)\<rparr>))"
  using assms by (simp add: zero_cluster_def raw_seek_eq io_defs on_contents_def env_okD(2) at_pos_def)

lemma take_avail:
  assumes p: "pool E q" and av: "q_avail_clusters q \<noteq> []"
  shows "\<exists>q'. get_new_cluster E q = (Ok (last (q_avail_clusters q)), q') \<and> pool E q' \<and> keep q q' \<and>
    counts_same E q q' \<and> taken q q' (last (q_avail_clusters q)) \<and> clusters_left q' < clusters_left q"
proof -
  let ?a = "last (q_avail_clusters q)" and ?av = "butlast (q_avail_clusters q)" and ?n = "q_cluster_size q"
  note D = poolD [OF p] and G = cluster_geomD [OF poolD(2) [OF p]]
  have mem: "?a \<in> set (q_avail_clusters q)" using av by simp
  have split: "q_avail_clusters q = ?av @ [?a]" using av by simp
  have a: "?a \<noteq> 0" "?n dvd ?a" "?a < q_len q" "\<not> table_cluster (q_rt q) ?a" using D(11) [OF mem] by auto
  have fin: "?a + ?n \<le> q_max q + ?n"
    using cluster_apart [OF a(2) D(4)] a(3) D(8) by (cases "?a = q_max q") auto
  let ?f = "at_pos (?a + ?n) ((q_raw_file q)\<lparr>hf_data := zeroed (q_data q) ?a ?n, hf_len := max (q_len q) (?a + ?n)\<rparr>)"
  let ?q = "q\<lparr>q_raw_file := ?f, q_avail_clusters := ?av\<rparr>"
  have run: "get_new_cluster E q = (Ok ?a, ?q)"
    using av fin D(5) zero_cluster_eq [OF D(1), of ?a "q_raw_file q"]
    by (simp add: get_new_cluster_def on_raw_def zoom_def io_defs q_cluster_size_def Let_def)
  have notin: "?a \<notin> set ?av" using D(10) split by (metis distinct_butlast not_distinct_conv_prefix)
  have data: "zeroed (q_data q) ?a ?n x = q_data q x"
    if "foreign q c \<or> table_cluster (q_rt q) c" "within ?n c x" for c x
  proof -
    have "?n dvd c" "c \<noteq> ?a"
      using that(1) mem a(4) tables_okD(7) [OF rc_okD(5) [OF D(3)]]
      by (auto simp: foreign_def table_cluster_def q_cluster_size_def)
    then show ?thesis using cluster_apart_within [OF a(2), of c x] that(2) by (auto simp: zeroed_def within_def)
  qed
  have ch: "pool E ?q \<and> keep q ?q \<and> counts_same E q ?q"
  proof (rule pool_change [OF p, where f' = ?f and av = ?av])
    show "q_len q \<le> hf_len ?f" "hf_len ?f \<le> q_max q + ?n" using fin D(8) by auto
    show "hf_data ?f x = 0" if "hf_len ?f \<le> x" for x using that D(9) by (auto simp: zeroed_def)
    show "distinct ?av" using D(10) by (rule distinct_butlast)
    show "set ?av \<subseteq> set (q_avail_clusters q)" by (auto dest: in_set_butlastD)
    show "hf_data ?f x = q_data q x" if "foreign q c \<or> table_cluster (q_rt q) c" "within ?n c x" for c x
      using data [OF that] by simp
  qed (use tables_okD(1) [OF rc_okD(5) [OF D(3)]] in \<open>simp_all add: q_cluster_size_def\<close>)
  have "taken q ?q ?a" using mem a notin by (auto simp: taken_def foreign_def q_cluster_size_def zeroed_def within_def)
  moreover have "clusters_left ?q < clusters_left q"
  proof -
    have "length ?av < length (q_avail_clusters q)" using av by simp
    then show ?thesis by (simp add: clusters_left_def q_cluster_size_def)
  qed
  ultimately show ?thesis using run ch by blast
qed

lemma take_end:
  assumes p: "pool E q" and av: "q_avail_clusters q = []"
  shows "(\<exists>c q'. get_new_cluster E q = (Ok c, q') \<and> pool E q' \<and> keep q q' \<and>
      counts_same E q q' \<and> taken q q' c \<and> clusters_left q' < clusters_left q) \<or>
    (\<exists>q'. get_new_cluster E q = (Err (OsError ENOSPC), q') \<and> pool E q' \<and> keep q q' \<and>
      clusters_left q' = clusters_left q)"
proof -
  let ?n = "q_cluster_size q" and ?l = "q_len q"
  note D = poolD [OF p] and G = cluster_geomD [OF poolD(2) [OF p]]
  have quiet: "quiet (q_raw_file q)" using tables_okD(1) [OF rc_okD(5) [OF D(3)]] .
  have n: "0 < ?n" using G(1) by (simp add: q_cluster_size_def)
  define c where "c = (?l + ?n - 1) div ?n * ?n"
  have "(?l + ?n - 1) mod ?n < ?n" "c + (?l + ?n - 1) mod ?n = ?l + ?n - 1" using n by (simp_all add: c_def)
  then have c: "?n dvd c" "?l \<le> c" "c < ?l + ?n" using n by (simp add: c_def, linarith+)
  obtain k where k: "k \<in> {9..21}" "?n = 2 ^ k" "qr_cluster_mask (q_raw_file q) = 2 ^ k - 1"
    using D(2) by (auto simp: cluster_geom_def q_cluster_size_def)
  have nc: "next_cluster ?l ?n (qr_cluster_mask (q_raw_file q)) = c"
  proof -
    have "?l + 2 ^ k < 2 ^ 64" using pool_len [OF p] k(2) G(5) by (simp add: q_cluster_size_def)
    then show ?thesis using next_cluster_eq [of ?l k] k(1) by (simp only: c_def k(2,3)) simp
  qed
  let ?f0 = "at_pos ?l (q_raw_file q)"
  have seek: "raw_seek_end (q_raw_file q) = (Ok ?l, ?f0)"
    using pool_len [OF p] by (simp add: raw_seek_end_def raw_seek_eq bnd_def gets_def at_pos_def)
  show ?thesis
  proof (cases "c > q_max q")
    case True
    let ?q = "q\<lparr>q_raw_file := ?f0\<rparr>"
    have "get_new_cluster E q = (Err (OsError ENOSPC), ?q)"
      using True av seek nc by (simp add: get_new_cluster_def add_cluster_end_def on_raw_def zoom_def io_defs q_cluster_size_def)
    moreover have "pool E ?q" "keep q ?q"
      using pool_change [OF p, where f' = ?f0 and av = "q_avail_clusters q" and q' = ?q] quiet D(8-10)
      by (simp_all add: q_cluster_size_def)
    moreover have "clusters_left ?q = clusters_left q" by (simp add: clusters_left_def q_cluster_size_def)
    ultimately show ?thesis by blast
  next
    case False
    let ?f = "?f0\<lparr>hf_data := (\<lambda>i. if i < c + ?n then q_data q i else 0), hf_len := c + ?n\<rparr>"
    let ?q = "q\<lparr>q_raw_file := ?f\<rparr>"
    have tail: "q_data q x = 0" if "c \<le> x" for x using D(9) [of x] c(2) that by simp
    have same: "(\<lambda>i. if i < c + ?n then q_data q i else 0) = q_data q" using tail by fastforce
    have lt: "c + ?n < 2 ^ 63" using False D(5) by simp
    have "get_new_cluster E q = (Ok c, ?q)"
      using False av seek nc lt quiet
      by (simp add: get_new_cluster_def add_cluster_end_def file_set_len_def next_event_quiet quiet_def on_raw_def zoom_def
          io_defs q_cluster_size_def at_pos_def cong: if_cong)
    moreover have "pool E ?q" "keep q ?q" "counts_same E q ?q"
      using pool_change [OF p, where f' = ?f and av = "q_avail_clusters q" and q' = ?q] quiet D(9,10) c(2) False av
      by (simp_all add: q_cluster_size_def same)
    moreover have "taken q ?q c"
    proof -
      have "\<not> table_cluster (q_rt q) c"
        using tables_okD(7) [OF rc_okD(5) [OF D(3)]] c(2) n by (force simp: table_cluster_def q_cluster_size_def)
      then show ?thesis using c n D(7) av tail by (auto simp: taken_def foreign_def q_cluster_size_def same within_def)
    qed
    moreover have "clusters_left ?q < clusters_left q"
      using c(2) n False by (simp add: clusters_left_def q_cluster_size_def)
    ultimately show ?thesis by blast
  qed
qed

lemma get_new_cluster_ok:
  assumes "pool E q"
  shows "wp (get_new_cluster E)
    (\<lambda>c q'. pool E q' \<and> keep q q' \<and> counts_same E q q' \<and> taken q q' c \<and> clusters_left q' < clusters_left q)
    (\<lambda>e q'. e = OsError ENOSPC \<and> pool E q' \<and> keep q q' \<and> clusters_left q' \<le> clusters_left q) q"
  using take_avail [OF assms] take_end [OF assms] by (cases "q_avail_clusters q = []") (auto simp: wp_def)

subsection \<open>Setting a count\<close>

text \<open>A change of the counts that moves at most one block, to the foreign cluster \<open>b\<close>.\<close>

lemma pool_rc:
  assumes p: "pool E q" and q': "q' = q\<lparr>q_refcounts := rc', q_raw_file := f'\<rparr>" and ok: "rc_ok E rc' f'"
    and sh: "same_shape (q_raw_file q) f'" and st: "rc_max_valid_cluster_offset rc' = q_max q"
      "rc_refcount_table_offset rc' = rc_refcount_table_offset (q_refcounts q)"
      "rc_refcount_block_entries rc' = rc_refcount_block_entries (q_refcounts q)" "length (ref_tab rc') = length (q_rt q)"
      "\<not> vc_dirty (rc_ref_table rc') \<longrightarrow> \<not> vc_dirty (rc_ref_table (q_refcounts q)) \<and> ref_tab rc' = q_rt q"
    and cl: "\<And>c. table_cluster (ref_tab rc') c \<Longrightarrow> table_cluster (q_rt q) c \<or> c = b" "b \<notin> set (q_avail_clusters q)"
      "q_cluster_size q dvd b" "b + q_cluster_size q \<le> q_len q"
    and data: "\<And>x. (\<And>c. table_cluster (q_rt q) c \<or> c = b \<Longrightarrow> \<not> within (q_cluster_size q) c x) \<Longrightarrow> hf_data f' x = q_data q x"
  shows "pool E q'" "keep_but {b} q q'" "clusters_left q' = clusters_left q"
proof -
  note D = poolD [OF p] and T = tables_okD [OF rc_okD(5) [OF poolD(3) [OF p]]]
  have s: "hf_len f' = q_len q" "qr_cluster_size f' = q_cluster_size q" "qr_cluster_mask f' = qr_cluster_mask (q_raw_file q)"
    using sh by (simp_all add: same_shape_def q_cluster_size_def)
  have in_file: "table_cluster (q_rt q) c \<Longrightarrow> q_cluster_size q dvd c \<and> c + q_cluster_size q \<le> q_len q" for c
    using T(7) by (auto simp: table_cluster_def q_cluster_size_def)
  have tail: "hf_data f' x = 0" if "q_len q \<le> x" for x
  proof -
    have "\<not> within (q_cluster_size q) c x" if "table_cluster (q_rt q) c \<or> c = b" for c
      using in_file [of c] cl(4) that \<open>q_len q \<le> x\<close> by (auto simp: within_def)
    then show ?thesis using data [of x] D(9) [OF that] by simp
  qed
  have av: "\<not> table_cluster (ref_tab rc') c" if "c \<in> set (q_avail_clusters q)" for c
    using cl(1) [of c] cl(2) D(11) [OF that] that by auto
  show "pool E q'" unfolding pool_def q'
    using D ok st s tail av by (simp add: q_cluster_size_def cluster_geom_def)
  have "foreign q' c \<and> (\<forall>x. within (q_cluster_size q) c x \<longrightarrow> q_data q' x = q_data q x)" if f: "foreign q c" "c \<noteq> b" for c
  proof
    show "foreign q' c" using f cl(1) s by (auto simp: foreign_def q' q_cluster_size_def)
    show "\<forall>x. within (q_cluster_size q) c x \<longrightarrow> q_data q' x = q_data q x"
    proof (intro allI impI)
      fix x assume "within (q_cluster_size q) c x"
      then have "\<not> within (q_cluster_size q) c' x" if "table_cluster (q_rt q) c' \<or> c' = b" for c'
        using that f in_file [of c'] cl(3) cluster_apart_within [of "q_cluster_size q" c c' x] by (auto simp: foreign_def)
      then show "q_data q' x = q_data q x" using data [of x] by (simp add: q')
    qed
  qed
  then show "keep_but {b} q q'" using s st by (simp add: keep_but_def q' q_cluster_size_def)
  show "clusters_left q' = clusters_left q" using s st by (simp add: clusters_left_def q' q_cluster_size_def)
qed

lemma keep_but_table: "keep_but {b} q q' \<Longrightarrow> \<not> foreign q b \<Longrightarrow> keep q q'"
  unfolding keep_but_def by auto

text \<open>What the loop of \<open>set_cluster_refcount\<close> has done when it ends.\<close>

definition in_range :: "qcow_file \<Rightarrow> nat \<Rightarrow> bool" where
  "in_range q c \<longleftrightarrow> q_cluster_size q dvd c \<and> c \<le> q_max q"

definition loop_post :: "qcow_env \<Rightarrow> nat \<Rightarrow> u16 \<Rightarrow> qcow_file \<Rightarrow> nat list \<times> nat list \<Rightarrow> qcow_file \<Rightarrow> bool" where
  "loop_post E a n q r q' \<longleftrightarrow> (case r of (added, freed) \<Rightarrow> pool E q' \<and> keep q q' \<and>
     (added = [] \<and> clusters_left q' \<le> clusters_left q \<or>
      (\<exists>b. added = [b] \<and> (b \<in> set (q_avail_clusters q) \<or> q_len q \<le> b) \<and> clusters_left q' < clusters_left q \<and> in_range q b)) \<and>
     (freed = [] \<or> (\<exists>c. freed = [c] \<and> c \<noteq> 0 \<and> table_cluster (q_rt q) c \<and> foreign q' c)) \<and>
     (\<forall>c. in_range q c \<longrightarrow> q_count E q' c = (if c = a then n else q_count E q c)) \<and>
     (\<forall>c. table_cluster (q_rt q') c \<longrightarrow> table_cluster (q_rt q) c \<or> c \<in> set added))"

definition full_err :: "qcow_env \<Rightarrow> qcow_file \<Rightarrow> io_err \<Rightarrow> qcow_file \<Rightarrow> bool" where
  "full_err E q e q' \<longleftrightarrow> e = OsError ENOSPC \<and> pool E q' \<and> keep q q'"

lemma range_index:
  assumes "pool E q" "in_range q c" "get_refcount_index (q_refcounts q) c = (t, b)"
  shows "t < length (q_rt q)"
proof -
  have "c div q_cluster_size q div rc_refcount_block_entries (q_refcounts q)
      \<le> q_max q div q_cluster_size q div rc_refcount_block_entries (q_refcounts q)"
    using assms(2) by (intro div_le_mono) (simp add: in_range_def)
  then show ?thesis
    using poolD(6) [OF assms(1)] rc_okD(3) [OF poolD(3) [OF assms(1)]] assms(3) by (auto simp: get_refcount_index_def q_cluster_size_def)
qed

lemma range_inj:
  assumes "pool E q" "in_range q c" "in_range q c'" "get_refcount_index (q_refcounts q) c = get_refcount_index (q_refcounts q) c'"
  shows "c = c'"
  using index_inj [OF assms(1) _ _ assms(4)] assms(2,3) by (simp add: in_range_def)

lemma on_refcounts_eq:
  "m (q_refcounts q, q_raw_file q) = (r, (rc', f')) \<Longrightarrow>
     on_refcounts m q = (r, q\<lparr>q_refcounts := rc', q_raw_file := f'\<rparr>)"
  by (simp add: on_refcounts_def zoom_def)

text \<open>Facts about the block that holds the count of a cluster in range.\<close>

lemma range_block:
  assumes p: "pool E q" and a: "in_range q a" "get_refcount_index (q_refcounts q) a = (t, i)"
  shows "t < length (q_rt q)" "2 * i < q_cluster_size q"
    "cm_get (rc_refblock_cache (q_refcounts q)) t = Some v \<Longrightarrow>
       q_rt q ! t \<noteq> 0 \<and> 2 * length (vc_vec v) = q_cluster_size q \<and> i < length (vc_vec v)"
    "q_rt q ! t \<noteq> 0 \<Longrightarrow> table_cluster (q_rt q) (q_rt q ! t) \<and> q_rt q ! t \<notin> set (q_avail_clusters q) \<and>
       q_cluster_size q dvd q_rt q ! t \<and> q_rt q ! t + q_cluster_size q \<le> q_len q \<and> \<not> foreign q (q_rt q ! t)"
proof -
  note T = tables_okD [OF rc_okD(5) [OF poolD(3) [OF p]]]
  show t: "t < length (q_rt q)" by (rule range_index [OF p a])
  show i: "2 * i < q_cluster_size q" using rc_index_in(2) [OF poolD(3) [OF p] a(2)] by (simp add: q_cluster_size_def)
  show "q_rt q ! t \<noteq> 0 \<and> 2 * length (vc_vec v) = q_cluster_size q \<and> i < length (vc_vec v)"
    if "cm_get (rc_refblock_cache (q_refcounts q)) t = Some v"
    using T(5) [OF that] i by (auto simp: valid_counts_def q_cluster_size_def)
  show "table_cluster (q_rt q) (q_rt q ! t) \<and> q_rt q ! t \<notin> set (q_avail_clusters q) \<and>
       q_cluster_size q dvd q_rt q ! t \<and> q_rt q ! t + q_cluster_size q \<le> q_len q \<and> \<not> foreign q (q_rt q ! t)"
    if "q_rt q ! t \<noteq> 0"
  proof -
    have "table_cluster (q_rt q) (q_rt q ! t)" using t that by (auto simp: table_cluster_def)
    then show ?thesis using T(7) [OF t that] poolD(11) [OF p] by (auto simp: foreign_def q_cluster_size_def)
  qed
qed

text \<open>Storing into a cached block that is dirty.\<close>

lemma store_dirty:
  assumes p: "pool E q" and a: "in_range q a" "get_refcount_index (q_refcounts q) a = (t, i)"
    and v: "cm_get (rc_refblock_cache (q_refcounts q)) t = Some v" and w: "w = vec_set i n v"
    and q': "q' = q\<lparr>q_refcounts := put_block t w (q_refcounts q)\<rparr>"
  shows "pool E q'" "keep q q'" "clusters_left q' = clusters_left q"
    "in_range q c \<Longrightarrow> q_count E q' c = (if c = a then n else q_count E q c)"
proof -
  note B = range_block [OF p a]
  note b = B(3) [OF v] and b4 = B(4) [OF conjunct1 [OF B(3) [OF v]]]
  have ok: "rc_ok E (put_block t w (q_refcounts q)) (q_raw_file q)"
    using rc_ok_put [OF poolD(3) [OF p], of t w] v b by (simp add: w vec_set_def q_cluster_size_def)
  have q2: "q' = q\<lparr>q_refcounts := put_block t w (q_refcounts q), q_raw_file := q_raw_file q\<rparr>" by (simp add: q')
  note r = pool_rc [OF p q2 ok, where b = "q_rt q ! t"]
  show "pool E q'" "clusters_left q' = clusters_left q" using r(1,3) b4 by auto
  have "keep_but {q_rt q ! t} q q'" using r(2) b4 by auto
  then show "keep q q'" by (rule keep_but_table) (use b4 in simp)
  show "q_count E q' c = (if c = a then n else q_count E q c)" if c: "in_range q c"
  proof -
    obtain t' i' where i': "get_refcount_index (q_refcounts q) c = (t', i')" by fastforce
    then have "t' < length (q_rt q)" by (rule range_index [OF p c])
    moreover have "(t', i') = (t, i) \<longleftrightarrow> c = a" using range_inj [OF p c a(1)] a(2) i' by auto
    ultimately show ?thesis
      using count_of_put [OF a(2) v _ _ i', of E n "q_raw_file q"] b by (simp add: q_count_def q' w)
  qed
qed

lemma loop_dirty:
  assumes p: "pool E q" and a: "in_range q a" "get_refcount_index (q_refcounts q) a = (t, i)"
    and v: "cm_get (rc_refblock_cache (q_refcounts q)) t = Some v" "vc_dirty v"
  shows "wp (refcount_loop E (Suc fuel) a n new []) (loop_post E a n q) R q"
proof -
  let ?q = "q\<lparr>q_refcounts := put_block t (vec_set i n v) (q_refcounts q)\<rparr>"
  note B = range_block [OF p a]
  have "rc_set_cluster_refcount E a n new (q_refcounts q, q_raw_file q) =
      (Ok None, (put_block t (vec_set i n v) (q_refcounts q), q_raw_file q))"
    by (rule rc_set_dirty [OF a(2) B(1) v]) (use B(3) [OF v(1)] in simp)
  then have "on_refcounts (rc_set_cluster_refcount E a n new) q = (Ok None, ?q)"
    using on_refcounts_eq [of _ q] by fastforce
  moreover have "loop_post E a n q ([], []) ?q"
    using store_dirty [OF p a v(1) refl refl] by (simp add: loop_post_def)
  ultimately show ?thesis by (simp add: wp_def attempt_def bnd_def ret_def)
qed

text \<open>A clean block is moved to a cluster that was just taken.\<close>

lemma store_moved:
  assumes p: "pool E q" and a: "in_range q a" "get_refcount_index (q_refcounts q) a = (t, i)"
    and v: "cm_get (rc_refblock_cache (q_refcounts q)) t = Some v"
    and b: "foreign q b" "b \<noteq> 0" "b + q_cluster_size q \<le> q_len q"
    and q': "q' = q\<lparr>q_refcounts := set_ref_table t b (put_block t (vec_set i n v) (q_refcounts q))\<rparr>"
  shows "pool E q'" "keep_but {b} q q'" "clusters_left q' = clusters_left q" "foreign q' (q_rt q ! t)"
    "in_range q c \<Longrightarrow> q_count E q' c = (if c = a then n else q_count E q c)"
    "table_cluster (q_rt q') c \<Longrightarrow> table_cluster (q_rt q) c \<or> c = b"
proof -
  let ?rc = "put_block t (vec_set i n v) (q_refcounts q)"
  let ?q1 = "q\<lparr>q_refcounts := ?rc\<rparr>"
  note B = range_block [OF p a]
  note bv = B(3) [OF v] and bt = B(4) [OF conjunct1 [OF B(3) [OF v]]]
  note S = store_dirty [OF p a v refl refl, where n = n]
  note T = tables_okD [OF rc_okD(5) [OF poolD(3) [OF S(1)]]]
  have rt: "q_rt ?q1 = q_rt q" by simp
  have fresh: "fresh_for (q_rt q) (q_raw_file q) b"
    using b by (auto simp: fresh_for_def foreign_def q_cluster_size_def table_cluster_def in_set_conv_nth)
  have ok: "rc_ok E (set_ref_table t b ?rc) (q_raw_file q)"
    using rc_ok_move [of E ?rc "q_raw_file q" t b] poolD(3) [OF S(1)] B(1) fresh by (simp add: vec_set_def)
  have cl: "table_cluster ((q_rt q)[t := b]) c \<Longrightarrow> table_cluster (q_rt q) c \<or> c = b" for c
    using B(1) by (auto simp: table_cluster_def nth_list_update split: if_splits)
  then show "table_cluster (q_rt q') c \<Longrightarrow> table_cluster (q_rt q) c \<or> c = b" by (simp add: q')
  have q2: "q' = ?q1\<lparr>q_refcounts := set_ref_table t b ?rc, q_raw_file := q_raw_file ?q1\<rparr>" by (simp add: q')
  have r: "pool E q'" "keep_but {b} ?q1 q'" "clusters_left q' = clusters_left ?q1"
    using pool_rc [OF S(1) q2, of b] ok cl b by (auto simp: foreign_def q_cluster_size_def)
  show "pool E q'" "clusters_left q' = clusters_left q" using r(1,3) S(3) by simp_all
  have "keep_but {b} q ?q1" using S(2) by (auto simp: keep_but_def)
  then show "keep_but {b} q q'" using r(2) by (rule keep_trans)
  have "\<not> table_cluster ((q_rt q)[t := b]) (q_rt q ! t)"
    using tables_okD(8) [OF rc_okD(5) [OF poolD(3) [OF p]]] B(1) bv b bt
    by (auto simp: table_cluster_def nth_list_update split: if_splits)
  moreover have "0 < q_cluster_size q" using cluster_geomD(1) [OF poolD(2) [OF p]] by (simp add: q_cluster_size_def)
  ultimately show "foreign q' (q_rt q ! t)" using bt by (auto simp: foreign_def q' q_cluster_size_def)
  show "q_count E q' c = (if c = a then n else q_count E q c)" if "in_range q c"
    using count_of_move [of ?rc t b E "q_raw_file q" c] S(4) [OF that] bv b B(1) by (simp add: q_count_def q')
qed

lemma file_range:
  assumes "pool E q" "q_cluster_size q dvd c" "c < q_len q"
  shows "in_range q c"
  using cluster_apart [OF assms(2) poolD(4) [OF assms(1)]] poolD(8) [OF assms(1)] assms(2,3)
  by (cases "c = q_max q") (auto simp: in_range_def)

lemma keep_range: "keep_but X q q' \<Longrightarrow> in_range q' c = in_range q c"
  by (simp add: keep_but_def in_range_def)

lemma taken_not_foreign: "taken q q' c \<Longrightarrow> \<not> foreign q c"
  by (auto simp: taken_def foreign_def)

lemma counts_sameD:
  assumes "pool E q" "counts_same E q q'" "in_range q c"
  shows "q_count E q' c = q_count E q c"
  using assms range_index [OF assms(1,3)] unfolding counts_same_def by (metis prod.exhaust)

text \<open>The continuation of the loop after the block asked for a new cluster.\<close>

definition loop_new :: "qcow_env \<Rightarrow> nat \<Rightarrow> nat \<Rightarrow> u16 \<Rightarrow> (nat list \<times> nat list) qcow_io" where
  "loop_new E fuel a n = bnd (get_new_cluster E) (\<lambda>addr. bnd (gets q_refcounts) (\<lambda>rc.
     refcount_loop E fuel a n (Some (addr, vec_cache_new (rc_refcount_block_entries rc))) [addr]))"

lemma loop_moved:
  assumes p: "pool E q" and a: "in_range q a" "get_refcount_index (q_refcounts q) a = (t, i)"
    and v: "cm_get (rc_refblock_cache (q_refcounts q)) t = Some v" "\<not> vc_dirty v"
  shows "wp (loop_new E (Suc fuel) a n) (loop_post E a n q) (full_err E q) q"
  unfolding loop_new_def wp_bnd wp_gets
proof (rule wp_mono [OF get_new_cluster_ok [OF p]])
  fix e q1 assume "e = OsError ENOSPC \<and> pool E q1 \<and> keep q q1 \<and> clusters_left q1 \<le> clusters_left q"
  then show "full_err E q e q1" by (simp add: full_err_def)
next
  fix c q1 assume "pool E q1 \<and> keep q q1 \<and> counts_same E q q1 \<and> taken q q1 c \<and> clusters_left q1 < clusters_left q"
  then have q1: "pool E q1" "keep q q1" "counts_same E q q1" "taken q q1 c" "clusters_left q1 < clusters_left q" by auto
  have rc: "q_refcounts q1 = q_refcounts q" using q1(3) by (simp add: counts_same_def)
  have n: "q_cluster_size q1 = q_cluster_size q" using q1(2) by (simp add: keep_but_def)
  have a1: "in_range q1 a" "get_refcount_index (q_refcounts q1) a = (t, i)" "cm_get (rc_refblock_cache (q_refcounts q1)) t = Some v"
    using a v(1) rc keep_range [OF q1(2)] by simp_all
  have c: "foreign q1 c" "c \<noteq> 0" "c + q_cluster_size q1 \<le> q_len q1" "c \<in> set (q_avail_clusters q) \<or> q_len q \<le> c"
    using q1(4) n by (auto simp: taken_def)
  define q2 where "q2 = q1\<lparr>q_refcounts := set_ref_table t c (put_block t (vec_set i n v) (q_refcounts q1))\<rparr>"
  note S = store_moved [OF q1(1) a1 c(1-3) q2_def]
  note B = range_block [OF q1(1) a1(1,2)]
  have "rc_set_cluster_refcount E a n (Some (c, w)) (q_refcounts q1, q_raw_file q1) =
      (Ok (Some (q_rt q1 ! t)), (set_ref_table t c (put_block t (vec_set i n v) (q_refcounts q1)), q_raw_file q1))" for w
    by (rule rc_set_clean(2) [OF a1(2) B(1) a1(3) v(2)]) (use B(3) [OF a1(3)] in simp)
  then have run: "on_refcounts (rc_set_cluster_refcount E a n (Some (c, w))) q1 = (Ok (Some (q_rt q ! t)), q2)" for w
    using on_refcounts_eq [of _ q1] rc unfolding q2_def by fastforce
  have "in_range q c" using file_range [OF q1(1)] c(1) keep_range [OF q1(2)] by (simp add: foreign_def)
  moreover have "keep q q2" by (rule keep_then [OF q1(2) S(2) taken_not_foreign [OF q1(4)]])
  moreover have "table_cluster (q_rt q) (q_rt q ! t)" "q_rt q ! t \<noteq> 0" "foreign q2 (q_rt q ! t)"
    using B(3) [OF a1(3)] B(4) S(4) rc by auto
  moreover have "q_count E q2 x = (if x = a then n else q_count E q x)" if "in_range q x" for x
    using S(5) [of x] that counts_sameD [OF p q1(3) that] keep_range [OF q1(2)] by simp
  ultimately have "loop_post E a n q ([c], [q_rt q ! t]) q2"
    using S(1,3,6) q1(5) c(4) rc unfolding loop_post_def by auto
  then show "wp (refcount_loop E (Suc fuel) a n (Some (c, vec_cache_new (rc_refcount_block_entries (q_refcounts q1)))) [c])
      (loop_post E a n q) (full_err E q) q1"
    using run by (simp add: wp_def attempt_def bnd_def ret_def)
qed

text \<open>A block that does not exist yet is created in the cluster that was just taken.\<close>

lemma loop_created:
  assumes p: "pool E q" and a: "in_range q a" "get_refcount_index (q_refcounts q) a = (t, i)"
    and none: "cm_get (rc_refblock_cache (q_refcounts q)) t = None" "q_rt q ! t = 0"
  shows "wp (loop_new E (Suc fuel) a n) (loop_post E a n q) (full_err E q) q"
  unfolding loop_new_def wp_bnd wp_gets
proof (rule wp_mono [OF get_new_cluster_ok [OF p]])
  fix e q1 assume "e = OsError ENOSPC \<and> pool E q1 \<and> keep q q1 \<and> clusters_left q1 \<le> clusters_left q"
  then show "full_err E q e q1" by (simp add: full_err_def)
next
  fix c q1 assume "pool E q1 \<and> keep q q1 \<and> counts_same E q q1 \<and> taken q q1 c \<and> clusters_left q1 < clusters_left q"
  then have q1: "pool E q1" "keep q q1" "counts_same E q q1" "taken q q1 c" "clusters_left q1 < clusters_left q" by auto
  have rc: "q_refcounts q1 = q_refcounts q" using q1(3) by (simp add: counts_same_def)
  have n: "q_cluster_size q1 = q_cluster_size q" using q1(2) by (simp add: keep_but_def)
  have a1: "in_range q1 a" "get_refcount_index (q_refcounts q1) a = (t, i)" "cm_get (rc_refblock_cache (q_refcounts q1)) t = None"
    using a none rc keep_range [OF q1(2)] by simp_all
  have c: "foreign q1 c" "c \<noteq> 0" "c + q_cluster_size q1 \<le> q_len q1" "c \<in> set (q_avail_clusters q) \<or> q_len q \<le> c"
    using q1(4) n by (auto simp: taken_def)
  let ?w = "vec_cache_new (rc_refcount_block_entries (q_refcounts q1)) :: u16 vec_cache"
  let ?rc = "set_ref_table t c (q_refcounts q1)"
  note B = range_block [OF q1(1) a1(1,2)]
  have fresh: "fresh_for (q_rt q1) (q_raw_file q1) c"
    using c by (auto simp: fresh_for_def foreign_def q_cluster_size_def table_cluster_def in_set_conv_nth)
  have ok: "rc_ok E ?rc (q_raw_file q1)" using rc_ok_move [OF poolD(3) [OF q1(1)] B(1) fresh] a1(3) by simp
  have len: "2 * length (vc_vec ?w) = qr_cluster_size (q_raw_file q1)" "vc_dirty ?w"
    using rc_okD(4) [OF poolD(3) [OF q1(1)]] by (simp_all add: vec_cache_new_def)
  obtain c' f' where r: "rc_insert E t ?w (?rc, q_raw_file q1) = (Ok (), (?rc\<lparr>rc_refblock_cache := c'\<rparr>, f'))"
    "same_shape (q_raw_file q1) f'" "cm_get c' t = Some ?w" "rc_ok E (?rc\<lparr>rc_refblock_cache := c'\<rparr>) f'"
    "\<And>x. (\<And>b. table_cluster (ref_tab ?rc) b \<Longrightarrow> \<not> within (qr_cluster_size (q_raw_file q1)) b x) \<Longrightarrow> hf_data f' x = hf_data (q_raw_file q1) x"
    "\<And>u. u < length (ref_tab ?rc) \<Longrightarrow> ref_tab ?rc ! u \<noteq> 0 \<Longrightarrow> u \<noteq> t \<Longrightarrow>
       block_view E (?rc\<lparr>rc_refblock_cache := c'\<rparr>) f' u = block_view E ?rc (q_raw_file q1) u"
    using rc_insert_ok [OF ok, of t ?w] B(1) c(2) len a1(3) by auto
  let ?rc' = "?rc\<lparr>rc_refblock_cache := c'\<rparr>"
  define q2 where "q2 = q1\<lparr>q_refcounts := ?rc', q_raw_file := f'\<rparr>"
  have rt2: "q_rt q2 = (q_rt q1)[t := c]" by (simp add: q2_def)
  have cl: "table_cluster ((q_rt q1)[t := c]) x \<Longrightarrow> table_cluster (q_rt q1) x \<or> x = c" for x
    using B(1) by (auto simp: table_cluster_def nth_list_update split: if_splits)
  have P: "pool E q2" "keep_but {c} q1 q2" "clusters_left q2 = clusters_left q1"
    using pool_rc [OF q1(1) q2_def r(4,2), of c] cl r(5) c by (auto simp: foreign_def q_cluster_size_def)
  have cnt: "q_count E q2 x = q_count E q1 x" if "in_range q1 x" for x
  proof -
    obtain t' i' where i': "get_refcount_index (q_refcounts q1) x = (t', i')" by fastforce
    have t': "t' < length (q_rt q1)" by (rule range_index [OF q1(1) that i'])
    have i2: "get_refcount_index ?rc' x = (t', i')" using i' by (simp add: get_refcount_index_def set_ref_table_def)
    show ?thesis
    proof (cases "t' = t")
      case True
      have "i' < rc_refcount_block_entries (q_refcounts q1)" by (rule rc_index_in(1) [OF poolD(3) [OF q1(1)] i'])
      then show ?thesis using True i' i2 none(2) rc r(3) B(1) c(2) view_cached [of ?rc' t ?w E f']
        by (simp add: q_count_def count_of_def q2_def vec_cache_new_def)
    next
      case False
      then show ?thesis using i' i2 t' r(6) [of t'] block_view_move [of t' t "q_refcounts q1" E c "q_raw_file q1"]
        by (simp add: q_count_def count_of_def q2_def)
    qed
  qed
  have a2: "in_range q2 a" "get_refcount_index (q_refcounts q2) a = (t, i)" "cm_get (rc_refblock_cache (q_refcounts q2)) t = Some ?w"
    using a1 r(3) keep_range [OF P(2)] by (simp_all add: q2_def get_refcount_index_def set_ref_table_def)
  define q3 where "q3 = q2\<lparr>q_refcounts := put_block t (vec_set i n ?w) (q_refcounts q2)\<rparr>"
  note S = store_dirty [OF P(1) a2 refl q3_def]
  have "rc_set_cluster_refcount E a n (Some (c, ?w)) (q_refcounts q1, q_raw_file q1) =
      (Ok None, (put_block t (vec_set i n ?w) ?rc', f'))"
    using rc_set_new [OF a1(2) B(1) a1(3) r(1)] r(3) len(2) range_block(3) [OF P(1) a2] by simp
  then have run: "on_refcounts (rc_set_cluster_refcount E a n (Some (c, ?w))) q1 = (Ok None, q3)"
    using on_refcounts_eq [of _ q1] unfolding q3_def q2_def by fastforce
  have "in_range q c" using file_range [OF q1(1)] c(1) keep_range [OF q1(2)] by (simp add: foreign_def)
  moreover have "keep q q3"
    by (rule keep_trans [OF keep_then [OF q1(2) P(2) taken_not_foreign [OF q1(4)]] S(2)])
  moreover have "q_count E q3 x = (if x = a then n else q_count E q x)" if "in_range q x" for x
    using S(4) [of x] cnt [of x] that counts_sameD [OF p q1(3) that] keep_range [OF q1(2)] keep_range [OF P(2)] by simp
  moreover have "table_cluster (q_rt q3) x \<Longrightarrow> table_cluster (q_rt q) x \<or> x = c" for x
    using cl [of x] rc by (simp add: q3_def rt2)
  ultimately have "loop_post E a n q ([c], []) q3"
    using S(1,3) P(3) q1(5) c(4) unfolding loop_post_def by auto
  then show "wp (refcount_loop E (Suc fuel) a n (Some (c, ?w)) [c]) (loop_post E a n q) (full_err E q) q1"
    using run by (simp add: wp_def attempt_def bnd_def ret_def)
qed

text \<open>
  Steps of the counts that change nothing visible, such as reading a block or flushing.
\<close>

lemma pool_rc_same:
  assumes p: "pool E q" and q': "q' = q\<lparr>q_refcounts := rc', q_raw_file := f'\<rparr>"
    and same: "rc_same E (q_refcounts q, q_raw_file q) (rc', f')"
  shows "pool E q'" "keep q q'" "clusters_left q' = clusters_left q" "in_range q c \<Longrightarrow> q_count E q' c = q_count E q c"
    "q_rt q' = q_rt q"
proof -
  have r: "rc_ok E rc' f'" "same_shape (q_raw_file q) f'" "ref_tab rc' = q_rt q"
    "rc_refcount_table_offset rc' = rc_refcount_table_offset (q_refcounts q)"
    "rc_refcount_block_entries rc' = rc_refcount_block_entries (q_refcounts q)" "rc_max_valid_cluster_offset rc' = q_max q"
    "\<And>x. (\<And>b. table_cluster (q_rt q) b \<Longrightarrow> \<not> within (q_cluster_size q) b x) \<Longrightarrow> hf_data f' x = q_data q x"
    "\<not> vc_dirty (rc_ref_table rc') \<Longrightarrow> \<not> vc_dirty (rc_ref_table (q_refcounts q))"
    using same by (auto simp: rc_same_def q_cluster_size_def)
  show rt: "q_rt q' = q_rt q" using r(3) by (simp add: q')
  have "pool E q' \<and> keep q q' \<and> clusters_left q' = clusters_left q"
  proof (cases "\<exists>b. table_cluster (q_rt q) b")
    case True
    then obtain b where b: "table_cluster (q_rt q) b" ..
    then have b': "b \<notin> set (q_avail_clusters q)" "\<not> foreign q b" "q_cluster_size q dvd b" "b + q_cluster_size q \<le> q_len q"
      using poolD(11) [OF p, of b] tables_okD(7) [OF rc_okD(5) [OF poolD(3) [OF p]]]
      by (auto simp: foreign_def q_cluster_size_def) (auto simp: table_cluster_def)
    note P = pool_rc [OF p q' r(1,2,6,4,5) _ _ _ b'(1,3,4)]
    have "pool E q'" "keep_but {b} q q'" "clusters_left q' = clusters_left q" using P r(3,7,8) by auto
    then show ?thesis using keep_but_table b'(2) by blast
  next
    case False
    then have "hf_data f' = q_data q" using r(7) by blast
    then show ?thesis using r p by (auto simp: q' pool_def keep_but_def clusters_left_def foreign_def same_shape_def
          cluster_geom_def q_cluster_size_def)
  qed
  then show "pool E q'" "keep q q'" "clusters_left q' = clusters_left q" by auto
  show "q_count E q' c = q_count E q c" if c: "in_range q c"
  proof -
    obtain t i where i: "get_refcount_index (q_refcounts q) c = (t, i)" by fastforce
    show ?thesis using count_of_same [OF same i range_index [OF p c i]] by (simp add: q_count_def q')
  qed
qed

lemma rc_same_touch: "rc_ok E rc f \<Longrightarrow> rc_ok E (set_ref_table t (ref_tab rc ! t) rc) f"
  by (simp add: rc_ok_def set_ref_table_def vec_set_def)

lemma loop_loaded:
  assumes p: "pool E q" and a: "in_range q a" "get_refcount_index (q_refcounts q) a = (t, i)"
    and none: "cm_get (rc_refblock_cache (q_refcounts q)) t = None" "q_rt q ! t \<noteq> 0"
  shows "wp (refcount_loop E (Suc (Suc (Suc fuel))) a n None []) (loop_post E a n q) (full_err E q) q"
proof -
  let ?rc = "q_refcounts q" and ?f = "q_raw_file q" and ?a = "q_rt q ! t" and ?n = "qr_cluster_size (q_raw_file q)"
  note B = range_block [OF p a] and T = tables_okD [OF rc_okD(5) [OF poolD(3) [OF p]]]
  have even: "2 * (?n div 2) = ?n" using cluster_geomD(4) [OF poolD(2) [OF p]] by simp
  let ?t = "u16s (qe_be E) (?n div 2) (bytes_at (hf_data ?f) ?a ?n)"
  let ?f1 = "at_pos (?a + ?n) ?f" and ?w = "vec_cache_from_vec ?t" and ?rc1 = "set_ref_table t ?a ?rc"
  have rd: "read_refcount_block E ?a ?f = (Ok ?t, ?f1)"
    using read_refcount_block_eq [OF T(1) _ T(2), of ?a E] B(4) [OF none(2)] even by (simp add: Let_def q_cluster_size_def)
  have rt1: "ref_tab ?rc1 = q_rt q" by simp
  have ok: "rc_ok E ?rc1 ?f1"
    using rc_same_touch [OF poolD(3) [OF p], of t] T(1,2) by (simp add: rc_ok_def tables_ok_def)
  have vt: "parse_counts (qe_be E) (bytes_at (hf_data ?f) ?a ?n) = Some ?t" by (simp add: parse_counts_def)
  obtain c f' where r: "rc_insert E t ?w (?rc1, ?f1) = (Ok (), (?rc1\<lparr>rc_refblock_cache := c\<rparr>, f'))"
    "same_shape ?f1 f'" "cm_get c t = Some ?w" "rc_ok E (?rc1\<lparr>rc_refblock_cache := c\<rparr>) f'"
    "\<And>x. (\<And>b. table_cluster (q_rt q) b \<Longrightarrow> \<not> within ?n b x) \<Longrightarrow> hf_data f' x = hf_data ?f x"
    "\<And>u. u < length (q_rt q) \<Longrightarrow> q_rt q ! u \<noteq> 0 \<Longrightarrow> u \<noteq> t \<Longrightarrow>
       block_view E (?rc1\<lparr>rc_refblock_cache := c\<rparr>) f' u = block_view E ?rc1 ?f1 u"
    using rc_insert_ok [OF ok, of t ?w] B(1) none vt even by (auto simp: vec_cache_from_vec_def)
  let ?rc2 = "?rc1\<lparr>rc_refblock_cache := c\<rparr>"
  have view: "block_view E ?rc1 ?f1 u = block_view E ?rc ?f u" for u
    by (simp add: block_view_def view_of_def)
  have "block_view E ?rc2 f' u = block_view E ?rc ?f u" if "u < length (q_rt q)" "q_rt q ! u \<noteq> 0" for u
  proof (cases "u = t")
    case True
    have "block_view E ?rc ?f t = Some ?t" using none vt by (simp add: block_view_def view_of_def table_view_def)
    then show ?thesis using True view_cached [of ?rc2 t ?w E f'] r(3) by (simp add: vec_cache_from_vec_def)
  qed (use r(6) [OF that] view in simp)
  then have same: "rc_same E (?rc, ?f) (?rc2, f')"
    using r(2,4,5) by (simp add: rc_same_def same_shape_def set_ref_table_def vec_set_def)
  define q2 where "q2 = q\<lparr>q_refcounts := ?rc2, q_raw_file := f'\<rparr>"
  note P = pool_rc_same [OF p q2_def same]
  have a2: "in_range q2 a" "get_refcount_index (q_refcounts q2) a = (t, i)" "cm_get (rc_refblock_cache (q_refcounts q2)) t = Some ?w"
    using a r(3) keep_range [OF P(2)] by (simp_all add: q2_def get_refcount_index_def set_ref_table_def)
  have s1: "on_refcounts (rc_set_cluster_refcount E a n None) q = (Err (NeedCluster ?a), q)"
    using on_refcounts_eq [of "rc_set_cluster_refcount E a n None" q] rc_set_absent [OF a(2) B(1) none(1)] none(2) by simp
  let ?q1 = "q\<lparr>q_raw_file := ?f1\<rparr>"
  have "rc_set_cluster_refcount E a n (Some (?a, ?w)) (?rc, ?f1) = (Err NeedNewCluster, (?rc2, f'))"
    using rc_set_new [OF a(2) B(1) none(1) r(1)] r(3) range_block(3) [OF P(1) a2] by (simp add: vec_cache_from_vec_def)
  then have s2: "on_refcounts (rc_set_cluster_refcount E a n (Some (?a, ?w))) ?q1 = (Err NeedNewCluster, q2)"
    using on_refcounts_eq [of "rc_set_cluster_refcount E a n (Some (?a, ?w))" ?q1] by (simp add: q2_def)
  have run: "refcount_loop E (Suc (Suc (Suc fuel))) a n None [] q = loop_new E (Suc fuel) a n q2"
    using s1 s2 rd by (simp add: loop_new_def attempt_def bnd_def gets_def on_raw_def zoom_def)
  have "wp (loop_new E (Suc fuel) a n) (loop_post E a n q2) (full_err E q2) q2"
    by (rule loop_moved [OF P(1) a2]) (simp add: vec_cache_from_vec_def)
  moreover have "loop_post E a n q2 r' q3 \<Longrightarrow> loop_post E a n q r' q3" for r' q3
    using P keep_range [OF P(2)] keep_trans [OF P(2), of q3] same_shape_def r(2)
    unfolding loop_post_def by (auto simp: q2_def same_shape_def)
  moreover have "full_err E q2 e q3 \<Longrightarrow> full_err E q e q3" for e q3
    using keep_trans [OF P(2), of q3] by (simp add: full_err_def)
  ultimately show ?thesis unfolding wp_def run by (auto split: prod.splits outcome.splits)
qed

lemma refcount_loop_ok:
  assumes p: "pool E q" and a: "in_range q a"
  shows "wp (refcount_loop E 4 a n None []) (loop_post E a n q) (full_err E q) q"
proof -
  obtain t i where i: "get_refcount_index (q_refcounts q) a = (t, i)" by fastforce
  note B = range_block [OF p a i]
  have four: "4 = Suc (Suc (Suc (Suc 0)))" by simp
  show ?thesis
  proof (cases "cm_get (rc_refblock_cache (q_refcounts q)) t")
    case None
    show ?thesis
    proof (cases "q_rt q ! t = 0")
      case True
      have "on_refcounts (rc_set_cluster_refcount E a n None) q = (Err NeedNewCluster, q)"
        using on_refcounts_eq [of "rc_set_cluster_refcount E a n None" q] rc_set_absent [OF i B(1) None] True by simp
      then have "refcount_loop E 4 a n None [] q = loop_new E (Suc (Suc (Suc 0))) a n q"
        unfolding four by (simp add: loop_new_def attempt_def bnd_def)
      then show ?thesis using loop_created [OF p a i None True] by (simp add: wp_def)
    next
      case False
      then show ?thesis unfolding four by (rule loop_loaded [OF p a i None])
    qed
  next
    case (Some v)
    show ?thesis
    proof (cases "vc_dirty v")
      case True
      then show ?thesis unfolding four by (rule loop_dirty [OF p a i Some])
    next
      case False
      have "on_refcounts (rc_set_cluster_refcount E a n None) q = (Err NeedNewCluster, q)"
        using on_refcounts_eq [of "rc_set_cluster_refcount E a n None" q] rc_set_clean(1) [OF i B(1) Some False] B(3) [OF Some] by simp
      then have "refcount_loop E 4 a n None [] q = loop_new E (Suc (Suc (Suc 0))) a n q"
        unfolding four by (simp add: loop_new_def attempt_def bnd_def)
      then show ?thesis using loop_moved [OF p a i Some False] by (simp add: wp_def)
    qed
  qed
qed

text \<open>
  \<open>set_cluster_refcount\<close>: the count of the cluster is set, blocks that were added count themselves,
  and no other count changes.
\<close>

definition new_cluster :: "qcow_file \<Rightarrow> nat \<Rightarrow> bool" where
  "new_cluster q c \<longleftrightarrow> (c \<in> set (q_avail_clusters q) \<or> q_len q \<le> c) \<and> in_range q c"

definition counts_set :: "qcow_env \<Rightarrow> nat \<Rightarrow> u16 \<Rightarrow> qcow_file \<Rightarrow> qcow_file \<Rightarrow> bool" where
  "counts_set E a n q q' \<longleftrightarrow> (\<exists>A. (\<forall>c \<in> A. new_cluster q c) \<and>
     (\<forall>c. in_range q c \<longrightarrow> q_count E q' c = (if c \<in> A then 1 else if c = a then n else q_count E q c)) \<and>
     (\<forall>c. table_cluster (q_rt q') c \<longrightarrow> table_cluster (q_rt q) c \<or> c \<in> A))"

definition freed_ok :: "qcow_file \<Rightarrow> qcow_file \<Rightarrow> nat list \<Rightarrow> bool" where
  "freed_ok q q' freed \<longleftrightarrow> freed = [] \<or> (\<exists>c. freed = [c] \<and> c \<noteq> 0 \<and> table_cluster (q_rt q) c \<and> foreign q' c)"

definition set_post :: "qcow_env \<Rightarrow> nat \<Rightarrow> u16 \<Rightarrow> qcow_file \<Rightarrow> nat list \<Rightarrow> qcow_file \<Rightarrow> bool" where
  "set_post E a n q freed q' \<longleftrightarrow> pool E q' \<and> keep q q' \<and> clusters_left q' \<le> clusters_left q \<and>
     freed_ok q q' freed \<and> counts_set E a n q q'"

lemma keep_new: "keep q q' \<Longrightarrow> new_cluster q' c \<Longrightarrow> new_cluster q c"
  using keep_range [of "{}" q q' c] by (auto simp: keep_but_def new_cluster_def)

lemma counts_set_added:
  assumes "loop_post E a n q ([b], freed) q1" "counts_set E b 1 q1 q2"
  shows "counts_set E a n q q2"
proof -
  have q1: "keep q q1" "b \<in> set (q_avail_clusters q) \<or> q_len q \<le> b" "in_range q b"
    "\<And>c. in_range q c \<Longrightarrow> q_count E q1 c = (if c = a then n else q_count E q c)"
    "\<And>c. table_cluster (q_rt q1) c \<Longrightarrow> table_cluster (q_rt q) c \<or> c = b"
    using assms(1) by (auto simp: loop_post_def)
  obtain A where A: "\<And>c. c \<in> A \<Longrightarrow> new_cluster q1 c"
    "\<And>c. in_range q1 c \<Longrightarrow> q_count E q2 c = (if c \<in> A then 1 else if c = b then 1 else q_count E q1 c)"
    "\<And>c. table_cluster (q_rt q2) c \<Longrightarrow> table_cluster (q_rt q1) c \<or> c \<in> A"
    using assms(2) by (auto simp: counts_set_def)
  show ?thesis unfolding counts_set_def
  proof (intro exI [of _ "insert b A"] conjI ballI allI impI)
    show "new_cluster q c" if "c \<in> insert b A" for c
      using that q1(2,3) keep_new [OF q1(1) A(1)] by (auto simp: new_cluster_def)
    show "q_count E q2 c = (if c \<in> insert b A then 1 else if c = a then n else q_count E q c)" if "in_range q c" for c
      using A(2) [of c] q1(4) [OF that] that keep_range [OF q1(1)] by simp
    show "table_cluster (q_rt q) c \<or> c \<in> insert b A" if "table_cluster (q_rt q2) c" for c
      using A(3) [OF that] q1(5) by blast
  qed
qed

lemma set_refcount_fuel_ok:
  "clusters_left q < fuel \<Longrightarrow> pool E q \<Longrightarrow> in_range q a \<Longrightarrow>
     wp (set_refcount_fuel E fuel a n) (set_post E a n q) (full_err E q) q"
proof (induction fuel arbitrary: q a n)
  case (Suc fuel)
  have step: "wp (seq (for_each added (\<lambda>b. seq (set_refcount_fuel E fuel b 1) (ret ()))) (ret freed))
      (set_post E a n q) (full_err E q) q1" if l: "loop_post E a n q (added, freed) q1" for added freed q1
  proof -
    have q1: "pool E q1" "keep q q1" "freed_ok q q1 freed"
      "added = [] \<and> clusters_left q1 \<le> clusters_left q \<or> (\<exists>b. added = [b] \<and> clusters_left q1 < clusters_left q \<and> in_range q b)"
      using l by (auto simp: loop_post_def freed_ok_def)
    show ?thesis using q1(4)
    proof (elim disjE exE conjE)
      assume "added = []" "clusters_left q1 \<le> clusters_left q"
      moreover have "counts_set E a n q q1" if "added = []"
        using l that by (auto simp: loop_post_def counts_set_def intro!: exI [of _ "{}"])
      ultimately show ?thesis using q1 by (simp add: wp_simps set_post_def)
    next
      fix b assume b: "added = [b]" "clusters_left q1 < clusters_left q" "in_range q b"
      have "wp (set_refcount_fuel E fuel b 1) (set_post E b 1 q1) (full_err E q1) q1"
        by (rule Suc.IH) (use b Suc.prems q1(1) keep_range [OF q1(2)] in auto)
      moreover have "set_post E a n q freed q2" if "set_post E b 1 q1 r q2" for r q2
      proof -
        have q2: "pool E q2" "keep q1 q2" "clusters_left q2 \<le> clusters_left q1" "counts_set E b 1 q1 q2"
          using that by (auto simp: set_post_def)
        have "freed_ok q q2 freed" using q1(3) q2(2) by (auto simp: freed_ok_def keep_but_def)
        then show ?thesis
          using q2 b(2) keep_trans [OF q1(2) q2(2)] counts_set_added [OF l [unfolded b(1)] q2(4)]
          by (simp add: set_post_def)
      qed
      moreover have "full_err E q e q2" if "full_err E q1 e q2" for e q2
        using that keep_trans [OF q1(2), of q2] by (simp add: full_err_def)
      ultimately show ?thesis unfolding b(1) for_each.simps wp_simps by (rule wp_mono)
    qed
  qed
  show ?case unfolding set_refcount_fuel.simps wp_bnd
    by (rule wp_mono [OF refcount_loop_ok [OF Suc.prems(2,3)]]) (auto split: prod.split intro: step)
qed simp

lemma set_cluster_refcount_ok:
  assumes "pool E q" "in_range q a"
  shows "wp (set_cluster_refcount E a n) (set_post E a n q) (full_err E q) q"
  unfolding set_cluster_refcount_def wp_simps by (rule set_refcount_fuel_ok) (use assms in simp_all)

end
