(* ===== verification/Qcow_Disk.thy ===== *)
theory Qcow_Disk
  imports Qcow_Pool
begin

text \<open>
  The virtual disk that an image holds.  Every cluster in use has one role: part of the header, of the
  L1 table or of the table of reference counts, an L2 table, guest data, or counts.  The invariant says
  that no cluster has two roles and that none is free; \<open>content\<close> is the byte that the guest sees at an
  address.
\<close>

subsection \<open>Roles and contents\<close>

abbreviation q_l1 :: "qcow_file \<Rightarrow> nat list" where
  "q_l1 q \<equiv> vc_vec (q_l1_table q)"

definition l2_view :: "qcow_env \<Rightarrow> qcow_file \<Rightarrow> nat \<Rightarrow> nat list option" where
  "l2_view E q = view_of (parse_l2 (qe_be E)) (q_l1 q) (q_l2_cache q) (q_raw_file q)"

text \<open>The cluster an L2 table maps an entry to, 0 if none.\<close>

definition mapped :: "qcow_env \<Rightarrow> qcow_file \<Rightarrow> nat \<Rightarrow> nat \<Rightarrow> nat" where
  "mapped E q i j = (if i < length (q_l1 q) \<and> q_l1 q ! i \<noteq> 0 then the (l2_view E q i) ! j else 0)"

datatype slot = Header | L1Part nat | RtPart nat | L2Table nat | Data nat nat

abbreviation l1_offset :: "qcow_file \<Rightarrow> nat" where
  "l1_offset q \<equiv> unat (qh_l1_table_offset (q_header q))"

abbreviation rt_offset :: "qcow_file \<Rightarrow> nat" where
  "rt_offset q \<equiv> rc_refcount_table_offset (q_refcounts q)"

fun slot_at :: "qcow_env \<Rightarrow> qcow_file \<Rightarrow> slot \<Rightarrow> nat option" where
  "slot_at E q Header = Some 0"
| "slot_at E q (L1Part k) =
     (if k * q_cluster_size q < 8 * length (q_l1 q) then Some (l1_offset q + k * q_cluster_size q) else None)"
| "slot_at E q (RtPart k) =
     (if k * q_cluster_size q < 8 * length (q_rt q) then Some (rt_offset q + k * q_cluster_size q) else None)"
| "slot_at E q (L2Table i) = (if i < length (q_l1 q) \<and> q_l1 q ! i \<noteq> 0 then Some (q_l1 q ! i) else None)"
| "slot_at E q (Data i j) = (if j < q_l2_entries q \<and> mapped E q i j \<noteq> 0 then Some (mapped E q i j) else None)"

declare slot_at.simps(2-5) [simp del]

lemma slot_l2: "slot_at E q (L2Table i) = Some c \<longleftrightarrow> i < length (q_l1 q) \<and> q_l1 q ! i = c \<and> c \<noteq> 0"
  by (auto simp: slot_at.simps)

lemma slot_data: "slot_at E q (Data i j) = Some c \<longleftrightarrow> j < q_l2_entries q \<and> mapped E q i j = c \<and> c \<noteq> 0"
  by (auto simp: slot_at.simps)

lemma l1_cluster: "table_cluster (q_l1 q) c \<longleftrightarrow> (\<exists>i. slot_at E q (L2Table i) = Some c)"
  by (auto simp: slot_l2 table_cluster_def)

definition whole :: "slot \<Rightarrow> bool" where
  "whole s \<longleftrightarrow> (case s of L2Table _ \<Rightarrow> True | Data _ _ \<Rightarrow> True | _ \<Rightarrow> False)"

text \<open>The tables as the image file has them.\<close>

definition l1_disk :: "qcow_env \<Rightarrow> qcow_file \<Rightarrow> nat list" where
  "l1_disk E q = map (mask_entry (Some L1_TABLE_OFFSET_MASK))
     (u64s (qe_be E) (length (q_l1 q)) (bytes_at (q_data q) (l1_offset q) (8 * length (q_l1 q))))"

definition rt_disk :: "qcow_env \<Rightarrow> qcow_file \<Rightarrow> nat list" where
  "rt_disk E q = map (mask_entry None)
     (u64s (qe_be E) (length (q_rt q)) (bytes_at (q_data q) (rt_offset q) (8 * length (q_rt q))))"

definition disk_synced :: "qcow_env \<Rightarrow> qcow_file \<Rightarrow> bool" where
  "disk_synced E q \<longleftrightarrow> 104 \<le> q_len q \<and> parse_header (qe_be E) (bytes_at (q_data q) 0 104) = Some (clear_lazy (q_header q)) \<and>
     (\<not> vc_dirty (q_l1_table q) \<longrightarrow> l1_disk E q = q_l1 q) \<and>
     (\<not> vc_dirty (rc_ref_table (q_refcounts q)) \<longrightarrow> rt_disk E q = q_rt q)"

definition core :: "qcow_env \<Rightarrow> qcow_file \<Rightarrow> bool" where
  "core E q \<longleftrightarrow> q_l2_entries q = q_cluster_size q div 8 \<and> virtual_size q \<le> 2 ^ 44 \<and>
     (\<forall>a < virtual_size q. l1_table_index q a < length (q_l1 q)) \<and>
     tables_ok (parse_l2 (qe_be E)) valid_l2 (q_l1 q) (q_l2_cache q) (q_raw_file q) \<and>
     (\<forall>i < length (q_l1 q). q_l1 q ! i \<noteq> 0 \<longrightarrow> (\<exists>t. l2_view E q i = Some t \<and> valid_l2 (q_cluster_size q) t)) \<and>
     l1_offset q + 8 * length (q_l1 q) \<le> q_len q \<and> rt_offset q + 8 * length (q_rt q) \<le> q_len q \<and> disk_synced E q \<and>
     (\<forall>s c. slot_at E q s = Some c \<longrightarrow> foreign q c \<and> (whole s \<longrightarrow> c + q_cluster_size q \<le> q_len q)) \<and>
     (\<forall>s s' c. slot_at E q s = Some c \<longrightarrow> slot_at E q s' = Some c \<longrightarrow> s = s')"

lemma coreD:
  assumes "core E q"
  shows "q_l2_entries q = q_cluster_size q div 8" "virtual_size q \<le> 2 ^ 44"
    "a < virtual_size q \<Longrightarrow> l1_table_index q a < length (q_l1 q)"
    "tables_ok (parse_l2 (qe_be E)) valid_l2 (q_l1 q) (q_l2_cache q) (q_raw_file q)"
    "i < length (q_l1 q) \<Longrightarrow> q_l1 q ! i \<noteq> 0 \<Longrightarrow> \<exists>t. l2_view E q i = Some t \<and> valid_l2 (q_cluster_size q) t"
    "l1_offset q + 8 * length (q_l1 q) \<le> q_len q" "rt_offset q + 8 * length (q_rt q) \<le> q_len q"
    "slot_at E q s = Some c \<Longrightarrow> foreign q c" "slot_at E q s = Some c \<Longrightarrow> whole s \<Longrightarrow> c + q_cluster_size q \<le> q_len q"
    "slot_at E q s = Some c \<Longrightarrow> slot_at E q s' = Some c \<Longrightarrow> s = s'" "disk_synced E q"
  using assms unfolding core_def by blast+

definition qsafe :: "qcow_env \<Rightarrow> qcow_file \<Rightarrow> bool" where
  "qsafe E q \<longleftrightarrow> pool E q \<and> core E q"

text \<open>Clusters waiting to become free are in no use.\<close>

definition unused :: "qcow_env \<Rightarrow> qcow_file \<Rightarrow> nat \<Rightarrow> bool" where
  "unused E q c \<longleftrightarrow> foreign q c \<and> (\<forall>s. slot_at E q s \<noteq> Some c)"

definition unref_ok :: "qcow_env \<Rightarrow> qcow_file \<Rightarrow> bool" where
  "unref_ok E q \<longleftrightarrow> distinct (q_unref_clusters q) \<and> (\<forall>c \<in> set (q_unref_clusters q). unused E q c)"

definition qinv :: "qcow_env \<Rightarrow> qcow_file \<Rightarrow> bool" where
  "qinv E q \<longleftrightarrow> qsafe E q \<and> unref_ok E q"

definition data_slot :: "qcow_file \<Rightarrow> nat \<Rightarrow> slot" where
  "data_slot q a = Data (l1_table_index q a) (l2_table_index q a)"

definition content :: "qcow_env \<Rightarrow> qcow_file \<Rightarrow> nat \<Rightarrow> u8" where
  "content E q a = (if a < virtual_size q then
     (case slot_at E q (data_slot q a) of Some c \<Rightarrow> q_data q (c + a mod q_cluster_size q) | None \<Rightarrow> 0) else 0)"

lemma qsafe_size: "qsafe E q \<Longrightarrow> 0 < q_cluster_size q \<and> 8 dvd q_cluster_size q"
  using cluster_geomD(1,3) [OF poolD(2), of E q] by (simp add: qsafe_def q_cluster_size_def)

lemma qsafe_large: "qsafe E q \<Longrightarrow> 512 \<le> q_cluster_size q"
  using cluster_geomD(1,2) [OF poolD(2), of E q] by (auto simp: qsafe_def q_cluster_size_def intro: dvd_imp_le)

lemma unused_nonzero: "unused E q c \<Longrightarrow> c \<noteq> 0"
  unfolding unused_def using slot_at.simps(1) [of E q] by metis

text \<open>Slots of a mapped entry.\<close>

lemma l2_valid_entry:
  assumes "core E q" "i < length (q_l1 q)" "q_l1 q ! i \<noteq> 0"
  shows "\<exists>t. l2_view E q i = Some t \<and> length t = q_l2_entries q \<and> (\<forall>a \<in> set t. entry_ok a)"
  using coreD(5) [OF assms] coreD(1) [OF assms(1)] by (auto simp: valid_l2_def)

subsection \<open>Frame\<close>

lemma part_bytes:
  assumes "0 < n" "\<And>k x. k * n < m \<Longrightarrow> within n (off + k * n) x \<Longrightarrow> d' x = d x"
  shows "bytes_at d' off m = bytes_at d off m"
proof (rule slice_cong)
  fix i assume i: "i < m"
  have "i div n * n \<le> i" "i < i div n * n + n" using assms(1) by (simp, metis assms(1) dividend_less_div_times add.commute)
  then show "d' (off + i) = d (off + i)" using i by (intro assms(2) [of "i div n"]) (linarith, auto simp: within_def)
qed

text \<open>The bytes of the header and of the top-level tables, in terms of their clusters.\<close>

lemma disk_bytes:
  assumes "512 \<le> q_cluster_size q"
  shows "(\<And>x. within (q_cluster_size q) 0 x \<Longrightarrow> d x = q_data q x) \<Longrightarrow> bytes_at d 0 104 = bytes_at (q_data q) 0 104"
    "(\<And>k c x. slot_at E q (L1Part k) = Some c \<Longrightarrow> within (q_cluster_size q) c x \<Longrightarrow> d x = q_data q x) \<Longrightarrow>
      bytes_at d (l1_offset q) (8 * length (q_l1 q)) = bytes_at (q_data q) (l1_offset q) (8 * length (q_l1 q))"
    "(\<And>k c x. slot_at E q (RtPart k) = Some c \<Longrightarrow> within (q_cluster_size q) c x \<Longrightarrow> d x = q_data q x) \<Longrightarrow>
      bytes_at d (rt_offset q) (8 * length (q_rt q)) = bytes_at (q_data q) (rt_offset q) (8 * length (q_rt q))"
proof -
  have m: "0 < q_cluster_size q" using assms by simp
  show "bytes_at d 0 104 = bytes_at (q_data q) 0 104" if "\<And>x. within (q_cluster_size q) 0 x \<Longrightarrow> d x = q_data q x"
    by (rule slice_cong) (use that assms in \<open>simp add: within_def\<close>)
  show "bytes_at d (l1_offset q) (8 * length (q_l1 q)) = bytes_at (q_data q) (l1_offset q) (8 * length (q_l1 q))"
    if h: "\<And>k c x. slot_at E q (L1Part k) = Some c \<Longrightarrow> within (q_cluster_size q) c x \<Longrightarrow> d x = q_data q x"
    by (rule part_bytes [OF m], rule h) (auto simp: slot_at.simps)
  show "bytes_at d (rt_offset q) (8 * length (q_rt q)) = bytes_at (q_data q) (rt_offset q) (8 * length (q_rt q))"
    if h: "\<And>k c x. slot_at E q (RtPart k) = Some c \<Longrightarrow> within (q_cluster_size q) c x \<Longrightarrow> d x = q_data q x"
    by (rule part_bytes [OF m], rule h) (auto simp: slot_at.simps)
qed

text \<open>Nothing that is neither an L2 table nor data concerns the header and the top-level tables.\<close>

lemma disk_synced_frame:
  assumes q: "disk_synced E q" and n: "512 \<le> q_cluster_size q"
    and d: "\<And>s c x. slot_at E q s = Some c \<Longrightarrow> \<not> whole s \<Longrightarrow> within (q_cluster_size q) c x \<Longrightarrow> q_data q' x = q_data q x"
    and s: "q_len q \<le> q_len q'" "q_header q' = q_header q" "length (q_l1 q') = length (q_l1 q)" "rt_offset q' = rt_offset q"
      "length (q_rt q') = length (q_rt q)"
    and l1: "\<not> vc_dirty (q_l1_table q') \<Longrightarrow> q_l1_table q' = q_l1_table q"
    and rt: "\<not> vc_dirty (rc_ref_table (q_refcounts q')) \<longrightarrow> \<not> vc_dirty (rc_ref_table (q_refcounts q)) \<and> q_rt q' = q_rt q"
  shows "disk_synced E q'"
proof -
  have h: "bytes_at (q_data q') 0 104 = bytes_at (q_data q) 0 104"
    by (rule disk_bytes(1) [OF n], rule d [of Header]) (simp_all add: whole_def)
  have "bytes_at (q_data q') (l1_offset q) (8 * length (q_l1 q)) = bytes_at (q_data q) (l1_offset q) (8 * length (q_l1 q))"
    by (rule disk_bytes(2) [OF n, where E = E], rule d) (auto simp: whole_def)
  then have l: "l1_disk E q' = l1_disk E q" by (simp add: l1_disk_def s)
  have "bytes_at (q_data q') (rt_offset q) (8 * length (q_rt q)) = bytes_at (q_data q) (rt_offset q) (8 * length (q_rt q))"
    by (rule disk_bytes(3) [OF n, where E = E], rule d) (auto simp: whole_def)
  then have r: "rt_disk E q' = rt_disk E q" by (simp add: rt_disk_def s)
  have "l1_disk E q = q_l1 q'" if "\<not> vc_dirty (q_l1_table q')" using q l1 [OF that] that by (simp add: disk_synced_def)
  moreover have "rt_disk E q = q_rt q'" if "\<not> vc_dirty (rc_ref_table (q_refcounts q'))" using q rt that by (simp add: disk_synced_def)
  moreover have "104 \<le> q_len q'" using q s(1) by (simp add: disk_synced_def)
  moreover have "parse_header (qe_be E) (bytes_at (q_data q) 0 104) = Some (clear_lazy (q_header q))" using q by (simp add: disk_synced_def)
  ultimately show ?thesis unfolding disk_synced_def l r h s(2) by blast
qed

text \<open>Operations on the pool leave roles and contents alone.\<close>

lemma slot_at_keep:
  assumes "qsafe E q" "keep_but X q q'" "\<And>s c. slot_at E q s = Some c \<Longrightarrow> c \<notin> X"
  shows "slot_at E q' s = slot_at E q s" "i < length (q_l1 q) \<Longrightarrow> q_l1 q ! i \<noteq> 0 \<Longrightarrow> l2_view E q' i = l2_view E q i"
proof -
  have K: "q_l1_table q' = q_l1_table q" "q_l2_cache q' = q_l2_cache q" "q_cluster_size q' = q_cluster_size q"
    "q_header q' = q_header q" "q_l2_entries q' = q_l2_entries q" "rt_offset q' = rt_offset q" "length (q_rt q') = length (q_rt q)"
    "\<And>c x. foreign q c \<Longrightarrow> c \<notin> X \<Longrightarrow> within (q_cluster_size q) c x \<Longrightarrow> q_data q' x = q_data q x"
    using assms(2) by (auto simp: keep_but_def)
  have view: "l2_view E q' i = l2_view E q i" if i: "i < length (q_l1 q)" "q_l1 q ! i \<noteq> 0" for i
  proof -
    have s: "slot_at E q (L2Table i) = Some (q_l1 q ! i)" using i by (simp add: slot_l2)
    have "core E q" using assms(1) by (simp add: qsafe_def)
    from coreD(8) [OF this s] assms(3) [OF s] have "foreign q (q_l1 q ! i)" "q_l1 q ! i \<notin> X" by simp_all
    then show ?thesis unfolding l2_view_def K(1,2)
      by (intro view_of_file i) (use K(3,8) in \<open>auto simp: q_cluster_size_def\<close>)
  qed
  then show "i < length (q_l1 q) \<Longrightarrow> q_l1 q ! i \<noteq> 0 \<Longrightarrow> l2_view E q' i = l2_view E q i" .
  show "slot_at E q' s = slot_at E q s"
    using K view by (cases s) (auto simp: mapped_def slot_at.simps)
qed

lemma qsafe_keep:
  assumes q: "qsafe E q" and k: "keep_but X q q'" and x: "\<And>s c. slot_at E q s = Some c \<Longrightarrow> c \<notin> X" and p: "pool E q'"
  shows "qsafe E q'" "content E q' = content E q" "unused E q c \<Longrightarrow> c \<notin> X \<Longrightarrow> unused E q' c"
proof -
  note C = coreD [OF conjunct2 [OF q [unfolded qsafe_def]]]
  have S: "slot_at E q' s = slot_at E q s" "i < length (q_l1 q) \<Longrightarrow> q_l1 q ! i \<noteq> 0 \<Longrightarrow> l2_view E q' i = l2_view E q i" for s i
    by (rule slot_at_keep [OF q k x], assumption+)+
  have K: "q_l1_table q' = q_l1_table q" "q_l2_cache q' = q_l2_cache q" "q_cluster_size q' = q_cluster_size q"
    "q_header q' = q_header q" "q_l2_entries q' = q_l2_entries q" "rt_offset q' = rt_offset q" "length (q_rt q') = length (q_rt q)"
    "q_len q \<le> q_len q'" "\<And>c. foreign q c \<Longrightarrow> c \<notin> X \<Longrightarrow> foreign q' c"
    "\<And>c x. foreign q c \<Longrightarrow> c \<notin> X \<Longrightarrow> within (q_cluster_size q) c x \<Longrightarrow> q_data q' x = q_data q x"
    "\<not> vc_dirty (rc_ref_table (q_refcounts q')) \<longrightarrow> \<not> vc_dirty (rc_ref_table (q_refcounts q)) \<and> q_rt q' = q_rt q"
    using k by (auto simp: keep_but_def)
  have vs: "virtual_size q' = virtual_size q" "\<And>a. l1_table_index q' a = l1_table_index q a"
    "\<And>a. data_slot q' a = data_slot q a"
    using K by (simp_all add: virtual_size_def l1_table_index_def l2_table_index_def data_slot_def)
  have "tables_ok (parse_l2 (qe_be E)) valid_l2 (q_l1 q) (q_l2_cache q) (q_raw_file q')"
  proof (rule tables_ok_file [OF C(4)])
    show "quiet (q_raw_file q')" using tables_okD(1) [OF rc_okD(5) [OF poolD(3) [OF p]]] .
    show "hf_len (q_raw_file q') < 2 ^ 63" using pool_len [OF p] by simp
    show "hf_data (q_raw_file q') y = q_data q y" if tb: "table_cluster (q_l1 q) b" "within (qr_cluster_size (q_raw_file q)) b y" for b y
    proof -
      obtain i where "slot_at E q (L2Table i) = Some b" using tb(1) l1_cluster by blast
      then show ?thesis using K(10) [of b y] C(8) x tb(2) by (metis q_cluster_size_def)
    qed
  qed (use K(3,8) in \<open>simp_all add: q_cluster_size_def\<close>)
  moreover have "\<forall>i < length (q_l1 q). q_l1 q ! i \<noteq> 0 \<longrightarrow> (\<exists>t. l2_view E q' i = Some t \<and> valid_l2 (q_cluster_size q) t)"
    using C(5) S(2) by auto
  moreover have "foreign q' c \<and> (whole s \<longrightarrow> c + q_cluster_size q \<le> q_len q')" if "slot_at E q s = Some c" for s c
    using C(8) [OF that] C(9) [OF that] x [OF that] K(8,9) by (meson le_trans)
  moreover have "disk_synced E q'"
    by (rule disk_synced_frame [OF C(11) qsafe_large [OF q]]) (use K in simp_all, use K(10) C(8) x in blast)
  ultimately have "core E q'"
    using C(1-3,6,7,10) K(1-8) vs unfolding core_def S(1) by simp
  then show "qsafe E q'" using p by (simp add: qsafe_def)
  show "content E q' = content E q"
  proof
    fix a
    have "q_data q' (c + a mod q_cluster_size q) = q_data q (c + a mod q_cluster_size q)" if "slot_at E q (data_slot q a) = Some c" for c
    proof (rule K(10) [OF C(8) [OF that] x [OF that]])
      show "within (q_cluster_size q) c (c + a mod q_cluster_size q)" using qsafe_size [OF q] by (simp add: within_def)
    qed
    then show "content E q' a = content E q a" using K(3) by (simp add: content_def vs S(1) split: option.split)
  qed
  show "unused E q' c" if "unused E q c" "c \<notin> X" using that K(9) by (simp add: unused_def S(1))
qed

text \<open>Steps that change how tables are cached, not what they say.\<close>

definition steady :: "qcow_env \<Rightarrow> qcow_file \<Rightarrow> qcow_file \<Rightarrow> bool" where
  "steady E q q' \<longleftrightarrow> qsafe E q' \<and> (\<exists>c f. q' = q\<lparr>q_l2_cache := c, q_raw_file := f\<rparr> \<and> same_shape (q_raw_file q) f) \<and>
     (\<forall>s. slot_at E q' s = slot_at E q s) \<and> content E q' = content E q \<and>
     (\<forall>c x. q_cluster_size q dvd c \<longrightarrow> (\<forall>i. slot_at E q (L2Table i) \<noteq> Some c) \<longrightarrow> within (q_cluster_size q) c x \<longrightarrow> q_data q' x = q_data q x)"

lemma steadyI:
  assumes q: "qsafe E q" and q': "q' = q\<lparr>q_l2_cache := c, q_raw_file := f\<rparr>" and sh: "same_shape (q_raw_file q) f"
    and ok: "tables_ok (parse_l2 (qe_be E)) valid_l2 (q_l1 q) c f"
    and view: "\<And>i. i < length (q_l1 q) \<Longrightarrow> q_l1 q ! i \<noteq> 0 \<Longrightarrow> l2_view E q' i = l2_view E q i"
    and data: "\<And>x. (\<And>b. table_cluster (q_l1 q) b \<Longrightarrow> \<not> within (q_cluster_size q) b x) \<Longrightarrow> hf_data f x = q_data q x"
  shows "steady E q q'"
proof -
  have p: "pool E q" and co: "core E q" using q by (simp_all add: qsafe_def)
  note P = poolD [OF p] and C = coreD [OF co]
  have s: "hf_len f = q_len q" "qr_cluster_size f = q_cluster_size q" "qr_cluster_mask f = qr_cluster_mask (q_raw_file q)"
    "q_cluster_size q' = q_cluster_size q" "virtual_size q' = virtual_size q"
    using sh by (simp_all add: same_shape_def q_cluster_size_def q' virtual_size_def)
  have slot: "slot_at E q' s = slot_at E q s" for s
    using view s by (cases s) (auto simp: slot_at.simps mapped_def q')
  have apart: "hf_data f x = q_data q x"
    if "q_cluster_size q dvd b" "\<And>i. slot_at E q (L2Table i) \<noteq> Some b" "within (q_cluster_size q) b x" for b x
  proof (rule data)
    fix b' assume "table_cluster (q_l1 q) b'"
    then obtain i where i: "slot_at E q (L2Table i) = Some b'" using l1_cluster by blast
    then have "q_cluster_size q dvd b'" using C(8) by (simp add: foreign_def)
    then show "\<not> within (q_cluster_size q) b' x" using cluster_apart_within [OF _ that(1)] that(2,3) i by blast
  qed
  have "hf_data f x = 0" if x: "q_len q \<le> x" for x
  proof -
    have "\<not> within (q_cluster_size q) b x" if b: "table_cluster (q_l1 q) b" for b
    proof -
      have "b + q_cluster_size q \<le> q_len q" using tables_okD(7) [OF C(4)] b by (auto simp: table_cluster_def q_cluster_size_def)
      then show ?thesis using x by (simp add: within_def)
    qed
    then show ?thesis using data [of x] P(9) [OF x] by simp
  qed
  moreover have "rc_ok E (q_refcounts q) f"
  proof -
    have "hf_data f x = q_data q x" if b: "table_cluster (q_rt q) b" and x: "within (q_cluster_size q) b x" for b x
    proof (rule apart [OF _ _ x])
      show "q_cluster_size q dvd b" using tables_okD(7) [OF rc_okD(5) [OF P(3)]] b by (auto simp: table_cluster_def q_cluster_size_def)
      show "slot_at E q (L2Table i) \<noteq> Some b" for i using C(8) [of "L2Table i" b] b by (auto simp: foreign_def)
    qed
    then show ?thesis using rc_ok_file(1) [OF P(3), of f] tables_okD(1,2) [OF ok] s by (simp add: q_cluster_size_def)
  qed
  ultimately have pool': "pool E q'" using p s unfolding pool_def by (auto simp: q' cluster_geom_def q_cluster_size_def)
  have fgn: "foreign q' b = foreign q b" for b using s by (simp add: foreign_def q')
  have "disk_synced E q'"
  proof (rule disk_synced_frame [OF C(11) qsafe_large [OF q]])
    fix r b x assume r: "slot_at E q r = Some b" "\<not> whole r" "within (q_cluster_size q) b x"
    have "slot_at E q (L2Table i) \<noteq> Some b" for i using C(10) [OF r(1), of "L2Table i"] r(2) by (auto simp: whole_def)
    then have "hf_data f x = q_data q x" using C(8) [OF r(1)] r(3) by (intro apart) (auto simp: foreign_def)
    then show "q_data q' x = q_data q x" by (simp add: q')
  qed (use s in \<open>simp_all add: q'\<close>)
  then have "core E q'" unfolding core_def slot fgn s(4,5)
    using C ok view s by (auto simp: q' l1_table_index_def q_cluster_size_def)
  moreover have "content E q' = content E q"
  proof
    fix a
    have "hf_data f (b + a mod q_cluster_size q) = q_data q (b + a mod q_cluster_size q)" if b: "slot_at E q (data_slot q a) = Some b" for b
    proof (rule apart)
      show "q_cluster_size q dvd b" using C(8) [OF b] by (simp add: foreign_def)
      show "slot_at E q (L2Table i) \<noteq> Some b" for i using C(10) [OF b, of "L2Table i"] by (auto simp: data_slot_def)
      show "within (q_cluster_size q) b (b + a mod q_cluster_size q)" using qsafe_size [OF q] by (simp add: within_def)
    qed
    moreover have "data_slot q' a = data_slot q a" using s by (simp add: data_slot_def l1_table_index_def l2_table_index_def q')
    moreover have "q_raw_file q' = f" by (simp add: q')
    ultimately show "content E q' a = content E q a" using s by (simp add: content_def slot split: option.split)
  qed
  ultimately show ?thesis using pool' apart sh slot
    unfolding steady_def qsafe_def by (auto simp: q' foreign_def)
qed

lemma steady_refl: "qsafe E q \<Longrightarrow> steady E q q"
  unfolding steady_def by (intro conjI exI [of _ "q_l2_cache q"] exI [of _ "q_raw_file q"]) auto

lemma steadyD:
  assumes "steady E q q'"
  shows "qsafe E q'" "slot_at E q' s = slot_at E q s" "content E q' = content E q" "q_cluster_size q' = q_cluster_size q"
    "virtual_size q' = virtual_size q" "q_header q' = q_header q" "q_l1_table q' = q_l1_table q" "q_l2_entries q' = q_l2_entries q"
    "q_refcounts q' = q_refcounts q" "q_current_offset q' = q_current_offset q" "q_unref_clusters q' = q_unref_clusters q"
    "q_avail_clusters q' = q_avail_clusters q" "data_slot q' a = data_slot q a" "q_len q' = q_len q" "foreign q' b = foreign q b"
    "unref_ok E q' = unref_ok E q"
proof -
  obtain c f where q': "q' = q\<lparr>q_l2_cache := c, q_raw_file := f\<rparr>" "same_shape (q_raw_file q) f" and s: "\<And>s. slot_at E q' s = slot_at E q s"
    using assms unfolding steady_def by blast
  show "qsafe E q'" "slot_at E q' s = slot_at E q s" "content E q' = content E q"
    using assms unfolding steady_def by blast+
  show "q_header q' = q_header q" "q_l1_table q' = q_l1_table q" "q_l2_entries q' = q_l2_entries q"
    "q_refcounts q' = q_refcounts q" "q_current_offset q' = q_current_offset q" "q_unref_clusters q' = q_unref_clusters q"
    "q_avail_clusters q' = q_avail_clusters q" "virtual_size q' = virtual_size q" by (simp_all add: q'(1) virtual_size_def)
  show cs: "q_cluster_size q' = q_cluster_size q" "q_len q' = q_len q"
    using q'(2) by (simp_all add: q'(1) q_cluster_size_def same_shape_def)
  then show "data_slot q' a = data_slot q a" by (simp add: data_slot_def l1_table_index_def l2_table_index_def q'(1))
  show f: "foreign q' b = foreign q b" for b using cs by (simp add: foreign_def q'(1))
  show "unref_ok E q' = unref_ok E q" unfolding unref_ok_def unused_def f s by (simp add: q'(1))
qed

lemma steady_trans:
  assumes "steady E q q1" "steady E q1 q2"
  shows "steady E q q2"
proof -
  note D1 = steadyD [OF assms(1)] and D2 = steadyD [OF assms(2)]
  obtain c f c' f' where "q2 = (q\<lparr>q_l2_cache := c, q_raw_file := f\<rparr>)\<lparr>q_l2_cache := c', q_raw_file := f'\<rparr>" and
    "same_shape (q_raw_file q) f" "same_shape f f'"
    using assms unfolding steady_def by auto
  then have "\<exists>c f. q2 = q\<lparr>q_l2_cache := c, q_raw_file := f\<rparr> \<and> same_shape (q_raw_file q) f"
    by (intro exI [of _ c'] exI [of _ f']) (simp add: same_shape_def)
  moreover have "q_data q2 x = q_data q x"
    if "q_cluster_size q dvd b" "\<forall>i. slot_at E q (L2Table i) \<noteq> Some b" "within (q_cluster_size q) b x" for b x
  proof -
    have "q_data q1 x = q_data q x" using assms(1) that unfolding steady_def by blast
    moreover have "q_data q2 x = q_data q1 x" using assms(2) that D1(2,4) unfolding steady_def by metis
    ultimately show ?thesis by simp
  qed
  ultimately show ?thesis unfolding steady_def using D1 D2 by simp
qed

subsection \<open>Loading an L2 table\<close>

lemma l2_insert_ok:
  assumes env: "env_ok E" and ok: "tables_ok (parse_l2 (qe_be E)) valid_l2 (q_l1 q) (q_l2_cache q) (q_raw_file q)"
    and i: "i < length (q_l1 q)" "q_l1 q ! i \<noteq> 0" "cm_get (q_l2_cache q) i = None"
    and v: "valid_l2 (q_cluster_size q) (vc_vec v)"
      "\<not> vc_dirty v \<Longrightarrow> parse_l2 (qe_be E) (bytes_at (q_data q) (q_l1 q ! i) (q_cluster_size q)) = Some (vc_vec v)"
  obtains c f where "l2_insert E i v q = (Ok (), q\<lparr>q_l2_cache := c, q_raw_file := f\<rparr>)" "same_shape (q_raw_file q) f"
    "cm_get c i = Some v" "tables_ok (parse_l2 (qe_be E)) valid_l2 (q_l1 q) c f"
    "\<And>x. (\<And>b. table_cluster (q_l1 q) b \<Longrightarrow> \<not> within (q_cluster_size q) b x) \<Longrightarrow> hf_data f x = q_data q x"
    "\<And>u. u < length (q_l1 q) \<Longrightarrow> q_l1 q ! u \<noteq> 0 \<Longrightarrow> u \<noteq> i \<Longrightarrow>
       l2_view E (q\<lparr>q_l2_cache := c, q_raw_file := f\<rparr>) u = l2_view E q u"
proof -
  note wb = l2_write_back_saved [OF env_okD(1) [OF env] ok]
  obtain c f where r: "cm_insert (qe_pick E) (l2_write_back E (q_l1 q)) i v (q_l2_cache q, q_raw_file q) = (Ok (), (c, f))"
    "same_shape (q_raw_file q) f" "cm_get c i = Some v" "tables_ok (parse_l2 (qe_be E)) valid_l2 (q_l1 q) c f"
    "\<And>x. (\<And>b. table_cluster (q_l1 q) b \<Longrightarrow> \<not> within (q_cluster_size q) b x) \<Longrightarrow> hf_data f x = q_data q x"
    "\<And>u. u < length (q_l1 q) \<Longrightarrow> q_l1 q ! u \<noteq> 0 \<Longrightarrow> u \<noteq> i \<Longrightarrow> view_of (parse_l2 (qe_be E)) (q_l1 q) c f u =
       view_of (parse_l2 (qe_be E)) (q_l1 q) (q_l2_cache q) (q_raw_file q) u"
    by (rule l2.insert_ok [OF env_okD(1) [OF env] ok i(1,2), where v = v and wb = "l2_write_back E (q_l1 q)" and pick = "qe_pick E"])
      (use v i(3) wb in \<open>auto simp: q_cluster_size_def\<close>)
  have "l2_insert E i v q = (Ok (), q\<lparr>q_l2_cache := c, q_raw_file := f\<rparr>)"
    using r(1) by (simp add: l2_insert_def zoom_def bnd_def gets_def)
  then show ?thesis using that r(2-6) by (simp add: l2_view_def)
qed

lemma l2_load_ok:
  assumes q: "qsafe E q" and i: "i < length (q_l1 q)" "q_l1 q ! i \<noteq> 0"
  shows "\<exists>q'. l2_load E i (q_l1 q ! i) q = (Ok (), q') \<and> steady E q q' \<and> cm_get (q_l2_cache q') i \<noteq> None"
proof (cases "cm_get (q_l2_cache q) i")
  case (Some v)
  then show ?thesis using steady_refl [OF q] by (auto simp: l2_load_def io_defs)
next
  case None
  have p: "pool E q" and co: "core E q" using q by (simp_all add: qsafe_def)
  note C = coreD [OF co] and T = tables_okD [OF coreD(4) [OF co]]
  let ?n = "q_cluster_size q" and ?a = "q_l1 q ! i"
  let ?q1 = "q\<lparr>q_raw_file := at_pos (?a + ?n) (q_raw_file q)\<rparr>"
  obtain t where t: "l2_view E q i = Some t" "valid_l2 ?n t" using C(5) [OF i] by blast
  have pt: "parse_l2 (qe_be E) (bytes_at (q_data q) ?a ?n) = Some t"
    using t(1) None by (simp add: l2_view_def view_of_def table_view_def q_cluster_size_def)
  have rd: "read_l2_cluster E ?a (q_raw_file q) = (Ok t, q_raw_file ?q1)"
    using read_l2_cluster_eq [OF T(1) _ T(2), of ?a E t] T(7) [OF i] cluster_geomD(3) [OF poolD(2) [OF p]] pt
    by (simp add: q_cluster_size_def)
  have ok1: "tables_ok (parse_l2 (qe_be E)) valid_l2 (q_l1 ?q1) (q_l2_cache ?q1) (q_raw_file ?q1)"
    using C(4) by (simp add: tables_ok_def)
  have cs1: "q_cluster_size ?q1 = ?n" by (simp add: q_cluster_size_def)
  obtain c f where r: "l2_insert E i (vec_cache_from_vec t) ?q1 = (Ok (), ?q1\<lparr>q_l2_cache := c, q_raw_file := f\<rparr>)"
    "same_shape (q_raw_file ?q1) f" "cm_get c i = Some (vec_cache_from_vec t)" "tables_ok (parse_l2 (qe_be E)) valid_l2 (q_l1 ?q1) c f"
    "\<And>x. (\<And>b. table_cluster (q_l1 ?q1) b \<Longrightarrow> \<not> within (q_cluster_size ?q1) b x) \<Longrightarrow> hf_data f x = q_data ?q1 x"
    "\<And>u. u < length (q_l1 ?q1) \<Longrightarrow> q_l1 ?q1 ! u \<noteq> 0 \<Longrightarrow> u \<noteq> i \<Longrightarrow>
       l2_view E (?q1\<lparr>q_l2_cache := c, q_raw_file := f\<rparr>) u = l2_view E ?q1 u"
    by (rule l2_insert_ok [OF poolD(1) [OF p] ok1, of i "vec_cache_from_vec t"])
      (use i None t(2) pt in \<open>auto simp: vec_cache_from_vec_def cs1\<close>)
  let ?q2 = "q\<lparr>q_l2_cache := c, q_raw_file := f\<rparr>"
  have "l2_load E i ?a q = (Ok (), ?q2)" using rd r(1) None by (simp add: l2_load_def on_raw_def zoom_def io_defs)
  moreover have "steady E q ?q2"
  proof (rule steadyI [OF q refl])
    show "l2_view E ?q2 u = l2_view E q u" if "u < length (q_l1 q)" "q_l1 q ! u \<noteq> 0" for u
    proof (cases "u = i")
      case True
      then show ?thesis using t(1) r(3) by (simp add: l2_view_def view_of_def table_view_def vec_cache_from_vec_def)
    next
      case False
      then show ?thesis using r(6) [of u] that by (simp add: l2_view_def view_of_def)
    qed
  qed (use r(2,4,5) cs1 in \<open>auto simp: same_shape_def\<close>)
  ultimately show ?thesis using r(3) by auto
qed

lemma l2_entry_ok:
  assumes q: "qsafe E q" and i: "cm_get (q_l2_cache q) i \<noteq> None" and j: "j < q_l2_entries q"
  shows "l2_entry i j q = (Ok (mapped E q i j), q)"
proof -
  have co: "core E q" using q by (simp add: qsafe_def)
  obtain v where v: "cm_get (q_l2_cache q) i = Some v" using i by auto
  have "i < length (q_l1 q)" "q_l1 q ! i \<noteq> 0" "length (vc_vec v) = q_l2_entries q"
    using tables_okD(5) [OF coreD(4) [OF co] v] coreD(1) [OF co] by (auto simp: valid_l2_def q_cluster_size_def)
  then show ?thesis using v j
    by (simp add: l2_entry_def unwrap_def index_def mapped_def l2_view_def view_of_def table_view_def io_defs)
qed

subsection \<open>Reading\<close>

lemma same_cluster:
  fixes n a i :: nat
  assumes "0 < n" "i < n - a mod n"
  shows "(a + i) div n = a div n" "(a + i) mod n = a mod n + i"
proof -
  have l: "a mod n + i < n" using assms by simp
  have e: "a + i = (a mod n + i) + a div n * n" by simp
  show "(a + i) div n = a div n" by (subst e, subst div_mult_self1) (use assms(1) l in simp_all)
  show "(a + i) mod n = a mod n + i" by (subst e, subst mod_mult_self1) (use l in simp)
qed

lemma data_slot_same:
  assumes "0 < q_cluster_size q" "i < q_cluster_size q - a mod q_cluster_size q"
  shows "data_slot q (a + i) = data_slot q a"
  using same_cluster(1) [OF assms] by (simp add: data_slot_def l1_table_index_def l2_table_index_def)

lemma table_index_less: "qsafe E q \<Longrightarrow> l2_table_index q a < q_l2_entries q"
  using qsafe_size [of E q] coreD(1) [of E q]
  by (auto simp: qsafe_def l2_table_index_def elim!: dvdE intro!: mod_less_divisor)

lemma index_of_size: "qsafe E q \<Longrightarrow> a < virtual_size q \<Longrightarrow> l1_table_index q a < length (q_l1 q)"
  using coreD(3) [of E q] by (simp add: qsafe_def)

text \<open>What loading the table of an address and looking the address up gives.\<close>

lemma lookup_ok:
  assumes q: "qsafe E q" and a: "a < virtual_size q" and i: "i = l1_table_index q a" "q_l1 q ! i \<noteq> 0"
  shows "\<exists>q'. l2_load E i (q_l1 q ! i) q = (Ok (), q') \<and> steady E q q' \<and> cm_get (q_l2_cache q') i \<noteq> None \<and>
    l2_entry i (l2_table_index q a) q' = (Ok (mapped E q i (l2_table_index q a)), q')"
proof -
  obtain q' where q': "l2_load E i (q_l1 q ! i) q = (Ok (), q')" "steady E q q'" "cm_get (q_l2_cache q') i \<noteq> None"
    using l2_load_ok [OF q, of i] index_of_size [OF q a] i by auto
  have j: "l2_table_index q a < q_l2_entries q'" using table_index_less [OF q] steadyD(8) [OF q'(2)] by simp
  have "mapped E q' i (l2_table_index q a) = mapped E q i (l2_table_index q a)"
    using steadyD(2) [OF q'(2), of "Data i (l2_table_index q a)"] steadyD(8) [OF q'(2)] j by (simp add: slot_at.simps split: if_splits)
  then show ?thesis using l2_entry_ok [OF steadyD(1) [OF q'(2)] q'(3) j] q' by simp
qed

lemma l1_entry_ok: "qsafe E q \<Longrightarrow> a < virtual_size q \<Longrightarrow> l1_entry (l1_table_index q a) q = (Ok (q_l1 q ! l1_table_index q a), q)"
  using index_of_size by (simp add: l1_entry_def get_or_def io_defs)

lemma slot_of_address:
  assumes "qsafe E q"
  shows "slot_at E q (data_slot q a) = (let m = mapped E q (l1_table_index q a) (l2_table_index q a) in if m = 0 then None else Some m)"
  using table_index_less [OF assms] by (simp add: data_slot_def slot_at.simps)

lemma unmapped_l1: "q_l1 q ! i = 0 \<Longrightarrow> mapped E q i j = 0"
  by (simp add: mapped_def)

lemma file_offset_read_ok:
  assumes q: "qsafe E q" and a: "a < virtual_size q"
  shows "\<exists>q'. file_offset_read E a q =
      (Ok (map_option (\<lambda>c. c + a mod q_cluster_size q) (slot_at E q (data_slot q a))), q') \<and> steady E q q'"
proof (cases "q_l1 q ! l1_table_index q a = 0")
  case True
  then show ?thesis using a steady_refl [OF q] l1_entry_ok [OF q a] unmapped_l1 [OF True]
    by (simp add: file_offset_read_def slot_of_address [OF q] io_defs Let_def)
next
  case False
  have "cluster_offset (q_raw_file q) a = a mod q_cluster_size q"
    using cluster_offset_eq [OF poolD(2)] q unfolding qsafe_def q_cluster_size_def by blast
  then show ?thesis using lookup_ok [OF q a refl False] a l1_entry_ok [OF q a] False
    by (auto simp: file_offset_read_def slot_of_address [OF q] io_defs Let_def)
qed

lemma cluster_allocated_ok:
  assumes q: "qsafe E q" and a: "a < virtual_size q"
  shows "\<exists>q'. cluster_allocated E a q = (Ok (slot_at E q (data_slot q a) \<noteq> None), q') \<and> steady E q q'"
proof (cases "q_l1 q ! l1_table_index q a = 0")
  case True
  then show ?thesis using a steady_refl [OF q] l1_entry_ok [OF q a] unmapped_l1 [OF True]
    by (simp add: cluster_allocated_def slot_of_address [OF q] io_defs Let_def)
next
  case False
  then show ?thesis using lookup_ok [OF q a refl False] a l1_entry_ok [OF q a]
    by (auto simp: cluster_allocated_def slot_of_address [OF q] io_defs Let_def)
qed

lemma steady_pos:
  assumes "qsafe E q"
  shows "steady E q (q\<lparr>q_raw_file := at_pos p (q_raw_file q)\<rparr>)"
proof (rule steadyI [OF assms, where c = "q_l2_cache q"])
  show "tables_ok (parse_l2 (qe_be E)) valid_l2 (q_l1 q) (q_l2_cache q) (at_pos p (q_raw_file q))"
    using coreD(4) [of E q] assms by (simp add: qsafe_def tables_ok_def)
qed (simp_all add: l2_view_def view_of_def)

lemma limit_range_cluster_eq:
  "qsafe E q \<Longrightarrow> limit_range_cluster q a n = min n (q_cluster_size q - a mod q_cluster_size q)"
  using cluster_offset_eq [OF poolD(2), of E q] by (simp add: limit_range_cluster_def qsafe_def q_cluster_size_def)

text \<open>The bytes of one cluster, or zeros.\<close>

lemma read_piece:
  assumes q: "qsafe E q" and a: "a + n \<le> virtual_size q" "n \<le> q_cluster_size q - a mod q_cluster_size q"
  shows "\<exists>q'. (case map_option (\<lambda>c. c + a mod q_cluster_size q) (slot_at E q (data_slot q a)) of
      Some offset \<Rightarrow> seq (on_raw (raw_seek offset)) (on_raw (read_exact (qe_buf E) n))
    | None \<Rightarrow> ret (replicate n 0)) q = (Ok (bytes_at (content E q) a n), q') \<and> steady E q q'"
proof (cases "slot_at E q (data_slot q a)")
  case None
  have "content E q (a + k) = 0" if "k < n" for k
    using data_slot_same [of q k a] qsafe_size [OF q] a(2) that None by (simp add: content_def)
  then have "bytes_at (content E q) a n = replicate n 0" by (intro nth_equalityI) simp_all
  then show ?thesis using None steady_refl [OF q] by (simp add: ret_def)
next
  case (Some c)
  have co: "core E q" using q by (simp add: qsafe_def)
  note T = tables_okD [OF coreD(4) [OF co]]
  let ?o = "c + a mod q_cluster_size q"
  have "q_data q (?o + k) = content E q (a + k)" if "k < n" for k
    using data_slot_same [of q k a] same_cluster(2) [of "q_cluster_size q" k a] qsafe_size [OF q] a that Some
    by (simp add: content_def add.assoc)
  then have "bytes_at (q_data q) ?o n = bytes_at (content E q) a n" by (rule slice_cong)
  moreover have "?o + n \<le> q_len q"
  proof -
    have "c + q_cluster_size q \<le> q_len q" using coreD(9) [OF co Some] by (simp add: data_slot_def whole_def)
    moreover have "a mod q_cluster_size q < q_cluster_size q" using qsafe_size [OF q] by simp
    ultimately show ?thesis using a(2) by linarith
  qed
  then have "seq (raw_seek ?o) (read_exact (qe_buf E) n) (q_raw_file q) = (Ok (bytes_at (q_data q) ?o n), at_pos (?o + n) (q_raw_file q))"
    using read_at_eq [OF T(1) _ T(2)] by simp
  then have "seq (on_raw (raw_seek ?o)) (on_raw (read_exact (qe_buf E) n)) q =
      (Ok (bytes_at (q_data q) ?o n), q\<lparr>q_raw_file := at_pos (?o + n) (q_raw_file q)\<rparr>)"
    by (simp add: seq_def bnd_def on_raw_def zoom_def split: prod.splits outcome.splits)
  ultimately show ?thesis using Some steady_pos [OF q] by simp
qed

declare read_loop.simps [simp del] write_loop.simps [simp del] deallocate_loop.simps [simp del] find_loop.simps [simp del]

lemma read_loop_ok:
  "qsafe E q \<Longrightarrow> a + n \<le> virtual_size q \<Longrightarrow> n \<le> fuel \<Longrightarrow>
    \<exists>q'. read_loop E fuel a n q = (Ok (bytes_at (content E q) a n), q') \<and> steady E q q'"
proof (induction fuel arbitrary: a n q)
  case 0
  then show ?case using steady_refl by (simp add: read_loop.simps ret_def bytes_at_def)
next
  case (Suc fuel)
  show ?case
  proof (cases "n = 0")
    case True
    then show ?thesis using steady_refl [OF Suc.prems(1)] by (simp add: read_loop.simps ret_def bytes_at_def)
  next
    case False
    define k where "k = limit_range_cluster q a n"
    have k: "0 < k" "k \<le> n" "k \<le> q_cluster_size q - a mod q_cluster_size q"
      using False qsafe_size [OF Suc.prems(1)] mod_less_divisor [of "q_cluster_size q" a]
      by (simp_all add: k_def limit_range_cluster_eq [OF Suc.prems(1)])
    obtain q1 where q1: "file_offset_read E a q =
        (Ok (map_option (\<lambda>c. c + a mod q_cluster_size q) (slot_at E q (data_slot q a))), q1)" "steady E q q1"
      using file_offset_read_ok [OF Suc.prems(1), of a] Suc.prems(2) False by auto
    note D1 = steadyD [OF q1(2)]
    have k1: "limit_range_cluster q1 a n = k" using D1(1,4) k_def Suc.prems(1) by (simp add: limit_range_cluster_eq)
    obtain q2 where q2: "(case map_option (\<lambda>c. c + a mod q_cluster_size q) (slot_at E q (data_slot q a)) of
        Some offset \<Rightarrow> seq (on_raw (raw_seek offset)) (on_raw (read_exact (qe_buf E) k))
      | None \<Rightarrow> ret (replicate k 0)) q1 = (Ok (bytes_at (content E q) a k), q2)" "steady E q1 q2"
      using read_piece [OF D1(1), of a k] k Suc.prems(2) D1(2-5,13) by auto
    note D2 = steadyD [OF q2(2)]
    have left: "a + k + (n - k) \<le> virtual_size q2" "n - k \<le> fuel" using Suc.prems(2,3) k(1,2) D1(5) D2(5) by simp_all
    obtain q3 where q3: "read_loop E fuel (a + k) (n - k) q2 = (Ok (bytes_at (content E q) (a + k) (n - k)), q3)" "steady E q2 q3"
      using Suc.IH [OF D2(1) left] D1(3) D2(3) by auto
    have "read_loop E (Suc fuel) a n q = (Ok (bytes_at (content E q) a n), q3)"
      using False q1(1) q2(1) q3(1) k k1 slice_append [of "content E q" a k "n - k"]
      by (subst read_loop.simps) (simp add: bnd_def gets_def ret_def Let_def cong: option.case_cong)
    then show ?thesis using steady_trans [OF q1(2) steady_trans [OF q2(2) q3(2)]] by blast
  qed
qed

text \<open>The position of the guest's cursor is independent of everything else.\<close>

lemma offset_simps [simp]:
  "pool E (q\<lparr>q_current_offset := p\<rparr>) = pool E q" "foreign (q\<lparr>q_current_offset := p\<rparr>) = foreign q"
  "slot_at E (q\<lparr>q_current_offset := p\<rparr>) = slot_at E q" "core E (q\<lparr>q_current_offset := p\<rparr>) = core E q"
  "qsafe E (q\<lparr>q_current_offset := p\<rparr>) = qsafe E q" "content E (q\<lparr>q_current_offset := p\<rparr>) = content E q"
  "unref_ok E (q\<lparr>q_current_offset := p\<rparr>) = unref_ok E q" "qinv E (q\<lparr>q_current_offset := p\<rparr>) = qinv E q"
  "virtual_size (q\<lparr>q_current_offset := p\<rparr>) = virtual_size q" "q_cluster_size (q\<lparr>q_current_offset := p\<rparr>) = q_cluster_size q"
proof -
  let ?q = "q\<lparr>q_current_offset := p\<rparr>"
  show cs: "q_cluster_size ?q = q_cluster_size q" and vs: "virtual_size ?q = virtual_size q"
    by (simp_all add: q_cluster_size_def virtual_size_def)
  show p: "pool E ?q = pool E q" by (simp add: pool_def cs)
  show f: "foreign ?q = foreign q" by (simp add: foreign_def fun_eq_iff cs)
  have v: "l2_view E ?q = l2_view E q" by (simp add: l2_view_def)
  have "slot_at E ?q s = slot_at E q s" for s by (cases s) (simp_all add: slot_at.simps mapped_def v cs)
  then show s: "slot_at E ?q = slot_at E q" by blast
  have d: "disk_synced E ?q = disk_synced E q" by (simp add: disk_synced_def l1_disk_def rt_disk_def)
  show c: "core E ?q = core E q" unfolding core_def by (simp add: s f cs vs v d l1_table_index_def)
  show qs: "qsafe E ?q = qsafe E q" by (simp add: qsafe_def p c)
  have "data_slot ?q = data_slot q" by (simp add: fun_eq_iff data_slot_def l1_table_index_def l2_table_index_def cs)
  then show "content E ?q = content E q" by (simp add: content_def fun_eq_iff s vs cs split: option.split)
  show u: "unref_ok E ?q = unref_ok E q" by (simp add: unref_ok_def unused_def f s)
  show "qinv E ?q = qinv E q" by (simp add: qinv_def qs u)
qed

lemma limit_range_file_fits: "limit_range_file q a n \<noteq> 0 \<Longrightarrow> a + limit_range_file q a n \<le> virtual_size q"
  by (auto simp: limit_range_file_def split: if_splits)

lemma qcow_read_ok:
  assumes q: "qsafe E q"
  shows "\<exists>q' q''. qcow_read E n q =
      (Ok (bytes_at (content E q) (q_current_offset q) (limit_range_file q (q_current_offset q) n)), q'') \<and>
    steady E q q' \<and> q'' = q'\<lparr>q_current_offset := q_current_offset q + limit_range_file q (q_current_offset q) n\<rparr>"
proof -
  define r where "r = limit_range_file q (q_current_offset q) n"
  have "\<exists>q'. read_loop E r (q_current_offset q) r q = (Ok (bytes_at (content E q) (q_current_offset q) r), q') \<and> steady E q q'"
  proof (cases "r = 0")
    case True
    then show ?thesis using steady_refl [OF q] by (simp add: read_loop.simps ret_def bytes_at_def)
  next
    case False
    then show ?thesis using read_loop_ok [OF q _ order_refl] limit_range_file_fits by (simp add: r_def)
  qed
  then show ?thesis using steadyD(10) unfolding r_def by (fastforce simp: qcow_read_def Let_def io_defs)
qed

subsection \<open>Data and holes\<close>

text \<open>The first address from \<open>a\<close> on, or at the start of a later cluster, whose cluster is allocated or not.\<close>

definition allocated_at :: "qcow_env \<Rightarrow> qcow_file \<Rightarrow> nat \<Rightarrow> bool" where
  "allocated_at E q a \<longleftrightarrow> slot_at E q (data_slot q a) \<noteq> None"

definition first_such :: "qcow_env \<Rightarrow> qcow_file \<Rightarrow> bool \<Rightarrow> nat \<Rightarrow> nat option \<Rightarrow> bool" where
  "first_such E q b a r \<longleftrightarrow> (case r of
     Some x \<Rightarrow> a \<le> x \<and> x < virtual_size q \<and> allocated_at E q x = b \<and> (\<forall>y. a \<le> y \<longrightarrow> y < x \<longrightarrow> allocated_at E q y \<noteq> b)
   | None \<Rightarrow> \<forall>y. a \<le> y \<longrightarrow> y < virtual_size q \<longrightarrow> allocated_at E q y \<noteq> b)"

lemma allocated_same:
  assumes "0 < q_cluster_size q" "a \<le> y" "y < (a div q_cluster_size q + 1) * q_cluster_size q"
  shows "allocated_at E q y = allocated_at E q a"
proof -
  have "a = a div q_cluster_size q * q_cluster_size q + a mod q_cluster_size q" by simp
  then have "y - a < q_cluster_size q - a mod q_cluster_size q" using assms unfolding add_mult_distrib mult_1 by linarith
  then show ?thesis using data_slot_same [OF assms(1), of "y - a" a] assms(2) by (simp add: allocated_at_def)
qed

lemma first_such_steady:
  assumes "steady E q q'"
  shows "first_such E q' = first_such E q"
proof -
  have "allocated_at E q' = allocated_at E q" using steadyD(2,13) [OF assms] by (simp add: fun_eq_iff allocated_at_def)
  then show ?thesis using steadyD(5) [OF assms] by (simp add: first_such_def fun_eq_iff split: option.split)
qed

text \<open>Skipping the rest of a cluster that does not qualify.\<close>

lemma first_such_skip:
  assumes n: "0 < q_cluster_size q" and a: "allocated_at E q a \<noteq> b"
    and r: "first_such E q b ((a div q_cluster_size q + 1) * q_cluster_size q) r"
  shows "first_such E q b a r"
proof -
  let ?c = "(a div q_cluster_size q + 1) * q_cluster_size q"
  have "a \<le> ?c" using n by (metis Suc_eq_plus1 dividend_less_times_div less_imp_le mult.commute mult_Suc_right add.commute)
  moreover have "allocated_at E q y \<noteq> b" if "a \<le> y" "y < ?c" for y using allocated_same [OF n that] a by simp
  ultimately show ?thesis using r unfolding first_such_def by (cases r) (auto, (metis linorder_not_le)+)
qed

lemma find_loop_ok:
  "qsafe E q \<Longrightarrow> q_cluster_size q dvd a \<Longrightarrow> virtual_size q \<le> a + fuel \<Longrightarrow>
    \<exists>r q'. find_loop E fuel a b q = (Ok r, q') \<and> steady E q q' \<and> first_such E q b a r"
proof (induction fuel arbitrary: a q)
  case 0
  then show ?case using steady_refl by (subst find_loop.simps) (simp add: bnd_def gets_def ret_def first_such_def)
next
  case (Suc fuel)
  show ?case
  proof (cases "virtual_size q \<le> a")
    case True
    then show ?thesis using steady_refl [OF Suc.prems(1)]
      by (subst find_loop.simps) (simp add: bnd_def gets_def ret_def first_such_def)
  next
    case False
    obtain q1 where q1: "cluster_allocated E a q = (Ok (allocated_at E q a), q1)" "steady E q q1"
      using cluster_allocated_ok [OF Suc.prems(1), of a] False by (auto simp: allocated_at_def)
    note D = steadyD [OF q1(2)]
    show ?thesis
    proof (cases "allocated_at E q a = b")
      case True
      then show ?thesis using q1 False by (subst find_loop.simps) (simp add: bnd_def gets_def ret_def first_such_def)
    next
      case nb: False
      have n: "0 < q_cluster_size q" using qsafe_size [OF Suc.prems(1)] by simp
      obtain r q2 where q2: "find_loop E fuel (a + q_cluster_size q) b q1 = (Ok r, q2)" "steady E q1 q2"
        "first_such E q1 b (a + q_cluster_size q) r"
        using Suc.IH [OF D(1), of "a + q_cluster_size q"] D(4,5) Suc.prems(2,3) n by auto
      have "first_such E q b a r"
        using first_such_skip [OF n nb, of r] q2(3) Suc.prems(2) by (simp add: first_such_steady [OF q1(2)] add_mult_distrib add.commute)
      moreover have "find_loop E (Suc fuel) a b q = (Ok r, q2)"
        using q1(1) q2(1) False nb by (subst find_loop.simps) (simp add: bnd_def gets_def)
      ultimately show ?thesis using steady_trans [OF q1(2) q2(2)] by blast
    qed
  qed
qed

lemma find_allocated_cluster_ok:
  assumes q: "qsafe E q"
  shows "\<exists>r q'. find_allocated_cluster E a b q = (Ok r, q') \<and> steady E q q' \<and> first_such E q b a r"
proof (cases "a < virtual_size q")
  case False
  then show ?thesis using steady_refl [OF q] by (simp add: find_allocated_cluster_def io_defs first_such_def)
next
  case True
  obtain q1 where q1: "cluster_allocated E a q = (Ok (allocated_at E q a), q1)" "steady E q q1"
    using cluster_allocated_ok [OF q True] by (auto simp: allocated_at_def)
  note D = steadyD [OF q1(2)]
  show ?thesis
  proof (cases "allocated_at E q a = b")
    case False
    let ?c = "(a div q_cluster_size q + 1) * q_cluster_size q"
    obtain r q2 where q2: "find_loop E (virtual_size q) ?c b q1 = (Ok r, q2)" "steady E q1 q2" "first_such E q1 b ?c r"
      using find_loop_ok [OF D(1), of ?c "virtual_size q" b] D(4,5) by auto
    have "first_such E q b a r"
      using first_such_skip [OF _ False, of r] q2(3) qsafe_size [OF q] by (simp add: first_such_steady [OF q1(2)])
    then show ?thesis using q1(1) q2(1) True False steady_trans [OF q1(2) q2(2)]
      by (auto simp: find_allocated_cluster_def io_defs)
  qed (use q1 True in \<open>auto simp: find_allocated_cluster_def io_defs first_such_def\<close>)
qed

end
