(* ===== verification/Qcow_Write.thy ===== *)
theory Qcow_Write
  imports Qcow_Disk
begin

text \<open>
  Writing to an image: allocation of data clusters and L2 tables.  A write that returns has changed the
  virtual disk exactly in the range it covers and left the image consistent, with a count for every
  cluster in use; the only failure is that the image is full, and then the disk holds a prefix of the data.
\<close>

subsection \<open>Updates of the state\<close>

lemma unref_simps [simp]:
  "pool E (q\<lparr>q_unref_clusters := u\<rparr>) = pool E q" "foreign (q\<lparr>q_unref_clusters := u\<rparr>) = foreign q"
  "slot_at E (q\<lparr>q_unref_clusters := u\<rparr>) = slot_at E q" "core E (q\<lparr>q_unref_clusters := u\<rparr>) = core E q"
  "qsafe E (q\<lparr>q_unref_clusters := u\<rparr>) = qsafe E q" "content E (q\<lparr>q_unref_clusters := u\<rparr>) = content E q"
  "unused E (q\<lparr>q_unref_clusters := u\<rparr>) = unused E q" "q_count E (q\<lparr>q_unref_clusters := u\<rparr>) = q_count E q"
  "virtual_size (q\<lparr>q_unref_clusters := u\<rparr>) = virtual_size q" "q_cluster_size (q\<lparr>q_unref_clusters := u\<rparr>) = q_cluster_size q"
  "mapped E (q\<lparr>q_unref_clusters := u\<rparr>) = mapped E q" "in_range (q\<lparr>q_unref_clusters := u\<rparr>) = in_range q"
  "data_slot (q\<lparr>q_unref_clusters := u\<rparr>) = data_slot q"
proof -
  let ?q = "q\<lparr>q_unref_clusters := u\<rparr>"
  show cs: "q_cluster_size ?q = q_cluster_size q" and vs: "virtual_size ?q = virtual_size q"
    by (simp_all add: q_cluster_size_def virtual_size_def)
  show p: "pool E ?q = pool E q" by (simp add: pool_def cs)
  show f: "foreign ?q = foreign q" by (simp add: foreign_def fun_eq_iff cs)
  have v: "l2_view E ?q = l2_view E q" by (simp add: l2_view_def)
  show "mapped E ?q = mapped E q" by (intro ext) (simp add: mapped_def v)
  have "slot_at E ?q s = slot_at E q s" for s by (cases s) (simp_all add: slot_at.simps mapped_def v cs)
  then show s: "slot_at E ?q = slot_at E q" by blast
  have "disk_synced E ?q = disk_synced E q" by (simp add: disk_synced_def l1_disk_def rt_disk_def)
  then show c: "core E ?q = core E q" unfolding core_def by (simp add: s f cs vs v l1_table_index_def)
  show qs: "qsafe E ?q = qsafe E q" by (simp add: qsafe_def p c)
  show d: "data_slot ?q = data_slot q" by (simp add: fun_eq_iff data_slot_def l1_table_index_def l2_table_index_def cs)
  show "content E ?q = content E q" by (simp add: content_def fun_eq_iff s vs cs d split: option.split)
  show "unused E ?q = unused E q" by (simp add: unused_def fun_eq_iff f s)
  show "q_count E ?q = q_count E q" by (simp add: q_count_def fun_eq_iff)
  show "in_range ?q = in_range q" by (simp add: in_range_def fun_eq_iff cs)
qed

text \<open>The shape of the disk.\<close>

definition geo :: "qcow_file \<Rightarrow> qcow_file \<Rightarrow> bool" where
  "geo q q' \<longleftrightarrow> q_header q' = q_header q \<and> q_cluster_size q' = q_cluster_size q \<and> q_l2_entries q' = q_l2_entries q \<and>
     length (q_l1 q') = length (q_l1 q) \<and> q_current_offset q' = q_current_offset q \<and> q_max q' = q_max q \<and>
     rt_offset q' = rt_offset q \<and> length (q_rt q') = length (q_rt q) \<and>
     rc_refcount_block_entries (q_refcounts q') = rc_refcount_block_entries (q_refcounts q)"

lemma geo_refl [simp]: "geo q q"
  by (simp add: geo_def)

lemma geo_trans: "geo q q' \<Longrightarrow> geo q' q'' \<Longrightarrow> geo q q''"
  by (simp add: geo_def)

lemma geoD:
  assumes "geo q q'"
  shows "virtual_size q' = virtual_size q" "q_cluster_size q' = q_cluster_size q" "q_l2_entries q' = q_l2_entries q"
    "l1_table_index q' = l1_table_index q" "l2_table_index q' = l2_table_index q" "data_slot q' = data_slot q"
    "q_current_offset q' = q_current_offset q" "q_header q' = q_header q" "length (q_l1 q') = length (q_l1 q)"
  using assms by (simp_all add: geo_def virtual_size_def l1_table_index_def l2_table_index_def data_slot_def fun_eq_iff)

lemma geo_keep: "keep_but X q q' \<Longrightarrow> geo q q'"
  by (simp add: keep_but_def geo_def)

lemma geo_steady: "steady E q q' \<Longrightarrow> geo q q'"
  by (auto simp: geo_def steady_def q_cluster_size_def same_shape_def)

text \<open>Contents that two states share.\<close>

lemma content_cong:
  assumes "geo q q'"
    "\<And>i j x. j < q_l2_entries q \<Longrightarrow> x < q_cluster_size q \<Longrightarrow>
      (case slot_at E q' (Data i j) of Some c \<Rightarrow> q_data q' (c + x) | None \<Rightarrow> 0) =
      (case slot_at E q (Data i j) of Some c \<Rightarrow> q_data q (c + x) | None \<Rightarrow> 0)"
    "qsafe E q"
  shows "content E q' = content E q"
  using assms(2) [of "l2_table_index q a" "a mod q_cluster_size q" for a] table_index_less [OF assms(3)] qsafe_size [OF assms(3)]
  unfolding content_def fun_eq_iff geoD [OF assms(1)] data_slot_def by simp

text \<open>Writing into clusters that hold neither tables nor counts.\<close>

lemma disk_synced_file:
  assumes "qsafe E q" "q' = q\<lparr>q_raw_file := f\<rparr>" "same_shape (q_raw_file q) f"
    "\<And>s c x. slot_at E q s = Some c \<Longrightarrow> \<not> whole s \<Longrightarrow> within (q_cluster_size q) c x \<Longrightarrow> hf_data f x = q_data q x"
  shows "disk_synced E q'"
  by (rule disk_synced_frame [OF coreD(11) qsafe_large]) (use assms in \<open>auto simp: qsafe_def same_shape_def\<close>)

lemma qsafe_data:
  assumes q: "qsafe E q" and q': "q' = q\<lparr>q_raw_file := f\<rparr>" and sh: "same_shape (q_raw_file q) f"
    and tail: "\<And>x. x \<ge> q_len q \<Longrightarrow> hf_data f x = 0"
    and l2: "\<And>b x. table_cluster (q_l1 q) b \<Longrightarrow> within (q_cluster_size q) b x \<Longrightarrow> hf_data f x = q_data q x"
    and rb: "\<And>b x. table_cluster (q_rt q) b \<Longrightarrow> within (q_cluster_size q) b x \<Longrightarrow> hf_data f x = q_data q x"
    and ds: "disk_synced E q'"
  shows "qsafe E q' \<and> slot_at E q' = slot_at E q \<and> foreign q' = foreign q \<and> counts_same E q q' \<and> geo q q'"
proof (intro conjI)
  have p: "pool E q" and co: "core E q" using q by (simp_all add: qsafe_def)
  note P = poolD [OF p] and C = coreD [OF co]
  have s: "hf_len f = q_len q" "qr_cluster_size f = q_cluster_size q" "qr_cluster_mask f = qr_cluster_mask (q_raw_file q)"
    "q_cluster_size q' = q_cluster_size q" "virtual_size q' = virtual_size q" "quiet f"
    using sh tables_okD(1) [OF C(4)] by (simp_all add: same_shape_def q_cluster_size_def q' virtual_size_def)
  have len: "q_len q < 2 ^ 63" using tables_okD(2) [OF C(4)] .
  have rc: "rc_ok E (q_refcounts q) f"
    "\<And>c t b. get_refcount_index (q_refcounts q) c = (t, b) \<Longrightarrow> t < length (q_rt q) \<Longrightarrow>
       count_of E (q_refcounts q) f c = count_of E (q_refcounts q) (q_raw_file q) c"
    using rc_ok_file [OF P(3), of f] s rb len by (simp_all add: q_cluster_size_def)
  have view: "l2_view E q' i = l2_view E q i" if i: "i < length (q_l1 q)" "q_l1 q ! i \<noteq> 0" for i
  proof -
    have "table_cluster (q_l1 q) (q_l1 q ! i)" using i by (auto simp: table_cluster_def)
    from view_of_file [OF _ i l2 [OF this]] show ?thesis
      using s(2) unfolding l2_view_def by (simp add: q' q_cluster_size_def)
  qed
  have "slot_at E q' s = slot_at E q s" for s using view s by (cases s) (auto simp: slot_at.simps mapped_def q')
  then show slot: "slot_at E q' = slot_at E q" by blast
  show fgn: "foreign q' = foreign q" using s by (simp add: fun_eq_iff foreign_def q')
  have pool': "pool E q'" using p s rc(1) tail unfolding pool_def by (auto simp: q' cluster_geom_def q_cluster_size_def)
  have "tables_ok (parse_l2 (qe_be E)) valid_l2 (q_l1 q) (q_l2_cache q) f"
    using tables_ok_file [OF C(4), of f] s l2 len by (simp add: q_cluster_size_def)
  then have "core E q'" unfolding core_def slot fgn s(4,5)
    using C view s ds by (auto simp: q' l1_table_index_def q_cluster_size_def)
  then show "qsafe E q'" using pool' by (simp add: qsafe_def)
  show "counts_same E q q'" using rc(2) by (auto simp: counts_same_def q_count_def q')
  show "geo q q'" using s by (simp add: geo_def q')
qed

subsection \<open>Changing an L2 table\<close>

lemma tables_ok_repoint:
  assumes ok: "tables_ok parse valid ptrs c f" and t: "t < length ptrs" and a: "a = ptrs ! t \<and> a \<noteq> 0 \<or> fresh_for ptrs f a"
    and v: "valid (qr_cluster_size f) (vc_vec v)" "vc_dirty v"
  shows "tables_ok parse valid (ptrs[t := a]) (cm_put t v c) f"
proof -
  note D = tables_okD [OF ok]
  have a': "a \<noteq> 0" "qr_cluster_size f dvd a" "a + qr_cluster_size f \<le> hf_len f" "\<forall>u < length ptrs. u \<noteq> t \<longrightarrow> ptrs ! u \<noteq> a"
    using a D(7) [OF t] by (auto simp: fresh_for_def) (metis D(8) [OF t] gr_implies_not0)
  have "tables_synced parse (qr_cluster_size f) (hf_data f) (nth (ptrs[t := a])) (cm_put t v c)"
    using D(6) v(2) unfolding tables_synced_def by (auto split: if_splits)
  moreover have "\<forall>u < length ptrs. \<forall>w < length ptrs. ptrs[t := a] ! u \<noteq> 0 \<longrightarrow> ptrs[t := a] ! u = ptrs[t := a] ! w \<longrightarrow> u = w"
    using D(8) a'(4) t by (auto simp: nth_list_update)
  moreover have "\<forall>k w. cm_get (cm_put t v c) k = Some w \<longrightarrow> k < length ptrs \<and> ptrs[t := a] ! k \<noteq> 0 \<and> valid (qr_cluster_size f) (vc_vec w)"
    using D(5) a'(1) t v(1) by (auto simp: nth_list_update)
  moreover have "\<forall>u < length ptrs. ptrs[t := a] ! u \<noteq> 0 \<longrightarrow>
      qr_cluster_size f dvd ptrs[t := a] ! u \<and> ptrs[t := a] ! u + qr_cluster_size f \<le> hf_len f"
    using D(7) a'(2,3) t by (simp add: nth_list_update)
  ultimately show ?thesis using D(1-4) unfolding tables_ok_def length_list_update cm_capacity_simps by blast
qed

text \<open>The roles after table \<open>i\<close> went to cluster \<open>a\<close> with entries \<open>t\<close>.\<close>

fun reslot :: "nat \<Rightarrow> nat \<Rightarrow> nat list \<Rightarrow> (slot \<Rightarrow> nat option) \<Rightarrow> slot \<Rightarrow> nat option" where
  "reslot i a t s (L2Table k) = (if k = i then Some a else s (L2Table k))"
| "reslot i a t s (Data k j) =
     (if k = i then (if j < length t \<and> t ! j \<noteq> 0 then Some (t ! j) else None) else s (Data k j))"
| "reslot i a t s x = s x"

lemma retable:
  assumes q: "qsafe E q" and i: "i < length (q_l1 q)"
    and q': "q' = q\<lparr>q_l1_table := l, q_l2_cache := cm_put i v (q_l2_cache q)\<rparr>" and l: "vc_vec l = (q_l1 q)[i := a]"
    and ld: "vc_dirty l \<or> l = q_l1_table q" and v: "vc_dirty v" "valid_l2 (q_cluster_size q) (vc_vec v)"
    and a: "a \<noteq> 0" "a = q_l1 q ! i \<or> unused E q a \<and> a + q_cluster_size q \<le> q_len q"
    and x: "\<And>j. j < q_l2_entries q \<Longrightarrow> vc_vec v ! j \<noteq> 0 \<Longrightarrow> slot_at E q (Data i j) = Some (vc_vec v ! j) \<or>
      j = j0 \<and> unused E q (vc_vec v ! j) \<and> vc_vec v ! j \<noteq> a \<and> vc_vec v ! j + q_cluster_size q \<le> q_len q"
  shows "qsafe E q'" "slot_at E q' = reslot i a (vc_vec v) (slot_at E q)"
proof -
  have p: "pool E q" and co: "core E q" using q by (simp_all add: qsafe_def)
  note C = coreD [OF co]
  have s: "q_cluster_size q' = q_cluster_size q" "virtual_size q' = virtual_size q" "foreign q' = foreign q" "q_l1 q' = (q_l1 q)[i := a]"
    by (simp_all add: q' l q_cluster_size_def virtual_size_def foreign_def fun_eq_iff)
  have len: "length (vc_vec v) = q_l2_entries q" using v(2) C(1) by (auto simp: valid_l2_def)
  have view: "l2_view E q' k = (if k = i then Some (vc_vec v) else l2_view E q k)" for k
    by (simp add: l2_view_def view_of_def table_view_def q' l split: option.split)
  have g: "l1_table_index q' = l1_table_index q" "q_l2_entries q' = q_l2_entries q" "q_len q' = q_len q"
    "q_header q' = q_header q" "q_refcounts q' = q_refcounts q"
    using s by (simp_all add: q' l1_table_index_def fun_eq_iff)
  have "slot_at E q' r = reslot i a (vc_vec v) (slot_at E q) r" for r
    using i a(1) len by (cases r) (simp_all add: slot_at.simps mapped_def view s g nth_list_update)
  then show slot: "slot_at E q' = reslot i a (vc_vec v) (slot_at E q)" by blast
  have origin: "slot_at E q r = Some c \<or> unused E q c \<and> whole r \<and> c + q_cluster_size q \<le> q_len q \<and>
      (r = L2Table i \<and> c = a \<or> r = Data i j0 \<and> c \<noteq> a)" if "slot_at E q' r = Some c" for r c
    using that x a i len unfolding slot by (cases r) (auto simp: slot_l2 whole_def split: if_splits)
  have fresh: "a = q_l1 q ! i \<and> a \<noteq> 0 \<or> fresh_for (q_l1 q) (q_raw_file q) a"
  proof (cases "a = q_l1 q ! i")
    case False
    then have "unused E q a" "a + q_cluster_size q \<le> q_len q" using a(2) by auto
    moreover have "a \<notin> set (q_l1 q)" using \<open>unused E q a\<close> a(1) slot_l2 [of E q] by (metis in_set_conv_nth unused_def)
    ultimately show ?thesis using a(1) by (simp add: fresh_for_def unused_def foreign_def q_cluster_size_def)
  qed (use a in simp)
  have "tables_ok (parse_l2 (qe_be E)) valid_l2 (q_l1 q') (q_l2_cache q') (q_raw_file q')"
    using tables_ok_repoint [OF C(4) i fresh _ v(1)] v(2) by (simp add: q' l q_cluster_size_def)
  moreover have "\<exists>t. l2_view E q' k = Some t \<and> valid_l2 (q_cluster_size q) t" if "k < length (q_l1 q)" "q_l1 q' ! k \<noteq> 0" for k
    using C(5) [of k] that v(2) i by (auto simp: view s(4) nth_list_update split: if_splits)
  moreover have "foreign q c \<and> (whole r \<longrightarrow> c + q_cluster_size q \<le> q_len q)" if "slot_at E q' r = Some c" for r c
    using origin [OF that] C(8,9) by (auto simp: unused_def)
  moreover have "r = r'" if "slot_at E q' r = Some c" "slot_at E q' r' = Some c" for r r' c
    using origin [OF that(1)] origin [OF that(2)] C(10) by (auto simp: unused_def)
  moreover have "disk_synced E q'"
    by (rule disk_synced_frame [OF C(11) qsafe_large [OF q]]) (use ld in \<open>auto simp: q' l\<close>)
  ultimately have "core E q'" using C(1-3,6,7) unfolding core_def s(1-3) g by (simp add: s(4))
  moreover have "pool E q'" using p by (simp add: q' pool_def q_cluster_size_def)
  ultimately show "qsafe E q'" by (simp add: qsafe_def)
qed

subsection \<open>Steps that leave the disk alone\<close>

definition calm :: "qcow_env \<Rightarrow> qcow_file \<Rightarrow> qcow_file \<Rightarrow> bool" where
  "calm E q q' \<longleftrightarrow> qsafe E q' \<and> geo q q' \<and> slot_at E q' = slot_at E q \<and> content E q' = content E q \<and>
     q_l1_table q' = q_l1_table q \<and> q_unref_clusters q' = q_unref_clusters q \<and>
     (\<forall>c. foreign q c \<longrightarrow> foreign q' c)"

lemma calmD:
  assumes "calm E q q'"
  shows "qsafe E q'" "geo q q'" "slot_at E q' = slot_at E q" "content E q' = content E q" "q_l1_table q' = q_l1_table q"
    "q_unref_clusters q' = q_unref_clusters q" "foreign q c \<Longrightarrow> foreign q' c" "unused E q c \<Longrightarrow> unused E q' c"
  using assms by (simp_all add: calm_def unused_def)

lemma calm_refl: "qsafe E q \<Longrightarrow> calm E q q"
  by (simp add: calm_def)

lemma calm_trans: "calm E q q' \<Longrightarrow> calm E q' q'' \<Longrightarrow> calm E q q''"
  unfolding calm_def using geo_trans by fastforce

lemma calm_keep:
  assumes "qsafe E q" "keep q q'" "pool E q'"
  shows "calm E q q'"
proof -
  have "slot_at E q' s = slot_at E q s" for s by (rule slot_at_keep [OF assms(1,2)]) simp
  then have "slot_at E q' = slot_at E q" by blast
  then show ?thesis using qsafe_keep(1,2) [OF assms(1,2) _ assms(3)] geo_keep [OF assms(2)] assms(2)
    by (auto simp: calm_def keep_but_def)
qed

lemma calm_steady: "steady E q q' \<Longrightarrow> calm E q q'"
  using steadyD [of E q q'] geo_steady [of E q q'] by (simp add: calm_def fun_eq_iff)

lemma calm_unref: "calm E q q' \<Longrightarrow> unref_ok E q \<Longrightarrow> unref_ok E q'"
  using calmD(6,8) [of E q q'] by (simp add: unref_ok_def)

text \<open>Every cluster in use is counted, except perhaps those in \<open>X\<close>.\<close>

definition used :: "qcow_env \<Rightarrow> qcow_file \<Rightarrow> nat \<Rightarrow> bool" where
  "used E q c \<longleftrightarrow> (\<exists>s. slot_at E q s = Some c) \<or> table_cluster (q_rt q) c"

definition counted_but :: "nat set \<Rightarrow> qcow_env \<Rightarrow> qcow_file \<Rightarrow> bool" where
  "counted_but X E q \<longleftrightarrow> (\<forall>c. used E q c \<longrightarrow> c \<notin> X \<longrightarrow> q_count E q c \<noteq> 0)"

abbreviation counted :: "qcow_env \<Rightarrow> qcow_file \<Rightarrow> bool" where
  "counted \<equiv> counted_but {}"

text \<open>The image between operations of the guest.\<close>

definition qok :: "qcow_env \<Rightarrow> qcow_file \<Rightarrow> bool" where
  "qok E q \<longleftrightarrow> qinv E q \<and> counted E q"

lemma foreign_range:
  assumes "pool E q" "foreign q c"
  shows "in_range q c"
  using cluster_apart [OF _ poolD(4) [OF assms(1)], of c] poolD(8) [OF assms(1)] assms(2)
  by (cases "c = q_max q") (auto simp: foreign_def in_range_def)

lemma used_range:
  assumes "qsafe E q" "used E q c"
  shows "in_range q c"
proof (cases "table_cluster (q_rt q) c")
  case True
  have "pool E q" using assms(1) by (simp add: qsafe_def)
  then show ?thesis using tables_okD(7) [OF rc_okD(5) [OF poolD(3)]] poolD(8) [of E q] True
    by (fastforce simp: in_range_def table_cluster_def q_cluster_size_def)
next
  case False
  then show ?thesis using assms coreD(8) foreign_range by (auto simp: used_def qsafe_def)
qed

lemma steady_counts:
  assumes q: "qsafe E q" and s: "steady E q q'"
  shows "counts_same E q q'"
proof -
  note D = steadyD [OF s]
  have p: "pool E q" and co: "core E q" using q by (simp_all add: qsafe_def)
  have "q_data q' x = q_data q x" if b: "table_cluster (q_rt q) b" and x: "within (q_cluster_size q) b x" for b x
  proof -
    have "q_cluster_size q dvd b"
      using tables_okD(7) [OF rc_okD(5) [OF poolD(3) [OF p]]] b by (auto simp: table_cluster_def q_cluster_size_def)
    moreover have "slot_at E q (L2Table i) \<noteq> Some b" for i using coreD(8) [OF co, of "L2Table i" b] b by (auto simp: foreign_def)
    ultimately show ?thesis using s x unfolding steady_def by blast
  qed
  moreover have "quiet (q_raw_file q')" "q_len q' < 2 ^ 63" using tables_okD(1,2) [OF coreD(4)] D(1) by (auto simp: qsafe_def)
  ultimately show ?thesis using rc_ok_file(2) [OF poolD(3) [OF p], of "q_raw_file q'"] D(4,9,14)
    by (auto simp: counts_same_def q_count_def q_cluster_size_def)
qed

lemma counted_same:
  assumes "qsafe E q" "counts_same E q q'" "\<And>s c. slot_at E q' s = Some c \<Longrightarrow> c \<notin> Y \<Longrightarrow> \<exists>s. slot_at E q s = Some c" "counted_but X E q"
  shows "counted_but (X \<union> Y) E q'"
  unfolding counted_but_def
proof (intro allI impI)
  fix c assume c: "used E q' c" "c \<notin> X \<union> Y"
  have u: "used E q c" using c assms(2,3) by (auto simp: used_def counts_same_def)
  then have "q_count E q' c = q_count E q c"
    using counts_sameD [OF _ assms(2)] used_range [OF assms(1)] assms(1) by (auto simp: qsafe_def)
  then show "q_count E q' c \<noteq> 0" using assms(4) c(2) u by (simp add: counted_but_def)
qed

text \<open>Taking a cluster, from the point of view of the disk.\<close>

definition grabbed :: "qcow_env \<Rightarrow> qcow_file \<Rightarrow> qcow_file \<Rightarrow> nat \<Rightarrow> bool" where
  "grabbed E q q' c \<longleftrightarrow> \<not> foreign q c \<and> unused E q' c \<and> c + q_cluster_size q \<le> q_len q' \<and>
     (\<forall>x. within (q_cluster_size q) c x \<longrightarrow> q_data q' x = 0)"

lemma take_cluster:
  assumes q: "qsafe E q"
  shows "wp (get_new_cluster E)
    (\<lambda>c q'. keep q q' \<and> calm E q q' \<and> counts_same E q q' \<and> grabbed E q q' c)
    (\<lambda>e q'. e = OsError ENOSPC \<and> calm E q q') q"
proof (rule wp_mono [OF get_new_cluster_ok])
  show "pool E q" using q by (simp add: qsafe_def)
  fix c q' assume h: "pool E q' \<and> keep q q' \<and> counts_same E q q' \<and> taken q q' c \<and> clusters_left q' < clusters_left q"
  have k: "calm E q q'" using calm_keep [OF q] h by blast
  have n: "\<not> foreign q c" using h taken_not_foreign by blast
  have "slot_at E q' s \<noteq> Some c" for s
    using calmD(3) [OF k] coreD(8) [of E q s c] q n by (auto simp: qsafe_def)
  then have "grabbed E q q' c" using h n by (auto simp: grabbed_def taken_def unused_def)
  then show "keep q q' \<and> calm E q q' \<and> counts_same E q q' \<and> grabbed E q q' c" using h k by blast
qed (use calm_keep [OF q] in blast)

subsection \<open>Finding or creating the L2 table\<close>

text \<open>Entries that the L2 tables do not have yet leave the disk as it is.\<close>

definition fresh_rcs :: "qcow_env \<Rightarrow> qcow_file \<Rightarrow> (nat \<times> u16) list \<Rightarrow> bool" where
  "fresh_rcs E q rs \<longleftrightarrow> (\<forall>(c, n) \<in> set rs. foreign q c \<and> (n \<noteq> 0 \<or> unused E q c))"

definition table_ready :: "qcow_env \<Rightarrow> nat \<Rightarrow> qcow_file \<Rightarrow> (nat \<times> u16) list \<Rightarrow> qcow_file \<Rightarrow> bool" where
  "table_ready E i q rs q' \<longleftrightarrow> qsafe E q' \<and> geo q q' \<and> content E q' = content E q \<and> cm_get (q_l2_cache q') i \<noteq> None \<and>
     (\<forall>k j. slot_at E q' (Data k j) = slot_at E q (Data k j)) \<and>
     (unref_ok E q \<longrightarrow> unref_ok E q') \<and> (counted E q \<longrightarrow> counted_but (fst ` set rs) E q') \<and>
     (\<forall>(c, n) \<in> set rs. foreign q' c \<and> n = 1)"

definition full :: "qcow_env \<Rightarrow> qcow_file \<Rightarrow> io_err \<Rightarrow> qcow_file \<Rightarrow> bool" where
  "full E q e q' \<longleftrightarrow> e = OsError ENOSPC \<and> qsafe E q' \<and> geo q q' \<and> content E q' = content E q"

lemma full_calm: "calm E q q' \<Longrightarrow> e = OsError ENOSPC \<Longrightarrow> full E q e q'"
  using calmD [of E q q'] by (simp add: full_def)

lemma full_trans: "geo q q' \<Longrightarrow> content E q' = content E q \<Longrightarrow> full E q' e q'' \<Longrightarrow> full E q e q''"
  using geo_trans [of q q' q''] by (simp add: full_def)

lemma table_ready_steady:
  assumes "qsafe E q" "steady E q q'" "cm_get (q_l2_cache q') i \<noteq> None"
  shows "table_ready E i q [] q'"
proof -
  note K = calmD [OF calm_steady [OF assms(2)]]
  have "counted_but ({} \<union> {}) E q'" if "counted E q"
    by (rule counted_same [OF assms(1) steady_counts [OF assms(1,2)] _ that]) (use K(3) in auto)
  then show ?thesis using K(1-4) calm_unref [OF calm_steady [OF assms(2)]] assms(3)
    by (simp add: table_ready_def)
qed

text \<open>A new empty table at a cluster that was just taken.\<close>

lemma counts_same_trans: "counts_same E q q' \<Longrightarrow> counts_same E q' q'' \<Longrightarrow> counts_same E q q''"
  by (simp add: counts_same_def)

lemma empty_slots:
  assumes "q_l1 q ! i = 0"
  shows "reslot i a (replicate n 0) (slot_at E q) (Data k j) = slot_at E q (Data k j)"
  using unmapped_l1 [OF assms] by (cases "j < n") (auto simp: slot_at.simps)

lemma table_ready_new:
  assumes q: "qsafe E q" and q': "qsafe E q'" "geo q q'" "content E q' = content E q" "cm_get (q_l2_cache q') i \<noteq> None"
    and c: "counts_same E q q'" and s: "slot_at E q' = reslot i a (replicate n 0) (slot_at E q)" and i: "q_l1 q ! i = 0"
    and f: "\<not> foreign q a" "foreign q' a" "\<And>c. foreign q c \<Longrightarrow> foreign q' c" "q_unref_clusters q' = q_unref_clusters q"
  shows "table_ready E i q [(a, 1)] q'"
proof -
  have new: "slot_at E q r = Some c" if "slot_at E q' r = Some c" "c \<noteq> a" for r c
    using that empty_slots [OF i, of a n E] unfolding s by (cases r) (auto split: if_splits)
  have "unused E q' c" if "unused E q c" for c using that f(1,3) new by (auto simp: unused_def)
  then have "unref_ok E q \<Longrightarrow> unref_ok E q'" using f(4) by (auto simp: unref_ok_def)
  moreover have "counted_but ({} \<union> {a}) E q'" if "counted E q"
    by (rule counted_same [OF q c _ that]) (use new in blast)
  ultimately show ?thesis using q' f(2) empty_slots [OF i, of a n E] by (simp add: table_ready_def s)
qed

lemma new_table:
  assumes q: "qsafe E q" and i: "i < length (q_l1 q)" "q_l1 q ! i = 0" and c: "calm E q q1" "counts_same E q q1" "grabbed E q q1 a"
  shows "\<exists>q'. seq (l1_set i a) (l2_insert E i (vec_cache_new (q_l2_entries q))) q1 = (Ok (), q') \<and> table_ready E i q [(a, 1)] q'"
proof -
  note K = calmD [OF c(1)] and G = geoD [OF calmD(2) [OF c(1)]]
  have q1: "qsafe E q1" using K(1) .
  have p: "pool E q1" and co: "core E q1" using q1 by (simp_all add: qsafe_def)
  note C = coreD [OF co]
  have l1: "q_l1 q1 = q_l1 q" using K(5) by simp
  have un: "unused E q1 a" "a + q_cluster_size q1 \<le> q_len q1" "a \<noteq> 0" "\<not> foreign q a"
    using c(3) G unused_nonzero by (auto simp: grabbed_def)
  have none: "cm_get (q_l2_cache q1) i = None"
    using tables_okD(5) [OF C(4)] i l1 by (metis not_None_eq)
  let ?v = "vec_cache_new (q_l2_entries q) :: nat vec_cache"
  have v: "vc_dirty ?v" "vc_vec ?v = replicate (q_l2_entries q) 0" by (simp_all add: vec_cache_new_def)
  have len: "8 * q_l2_entries q = q_cluster_size q1" using C(1) qsafe_size [OF q1] G(3) by simp
  have valid: "valid_l2 (q_cluster_size q1) (vc_vec ?v)" using len by (auto simp: v valid_l2_def entry_ok_def)
  define t where "t = vec_set i a (q_l1_table q1)"
  have t: "vc_vec t = (q_l1 q1)[i := a]" "vc_dirty t \<or> t = q_l1_table q1" by (simp_all add: t_def vec_set_def)
  define q2 where "q2 = q1\<lparr>q_l1_table := t, q_l2_cache := cm_put i ?v (q_l2_cache q1)\<rparr>"
  note R = retable [OF q1 _ q2_def t(1,2) v(1) valid un(3)]
  have i1: "i < length (q_l1 q1)" using i l1 by simp
  have R: "qsafe E q2" "slot_at E q2 = reslot i a (vc_vec ?v) (slot_at E q1)"
    by (rule R [OF i1], use un in simp, simp add: v G(3))+
  let ?q3 = "q1\<lparr>q_l1_table := t\<rparr>"
  have fresh: "fresh_for (q_l1 q1) (q_raw_file q1) a"
    using un(1-3) slot_l2 [of E q1] unfolding fresh_for_def unused_def foreign_def q_cluster_size_def by (metis in_set_conv_nth)
  have ok3: "tables_ok (parse_l2 (qe_be E)) valid_l2 (q_l1 ?q3) (q_l2_cache ?q3) (q_raw_file ?q3)"
    using tables_ok_move [OF C(4) i1 fresh] none by (simp add: t)
  have cs3: "q_cluster_size ?q3 = q_cluster_size q1" by (simp add: q_cluster_size_def)
  obtain c f where r: "l2_insert E i ?v ?q3 = (Ok (), ?q3\<lparr>q_l2_cache := c, q_raw_file := f\<rparr>)" "same_shape (q_raw_file ?q3) f"
    "cm_get c i = Some ?v" "tables_ok (parse_l2 (qe_be E)) valid_l2 (q_l1 ?q3) c f"
    "\<And>x. (\<And>b. table_cluster (q_l1 ?q3) b \<Longrightarrow> \<not> within (q_cluster_size ?q3) b x) \<Longrightarrow> hf_data f x = q_data ?q3 x"
    "\<And>u. u < length (q_l1 ?q3) \<Longrightarrow> q_l1 ?q3 ! u \<noteq> 0 \<Longrightarrow> u \<noteq> i \<Longrightarrow>
       l2_view E (?q3\<lparr>q_l2_cache := c, q_raw_file := f\<rparr>) u = l2_view E ?q3 u"
    by (rule l2_insert_ok [OF poolD(1) [OF p] ok3, of i ?v]) (use i1 none un(3) valid v in \<open>simp_all add: t cs3\<close>)
  let ?q4 = "?q3\<lparr>q_l2_cache := c, q_raw_file := f\<rparr>"
  have run: "seq (l1_set i a) (l2_insert E i ?v) q1 = (Ok (), ?q4)"
    using r(1) i1 by (simp add: l1_set_def vec_in_def io_defs t_def)
  have st: "steady E q2 ?q4"
  proof (rule steadyI [OF R(1), where c = c and f = f])
    show "l2_view E ?q4 u = l2_view E q2 u" if "u < length (q_l1 q2)" "q_l1 q2 ! u \<noteq> 0" for u
    proof (cases "u = i")
      case True
      then show ?thesis using r(3) by (simp add: l2_view_def view_of_def table_view_def q2_def)
    next
      case False
      then show ?thesis using r(6) [of u] that by (simp add: l2_view_def view_of_def table_view_def q2_def split: option.split)
    qed
  qed (use r(2,4,5) in \<open>auto simp: q2_def q_cluster_size_def\<close>)
  note S = steadyD [OF st]
  have geo2: "geo q1 q2" by (simp add: geo_def q2_def q_cluster_size_def t)
  have "slot_at E q2 (Data k j) = slot_at E q1 (Data k j)" for k j
    unfolding R(2) v(2) by (rule empty_slots) (use i l1 in simp)
  moreover have "q_raw_file q2 = q_raw_file q1" by (simp add: q2_def)
  ultimately have cont: "content E q2 = content E q1" by (intro content_cong [OF geo2 _ q1]) (simp split: option.split)
  have same: "counts_same E q ?q4"
  proof (rule counts_same_trans [OF c(2) counts_same_trans])
    show "counts_same E q1 q2" by (simp add: counts_same_def q2_def q_count_def)
    show "counts_same E q2 ?q4" by (rule steady_counts [OF R(1) st])
  qed
  have f2: "foreign q2 = foreign q1" by (simp add: fun_eq_iff foreign_def q2_def q_cluster_size_def)
  have "table_ready E i q [(a, 1)] ?q4"
  proof (rule table_ready_new [OF q S(1) _ _ _ same])
    show "geo q ?q4" using geo_trans [OF K(2) geo_trans [OF geo2 geo_steady [OF st]]] .
    show "content E ?q4 = content E q" using S(3) cont K(4) by simp
    show "slot_at E ?q4 = reslot i a (replicate (q_l2_entries q) 0) (slot_at E q)"
      using S(2) R(2) K(3) v(2) by (simp add: fun_eq_iff)
    show "foreign ?q4 a" using S(15) f2 un(1) by (simp add: unused_def)
    show "foreign ?q4 b" if "foreign q b" for b using S(15) f2 K(7) [OF that] by simp
  qed (use r(3) i un(4) K(6) in simp_all)
  then show ?thesis using run by blast
qed

lemma l2_load_or_new_ok:
  assumes q: "qsafe E q" and i: "i < length (q_l1 q)"
  shows "wp (l2_load_or_new E i (q_l1 q ! i)) (table_ready E i q) (full E q) q"
proof (cases "cm_get (q_l2_cache q) i")
  case (Some v)
  then have "l2_load_or_new E i (q_l1 q ! i) q = (Ok [], q)" by (simp add: l2_load_or_new_def io_defs)
  then show ?thesis using table_ready_steady [OF q steady_refl [OF q], of i] Some by (simp add: wp_def)
next
  case None
  show ?thesis
  proof (cases "q_l1 q ! i = 0")
    case False
    have "l2_load_or_new E i (q_l1 q ! i) q = seq (l2_load E i (q_l1 q ! i)) (ret []) q"
      using None False by (simp add: l2_load_or_new_def l2_load_def io_defs split: prod.split outcome.split)
    then show ?thesis using l2_load_ok [OF q i False] table_ready_steady [OF q] by (auto simp: wp_def io_defs)
  next
    case True
    have "wp (get_new_cluster E) (\<lambda>a. wp (seq (l1_set i a) (seq (l2_insert E i (vec_cache_new (q_l2_entries q))) (ret [(a, 1)])))
        (table_ready E i q) (full E q)) (full E q) q"
    proof (rule wp_mono [OF take_cluster [OF q]])
      fix a q1 assume h: "keep q q1 \<and> calm E q q1 \<and> counts_same E q q1 \<and> grabbed E q q1 a"
      then obtain q' where "seq (l1_set i a) (l2_insert E i (vec_cache_new (q_l2_entries q))) q1 = (Ok (), q')"
        "table_ready E i q [(a, 1)] q'" using new_table [OF q i True] by blast
      then show "wp (seq (l1_set i a) (seq (l2_insert E i (vec_cache_new (q_l2_entries q))) (ret [(a, 1)])))
        (table_ready E i q) (full E q) q1"
        by (simp add: wp_def io_defs split: prod.splits outcome.splits)
    qed (use full_calm in blast)
    moreover have "l2_load_or_new E i (q_l1 q ! i) q =
        bnd (get_new_cluster E) (\<lambda>a. seq (l1_set i a) (seq (l2_insert E i (vec_cache_new (q_l2_entries q))) (ret [(a, 1)]))) q"
      using None True by (simp add: l2_load_or_new_def io_defs)
    ultimately show ?thesis by - (rule wp_eq, assumption, simp only: wp_bnd)
  qed
qed

subsection \<open>Setting counts\<close>

definition count_done :: "qcow_env \<Rightarrow> nat \<Rightarrow> u16 \<Rightarrow> qcow_file \<Rightarrow> qcow_file \<Rightarrow> bool" where
  "count_done E a n q q' \<longleftrightarrow> qsafe E q' \<and> geo q q' \<and> slot_at E q' = slot_at E q \<and> content E q' = content E q \<and>
     q_l1_table q' = q_l1_table q \<and> q_l2_cache q' = q_l2_cache q \<and> q_len q \<le> q_len q' \<and>
     (\<forall>c. foreign q c \<longrightarrow> foreign q' c \<and> (\<forall>x. within (q_cluster_size q) c x \<longrightarrow> q_data q' x = q_data q x)) \<and>
     (\<forall>c \<in> set (q_unref_clusters q'). c \<in> set (q_unref_clusters q) \<or> \<not> foreign q c) \<and>
     (unref_ok E q \<longrightarrow> unref_ok E q') \<and> q_count E q' a = n \<and>
     (\<forall>X. counted_but X E q \<longrightarrow> counted_but (if n \<noteq> 0 \<or> unused E q a then X - {a} else insert a X) E q')"

lemma count_doneD:
  assumes "count_done E a n q q'"
  shows "qsafe E q'" "geo q q'" "slot_at E q' = slot_at E q" "content E q' = content E q" "q_l1_table q' = q_l1_table q"
    "q_l2_cache q' = q_l2_cache q" "q_len q \<le> q_len q'" "foreign q c \<Longrightarrow> foreign q' c"
    "foreign q c \<Longrightarrow> within (q_cluster_size q) c x \<Longrightarrow> q_data q' x = q_data q x"
    "c \<in> set (q_unref_clusters q') \<Longrightarrow> c \<in> set (q_unref_clusters q) \<or> \<not> foreign q c"
    "unref_ok E q \<Longrightarrow> unref_ok E q'" "q_count E q' a = n"
    "counted_but X E q \<Longrightarrow> counted_but (if n \<noteq> 0 \<or> unused E q a then X - {a} else insert a X) E q'" "unused E q c \<Longrightarrow> unused E q' c"
  using assms by (simp_all add: count_done_def unused_def)

lemma counted_set:
  assumes q: "qsafe E q" and a: "foreign q a" and s: "set_post E a n q freed q'" "slot_at E q' = slot_at E q"
  shows "counted_but X E q \<Longrightarrow> counted_but (if n \<noteq> 0 \<or> unused E q a then X - {a} else insert a X) E q'" "q_count E q' a = n"
proof -
  obtain A where A: "\<And>c. c \<in> A \<Longrightarrow> new_cluster q c"
    "\<And>c. in_range q c \<Longrightarrow> q_count E q' c = (if c \<in> A then 1 else if c = a then n else q_count E q c)"
    "\<And>c. table_cluster (q_rt q') c \<Longrightarrow> table_cluster (q_rt q) c \<or> c \<in> A"
    using s(1) by (auto simp: set_post_def counts_set_def)
  have p: "pool E q" using q by (simp add: qsafe_def)
  have old: "a \<notin> A" using A(1) [of a] a by (auto simp: new_cluster_def foreign_def)
  then show "q_count E q' a = n" using A(2) [OF foreign_range [OF p a]] by simp
  show "counted_but (if n \<noteq> 0 \<or> unused E q a then X - {a} else insert a X) E q'" if c: "counted_but X E q"
    unfolding counted_but_def
  proof (intro allI impI)
    fix c assume u: "used E q' c" and x: "c \<notin> (if n \<noteq> 0 \<or> unused E q a then X - {a} else insert a X)"
    show "q_count E q' c \<noteq> 0"
    proof (cases "c \<in> A")
      case True
      then show ?thesis using A(1,2) by (simp add: new_cluster_def)
    next
      case False
      then have uq: "used E q c" using u A(3) s(2) by (auto simp: used_def)
      have "\<not> table_cluster (q_rt q) a" using a by (simp add: foreign_def)
      then have "c = a \<Longrightarrow> \<not> unused E q a" using uq by (auto simp: used_def unused_def)
      then show ?thesis using A(2) [OF used_range [OF q uq]] False x c uq
        by (auto simp: counted_but_def split: if_splits)
    qed
  qed
qed

lemma unref_freed:
  assumes q: "qsafe E q" and k: "calm E q q'" and f: "freed_ok q q' freed" and u: "unref_ok E q"
  shows "unref_ok E (q'\<lparr>q_unref_clusters := q_unref_clusters q' @ freed\<rparr>)"
proof (cases "freed = []")
  case True
  then show ?thesis using calm_unref [OF k u] by simp
next
  case False
  then obtain c where c: "freed = [c]" "table_cluster (q_rt q) c" "foreign q' c" using f by (auto simp: freed_ok_def)
  have "\<not> foreign q c" using c(2) by (simp add: foreign_def)
  then have "c \<notin> set (q_unref_clusters q)" "\<And>s. slot_at E q s \<noteq> Some c"
    using u coreD(8) q by (auto simp: unref_ok_def unused_def qsafe_def)
  then show ?thesis using calm_unref [OF k u] c calmD(3,6) [OF k] by (auto simp: unref_ok_def unused_def)
qed

lemma set_count_ok:
  assumes q: "qsafe E q" and a: "foreign q a"
  shows "wp (bnd (set_cluster_refcount E a n) add_unref) (\<lambda>_. count_done E a n q) (full E q) q"
  unfolding wp_bnd
proof (rule wp_mono [OF set_cluster_refcount_ok])
  show p: "pool E q" using q by (simp add: qsafe_def)
  show "in_range q a" using foreign_range [OF p a] .
  fix freed q1 assume s: "set_post E a n q freed q1"
  then have k: "pool E q1" "keep q q1" "freed_ok q q1 freed" by (simp_all add: set_post_def)
  have c: "calm E q q1" using calm_keep [OF q k(2,1)] .
  note K = calmD [OF c]
  let ?q = "q1\<lparr>q_unref_clusters := q_unref_clusters q1 @ freed\<rparr>"
  have "geo q1 ?q" by (simp add: geo_def)
  then have "geo q ?q" using geo_trans [OF K(2)] by blast
  moreover have "counted_but X E ?q = counted_but X E q1" for X by (simp add: counted_but_def used_def)
  moreover have "c \<in> set freed \<Longrightarrow> \<not> foreign q c" for c using k(3) by (auto simp: freed_ok_def foreign_def)
  ultimately have "count_done E a n q ?q"
    using K k(2) unref_freed [OF q c k(3)] counted_set [OF q a s K(3)] calmD(6) [OF c]
    unfolding count_done_def by (auto simp: keep_but_def q_cluster_size_def)
  then show "wp (add_unref freed) (\<lambda>_. count_done E a n q) (full E q) q1" by (simp add: add_unref_def wp_simps)
qed (use calm_keep [OF q] full_calm in \<open>auto simp: full_err_def\<close>)

subsection \<open>Mapping a new data cluster\<close>

lemma counted_mono: "counted_but X E q \<Longrightarrow> X \<subseteq> Y \<Longrightarrow> counted_but Y E q"
  by (auto simp: counted_but_def)

definition appended :: "qcow_env \<Rightarrow> qcow_file \<Rightarrow> nat \<Rightarrow> qcow_file \<Rightarrow> bool" where
  "appended E q a q' \<longleftrightarrow> qsafe E q' \<and> geo q q' \<and> slot_at E q' = slot_at E q \<and> content E q' = content E q \<and>
     q_l1_table q' = q_l1_table q \<and> q_l2_cache q' = q_l2_cache q \<and> (\<forall>c. foreign q c \<longrightarrow> foreign q' c) \<and>
     unused E q' a \<and> a + q_cluster_size q \<le> q_len q' \<and> (\<forall>x. within (q_cluster_size q) a x \<longrightarrow> q_data q' x = 0) \<and>
     (unref_ok E q \<longrightarrow> unref_ok E q' \<and> a \<notin> set (q_unref_clusters q')) \<and>
     (\<forall>X. counted_but X E q \<longrightarrow> counted_but X E q') \<and> q_count E q' a \<noteq> 0"

lemma append_data_cluster_ok:
  assumes q: "qsafe E q"
  shows "wp (append_data_cluster E) (appended E q) (full E q) q"
  unfolding append_data_cluster_def wp_bnd
proof (rule wp_mono [OF take_cluster [OF q]])
  fix a q1 assume h: "keep q q1 \<and> calm E q q1 \<and> counts_same E q q1 \<and> grabbed E q q1 a"
  then have c: "calm E q q1" "counts_same E q q1" and g: "\<not> foreign q a" "unused E q1 a" "a + q_cluster_size q \<le> q_len q1"
    "\<And>x. within (q_cluster_size q) a x \<Longrightarrow> q_data q1 x = 0" by (auto simp: grabbed_def)
  note K = calmD [OF c(1)]
  have fa: "foreign q1 a" using g(2) by (simp add: unused_def)
  have l2: "q_l2_cache q1 = q_l2_cache q" using h by (simp add: keep_but_def)
  have cnt: "counted_but X E q1" if "counted_but X E q" for X
    using counted_same [OF q c(2) _ that, of "{}"] K(3) by auto
  have "appended E q a q2" if d: "count_done E a 1 q1 q2" for q2
  proof -
    note D = count_doneD [OF d]
    have "a \<notin> set (q_unref_clusters q2)" if u: "unref_ok E q"
      using D(10) [of a] fa K(6) g(1) u by (auto simp: unref_ok_def unused_def)
    moreover have "unref_ok E q2" if "unref_ok E q" using D(11) calm_unref [OF c(1) that] by simp
    moreover have "counted_but X E q2" if "counted_but X E q" for X
      using counted_mono [OF D(13) [OF cnt [OF that]]] by auto
    moreover have "q_data q2 x = 0" if "within (q_cluster_size q) a x" for x
      using D(9) [OF fa] that g(4) geoD(2) [OF K(2)] by simp
    moreover have "q_len q1 \<le> q_len q2" using D(7) .
    ultimately show ?thesis
      using D(1-6,8,12,14) K g(2,3) l2 geo_trans [OF K(2) D(2)] unfolding appended_def by auto
  qed
  moreover have "full E q e q2" if "full E q1 e q2" for e q2 using full_trans [OF K(2,4) that] .
  ultimately have "wp (bnd (set_cluster_refcount E a 1) add_unref) (\<lambda>_. appended E q a) (full E q) q1"
    by (intro wp_mono [OF set_count_ok [OF K(1) fa, of 1]])
  then show "wp (set_cluster_refcount E a 1) (\<lambda>u. wp (seq (add_unref u) (ret a)) (appended E q) (full E q)) (full E q) q1"
    unfolding wp_bnd by (rule wp_mono) (simp_all add: wp_seq wp_ret_fun)
qed (use full_calm in blast)

lemma remap:
  assumes q: "qsafe E q" and v: "cm_get (q_l2_cache q) i = Some v" and j: "j < q_l2_entries q" "slot_at E q (Data i j) = None"
    and x: "unused E q x" "x + q_cluster_size q \<le> q_len q" "\<And>y. within (q_cluster_size q) x y \<Longrightarrow> q_data q y = 0"
    and a: "a = q_l1 q ! i \<or> unused E q a \<and> a + q_cluster_size q \<le> q_len q" "a \<noteq> x"
    and q': "q' = q\<lparr>q_l1_table := l, q_l2_cache := cm_put i (vec_set j x v) (q_l2_cache q)\<rparr>" and l: "vc_vec l = (q_l1 q)[i := a]"
    and ld: "vc_dirty l \<or> l = q_l1_table q"
  shows "qsafe E q'" "geo q q'" "content E q' = content E q" "counts_same E q q'"
    "slot_at E q' = (slot_at E q)(Data i j := Some x, L2Table i := Some a)" "foreign q' = foreign q"
proof -
  have co: "core E q" using q by (simp add: qsafe_def)
  note C = coreD [OF co]
  have i: "i < length (q_l1 q)" "q_l1 q ! i \<noteq> 0" "valid_l2 (q_cluster_size q) (vc_vec v)"
    using tables_okD(5) [OF C(4) v] by (auto simp: q_cluster_size_def)
  have view: "mapped E q i k = vc_vec v ! k" for k using i v by (simp add: mapped_def l2_view_def view_of_def table_view_def)
  have len: "length (vc_vec v) = q_l2_entries q" using i(3) C(1) by (auto simp: valid_l2_def)
  have nz: "x \<noteq> 0" "a \<noteq> 0" using x(1) a(1) i(2) unused_nonzero by auto
  have "512 dvd x" "x < 2 ^ 56"
    using x(1,2) cluster_geomD(2) [OF poolD(2)] q poolD(5,8) [of E q]
    by (auto simp: unused_def foreign_def qsafe_def q_cluster_size_def intro: dvd_trans)
  then have e: "entry_ok x" by (simp add: entry_ok_def)
  have vv: "vc_dirty (vec_set j x v)" "vc_vec (vec_set j x v) = (vc_vec v)[j := x]" by (simp_all add: vec_set_def)
  have valid: "valid_l2 (q_cluster_size q) (vc_vec (vec_set j x v))"
    using i(3) e set_update_subset_insert [of "vc_vec v" j x] by (auto simp: valid_l2_def vv)
  have ent: "slot_at E q (Data i k) = Some (vc_vec (vec_set j x v) ! k) \<or>
      k = j \<and> unused E q (vc_vec (vec_set j x v) ! k) \<and> vc_vec (vec_set j x v) ! k \<noteq> a \<and>
      vc_vec (vec_set j x v) ! k + q_cluster_size q \<le> q_len q"
    if "k < q_l2_entries q" "vc_vec (vec_set j x v) ! k \<noteq> 0" for k
    using that x a(2) len by (cases "k = j") (auto simp: vv slot_data view)
  note R = retable [OF q i(1) q' l ld vv(1) valid nz(2) a(1), where ?j0.0 = j, OF ent]
  show "qsafe E q'" using R(1) .
  have "reslot i a (vc_vec (vec_set j x v)) (slot_at E q) s = ((slot_at E q)(Data i j := Some x, L2Table i := Some a)) s" for s
    using len j(1) nz(1) by (cases s) (auto simp: vv slot_at.simps view nth_list_update)
  then show S: "slot_at E q' = (slot_at E q)(Data i j := Some x, L2Table i := Some a)" using R(2) by (simp add: fun_eq_iff)
  show g: "geo q q'" by (simp add: q' geo_def l q_cluster_size_def)
  have raw: "q_raw_file q' = q_raw_file q" by (simp add: q')
  show "content E q' = content E q"
    by (rule content_cong [OF g _ q]) (use x(3) j(2) S raw in \<open>auto simp: within_def split: option.split\<close>)
  show "counts_same E q q'" by (simp add: counts_same_def q' q_count_def)
  show "foreign q' = foreign q" by (simp add: fun_eq_iff foreign_def q' q_cluster_size_def)
qed

definition linked :: "qcow_env \<Rightarrow> nat \<Rightarrow> nat \<Rightarrow> nat \<Rightarrow> qcow_file \<Rightarrow> (nat \<times> u16) list \<Rightarrow> qcow_file \<Rightarrow> bool" where
  "linked E i j x q rs q' \<longleftrightarrow> qsafe E q' \<and> geo q q' \<and> content E q' = content E q \<and> slot_at E q' (Data i j) = Some x \<and>
     (\<forall>c. foreign q c \<longrightarrow> foreign q' c) \<and> (unref_ok E q \<longrightarrow> x \<notin> set (q_unref_clusters q) \<longrightarrow> unref_ok E q') \<and>
     (\<forall>X. counted_but X E q \<longrightarrow> q_count E q x \<noteq> 0 \<longrightarrow> counted_but (X \<union> fst ` set rs) E q') \<and> fresh_rcs E q' rs"

lemma counted_new:
  assumes q: "qsafe E q" and c: "counts_same E q q'" and n: "\<And>s c. slot_at E q' s = Some c \<Longrightarrow> c \<notin> Y \<Longrightarrow> c \<noteq> x \<Longrightarrow> \<exists>s. slot_at E q s = Some c"
    and x: "foreign q x" "q_count E q x \<noteq> 0" and X: "counted_but X E q"
  shows "counted_but (X \<union> Y) E q'"
proof -
  have "counted_but (X \<union> (insert x Y)) E q'" by (rule counted_same [OF q c _ X]) (use n in blast)
  moreover have "q_count E q' x \<noteq> 0"
    using counts_sameD [OF _ c foreign_range [OF _ x(1)]] q x(2) by (auto simp: qsafe_def)
  ultimately show ?thesis by (auto simp: counted_but_def)
qed

lemma moved_linked:
  assumes q: "qsafe E q" and old: "slot_at E q (L2Table i) = Some old" and x: "unused E q x" and a: "\<not> foreign q a"
    and q': "qsafe E q'" "geo q q'" "content E q' = content E q" "counts_same E q q'"
    and S: "slot_at E q' = (slot_at E q)(Data i j := Some x, L2Table i := Some a)"
    and f: "\<And>c. foreign q c \<Longrightarrow> foreign q' c" "foreign q' a" and u: "q_unref_clusters q' = q_unref_clusters q @ [old]"
  shows "linked E i j x q [(old, 0), (a, 1)] q'"
proof -
  have co: "core E q" using q by (simp add: qsafe_def)
  have fo: "foreign q old" using coreD(8) [OF co old] .
  have ne: "a \<noteq> old" "x \<noteq> old" "foreign q x" using a fo x old by (auto simp: unused_def)
  have "slot_at E q' s \<noteq> Some old" for s using coreD(10) [OF co old, of s] ne(1,2) by (auto simp: S)
  then have uo: "unused E q' old" using f(1) fo by (simp add: unused_def)
  have "unref_ok E q'" if r: "unref_ok E q" "x \<notin> set (q_unref_clusters q)"
  proof -
    have "old \<notin> set (q_unref_clusters q)" using r(1) old by (auto simp: unref_ok_def unused_def)
    moreover have "unused E q' c" if "c \<in> set (q_unref_clusters q)" for c
      using r that a f(1) by (auto simp: unref_ok_def unused_def S)
    ultimately show ?thesis using r(1) uo by (simp add: unref_ok_def u)
  qed
  moreover have "counted_but (X \<union> {old, a}) E q'" if "counted_but X E q" "q_count E q x \<noteq> 0" for X
    by (rule counted_new [OF q q'(4) _ ne(3) that(2,1)]) (auto simp: S split: if_splits)
  ultimately show ?thesis using q' f uo S unfolding linked_def fresh_rcs_def by (auto simp: unused_def)
qed

lemma update_cluster_addr_ok:
  assumes q: "qsafe E q" and v: "cm_get (q_l2_cache q) i \<noteq> None" and j: "j < q_l2_entries q" "slot_at E q (Data i j) = None"
    and x: "unused E q x" "x + q_cluster_size q \<le> q_len q" "\<And>y. within (q_cluster_size q) x y \<Longrightarrow> q_data q y = 0"
  shows "wp (update_cluster_addr E i j x) (linked E i j x q) (full E q) q"
proof -
  obtain t where t: "cm_get (q_l2_cache q) i = Some t" using v by auto
  have co: "core E q" using q by (simp add: qsafe_def)
  note C = coreD [OF co]
  have i: "i < length (q_l1 q)" "q_l1 q ! i \<noteq> 0" "length (vc_vec t) = q_l2_entries q"
    using tables_okD(5) [OF C(4) t] C(1) by (auto simp: valid_l2_def q_cluster_size_def)
  have il: "slot_at E q (L2Table i) = Some (q_l1 q ! i)" using i by (simp add: slot_l2)
  have xl: "q_l1 q ! i \<noteq> x" and fx: "foreign q x" using x(1) il by (auto simp: unused_def)
  show ?thesis
  proof (cases "vc_dirty t")
    case True
    define q' where "q' = q\<lparr>q_l1_table := q_l1_table q, q_l2_cache := cm_put i (vec_set j x t) (q_l2_cache q)\<rparr>"
    have R: "qsafe E q'" "geo q q'" "content E q' = content E q" "counts_same E q q'"
      "slot_at E q' = (slot_at E q)(Data i j := Some x, L2Table i := Some (q_l1 q ! i))" "foreign q' = foreign q"
      using remap [OF q t j x(1,2) _ _ xl q'_def] x(3) by auto
    have run: "update_cluster_addr E i j x q = (Ok [], q')"
      using True t j(1) i(3) by (simp add: update_cluster_addr_def l2_set_def unwrap_def vec_in_def io_defs q'_def)
    have S: "slot_at E q' = (slot_at E q)(Data i j := Some x)" using R(5) il by (simp add: fun_eq_iff)
    have "unref_ok E q'" if "unref_ok E q" "x \<notin> set (q_unref_clusters q)"
      using that R(6) S unfolding unref_ok_def by (auto simp: q'_def unused_def)
    moreover have "counted_but (X \<union> {}) E q'" if "counted_but X E q" "q_count E q x \<noteq> 0" for X
      by (rule counted_new [OF q R(4) _ fx that(2,1)]) (use S in \<open>auto split: if_splits\<close>)
    ultimately have "linked E i j x q [] q'" using R S by (simp add: linked_def fresh_rcs_def)
    then show ?thesis using run by (simp add: wp_def)
  next
    case False
    let ?a = "q_l1 q ! i" and ?q0 = "q\<lparr>q_unref_clusters := q_unref_clusters q @ [q_l1 q ! i]\<rparr>"
    have "wp (get_new_cluster E) (\<lambda>a. wp (seq (l1_set i a) (seq (l2_set i j x) (ret [(?a, 0), (a, 1)])))
        (linked E i j x q) (full E q)) (full E q) ?q0"
    proof (rule wp_mono [OF take_cluster])
      show "qsafe E ?q0" using q by simp
      have g0: "geo q ?q0" by (simp add: geo_def)
      show "full E q e q1" if "e = OsError ENOSPC \<and> calm E ?q0 q1" for e q1
        using full_trans [OF g0, of E e q1] full_calm that by simp
      fix a q1 assume h: "keep ?q0 q1 \<and> calm E ?q0 q1 \<and> counts_same E ?q0 q1 \<and> grabbed E ?q0 q1 a"
      then have c: "calm E ?q0 q1" "counts_same E ?q0 q1" and g: "\<not> foreign q a" "unused E q1 a" "a + q_cluster_size q \<le> q_len q1"
        by (auto simp: grabbed_def)
      note K = calmD [OF c(1)] and G = geoD [OF calmD(2) [OF c(1)]]
      have k: "q_l2_cache q1 = q_l2_cache q" "q_len q \<le> q_len q1"
        "\<And>b y. foreign q b \<Longrightarrow> within (q_cluster_size q) b y \<Longrightarrow> q_data q1 y = q_data q y"
        using h by (auto simp: keep_but_def)
      have l1: "q_l1 q1 = q_l1 q" using K(5) by simp
      define q' where "q' = q1\<lparr>q_l1_table := vec_set i a (q_l1_table q1), q_l2_cache := cm_put i (vec_set j x t) (q_l2_cache q1)\<rparr>"
      have ax: "a \<noteq> x" using g(1) fx by auto
      have R: "qsafe E q'" "geo q1 q'" "content E q' = content E q1" "counts_same E q1 q'"
        "slot_at E q' = (slot_at E q1)(Data i j := Some x, L2Table i := Some a)" "foreign q' = foreign q1"
        using remap [OF K(1) _ _ _ _ _ _ _ ax q'_def] t k j x g(2,3) K(3,8) G(2,3) fx by (auto simp: vec_set_def)
      have run: "seq (l1_set i a) (seq (l2_set i j x) (ret [(?a, 0 :: u16), (a, 1)])) q1 = (Ok [(?a, 0), (a, 1)], q')"
        using t k(1) l1 i j(1) by (simp add: l1_set_def l2_set_def unwrap_def vec_in_def io_defs q'_def)
      have "linked E i j x q [(?a, 0), (a, 1)] q'"
      proof (rule moved_linked [OF q il x(1) g(1) R(1)])
        show "geo q q'" using geo_trans [OF g0 geo_trans [OF K(2) R(2)]] .
        show "counts_same E q q'"
          by (rule counts_same_trans [OF _ counts_same_trans [OF c(2) R(4)]]) (simp add: counts_same_def q_count_def)
        show "foreign q' b" if "foreign q b" for b using R(6) K(7) [of b] that by simp
      qed (use R K g in \<open>simp_all add: unused_def, simp add: q'_def\<close>)
      then show "wp (seq (l1_set i a) (seq (l2_set i j x) (ret [(?a, 0), (a, 1)]))) (linked E i j x q) (full E q) q1"
        using run by (simp add: wp_def)
    qed
    moreover have "update_cluster_addr E i j x q = bnd (get_new_cluster E) (\<lambda>a. seq (l1_set i a) (seq (l2_set i j x) (ret [(?a, 0 :: u16), (a, 1)]))) ?q0"
      using False t i
      by (simp add: update_cluster_addr_def add_unref_def unwrap_def index_def io_defs split: prod.split outcome.split)
    ultimately show ?thesis by - (rule wp_eq, assumption, simp only: wp_bnd)
  qed
qed

text \<open>The counts that are still to be set after the tables changed.\<close>

definition pending :: "qcow_env \<Rightarrow> bool \<Rightarrow> bool \<Rightarrow> qcow_file \<Rightarrow> (nat \<times> u16) list \<Rightarrow> qcow_file \<Rightarrow> bool" where
  "pending E u k q rs q' \<longleftrightarrow> qsafe E q' \<and> geo q q' \<and> content E q' = content E q \<and> slot_at E q' = slot_at E q \<and>
     fresh_rcs E q' rs \<and> (u \<longrightarrow> unref_ok E q') \<and> (k \<longrightarrow> counted_but (fst ` set rs) E q')"

lemma pending_step:
  assumes p: "pending E u k q ((a, n) # rs) q1" and d: "count_done E a n q1 q2"
  shows "pending E u k q rs q2"
proof -
  note D = count_doneD [OF d]
  have f: "n \<noteq> 0 \<or> unused E q1 a" and p': "geo q q1" "content E q1 = content E q" "slot_at E q1 = slot_at E q"
    "fresh_rcs E q1 rs" "u \<longrightarrow> unref_ok E q1" "k \<longrightarrow> counted_but (insert a (fst ` set rs)) E q1"
    using p by (auto simp: pending_def fresh_rcs_def)
  have "fresh_rcs E q2 rs" using p'(4) D(8,14) unfolding fresh_rcs_def by fastforce
  moreover have "k \<longrightarrow> counted_but (fst ` set rs) E q2"
    using p'(6) D(13) f by (auto intro: counted_mono)
  ultimately show ?thesis using D(1-4,11) p' geo_trans [OF p'(1) D(2)] by (simp add: pending_def)
qed

lemma set_refcounts_loop_ok:
  assumes "pending E u k q rs q1"
  shows "wp (set_refcounts_loop E rs) (\<lambda>_. pending E u k q []) (full E q) q1"
  unfolding set_refcounts_loop_def
proof (rule wp_for_each [where I = "pending E u k q"])
  fix x rs q1 assume p: "pending E u k q (x # rs) q1"
  obtain a n where x: "x = (a, n)" by (rule prod.exhaust)
  have "qsafe E q1" "foreign q1 a" "geo q q1" "content E q1 = content E q" using p by (auto simp: pending_def fresh_rcs_def x)
  then show "wp (case x of (addr, count) \<Rightarrow> bnd (set_cluster_refcount E addr count) add_unref) (\<lambda>_. pending E u k q rs) (full E q) q1"
    unfolding x split by (intro wp_mono [OF set_count_ok]) (use pending_step [OF p [unfolded x]] full_trans in blast)+
qed (use assms in simp)

subsection \<open>Writing\<close>

definition located :: "qcow_env \<Rightarrow> nat \<Rightarrow> qcow_file \<Rightarrow> nat \<Rightarrow> qcow_file \<Rightarrow> bool" where
  "located E a q off q' \<longleftrightarrow> qok E q' \<and> geo q q' \<and> content E q' = content E q \<and>
     (\<exists>c. slot_at E q' (data_slot q a) = Some c \<and> off = c + a mod q_cluster_size q)"

lemma pending_located:
  assumes "pending E True True q1 [] q2" "geo q q1" "content E q1 = content E q" "slot_at E q1 (data_slot q a) = Some c"
  shows "located E a q (c + a mod q_cluster_size q) q2"
  using assms geo_trans [of q q1 q2] by (auto simp: located_def pending_def qok_def qinv_def)

lemma finish_ok:
  assumes p: "pending E True True q1 rs q2" "geo q q1" "content E q1 = content E q" "slot_at E q1 (data_slot q a) = Some c"
  shows "wp (seq (set_refcounts_loop E rs) (ret (c + a mod q_cluster_size q))) (located E a q) (full E q) q2"
  unfolding wp_seq
proof (rule wp_mono [OF set_refcounts_loop_ok [OF p(1)]])
  show "wp (ret (c + a mod q_cluster_size q)) (located E a q) (full E q) q3" if "pending E True True q1 [] q3" for q3
    using pending_located [OF that p(2-4)] by (simp add: wp_ret)
  show "full E q e q3" if "full E q1 e q3" for e q3 using full_trans [OF p(2,3) that] .
qed

text \<open>Once the table is there: a new data cluster is mapped, or the old one found.\<close>

definition ready :: "qcow_env \<Rightarrow> nat \<Rightarrow> qcow_file \<Rightarrow> (nat \<times> u16) list \<Rightarrow> qcow_file \<Rightarrow> bool" where
  "ready E i q rs q' \<longleftrightarrow> table_ready E i q rs q' \<and> unref_ok E q' \<and> counted_but (fst ` set rs) E q'"

lemma readyD:
  assumes "ready E i q rs q'"
  shows "qsafe E q'" "geo q q'" "content E q' = content E q" "cm_get (q_l2_cache q') i \<noteq> None"
    "slot_at E q' (Data k l) = slot_at E q (Data k l)" "unref_ok E q'" "counted_but (fst ` set rs) E q'"
    "(c, n) \<in> set rs \<Longrightarrow> foreign q' c \<and> n = 1" "fresh_rcs E q' rs"
  using assms unfolding ready_def table_ready_def fresh_rcs_def by fastforce+

lemma map_new_ok:
  assumes r: "ready E i q rs q1" and ij: "data_slot q a = Data i j" "j < q_l2_entries q1" "slot_at E q1 (Data i j) = None"
    and ap: "appended E q1 x q2"
  shows "wp (bnd (update_cluster_addr E i j x) (\<lambda>more. seq (set_refcounts_loop E (rs @ more)) (ret (x + a mod q_cluster_size q))))
    (located E a q) (full E q) q2"
  unfolding wp_bnd
proof -
  note T = readyD [OF r]
  have A: "qsafe E q2" "geo q1 q2" "slot_at E q2 = slot_at E q1" "content E q2 = content E q1" "q_l2_cache q2 = q_l2_cache q1"
    "\<And>c. foreign q1 c \<Longrightarrow> foreign q2 c" "unused E q2 x" "x + q_cluster_size q1 \<le> q_len q2"
    "\<And>y. within (q_cluster_size q1) x y \<Longrightarrow> q_data q2 y = 0" "unref_ok E q2" "x \<notin> set (q_unref_clusters q2)"
    "counted_but (fst ` set rs) E q2" "q_count E q2 x \<noteq> 0"
    using ap T(6,7) by (auto simp: appended_def)
  have cs: "q_cluster_size q2 = q_cluster_size q1" "q_l2_entries q2 = q_l2_entries q1" using geoD(2,3) [OF A(2)] by simp_all
  have q02: "geo q q2" "content E q2 = content E q" using geo_trans [OF T(2) A(2)] T(3) A(4) by simp_all
  have "wp (update_cluster_addr E i j x) (linked E i j x q2) (full E q2) q2"
    by (rule update_cluster_addr_ok) (use T(4) A ij cs in auto)
  then show "wp (update_cluster_addr E i j x) (\<lambda>more. wp (seq (set_refcounts_loop E (rs @ more)) (ret (x + a mod q_cluster_size q)))
      (located E a q) (full E q)) (full E q) q2"
  proof (rule wp_mono)
    fix more q3 assume l: "linked E i j x q2 more q3"
    have L: "qsafe E q3" "geo q2 q3" "content E q3 = content E q2" "slot_at E q3 (Data i j) = Some x"
      "unref_ok E q3" "counted_but (fst ` set rs \<union> fst ` set more) E q3" "fresh_rcs E q3 more"
      "\<And>c. foreign q2 c \<Longrightarrow> foreign q3 c"
      using l A(10-13) by (auto simp: linked_def)
    have "fresh_rcs E q3 (rs @ more)" using L(7,8) T(8) A(6) by (fastforce simp: fresh_rcs_def)
    then have "pending E True True q3 (rs @ more) q3" using L by (simp add: pending_def image_Un)
    then show "wp (seq (set_refcounts_loop E (rs @ more)) (ret (x + a mod q_cluster_size q))) (located E a q) (full E q) q3"
      by (rule finish_ok) (use L(3,4) q02(2) ij(1) geo_trans [OF q02(1) L(2)] in simp_all)
  qed (use full_trans [OF q02] in auto)
qed

lemma map_ok:
  assumes r: "ready E i q rs q1" and ij: "data_slot q a = Data i j" "j < q_l2_entries q1"
  shows "wp (bnd (l2_entry i j) (\<lambda>m. bnd (if m = 0 then bnd (append_data_cluster E) (\<lambda>x.
        bnd (update_cluster_addr E i j x) (\<lambda>more. ret (x, rs @ more))) else ret (m, rs)) (\<lambda>(x, rs).
      seq (set_refcounts_loop E rs) (ret (x + a mod q_cluster_size q))))) (located E a q) (full E q) q1"
proof -
  note T = readyD [OF r]
  define m where "m = mapped E q1 i j"
  have ent: "l2_entry i j q1 = (Ok m, q1)" using l2_entry_ok [OF T(1,4) ij(2)] by (simp add: m_def)
  show ?thesis
  proof (cases "m = 0")
    case False
    have "slot_at E q1 (data_slot q a) = Some m" using False ij by (simp add: slot_data m_def)
    moreover have "pending E True True q1 rs q1" using T by (simp add: pending_def)
    ultimately have "wp (seq (set_refcounts_loop E rs) (ret (m + a mod q_cluster_size q))) (located E a q) (full E q) q1"
      by (intro finish_ok [OF _ T(2,3)])
    then show ?thesis by (rule wp_eq [rotated]) (use ent False in \<open>simp add: io_defs\<close>)
  next
    case True
    then have none: "slot_at E q1 (Data i j) = None" by (simp add: slot_at.simps m_def)
    have "wp (bnd (append_data_cluster E) (\<lambda>x. bnd (update_cluster_addr E i j x) (\<lambda>more. seq (set_refcounts_loop E (rs @ more))
        (ret (x + a mod q_cluster_size q))))) (located E a q) (full E q) q1"
      unfolding wp_bnd [of "append_data_cluster E"]
      by (rule wp_mono [OF append_data_cluster_ok [OF T(1)]]) (use map_new_ok [OF r ij none] full_trans [OF T(2,3)] in auto)
    then show ?thesis
      by (rule wp_eq [rotated]) (use ent True in \<open>simp add: io_defs split: prod.split outcome.split\<close>)
  qed
qed

lemma file_offset_write_ok:
  assumes q: "qok E q" and a: "a < virtual_size q"
  shows "wp (file_offset_write E a) (located E a q) (full E q) q"
proof -
  have qs: "qsafe E q" "unref_ok E q" "counted E q" using q by (simp_all add: qok_def qinv_def)
  let ?i = "l1_table_index q a" and ?j = "l2_table_index q a"
  have off: "cluster_offset (q_raw_file q) a = a mod q_cluster_size q"
    using cluster_offset_eq [OF poolD(2)] qs(1) unfolding qsafe_def q_cluster_size_def by blast
  have "wp (bnd (l2_load_or_new E ?i (q_l1 q ! ?i)) (\<lambda>rs. bnd (l2_entry ?i ?j) (\<lambda>m. bnd (if m = 0 then bnd (append_data_cluster E) (\<lambda>x.
            bnd (update_cluster_addr E ?i ?j x) (\<lambda>more. ret (x, rs @ more))) else ret (m, rs)) (\<lambda>(x, rs).
          seq (set_refcounts_loop E rs) (ret (x + a mod q_cluster_size q)))))) (located E a q) (full E q) q"
    unfolding wp_bnd [of "l2_load_or_new E ?i (q_l1 q ! ?i)"]
  proof (rule wp_mono [OF l2_load_or_new_ok [OF qs(1) index_of_size [OF qs(1) a]]])
    fix rs q1 assume t: "table_ready E ?i q rs q1"
    then have r: "ready E ?i q rs q1" using qs(2,3) by (simp add: ready_def table_ready_def)
    have "?j < q_l2_entries q1" using table_index_less [OF qs(1)] geoD(3) [OF readyD(2) [OF r]] by simp
    then show "wp (bnd (l2_entry ?i ?j) (\<lambda>m. bnd (if m = 0 then bnd (append_data_cluster E) (\<lambda>x.
        bnd (update_cluster_addr E ?i ?j x) (\<lambda>more. ret (x, rs @ more))) else ret (m, rs)) (\<lambda>(x, rs).
      seq (set_refcounts_loop E rs) (ret (x + a mod q_cluster_size q))))) (located E a q) (full E q) q1"
      by (intro map_ok [OF r]) (simp add: data_slot_def)
  qed
  then show ?thesis
    by (rule wp_eq [rotated]) (use a l1_entry_ok [OF qs(1) a] off in \<open>simp add: file_offset_write_def Let_def io_defs\<close>)
qed

lemma data_slot_inj: "data_slot q a = data_slot q b \<Longrightarrow> a div q_cluster_size q = b div q_cluster_size q"
  by (simp add: data_slot_def l1_table_index_def l2_table_index_def) (metis div_mult_mod_eq)

lemma same_slot_range:
  assumes "data_slot q b = data_slot q a"
  shows "a mod q_cluster_size q \<le> b mod q_cluster_size q \<and> b mod q_cluster_size q < a mod q_cluster_size q + n \<longleftrightarrow> a \<le> b \<and> b < a + n"
    "a \<le> b \<Longrightarrow> b mod q_cluster_size q - a mod q_cluster_size q = b - a"
proof -
  have "a = a div q_cluster_size q * q_cluster_size q + a mod q_cluster_size q"
    "b = a div q_cluster_size q * q_cluster_size q + b mod q_cluster_size q"
    using data_slot_inj [OF assms] by (simp, metis div_mult_mod_eq)
  then show "a mod q_cluster_size q \<le> b mod q_cluster_size q \<and> b mod q_cluster_size q < a mod q_cluster_size q + n \<longleftrightarrow> a \<le> b \<and> b < a + n"
    "a \<le> b \<Longrightarrow> b mod q_cluster_size q - a mod q_cluster_size q = b - a" by linarith+
qed

text \<open>A change of bytes inside one data cluster.\<close>

lemma qok_data:
  assumes q: "qok E q" and c: "slot_at E q (Data i j) = Some c" and q': "q' = q\<lparr>q_raw_file := f\<rparr>" and sh: "same_shape (q_raw_file q) f"
    and d: "\<And>x. \<not> within (q_cluster_size q) c x \<Longrightarrow> hf_data f x = q_data q x"
  shows "qok E q' \<and> geo q q' \<and> slot_at E q' = slot_at E q"
proof -
  have qs: "qsafe E q" "unref_ok E q" "counted E q" and co: "core E q" and p: "pool E q"
    using q by (simp_all add: qok_def qinv_def qsafe_def)
  note C = coreD [OF co]
  have fc: "foreign q c" "c + q_cluster_size q \<le> q_len q" using C(8,9) [OF c] by (simp_all add: whole_def)
  have apart: "hf_data f x = q_data q x" if "q_cluster_size q dvd b" "b \<noteq> c" "within (q_cluster_size q) b x" for b x
    using cluster_apart_within [OF that(1) _ that(3)] fc(1) that(2) by (intro d) (auto simp: foreign_def)
  have D: "qsafe E q' \<and> slot_at E q' = slot_at E q \<and> foreign q' = foreign q \<and> counts_same E q q' \<and> geo q q'"
  proof (rule qsafe_data [OF qs(1) q' sh], goal_cases)
    case (1 x)
    then show ?case using d [of x] fc(2) poolD(9) [OF p 1] by (auto simp: within_def)
  next
    case (2 b x)
    then obtain k where k: "slot_at E q (L2Table k) = Some b" using l1_cluster by blast
    then have "b \<noteq> c" using C(10) [OF c] by auto
    then show ?case using C(8) [OF k] 2 by (intro apart) (auto simp: foreign_def)
  next
    case (3 b x)
    then show ?case using fc(1) tables_okD(7) [OF rc_okD(5) [OF poolD(3) [OF p]]]
      by (intro apart) (auto simp: foreign_def table_cluster_def q_cluster_size_def)
  next
    case 4
    show ?case
    proof (rule disk_synced_file [OF qs(1) q' sh])
      fix r b x assume r: "slot_at E q r = Some b" "\<not> whole r" "within (q_cluster_size q) b x"
      then have "b \<noteq> c" using C(10) [OF c, of r] by (auto simp: whole_def)
      then show "hf_data f x = q_data q x" using C(8) [OF r(1)] r(3) by (intro apart) (auto simp: foreign_def)
    qed
  qed
  have "q_unref_clusters q' = q_unref_clusters q" by (simp add: q')
  then have "unref_ok E q'" using qs(2) D by (simp add: unref_ok_def unused_def)
  moreover have "counted E q'" using counted_same [OF qs(1) _ _ qs(3), of q' "{}"] D by auto
  ultimately show ?thesis using D by (simp add: qok_def qinv_def)
qed

lemma write_content:
  assumes q: "qok E q" and c: "slot_at E q (data_slot q a) = Some c"
    and n: "length bs \<le> q_cluster_size q - a mod q_cluster_size q" "a + length bs \<le> virtual_size q"
    and q': "q' = q\<lparr>q_raw_file := f\<rparr>" "same_shape (q_raw_file q) f"
    and d: "hf_data f = store (q_data q) (c + a mod q_cluster_size q) bs"
  shows "qok E q' \<and> geo q q' \<and> content E q' = store (content E q) a bs"
proof -
  have qs: "qsafe E q" and co: "core E q" using q by (simp_all add: qok_def qinv_def qsafe_def)
  have m: "x mod q_cluster_size q < q_cluster_size q" for x using qsafe_size [OF qs] by simp
  have "qok E q' \<and> geo q q' \<and> slot_at E q' = slot_at E q"
  proof (rule qok_data [OF q c [unfolded data_slot_def] q'(1,2)], goal_cases)
    case (1 x)
    then show ?case using n(1) m [of a] by (auto simp: d store_def within_def)
  qed
  then have Q: "qok E q'" "geo q q'" "slot_at E q' = slot_at E q" by auto
  have "content E q' b = store (content E q) a bs b" for b
  proof (cases "b < virtual_size q")
    case False
    then show ?thesis using n(2) geoD(1) [OF Q(2)] by (simp add: content_def store_def)
  next
    case b: True
    have raw: "q_data q' = store (q_data q) (c + a mod q_cluster_size q) bs" by (simp add: q' d)
    show ?thesis
    proof (cases "data_slot q b = data_slot q a")
      case True
      then show ?thesis using c b geoD [OF Q(2)] Q(3) raw same_slot_range(1) [OF True, of "length bs"] same_slot_range(2) [OF True]
        by (auto simp: content_def store_def)
    next
      case False
      have out: "\<not> (a \<le> b \<and> b < a + length bs)"
      proof
        assume h: "a \<le> b \<and> b < a + length bs"
        then have "b - a < q_cluster_size q - a mod q_cluster_size q" using n(1) by linarith
        then show False using data_slot_same [of q "b - a" a] qsafe_size [OF qs] False h by simp
      qed
      have "q_data q' (c' + b mod q_cluster_size q) = q_data q (c' + b mod q_cluster_size q)" if s: "slot_at E q (data_slot q b) = Some c'" for c'
      proof -
        have "c' \<noteq> c" using coreD(10) [OF co s] c False by auto
        then have "c' + q_cluster_size q \<le> c \<or> c + q_cluster_size q \<le> c'"
          using coreD(8) [OF co s] coreD(8) [OF co c] by (intro cluster_apart) (auto simp: foreign_def)
        then have "\<not> (c + a mod q_cluster_size q \<le> c' + b mod q_cluster_size q \<and>
            c' + b mod q_cluster_size q < c + a mod q_cluster_size q + length bs)"
          using m [of b] m [of a] n(1) by linarith
        then show ?thesis by (auto simp: raw store_def)
      qed
      then show ?thesis using geoD [OF Q(2)] Q(3) out b by (auto simp: content_def store_def split: option.split)
    qed
  qed
  then show ?thesis using Q by blast
qed

lemma write_piece:
  assumes q: "qok E q" and c: "slot_at E q (data_slot q a) = Some c"
    and n: "length bs \<le> q_cluster_size q - a mod q_cluster_size q" "a + length bs \<le> virtual_size q" "bs \<noteq> []"
  shows "\<exists>q'. seq (on_raw (raw_seek (c + a mod q_cluster_size q))) (on_raw (raw_write (qe_buf E) bs)) q = (Ok (length bs), q') \<and>
    qok E q' \<and> geo q q' \<and> content E q' = store (content E q) a bs"
proof -
  have qs: "qsafe E q" and co: "core E q" using q by (simp_all add: qok_def qinv_def qsafe_def)
  note T = tables_okD [OF coreD(4) [OF co]]
  let ?o = "c + a mod q_cluster_size q" and ?f = "q_raw_file q"
  have "c + q_cluster_size q \<le> q_len q" using coreD(9) [OF co c] by (simp add: data_slot_def whole_def)
  moreover have "a mod q_cluster_size q < q_cluster_size q" using qsafe_size [OF qs] by simp
  ultimately have fits: "?o + length bs \<le> q_len q" using n(1) by linarith
  let ?g = "at_pos (?o + length bs) (?f\<lparr>hf_data := store (hf_data ?f) ?o bs\<rparr>)"
  have "quiet (?f\<lparr>hf_pos := ?o, rf_position := ?o\<rparr>)" using T(1) by (simp add: quiet_def)
  moreover have "max (q_len q) (?o + length bs) = q_len q" using fits by (rule max_absorb1)
  ultimately have "raw_seek ?o ?f = (Ok ?o, ?f\<lparr>hf_pos := ?o, rf_position := ?o\<rparr>)"
    "raw_write (qe_buf E) bs (?f\<lparr>hf_pos := ?o, rf_position := ?o\<rparr>) = (Ok (length bs), ?g)"
    using fits T(2) n(3) raw_write_eq [of "?f\<lparr>hf_pos := ?o, rf_position := ?o\<rparr>" bs "qe_buf E"]
    by (simp_all add: raw_seek_eq at_pos_def)
  then have "seq (on_raw (raw_seek ?o)) (on_raw (raw_write (qe_buf E) bs)) q = (Ok (length bs), q\<lparr>q_raw_file := ?g\<rparr>)"
    by (simp add: on_raw_def zoom_def io_defs)
  then show ?thesis using write_content [OF q c n(1,2) refl, of ?g] by simp
qed

definition written :: "qcow_env \<Rightarrow> qcow_file \<Rightarrow> nat \<Rightarrow> u8 list \<Rightarrow> qcow_file \<Rightarrow> bool" where
  "written E q a buf q' \<longleftrightarrow> qok E q' \<and> geo q q' \<and> content E q' = store (content E q) a buf"

definition cut_short :: "qcow_env \<Rightarrow> qcow_file \<Rightarrow> nat \<Rightarrow> u8 list \<Rightarrow> io_err \<Rightarrow> qcow_file \<Rightarrow> bool" where
  "cut_short E q a buf e q' \<longleftrightarrow> e = OsError ENOSPC \<and> qsafe E q' \<and> geo q q' \<and>
     (\<exists>k < length buf. content E q' = store (content E q) a (take k buf))"

lemma written_then:
  assumes w: "written E q a xs q1"
  shows "written E q1 (a + length xs) ys q2 \<Longrightarrow> written E q a (xs @ ys) q2"
    "cut_short E q1 (a + length xs) ys e q2 \<Longrightarrow> cut_short E q a (xs @ ys) e q2"
proof -
  have g: "geo q q1" "content E q1 = store (content E q) a xs" using w by (simp_all add: written_def)
  show "written E q a (xs @ ys) q2" if "written E q1 (a + length xs) ys q2"
    using that geo_trans [OF g(1)] by (simp add: written_def g(2) store_append)
  show "cut_short E q a (xs @ ys) e q2" if h: "cut_short E q1 (a + length xs) ys e q2"
  proof -
    obtain k where "k < length ys" "content E q2 = store (content E q1) (a + length xs) (take k ys)"
      using h by (auto simp: cut_short_def)
    then have "length xs + k < length (xs @ ys) \<and> content E q2 = store (content E q) a (take (length xs + k) (xs @ ys))"
      by (simp add: g(2) store_append)
    then show ?thesis using h geo_trans [OF g(1)] unfolding cut_short_def by blast
  qed
qed

lemma write_loop_ok:
  "qok E q \<Longrightarrow> a + length buf \<le> virtual_size q \<Longrightarrow> length buf \<le> fuel \<Longrightarrow>
    wp (write_loop E fuel a buf) (\<lambda>_. written E q a buf) (cut_short E q a buf) q"
proof (induction fuel arbitrary: a buf q)
  case 0
  then show ?case by (simp add: write_loop.simps wp_simps written_def)
next
  case (Suc fuel)
  note q = Suc.prems(1)
  have qs: "qsafe E q" using q by (simp add: qok_def qinv_def)
  show ?case
  proof (cases "buf = []")
    case True
    then show ?thesis using q by (simp add: write_loop.simps wp_simps written_def)
  next
    case False
    have m: "a mod q_cluster_size q < q_cluster_size q" using qsafe_size [OF qs] by simp
    have loop: "write_loop E (Suc fuel) a buf = bnd (file_offset_write E a) (\<lambda>offset. bnd (gets id) (\<lambda>q.
       let count = limit_range_cluster q a (length buf)
       in seq (seq (on_raw (raw_seek offset)) (on_raw (raw_write (qe_buf E) (take count buf))))
            (write_loop E fuel (a + count) (drop count buf))))"
      using False by (subst write_loop.simps) (simp add: fun_eq_iff Let_def seq_def bnd_def split: prod.split outcome.split)
    show ?thesis unfolding loop wp_bnd [of "file_offset_write E a"]
    proof (rule wp_mono [OF file_offset_write_ok [OF q]])
      show "a < virtual_size q" using Suc.prems(2) False by (cases buf) auto
      fix off q1 assume l: "located E a q off q1"
      then obtain c where q1: "qok E q1" "geo q q1" "content E q1 = content E q" and
        c: "slot_at E q1 (data_slot q1 a) = Some c" "off = c + a mod q_cluster_size q1"
        using geoD(2,6) [of q q1] by (auto simp: located_def)
      have qs1: "qsafe E q1" using q1(1) by (simp add: qok_def qinv_def)
      note G = geoD [OF q1(2)]
      define k where "k = limit_range_cluster q1 a (length buf)"
      have k: "0 < k" "k \<le> length buf" "k \<le> q_cluster_size q1 - a mod q_cluster_size q1"
        using False m G(2) by (simp_all add: k_def limit_range_cluster_eq [OF qs1])
      obtain q2 where q2: "seq (on_raw (raw_seek off)) (on_raw (raw_write (qe_buf E) (take k buf))) q1 = (Ok (length (take k buf)), q2)"
        "qok E q2" "geo q1 q2" "content E q2 = store (content E q1) a (take k buf)"
        using write_piece [OF q1(1) c(1), of "take k buf"] k False c(2) Suc.prems(2) G(1) by auto
      have w: "written E q a (take k buf) q2" using q2 q1(3) geo_trans [OF q1(2) q2(3)] by (simp add: written_def)
      have "wp (write_loop E fuel (a + k) (drop k buf)) (\<lambda>_. written E q2 (a + k) (drop k buf)) (cut_short E q2 (a + k) (drop k buf)) q2"
        by (rule Suc.IH) (use q2(2) Suc.prems k geoD(1) [OF q2(3)] G(1) in auto)
      then have "wp (write_loop E fuel (a + k) (drop k buf)) (\<lambda>_. written E q a buf) (cut_short E q a buf) q2"
        by (rule wp_mono) (use written_then [OF w, where ys = "drop k buf"] k(2) in auto)
      then show "wp (bnd (gets id) (\<lambda>q. let count = limit_range_cluster q a (length buf)
          in seq (seq (on_raw (raw_seek off)) (on_raw (raw_write (qe_buf E) (take count buf))))
            (write_loop E fuel (a + count) (drop count buf)))) (\<lambda>_. written E q a buf) (cut_short E q a buf) q1"
        by (rule wp_eq [rotated]) (use q2(1) in \<open>simp add: bnd_def gets_def Let_def k_def [symmetric] seq_def [of "seq _ _"]\<close>)
    next
      show "cut_short E q a buf e q1" if "full E q e q1" for e q1
        using that False unfolding full_def cut_short_def by (intro conjI exI [of _ 0]) auto
    qed
  qed
qed

text \<open>A write at the guest's position.\<close>

lemma qcow_write_ok:
  assumes q: "qok E q" and n_def: "n = limit_range_file q (q_current_offset q) (length buf)"
  shows "wp (qcow_write E buf)
    (\<lambda>r q'. r = n \<and> (\<exists>q1. written E q (q_current_offset q) (take n buf) q1 \<and> q' = q1\<lparr>q_current_offset := q_current_offset q + n\<rparr>))
    (cut_short E q (q_current_offset q) (take n buf)) q"
proof -
  have n: "n \<le> length buf" by (auto simp: n_def limit_range_file_def)
  have "wp (write_loop E n (q_current_offset q) (take n buf)) (\<lambda>_. written E q (q_current_offset q) (take n buf))
      (cut_short E q (q_current_offset q) (take n buf)) q"
  proof (cases "n = 0")
    case True
    then show ?thesis using q by (simp add: write_loop.simps wp_simps written_def)
  next
    case False
    then have "q_current_offset q + n \<le> virtual_size q" using limit_range_file_fits by (simp add: n_def)
    then show ?thesis using n by (intro write_loop_ok [OF q]) simp_all
  qed
  moreover have "q_current_offset q1 = q_current_offset q" if "written E q a b q1" for a b q1
    using that geoD(7) by (simp add: written_def)
  ultimately show ?thesis unfolding qcow_write_def wp_simps Let_def id_def n_def [symmetric]
    by (elim wp_mono) (auto simp: wp_simps)
qed

end
