(* ===== verification/Qcow_Discard.thy ===== *)
theory Qcow_Discard
  imports Qcow_Write
begin

text \<open>
  Discarding ranges of an image.  Whole clusters are given up, parts of clusters are overwritten with
  zeros; either way the range reads as zeros afterwards and the image stays consistent.
\<close>

subsection \<open>The count of a cluster\<close>

lemma get_count_ok:
  assumes q: "qsafe E q" and c: "foreign q c"
  shows "\<exists>q'. on_refcounts (get_cluster_refcount E c) q = (Ok (q_count E q c), q') \<and> keep q q' \<and> calm E q q' \<and>
    (\<forall>X. counted_but X E q \<longrightarrow> counted_but X E q')"
proof -
  have p: "pool E q" using q by (simp add: qsafe_def)
  obtain t b where i: "get_refcount_index (q_refcounts q) c = (t, b)" by fastforce
  obtain rc' f' where r: "get_cluster_refcount E c (q_refcounts q, q_raw_file q) = (Ok (q_count E q c), (rc', f'))"
    "rc_same E (q_refcounts q, q_raw_file q) (rc', f')"
    using get_cluster_refcount_ok [OF poolD(3) [OF p] i range_index [OF p foreign_range [OF p c] i]] by (auto simp: q_count_def)
  define q' where "q' = q\<lparr>q_refcounts := rc', q_raw_file := f'\<rparr>"
  note P = pool_rc_same [OF p q'_def r(2)]
  have k: "calm E q q'" using calm_keep [OF q P(2,1)] .
  have "counted_but X E q'" if "counted_but X E q" for X
    unfolding counted_but_def
  proof (intro allI impI)
    fix d assume d: "used E q' d" "d \<notin> X"
    then have "used E q d" using calmD(3) [OF k] P(5) by (simp add: used_def)
    then show "q_count E q' d \<noteq> 0" using that d(2) P(4) [OF used_range [OF q]] by (simp add: counted_but_def)
  qed
  then show ?thesis using on_refcounts_eq [of "get_cluster_refcount E c" q] r(1) P(2) k by (auto simp: q'_def)
qed

subsection \<open>Unmapping\<close>

lemma unmap:
  assumes q: "qsafe E q" and v: "cm_get (q_l2_cache q) i = Some v" and j: "j < q_l2_entries q" "slot_at E q (Data i j) = Some c"
    and q': "q' = q\<lparr>q_l2_cache := cm_put i (vec_set j 0 v) (q_l2_cache q)\<rparr>"
  shows "qsafe E q'" "geo q q'" "counts_same E q q'" "slot_at E q' = (slot_at E q)(Data i j := None)" "foreign q' = foreign q"
    "unused E q' c"
proof -
  have co: "core E q" using q by (simp add: qsafe_def)
  note C = coreD [OF co]
  have i: "i < length (q_l1 q)" "q_l1 q ! i \<noteq> 0" "valid_l2 (q_cluster_size q) (vc_vec v)"
    using tables_okD(5) [OF C(4) v] by (auto simp: q_cluster_size_def)
  have view: "mapped E q i k = vc_vec v ! k" for k using i v by (simp add: mapped_def l2_view_def view_of_def table_view_def)
  have len: "length (vc_vec v) = q_l2_entries q" using i(3) C(1) by (auto simp: valid_l2_def)
  have vv: "vc_dirty (vec_set j 0 v)" "vc_vec (vec_set j 0 v) = (vc_vec v)[j := 0]" by (simp_all add: vec_set_def)
  have valid: "valid_l2 (q_cluster_size q) (vc_vec (vec_set j 0 v))"
    using i(3) set_update_subset_insert [of "vc_vec v" j 0] by (auto simp: valid_l2_def vv entry_ok_def)
  have ent: "slot_at E q (Data i k) = Some (vc_vec (vec_set j 0 v) ! k)" if "k < q_l2_entries q" "vc_vec (vec_set j 0 v) ! k \<noteq> 0" for k
    using that len by (cases "k = j") (auto simp: vv slot_data view)
  have q'': "q' = q\<lparr>q_l1_table := q_l1_table q, q_l2_cache := cm_put i (vec_set j 0 v) (q_l2_cache q)\<rparr>" by (simp add: q')
  note R = retable [OF q i(1) q'' _ disjI2 [OF refl] vv(1) valid i(2), OF _ disjI1 [OF refl] disjI1 [OF ent], simplified]
  show "qsafe E q'" using R(1) by blast
  have "reslot i (q_l1 q ! i) (vc_vec (vec_set j 0 v)) (slot_at E q) s = ((slot_at E q)(Data i j := None)) s" for s
    using len j(1) i by (cases s) (auto simp: vv slot_at.simps view nth_list_update)
  then show S: "slot_at E q' = (slot_at E q)(Data i j := None)" using R(2) by (simp add: fun_eq_iff)
  show "geo q q'" by (simp add: q' geo_def q_cluster_size_def)
  show "counts_same E q q'" by (simp add: counts_same_def q' q_count_def)
  show f: "foreign q' = foreign q" by (simp add: fun_eq_iff foreign_def q' q_cluster_size_def)
  show "unused E q' c" using C(8,10) [OF j(2)] by (auto simp: unused_def f S)
qed

text \<open>What is left of the disk when one data cluster is gone.\<close>

lemma content_unmapped:
  assumes q: "qsafe E q" and g: "geo q q'" and a: "a mod q_cluster_size q = 0"
    and s: "\<And>k l. slot_at E q' (Data k l) = (if Data k l = data_slot q a then None else slot_at E q (Data k l))"
    and d: "\<And>b x k l. slot_at E q (Data k l) = Some b \<Longrightarrow> Data k l \<noteq> data_slot q a \<Longrightarrow> within (q_cluster_size q) b x \<Longrightarrow> q_data q' x = q_data q x"
    and n: "n = q_cluster_size q" "a + n \<le> virtual_size q"
  shows "content E q' = store (content E q) a (replicate n 0)"
proof
  fix b
  have m: "0 < q_cluster_size q" using qsafe_size [OF q] by simp
  show "content E q' b = store (content E q) a (replicate n 0) b"
  proof (cases "b < virtual_size q")
    case False
    then show ?thesis using n geoD(1) [OF g] by (auto simp: content_def store_def)
  next
    case b: True
    have here: "data_slot q b = data_slot q a \<longleftrightarrow> a \<le> b \<and> b < a + n"
    proof
      assume "data_slot q b = data_slot q a"
      from same_slot_range(1) [OF this, of n] show "a \<le> b \<and> b < a + n" using a m n(1) by simp
    next
      assume h: "a \<le> b \<and> b < a + n"
      then have "b - a < n" by linarith
      then show "data_slot q b = data_slot q a" using h data_slot_same [OF m, of "b - a" a] a n(1) by simp
    qed
    show ?thesis
    proof (cases "data_slot q b = data_slot q a")
      case True
      then have "b - a < n" using here by linarith
      then show ?thesis using True s geoD(1,6) [OF g] here by (simp add: content_def store_def data_slot_def)
    next
      case False
      have "q_data q' (c + b mod q_cluster_size q) = q_data q (c + b mod q_cluster_size q)" if "slot_at E q (data_slot q b) = Some c" for c
        using d [of _ _ c] that False m by (simp add: data_slot_def within_def)
      then show ?thesis using s False geoD(1,2,6) [OF g] here by (auto simp: content_def store_def data_slot_def split: option.split)
    qed
  qed
qed

subsection \<open>Giving up a cluster\<close>

lemma punch_ok:
  assumes q: "qsafe E q" and c: "unused E q c" "c + q_cluster_size q \<le> q_len q"
  shows "\<exists>r f. (attempt (on_raw (on_contents (qe_punch E c (q_cluster_size q)))) :: (io_err + unit) qcow_io) q = (Ok r, q\<lparr>q_raw_file := f\<rparr>) \<and>
    same_shape (q_raw_file q) f \<and> (\<forall>x. \<not> within (q_cluster_size q) c x \<longrightarrow> hf_data f x = q_data q x)"
proof -
  let ?n = "q_cluster_size q" and ?f = "q_raw_file q"
  let ?g = "?f\<lparr>hf_data := zeroed (q_data q) c ?n, hf_len := q_len q\<rparr>"
  have "env_ok E" using q poolD(1) by (auto simp: qsafe_def)
  from env_okD(3) [OF this, of c ?n "q_data q" "q_len q"] show ?thesis
  proof (elim disjE exE)
    fix e assume "qe_punch E c ?n (q_data q, q_len q) = (Inl e, q_data q, q_len q)"
    then have "attempt (on_raw (on_contents (qe_punch E c ?n))) q = (Ok (Inl e), q\<lparr>q_raw_file := ?f\<rparr>)"
      by (simp add: attempt_def on_raw_def zoom_def on_contents_def)
    then show ?thesis by (intro exI [of _ "Inl e"] exI [of _ ?f]) simp
  next
    assume "qe_punch E c ?n (q_data q, q_len q) = (Inr (), zeroed (q_data q) c ?n, q_len q)"
    then have "attempt (on_raw (on_contents (qe_punch E c ?n))) q = (Ok (Inr ()), q\<lparr>q_raw_file := ?g\<rparr>)"
      by (simp add: attempt_def on_raw_def zoom_def on_contents_def)
    then show ?thesis by (intro exI [of _ "Inr ()"] exI [of _ ?g]) (simp add: same_shape_def quiet_def zeroed_def within_def)
  qed
qed

lemma qsafe_unused_data:
  assumes q: "qsafe E q" and c: "unused E q c" "c + q_cluster_size q \<le> q_len q" and sh: "same_shape (q_raw_file q) f"
    and d: "\<And>x. \<not> within (q_cluster_size q) c x \<Longrightarrow> hf_data f x = q_data q x" and q': "q' = q\<lparr>q_raw_file := f\<rparr>"
  shows "qsafe E q' \<and> slot_at E q' = slot_at E q \<and> foreign q' = foreign q \<and> counts_same E q q' \<and> geo q q'"
proof (rule qsafe_data [OF q q' sh], goal_cases)
  case (1 x)
  have "pool E q" using q by (simp add: qsafe_def)
  then show ?case using d [of x] c(2) poolD(9) 1 by (auto simp: within_def)
next
  case (2 b x)
  then obtain k where k: "slot_at E q (L2Table k) = Some b" using l1_cluster by blast
  then have "b \<noteq> c" "q_cluster_size q dvd b" using c(1) coreD(8) [OF _ k] q by (auto simp: unused_def foreign_def qsafe_def)
  then show ?case using cluster_apart_within [of _ b c x] 2(2) c(1) by (intro d) (auto simp: unused_def foreign_def)
next
  case (3 b x)
  have "pool E q" using q by (simp add: qsafe_def)
  then have "q_cluster_size q dvd b" "b \<noteq> c"
    using tables_okD(7) [OF rc_okD(5) [OF poolD(3)]] 3(1) c(1)
    by (auto simp: unused_def foreign_def table_cluster_def q_cluster_size_def)
  then show ?case using cluster_apart_within [of _ b c x] 3(2) c(1) by (intro d) (auto simp: unused_def foreign_def)
next
  case 4
  show ?case
  proof (rule disk_synced_file [OF q q' sh])
    fix r b x assume r: "slot_at E q r = Some b" "within (q_cluster_size q) b x"
    have "b \<noteq> c" "q_cluster_size q dvd b" using c(1) coreD(8) [OF _ r(1)] q r(1) by (auto simp: unused_def foreign_def qsafe_def)
    then show "hf_data f x = q_data q x" using cluster_apart_within [of _ b c x] r(2) c(1) by (intro d) (auto simp: unused_def foreign_def)
  qed
qed

text \<open>The rest of \<open>deallocate_cluster\<close> after the count was lowered to \<open>n\<close>.\<close>

definition release :: "qcow_env \<Rightarrow> nat \<Rightarrow> nat \<Rightarrow> nat \<Rightarrow> nat \<Rightarrow> u16 \<Rightarrow> unit qcow_io" where
  "release E cs i j c n = seq (l2_set i j 0) (if n = 0 then
     seq (attempt (on_raw (on_contents (qe_punch E c cs)))) (add_unref [c]) else ret ())"

lemma counted_free:
  assumes "counted_but {c} E q" "unused E q c"
  shows "counted E q"
  using assms by (auto simp: counted_but_def used_def unused_def foreign_def)

lemma release_ok:
  assumes q: "qsafe E q" "unref_ok E q" "c \<notin> set (q_unref_clusters q)" "counted_but (if n = 0 then {c} else {}) E q"
    and v: "cm_get (q_l2_cache q) i \<noteq> None" and j: "j < q_l2_entries q" "slot_at E q (Data i j) = Some c"
    and a: "data_slot q a = Data i j" "a mod q_cluster_size q = 0" "a + q_cluster_size q \<le> virtual_size q"
  shows "\<exists>q'. release E (q_cluster_size q) i j c n q = (Ok (), q') \<and> written E q a (replicate (q_cluster_size q) 0) q'"
proof -
  obtain t where t: "cm_get (q_l2_cache q) i = Some t" using v by auto
  define q1 where "q1 = q\<lparr>q_l2_cache := cm_put i (vec_set j 0 t) (q_l2_cache q)\<rparr>"
  note U = unmap [OF q(1) t j q1_def] and G = geoD [OF unmap(2) [OF q(1) t j q1_def]]
  have co: "core E q" using q(1) by (simp add: qsafe_def)
  have whole: "c + q_cluster_size q \<le> q_len q" using coreD(9) [OF co j(2)] by (simp add: whole_def)
  have set: "l2_set i j 0 q = (Ok (), q1)"
    using tables_okD(5) [OF coreD(4) [OF co] t] coreD(1) [OF co] t j(1)
    by (auto simp: l2_set_def unwrap_def vec_in_def io_defs q1_def valid_l2_def q_cluster_size_def)
  have cont: "content E q2 = store (content E q) a (replicate (q_cluster_size q) 0)"
    if g: "geo q q2" and s: "slot_at E q2 = slot_at E q1" and d: "\<And>x. \<not> within (q_cluster_size q) c x \<Longrightarrow> q_data q2 x = q_data q x" for q2
  proof (rule content_unmapped [OF q(1) g a(2) _ _ refl a(3)])
    show "slot_at E q2 (Data k l) = (if Data k l = data_slot q a then None else slot_at E q (Data k l))" for k l
      using s U(4) a(1) by auto
    fix b x k l assume h: "slot_at E q (Data k l) = Some b" "Data k l \<noteq> data_slot q a" "within (q_cluster_size q) b x"
    then have "b \<noteq> c" using coreD(10) [OF co j(2)] a(1) by auto
    then show "q_data q2 x = q_data q x"
      using cluster_apart_within [of _ b c x] h(3) coreD(8) [OF co h(1)] coreD(8) [OF co j(2)] by (intro d) (auto simp: foreign_def)
  qed
  have "counted_but ((if n = 0 then {c} else {}) \<union> {}) E q1"
    by (rule counted_same [OF q(1) U(3) _ q(4)]) (auto simp: U(4) split: if_splits)
  then have cnt: "counted E q1" using counted_free [OF _ U(6)] by (simp split: if_splits)
  have un: "unused E q1 b" if "unused E q b" for b using that by (auto simp: unused_def U(4,5))
  have un1: "unref_ok E q1" using q(2) un by (auto simp: unref_ok_def q1_def)
  show ?thesis
  proof (cases "n = 0")
    case False
    have "content E q1 = store (content E q) a (replicate (q_cluster_size q) 0)" by (rule cont [OF U(2)]) (simp_all add: q1_def)
    then show ?thesis using False set U(1,2) un1 cnt by (simp add: release_def seq_def bnd_def ret_def written_def qok_def qinv_def)
  next
    case True
    obtain r f where p: "(attempt (on_raw (on_contents (qe_punch E c (q_cluster_size q)))) :: (io_err + unit) qcow_io) q1 = (Ok r, q1\<lparr>q_raw_file := f\<rparr>)"
      "same_shape (q_raw_file q1) f" "\<And>x. \<not> within (q_cluster_size q) c x \<Longrightarrow> hf_data f x = q_data q1 x"
      using punch_ok [OF U(1,6)] whole G(2) by (auto simp: q1_def)
    define q2 where "q2 = q1\<lparr>q_raw_file := f\<rparr>"
    have D: "qsafe E q2 \<and> slot_at E q2 = slot_at E q1 \<and> foreign q2 = foreign q1 \<and> counts_same E q1 q2 \<and> geo q1 q2"
      by (rule qsafe_unused_data [OF U(1,6) _ p(2) _ q2_def]) (use whole G(2) p(3) in \<open>simp_all add: q1_def\<close>)
    let ?q3 = "q2\<lparr>q_unref_clusters := q_unref_clusters q2 @ [c]\<rparr>"
    have run: "release E (q_cluster_size q) i j c n q = (Ok (), ?q3)"
      using True set p(1) by (simp add: release_def add_unref_def io_defs q2_def)
    have "geo q q2" using D geo_trans [OF U(2)] by blast
    moreover from this have "content E q2 = store (content E q) a (replicate (q_cluster_size q) 0)"
      by (rule cont) (use D p(3) in \<open>simp_all add: q2_def q1_def\<close>)
    moreover have "counted E ?q3"
      using counted_same [OF U(1) _ _ cnt, of q2 "{}"] D by (auto simp: counted_but_def used_def)
    moreover have "unref_ok E ?q3"
      using un1 q(3) D U(6) by (auto simp: unref_ok_def unused_def q2_def q1_def)
    moreover have "geo q2 ?q3" by (simp add: geo_def)
    ultimately have "written E q a (replicate (q_cluster_size q) 0) ?q3"
      using D geo_trans by (auto simp: written_def qok_def qinv_def)
    then show ?thesis using run by blast
  qed
qed

lemma qok_calm:
  assumes "qok E q" "calm E q q'" "counted E q'"
  shows "qok E q'"
  using assms calm_unref [OF assms(2)] calmD(1) [OF assms(2)] by (simp add: qok_def qinv_def)

lemma qok_steady:
  assumes "qok E q" "steady E q q'"
  shows "qok E q'"
proof (rule qok_calm [OF assms(1) calm_steady [OF assms(2)]])
  have q: "qsafe E q" "counted E q" using assms(1) by (simp_all add: qok_def qinv_def)
  have "counted_but ({} \<union> {}) E q'"
    by (rule counted_same [OF q(1) steady_counts [OF q(1) assms(2)] _ q(2)]) (use steadyD(2) [OF assms(2)] in auto)
  then show "counted E q'" by simp
qed

lemma unmapped_zero:
  assumes q: "qok E q" and s: "slot_at E q (data_slot q a) = None" and a: "a mod q_cluster_size q = 0" "a + q_cluster_size q \<le> virtual_size q"
  shows "written E q a (replicate (q_cluster_size q) 0) q"
proof -
  have "content E q = store (content E q) a (replicate (q_cluster_size q) 0)"
    by (rule content_unmapped [OF _ geo_refl a(1) _ _ refl a(2)]) (use q s in \<open>auto simp: qok_def qinv_def\<close>)
  then show ?thesis using q by (simp add: written_def)
qed

lemma written_calm:
  assumes "geo q q1" "content E q1 = content E q" "written E q1 a bs q2"
  shows "written E q a bs q2"
  using assms geo_trans [OF assms(1)] by (simp add: written_def)

text \<open>The steps on a cluster that is mapped.\<close>

definition drop_mapped :: "qcow_env \<Rightarrow> nat \<Rightarrow> nat \<Rightarrow> nat \<Rightarrow> nat \<Rightarrow> unit qcow_io" where
  "drop_mapped E cs i j c = bnd (map_err (\<lambda>_. InvalidData) (on_refcounts (get_cluster_refcount E c))) (\<lambda>refcount.
     if refcount = 0 then throw (OsError EINVAL)
     else seq (bnd (set_cluster_refcount E c (refcount - 1)) add_unref) (release E cs i j c (refcount - 1)))"

lemma drop_mapped_ok:
  assumes q: "qok E q" and v: "cm_get (q_l2_cache q) i \<noteq> None" and j: "j < q_l2_entries q" "slot_at E q (Data i j) = Some c"
    and a: "data_slot q a = Data i j" "a mod q_cluster_size q = 0" "a + q_cluster_size q \<le> virtual_size q"
  shows "wp (drop_mapped E (q_cluster_size q) i j c) (\<lambda>_. written E q a (replicate (q_cluster_size q) 0)) (full E q) q"
proof -
  have qs: "qsafe E q" "unref_ok E q" "counted E q" and co: "core E q" using q by (simp_all add: qok_def qinv_def qsafe_def)
  have fc: "foreign q c" using coreD(8) [OF co j(2)] .
  have nz: "q_count E q c \<noteq> 0" using qs(3) j(2) by (auto simp: counted_but_def used_def)
  obtain q1 where q1: "on_refcounts (get_cluster_refcount E c) q = (Ok (q_count E q c), q1)" "keep q q1" "calm E q q1" "counted E q1"
    using get_count_ok [OF qs(1) fc] qs(3) by blast
  note K = calmD [OF q1(3)] and G = geoD [OF calmD(2) [OF q1(3)]]
  define n where "n = q_count E q c - 1"
  have u1: "unref_ok E q1" using calm_unref [OF q1(3) qs(2)] .
  have "wp (bnd (set_cluster_refcount E c n) add_unref)
      (\<lambda>_. wp (release E (q_cluster_size q) i j c n) (\<lambda>_. written E q a (replicate (q_cluster_size q) 0)) (full E q)) (full E q) q1"
  proof (rule wp_mono [OF set_count_ok [OF K(1) K(7) [OF fc]]])
    show "full E q e q2" if "full E q1 e q2" for e q2 using full_trans [OF K(2,4) that] .
    fix u q2 assume d: "count_done E c n q1 q2"
    note D = count_doneD [OF d] and G2 = geoD [OF count_doneD(2) [OF d]]
    have used: "\<not> unused E q1 c" using K(3) j(2) by (auto simp: unused_def)
    have cnt: "counted_but (if n = 0 then {c} else {}) E q2" using D(13) [OF q1(4)] used by (simp split: if_splits)
    have fresh: "c \<notin> set (q_unref_clusters q2)" using D(10) [of c] K(7) [OF fc] u1 used by (auto simp: unref_ok_def)
    have cache: "q_l2_cache q2 = q_l2_cache q" using D(6) q1(2) by (simp add: keep_but_def)
    obtain q3 where "release E (q_cluster_size q2) i j c n q2 = (Ok (), q3)" "written E q2 a (replicate (q_cluster_size q2) 0) q3"
      using release_ok [OF D(1) D(11) [OF u1] fresh cnt, of i j a] v j a cache D(3) K(3) G G2 by auto
    moreover have "geo q q2" "content E q2 = content E q" using geo_trans [OF K(2) D(2)] D(4) K(4) by simp_all
    ultimately show "wp (release E (q_cluster_size q) i j c n) (\<lambda>_. written E q a (replicate (q_cluster_size q) 0)) (full E q) q2"
      using written_calm G(2) G2(2) by (simp add: wp_def)
  qed
  then have "wp (seq (bnd (set_cluster_refcount E c n) add_unref) (release E (q_cluster_size q) i j c n))
      (\<lambda>_. written E q a (replicate (q_cluster_size q) 0)) (full E q) q1" by (simp add: wp_seq)
  then show ?thesis
    by (rule wp_eq [rotated]) (use q1(1) nz in \<open>simp add: drop_mapped_def n_def map_err_def bnd_def [of _ "\<lambda>refcount. if _ refcount then _ else _ refcount"]\<close>)
qed

lemma deallocate_cluster_ok:
  assumes q: "qok E q" and a: "a mod q_cluster_size q = 0" "a + q_cluster_size q \<le> virtual_size q"
  shows "wp (deallocate_cluster E a) (\<lambda>_. written E q a (replicate (q_cluster_size q) 0)) (full E q) q"
proof -
  have qs: "qsafe E q" using q by (simp add: qok_def qinv_def)
  let ?i = "l1_table_index q a" and ?j = "l2_table_index q a"
  have size: "a < virtual_size q" using a(2) qsafe_size [OF qs] by simp
  show ?thesis
  proof (cases "q_l1 q ! ?i = 0")
    case True
    then have "slot_at E q (data_slot q a) = None" using unmapped_l1 [OF True] by (simp add: slot_of_address [OF qs])
    then have "written E q a (replicate (q_cluster_size q) 0) q" by (rule unmapped_zero [OF q _ a])
    moreover have "deallocate_cluster E a q = (Ok (), q)"
      using size l1_entry_ok [OF qs size] True by (simp add: deallocate_cluster_def io_defs Let_def)
    ultimately show ?thesis by (simp add: wp_def)
  next
    case False
    obtain q1 where q1: "l2_load E ?i (q_l1 q ! ?i) q = (Ok (), q1)" "steady E q q1" "cm_get (q_l2_cache q1) ?i \<noteq> None"
      "l2_entry ?i ?j q1 = (Ok (mapped E q ?i ?j), q1)"
      using lookup_ok [OF qs size refl False] by blast
    define c where "c = mapped E q ?i ?j"
    note K = calmD [OF calm_steady [OF q1(2)]] and G = geoD [OF geo_steady [OF q1(2)]]
    have ok1: "qok E q1" using qok_steady [OF q q1(2)] .
    have slot: "slot_at E q1 (data_slot q1 a) = (if c = 0 then None else Some c)"
      using K(3) G(6) slot_of_address [OF qs, of a] by (simp add: c_def Let_def)
    have run: "deallocate_cluster E a q = (if c = 0 then ret () else drop_mapped E (q_cluster_size q) ?i ?j c) q1"
      using size l1_entry_ok [OF qs size] False q1(1,4)
      by (simp add: deallocate_cluster_def drop_mapped_def release_def c_def io_defs Let_def split: prod.split outcome.split)
    have "wp (if c = 0 then ret () else drop_mapped E (q_cluster_size q) ?i ?j c)
        (\<lambda>_. written E q1 a (replicate (q_cluster_size q) 0)) (full E q1) q1"
    proof (cases "c = 0")
      case True
      then show ?thesis using unmapped_zero [OF ok1, of a] slot a G by (simp add: wp_simps)
    next
      case c: False
      have "?j < q_l2_entries q1" using table_index_less [OF qs] G(3) by simp
      then show ?thesis
        using drop_mapped_ok [OF ok1 q1(3), of ?j c a] c slot a G by (simp add: data_slot_def)
    qed
    then have "wp (if c = 0 then ret () else drop_mapped E (q_cluster_size q) ?i ?j c)
        (\<lambda>_. written E q a (replicate (q_cluster_size q) 0)) (full E q) q1"
      by (rule wp_mono) (use written_calm [OF K(2,4)] full_trans [OF K(2,4)] in auto)
    then show ?thesis using run by (rule wp_eq [rotated])
  qed
qed

subsection \<open>Discarding a range\<close>

lemma store_zeros: "store d off (replicate n 0) = zeroed d off n"
  by (auto simp: store_def zeroed_def fun_eq_iff)

lemma zero_piece:
  assumes q: "qok E q" and a: "a + n \<le> virtual_size q" "n \<le> q_cluster_size q - a mod q_cluster_size q" "0 < n"
  shows "\<exists>q'. bnd (file_offset_read E a) (\<lambda>r. case r of
      Some offset \<Rightarrow> seq (on_raw (on_contents (qe_zero E offset n))) (ret ()) | None \<Rightarrow> ret ()) q = (Ok (), q') \<and>
    written E q a (replicate n 0) q'"
proof -
  have qs: "qsafe E q" using q by (simp add: qok_def qinv_def)
  obtain q1 where q1: "file_offset_read E a q =
      (Ok (map_option (\<lambda>c. c + a mod q_cluster_size q) (slot_at E q (data_slot q a))), q1)" "steady E q q1"
    using file_offset_read_ok [OF qs, of a] a by auto
  note K = calmD [OF calm_steady [OF q1(2)]] and G = geoD [OF geo_steady [OF q1(2)]]
  have ok1: "qok E q1" using qok_steady [OF q q1(2)] .
  show ?thesis
  proof (cases "slot_at E q (data_slot q a)")
    case None
    have "content E q (a + k) = 0" if "k < n" for k
      using data_slot_same [of q k a] qsafe_size [OF qs] a(2) that None by (simp add: content_def)
    then have z: "content E q b = 0" if "a \<le> b" "b < a + n" for b using that by (metis add_diff_inverse_nat add_less_cancel_left not_less)
    have "content E q = store (content E q) a (replicate n 0)" using z by (auto simp: store_zeros zeroed_def fun_eq_iff)
    then have "written E q a (replicate n 0) q1" using ok1 K(2,4) by (simp add: written_def)
    then show ?thesis using q1(1) None by (simp add: bnd_def ret_def)
  next
    case (Some c)
    have co: "core E q1" using K(1) by (simp add: qsafe_def)
    have c1: "slot_at E q1 (data_slot q1 a) = Some c" using Some K(3) G(6) by simp
    let ?o = "c + a mod q_cluster_size q1"
    let ?f = "(q_raw_file q1)\<lparr>hf_data := zeroed (q_data q1) ?o n, hf_len := max (q_len q1) (?o + n)\<rparr>"
    have "c + q_cluster_size q1 \<le> q_len q1" using coreD(9) [OF co c1] by (simp add: data_slot_def whole_def)
    moreover have "a mod q_cluster_size q1 < q_cluster_size q1" using qsafe_size [OF K(1)] by simp
    ultimately have "?o + n \<le> q_len q1" using a(2) unfolding G(2) by linarith
    then have sh: "same_shape (q_raw_file q1) ?f" by (simp add: same_shape_def max_absorb1)
    have "env_ok E" using K(1) poolD(1) by (auto simp: qsafe_def)
    then have "on_raw (on_contents (qe_zero E ?o n)) q1 = (Ok n, q1\<lparr>q_raw_file := ?f\<rparr>)"
      by (simp add: on_raw_def zoom_def on_contents_def env_okD(2))
    moreover have "qok E (q1\<lparr>q_raw_file := ?f\<rparr>) \<and> geo q1 (q1\<lparr>q_raw_file := ?f\<rparr>) \<and>
        content E (q1\<lparr>q_raw_file := ?f\<rparr>) = store (content E q1) a (replicate n 0)"
      by (rule write_content [OF ok1 c1 _ _ refl sh]) (use a G in \<open>simp_all add: store_zeros\<close>)
    then have "written E q a (replicate n 0) (q1\<lparr>q_raw_file := ?f\<rparr>)"
      using written_calm [OF K(2,4)] by (simp add: written_def)
    ultimately show ?thesis using q1(1) Some G(2) by (simp add: io_defs)
  qed
qed

lemma deallocate_loop_ok:
  "qok E q \<Longrightarrow> a + n \<le> virtual_size q \<Longrightarrow> n \<le> fuel \<Longrightarrow>
    wp (deallocate_loop E fuel a n) (\<lambda>_. written E q a (replicate n 0)) (cut_short E q a (replicate n 0)) q"
proof (induction fuel arbitrary: a n q)
  case 0
  then show ?case by (simp add: deallocate_loop.simps wp_simps written_def)
next
  case (Suc fuel)
  note q = Suc.prems(1)
  have qs: "qsafe E q" using q by (simp add: qok_def qinv_def)
  show ?case
  proof (cases "n = 0")
    case True
    then show ?thesis using q by (simp add: deallocate_loop.simps wp_simps written_def)
  next
    case False
    define k where "k = limit_range_cluster q a n"
    have m: "a mod q_cluster_size q < q_cluster_size q" using qsafe_size [OF qs] by simp
    have k: "0 < k" "k \<le> n" "k \<le> q_cluster_size q - a mod q_cluster_size q"
      using False m by (simp_all add: k_def limit_range_cluster_eq [OF qs])
    let ?step = "if k = q_cluster_size q then deallocate_cluster E a
               else bnd (file_offset_read E a) (\<lambda>r. case r of
                   Some offset \<Rightarrow> seq (on_raw (on_contents (qe_zero E offset k))) (ret ()) | None \<Rightarrow> ret ())"
    have loop: "deallocate_loop E (Suc fuel) a n q = seq ?step (deallocate_loop E fuel (a + k) (n - k)) q"
      using False by (subst deallocate_loop.simps) (simp add: bnd_def gets_def Let_def k_def [symmetric])
    have full: "cut_short E q a (replicate n 0) e q1" if "full E q e q1" for e q1
      using that False unfolding full_def cut_short_def by (intro conjI exI [of _ 0]) auto
    have step: "wp ?step (\<lambda>_. written E q a (replicate k 0)) (cut_short E q a (replicate n 0)) q"
    proof (cases "k = q_cluster_size q")
      case True
      then have "a mod q_cluster_size q = 0" using k(3) m by linarith
      then have "wp (deallocate_cluster E a) (\<lambda>_. written E q a (replicate k 0)) (full E q) q"
        using deallocate_cluster_ok [OF q, of a] True k(2) Suc.prems(2) by simp
      then show ?thesis using True by (auto intro: wp_mono full)
    next
      case False
      have "a + k \<le> virtual_size q" using k(2) Suc.prems(2) by simp
      from zero_piece [OF q this k(3,1)] show ?thesis using False by (auto simp: wp_def)
    qed
    have split: "replicate n (0 :: u8) = replicate k 0 @ replicate (n - k) 0" using k(2) by (simp flip: replicate_add)
    have rest: "wp (deallocate_loop E fuel (a + k) (n - k)) (\<lambda>_. written E q a (replicate n 0)) (cut_short E q a (replicate n 0)) q1"
      if w: "written E q a (replicate k 0) q1" for q1
    proof -
      have w1: "qok E q1" "virtual_size q1 = virtual_size q" using w geoD(1) by (auto simp: written_def)
      have "wp (deallocate_loop E fuel (a + k) (n - k)) (\<lambda>_. written E q1 (a + k) (replicate (n - k) 0))
          (cut_short E q1 (a + k) (replicate (n - k) 0)) q1"
        by (rule Suc.IH) (use w1 Suc.prems k in auto)
      then show ?thesis
        by (rule wp_mono) (use written_then [OF w, where ys = "replicate (n - k) 0"] split in auto)
    qed
    have "wp (seq ?step (deallocate_loop E fuel (a + k) (n - k))) (\<lambda>_. written E q a (replicate n 0)) (cut_short E q a (replicate n 0)) q"
      unfolding wp_seq by (rule wp_mono [OF step]) (use rest in auto)
    then show ?thesis using loop by (rule wp_eq [rotated])
  qed
qed

lemma qcow_punch_hole_ok:
  assumes q: "qok E q" and m: "m = limit_range_file q a n"
  shows "wp (qcow_punch_hole E a n) (\<lambda>_. written E q a (replicate m 0)) (cut_short E q a (replicate m 0)) q"
proof (cases "m = 0")
  case True
  then show ?thesis using q
    by (simp add: qcow_punch_hole_def deallocate_bytes_def deallocate_loop.simps wp_simps Let_def flip: m) (simp add: written_def)
next
  case False
  then have "a + m \<le> virtual_size q" "0 < n" using limit_range_file_fits [of q a n] by (auto simp: m limit_range_file_def split: if_splits)
  then show ?thesis using deallocate_loop_ok [OF q, of a m m]
    by (simp add: qcow_punch_hole_def deallocate_bytes_def wp_simps Let_def flip: m)
qed

lemma qcow_write_zeroes_ok:
  assumes q: "qok E q" and m: "m = limit_range_file q a n"
  shows "wp (qcow_write_zeroes_at E a n) (\<lambda>r q'. r = n \<and> written E q a (replicate m 0) q') (cut_short E q a (replicate m 0)) q"
  unfolding qcow_write_zeroes_at_def wp_seq by (rule wp_mono [OF qcow_punch_hole_ok [OF assms]]) (simp_all add: wp_simps)

end
