(* ===== verification/Qcow_Sync.thy ===== *)
theory Qcow_Sync
  imports Qcow_Discard
begin

text \<open>
  Flushing an image: it never fails on a sound file, changes neither the virtual disk nor the use of
  any cluster, leaves everything that is cached on disk, and releases the clusters that waited for it.
\<close>

subsection \<open>Steps of a flush\<close>

definition flushed :: "qcow_env \<Rightarrow> qcow_file \<Rightarrow> qcow_file \<Rightarrow> bool" where
  "flushed E q q' \<longleftrightarrow> qsafe E q' \<and> geo q q' \<and> slot_at E q' = slot_at E q \<and> content E q' = content E q \<and>
     foreign q' = foreign q \<and> q_unref_clusters q' = q_unref_clusters q \<and> q_avail_clusters q' = q_avail_clusters q \<and>
     q_rt q' = q_rt q \<and> q_l1 q' = q_l1 q \<and> q_len q' = q_len q \<and>
     (\<forall>c. in_range q c \<longrightarrow> q_count E q' c = q_count E q c)"

lemma flushedD:
  assumes "flushed E q q'"
  shows "qsafe E q'" "geo q q'" "slot_at E q' = slot_at E q" "content E q' = content E q" "foreign q' = foreign q"
    "q_unref_clusters q' = q_unref_clusters q" "q_avail_clusters q' = q_avail_clusters q" "q_rt q' = q_rt q"
    "q_l1 q' = q_l1 q" "q_len q' = q_len q" "in_range q c \<Longrightarrow> q_count E q' c = q_count E q c"
  using assms by (simp_all add: flushed_def)

lemma flushed_refl: "qsafe E q \<Longrightarrow> flushed E q q"
  by (simp add: flushed_def)

lemma geo_range: "geo q q' \<Longrightarrow> in_range q' = in_range q"
  by (simp add: geo_def in_range_def fun_eq_iff)

lemma flushed_trans: "flushed E q q' \<Longrightarrow> flushed E q' q'' \<Longrightarrow> flushed E q q''"
  using geo_range [of q q'] geo_trans [of q q' q''] by (simp add: flushed_def)

lemma flushed_qok:
  assumes "qok E q" "flushed E q q'"
  shows "qok E q'"
proof -
  note F = flushedD [OF assms(2)]
  have "unref_ok E q'" using assms(1) F by (simp add: qok_def qinv_def unref_ok_def unused_def)
  moreover have "used E q' = used E q" using F by (simp add: used_def fun_eq_iff)
  then have "counted E q'"
    using assms(1) F(11) used_range [of E q] by (simp add: qok_def qinv_def counted_but_def)
  ultimately show ?thesis using F(1) by (simp add: qok_def qinv_def)
qed

lemma flushed_steady:
  assumes "qsafe E q" "steady E q q'"
  shows "flushed E q q'"
proof -
  have "slot_at E q' = slot_at E q" "foreign q' = foreign q" using steadyD(2,15) [OF assms(2)] by blast+
  moreover have "in_range q c \<Longrightarrow> q_count E q' c = q_count E q c" for c
    using counts_sameD [OF _ steady_counts [OF assms]] assms(1) by (simp add: qsafe_def)
  ultimately show ?thesis using steadyD [OF assms(2)] geo_steady [OF assms(2)] by (simp add: flushed_def)
qed

subsection \<open>L2 tables and blocks of counts\<close>

definition clean_tables :: "'a cache_map \<Rightarrow> bool" where
  "clean_tables c \<longleftrightarrow> (\<forall>k v. cm_get c k = Some v \<longrightarrow> \<not> vc_dirty v)"

lemma sync_l2_ok:
  assumes q: "qsafe E q"
  shows "\<exists>q'. sync_l2 E k q = (Ok (), q') \<and> steady E q q' \<and>
    (\<forall>j v. cm_get (q_l2_cache q') j = Some v \<longrightarrow> vc_dirty v \<longrightarrow> j \<noteq> k \<and> cm_get (q_l2_cache q) j = Some v)"
proof (cases "\<exists>v. cm_get (q_l2_cache q) k = Some v \<and> vc_dirty v")
  case False
  then have "sync_l2 E k q = (Ok (), q)" by (auto simp: sync_l2_def io_defs split: option.split)
  then show ?thesis using False steady_refl [OF q] by auto
next
  case True
  then obtain v where v: "cm_get (q_l2_cache q) k = Some v" "vc_dirty v" by auto
  have co: "core E q" and en: "codec_ok (qe_be E)" using q env_okD(1) poolD(1) by (auto simp: qsafe_def)
  note C = coreD [OF co] and T = tables_okD [OF coreD(4) [OF co]]
  have k: "k < length (q_l1 q)" "q_l1 q ! k \<noteq> 0" using T(5) [OF v(1)] by auto
  obtain f' where w: "l2_write_back E (q_l1 q) k v (q_raw_file q) = (Ok (), f')"
    "l2.saved (qe_be E) (q_l1 q) k (vc_vec v) (q_raw_file q) f'"
    using l2_write_back_saved [OF en C(4) v(1)] by blast
  let ?c = "cm_put k (mark_clean v) (q_l2_cache q)"
  let ?q = "q\<lparr>q_l2_cache := ?c, q_raw_file := f'\<rparr>"
  have "sync_l2 E k q = (Ok (), ?q)"
    using v k w(1) by (simp add: sync_l2_def l2_write_back_def on_raw_def zoom_def index_def io_defs
        split: prod.splits outcome.splits)
  moreover note st = l2.saved_tables [OF en C(4) v(1) w(2), of ?c]
  have "steady E q ?q"
  proof (rule steadyI [OF q refl])
    show "same_shape (q_raw_file q) f'" using w(2) by (simp add: l2.saved_def)
    show "tables_ok (parse_l2 (qe_be E)) valid_l2 (q_l1 q) ?c f'" using st(1) by simp
    show "l2_view E ?q i = l2_view E q i" if "i < length (q_l1 q)" "q_l1 q ! i \<noteq> 0" for i
      using st(2) [OF _ that] by (simp add: l2_view_def)
    show "hf_data f' x = q_data q x" if "\<And>b. table_cluster (q_l1 q) b \<Longrightarrow> \<not> within (q_cluster_size q) b x" for x
      using l2.saved_frame [OF en _ w(2)] T(5) [OF v(1)] that [of "q_l1 q ! k"] k
      by (auto simp: table_cluster_def q_cluster_size_def)
  qed
  ultimately show ?thesis by (auto simp: mark_clean_def split: if_splits)
qed

lemma sync_l2_all:
  assumes q: "qsafe E q"
  shows "wp (bnd (gets (\<lambda>q. map fst (cm_map (q_l2_cache q)))) (\<lambda>ks. for_each ks (sync_l2 E)))
    (\<lambda>_ q'. steady E q q' \<and> clean_tables (q_l2_cache q')) (\<lambda>_ _. False) q"
proof -
  let ?I = "\<lambda>ks q'. steady E q q' \<and> (\<forall>j v. cm_get (q_l2_cache q') j = Some v \<longrightarrow> vc_dirty v \<longrightarrow> j \<in> set ks)"
  have "wp (sync_l2 E k) (\<lambda>_. ?I ks) (\<lambda>_ _. False) q1" if I: "?I (k # ks) q1" for k ks q1
  proof -
    have q1: "qsafe E q1" using I steadyD(1) by blast
    obtain q2 where r: "sync_l2 E k q1 = (Ok (), q2)" "steady E q1 q2"
      "\<forall>j v. cm_get (q_l2_cache q2) j = Some v \<longrightarrow> vc_dirty v \<longrightarrow> j \<noteq> k \<and> cm_get (q_l2_cache q1) j = Some v"
      using sync_l2_ok [OF q1, of k] by blast
    then show ?thesis using I steady_trans [OF conjunct1 [OF I] r(2)] by (auto simp: wp_def)
  qed
  moreover have "?I (map fst (cm_map (q_l2_cache q))) q"
    using steady_refl [OF q] cm_get_keys [of "q_l2_cache q"] by fastforce
  ultimately have "wp (for_each (map fst (cm_map (q_l2_cache q))) (sync_l2 E)) (\<lambda>_. ?I []) (\<lambda>_ _. False) q"
    by (rule wp_for_each)
  then show ?thesis by (simp add: wp_simps clean_tables_def)
qed

lemma flushed_rc_same:
  assumes q: "qsafe E q" and q': "q' = q\<lparr>q_refcounts := rc, q_raw_file := f\<rparr>"
    and same: "rc_same E (q_refcounts q, q_raw_file q) (rc, f)"
  shows "flushed E q q'"
proof -
  have p: "pool E q" using q by (simp add: qsafe_def)
  note P = pool_rc_same [OF p q' same]
  have c: "calm E q q'" using calm_keep [OF q P(2,1)] .
  have sh: "same_shape (q_raw_file q) f" using same by (simp add: rc_same_def)
  have "foreign q' = foreign q" using P(5) sh by (simp add: fun_eq_iff foreign_def q' q_cluster_size_def same_shape_def)
  moreover have "q_len q' = q_len q" using sh by (simp add: q' same_shape_def)
  ultimately show ?thesis using calmD(1-6) [OF c] P(4,5) by (simp add: flushed_def q')
qed

lemma flushed_blocks:
  assumes q: "qsafe E q"
  shows "wp (on_refcounts (flush_blocks E)) (\<lambda>_ q'. flushed E q q' \<and> q_l2_cache q' = q_l2_cache q \<and>
    q_l1_table q' = q_l1_table q \<and> clean_tables (rc_refblock_cache (q_refcounts q'))) (\<lambda>_ _. False) q"
  unfolding on_refcounts_def wp_zoom
proof (rule wp_mono [OF flush_blocks_ok])
  show "rc_ok E (q_refcounts q) (q_raw_file q)" using poolD(3) q by (simp add: qsafe_def)
qed (auto simp: clean_tables_def intro: flushed_rc_same [OF q refl])

lemma get_count_flushed:
  assumes q: "qsafe E q" and c: "in_range q c"
  shows "\<exists>q'. on_refcounts (get_cluster_refcount E c) q = (Ok (q_count E q c), q') \<and> flushed E q q'"
proof -
  have p: "pool E q" using q by (simp add: qsafe_def)
  obtain t b where i: "get_refcount_index (q_refcounts q) c = (t, b)" by fastforce
  obtain rc' f' where "get_cluster_refcount E c (q_refcounts q, q_raw_file q) = (Ok (q_count E q c), (rc', f'))"
    "rc_same E (q_refcounts q, q_raw_file q) (rc', f')"
    using get_cluster_refcount_ok [OF poolD(3) [OF p] i range_index [OF p c i]] by (auto simp: q_count_def)
  then show ?thesis using on_refcounts_eq [of "get_cluster_refcount E c" q] flushed_rc_same [OF q refl] by auto
qed

subsection \<open>The top-level tables\<close>

text \<open>Writing a table into the clusters set apart for it touches nothing else.\<close>

lemma part_store:
  assumes q: "qsafe E q" and P: "\<forall>k. k * q_cluster_size q < length bs \<longrightarrow> slot_at E q (P k) = Some (off + k * q_cluster_size q)"
    and n: "off + length bs \<le> q_len q"
  shows "slot_at E q s = Some c \<Longrightarrow> (\<And>k. s \<noteq> P k) \<Longrightarrow> within (q_cluster_size q) c x \<Longrightarrow> store (q_data q) off bs x = q_data q x"
    "table_cluster (q_rt q) b \<Longrightarrow> within (q_cluster_size q) b x \<Longrightarrow> store (q_data q) off bs x = q_data q x"
    "q_len q \<le> x \<Longrightarrow> store (q_data q) off bs x = 0"
proof -
  have p: "pool E q" and co: "core E q" using q by (simp_all add: qsafe_def)
  note C = coreD [OF co]
  have in_part: "\<exists>k. slot_at E q (P k) = Some (off + k * q_cluster_size q) \<and> within (q_cluster_size q) (off + k * q_cluster_size q) x"
    if x: "off \<le> x" "x < off + length bs"
  proof -
    let ?k = "(x - off) div q_cluster_size q"
    have "?k * q_cluster_size q \<le> x - off" "x - off < ?k * q_cluster_size q + q_cluster_size q"
      using qsafe_size [OF q] by (simp, metis dividend_less_div_times add.commute)
    then have "?k * q_cluster_size q < length bs" "within (q_cluster_size q) (off + ?k * q_cluster_size q) x"
      using x unfolding within_def by linarith+
    then show ?thesis using P by blast
  qed
  have same: "store (q_data q) off bs x = q_data q x" if a: "q_cluster_size q dvd a" "within (q_cluster_size q) a x" "\<And>k. slot_at E q (P k) \<noteq> Some a" for a
  proof (rule ccontr)
    assume "store (q_data q) off bs x \<noteq> q_data q x"
    then have "off \<le> x \<and> x < off + length bs" by (auto simp: store_def split: if_splits)
    then obtain k where k: "slot_at E q (P k) = Some (off + k * q_cluster_size q)" "within (q_cluster_size q) (off + k * q_cluster_size q) x"
      using in_part by blast
    moreover have "q_cluster_size q dvd off + k * q_cluster_size q" using C(8) [OF k(1)] by (simp add: foreign_def)
    ultimately show False using cluster_apart_within [OF a(1) _ a(2)] a(3) by metis
  qed
  show "store (q_data q) off bs x = q_data q x" if s: "slot_at E q s = Some c" "\<And>k. s \<noteq> P k" "within (q_cluster_size q) c x"
    using C(8) [OF s(1)] C(10) [OF s(1)] s(2,3) by (intro same [of c]) (auto simp: foreign_def)
  show "store (q_data q) off bs x = q_data q x" if b: "table_cluster (q_rt q) b" "within (q_cluster_size q) b x"
  proof (rule same [OF _ b(2)])
    show "q_cluster_size q dvd b" using tables_okD(7) [OF rc_okD(5) [OF poolD(3) [OF p]]] b(1) by (auto simp: table_cluster_def q_cluster_size_def)
    show "slot_at E q (P k) \<noteq> Some b" for k using C(8) [of "P k" b] b(1) by (auto simp: foreign_def)
  qed
  show "store (q_data q) off bs x = 0" if "q_len q \<le> x" using that n poolD(9) [OF p that] by (simp add: store_def)
qed

text \<open>States that differ only in what is marked clean.\<close>

lemma relabelled:
  assumes q: "qsafe E q" and s: "q_raw_file q' = q_raw_file q" "q_header q' = q_header q" "q_l1 q' = q_l1 q"
      "q_l2_entries q' = q_l2_entries q" "q_l2_cache q' = q_l2_cache q" "q_current_offset q' = q_current_offset q"
      "q_avail_clusters q' = q_avail_clusters q" "q_unref_clusters q' = q_unref_clusters q"
    and r: "q_refcounts q' = (q_refcounts q)\<lparr>rc_ref_table := v\<rparr>" "vc_vec v = q_rt q"
    and d: "disk_synced E q'"
  shows "flushed E q q'"
proof -
  have p: "pool E q" and co: "core E q" using q by (simp_all add: qsafe_def)
  have c: "q_cluster_size q' = q_cluster_size q" "virtual_size q' = virtual_size q" "l2_view E q' = l2_view E q"
    "q_rt q' = q_rt q" "l1_table_index q' = l1_table_index q" "l2_table_index q' = l2_table_index q"
    using s r by (simp_all add: q_cluster_size_def virtual_size_def l2_view_def l1_table_index_def l2_table_index_def fun_eq_iff)
  have "rc_ok E (q_refcounts q') (q_raw_file q')" using poolD(3) [OF p] s(1) r by (simp add: rc_ok_def)
  then have "pool E q'" using p s r c unfolding pool_def by simp
  moreover have "slot_at E q' t = slot_at E q t" for t using s r c by (cases t) (simp_all add: slot_at.simps mapped_def)
  then have sl: "slot_at E q' = slot_at E q" by blast
  moreover have f: "foreign q' = foreign q" using s r c by (simp add: fun_eq_iff foreign_def)
  moreover have "core E q'" using co d unfolding core_def sl f c s by (simp add: r)
  moreover have "content E q' = content E q" using s c sl by (simp add: fun_eq_iff content_def data_slot_def split: option.split)
  moreover have "geo q q'" using s c r by (simp add: geo_def)
  moreover have "q_count E q' a = q_count E q a" for a
    using s(1) r by (simp add: q_count_def count_of_def get_refcount_index_def block_view_def split: prod.split)
  ultimately show ?thesis using s c by (simp add: flushed_def qsafe_def)
qed

lemma write_all_nil: "write_all ptr [] = ret ()"
  by (simp add: fun_eq_iff write_all_def write_all_loop.simps io_defs)

lemma write_pointers_eq:
  assumes "quiet f" "codec_ok (qe_be E)" "off + 8 * length t \<le> hf_len f" "hf_len f < 2 ^ 63"
  shows "write_pointer_table E off t fl f =
    (Ok (), at_pos (off + 8 * length t) (f\<lparr>hf_data := store (hf_data f) off (pointer_bytes (qe_be E) fl t)\<rparr>))"
proof (cases "t = []")
  case True
  have "store (hf_data f) off [] = hf_data f" by (simp add: fun_eq_iff store_def)
  then show ?thesis using assms(3,4) True
    by (simp add: write_pointer_table_def buffered_write_def write_all_nil raw_seek_eq pointer_bytes_def at_pos_def io_defs)
qed (use write_pointer_table_eq [OF assms] in simp)

lemma file_sync_quiet: "quiet f \<Longrightarrow> file_sync f = (Ok (), f)"
  by (simp add: file_sync_def next_event_quiet quiet_def io_defs)


lemma part_flushed:
  assumes q: "qsafe E q" and P: "\<forall>k. k * q_cluster_size q < length bs \<longrightarrow> slot_at E q (P k) = Some (off + k * q_cluster_size q)"
    and n: "off + length bs \<le> q_len q" and Pn: "\<And>k. \<not> whole (P k)" and q1: "q1 = q\<lparr>q_raw_file := f\<rparr>"
    and f: "same_shape (q_raw_file q) f" "hf_data f = store (q_data q) off bs" and d1: "disk_synced E q1"
  shows "flushed E q q1"
proof -
  note W = part_store [OF q P n]
  have ne: "s \<noteq> P k" if "whole s" for s k using Pn that by metis
  have D: "qsafe E q1 \<and> slot_at E q1 = slot_at E q \<and> foreign q1 = foreign q \<and> counts_same E q q1 \<and> geo q q1"
  proof (rule qsafe_data [OF q q1 f(1) _ _ _ d1])
    show "hf_data f x = q_data q x" if b: "table_cluster (q_l1 q) b" "within (q_cluster_size q) b x" for b x
    proof -
      obtain i where "slot_at E q (L2Table i) = Some b" using b(1) l1_cluster by blast
      from W(1) [OF this ne b(2)] show ?thesis by (simp add: f(2) whole_def)
    qed
    show "hf_data f x = q_data q x" if "table_cluster (q_rt q) b" "within (q_cluster_size q) b x" for b x
      using W(2) [OF that] by (simp add: f(2))
    show "hf_data f x = 0" if "q_len q \<le> x" for x using W(3) [OF that] by (simp add: f(2))
  qed
  have "hf_data f (c + x) = q_data q (c + x)" if "slot_at E q (Data i j) = Some c" "x < q_cluster_size q" for i j c x
    unfolding f(2) by (rule W(1) [OF that(1) ne]) (use that(2) in \<open>simp_all add: within_def whole_def\<close>)
  then have "content E q1 = content E q"
    by (intro content_cong [OF _ _ q]) (use D in \<open>auto simp: q1 split: option.split\<close>)
  moreover have "in_range q c \<Longrightarrow> q_count E q1 c = q_count E q c" for c using counts_sameD [of E q q1] D q by (auto simp: qsafe_def)
  ultimately show ?thesis using D f(1) by (simp add: flushed_def q1 same_shape_def)
qed

lemma table_entry_less:
  assumes "pool E q" "tables_ok parse valid ptrs c (q_raw_file q)" "a \<in> set ptrs"
  shows "a < 2 ^ 56" "q_cluster_size q dvd a"
proof -
  obtain i where i: "i < length ptrs" "a = ptrs ! i" using assms(3) by (auto simp: in_set_conv_nth)
  show "a < 2 ^ 56" "q_cluster_size q dvd a"
    using tables_okD(7) [OF assms(2) i(1)] i(2) poolD(5,8) [OF assms(1)] by (cases "a = 0"; fastforce simp: q_cluster_size_def)+
qed

lemma l1_entry_masked:
  assumes q: "qsafe E q" and a: "a \<in> set (q_l1 q)"
  shows "unat (of_nat a AND L1_TABLE_OFFSET_MASK) = a"
proof -
  have p: "pool E q" and co: "core E q" using q by (simp_all add: qsafe_def)
  have "512 dvd q_cluster_size q" using cluster_geomD(2) [OF poolD(2) [OF p]] by (simp add: q_cluster_size_def)
  then have "entry_ok a" using table_entry_less [OF p coreD(4) [OF co] a] by (auto simp: entry_ok_def intro: dvd_trans)
  then show ?thesis by (rule entry_flags(3))
qed

lemma sync_l1_ok:
  assumes q: "qsafe E q"
  shows "\<exists>b q'. sync_l1 E q = (Ok b, q') \<and> flushed E q q' \<and> q_l2_cache q' = q_l2_cache q \<and> q_refcounts q' = q_refcounts q \<and>
    \<not> vc_dirty (q_l1_table q')"
proof (cases "vc_dirty (q_l1_table q)")
  case False
  then have "sync_l1 E q = (Ok False, q)" by (simp add: sync_l1_def io_defs)
  then show ?thesis using False flushed_refl [OF q] by blast
next
  case True
  have p: "pool E q" and co: "core E q" and en: "codec_ok (qe_be E)" using q env_okD(1) poolD(1) by (auto simp: qsafe_def)
  note C = coreD [OF co] and T = tables_okD [OF coreD(4) [OF co]] and big = qsafe_large [OF q]
  let ?bs = "pointer_bytes (qe_be E) 0 (q_l1 q)" and ?off = "l1_offset q"
  have bs: "length ?bs = 8 * length (q_l1 q)" using length_pointer_bytes [OF en] .
  define f where "f = at_pos (?off + 8 * length (q_l1 q)) ((q_raw_file q)\<lparr>hf_data := store (q_data q) ?off ?bs\<rparr>)"
  have f: "same_shape (q_raw_file q) f" "hf_data f = store (q_data q) ?off ?bs" by (simp_all add: f_def)
  have "write_pointer_table E ?off (q_l1 q) 0 (q_raw_file q) = (Ok (), f)"
    unfolding f_def by (rule write_pointers_eq [OF T(1) en C(6) T(2)])
  then have run: "sync_l1 E q = (Ok True, q\<lparr>q_raw_file := f, q_l1_table := mark_clean (q_l1_table q)\<rparr>)"
    using True by (simp add: sync_l1_def on_raw_def zoom_def io_defs)
  have part: "\<forall>k. k * q_cluster_size q < length ?bs \<longrightarrow> slot_at E q (L1Part k) = Some (?off + k * q_cluster_size q)"
    by (simp add: slot_at.simps bs)
  have fits: "?off + length ?bs \<le> q_len q" using C(6) bs by simp
  note W = part_store [OF q part fits]
  define q1 where "q1 = q\<lparr>q_raw_file := f\<rparr>"
  have "bytes_at (hf_data f) 0 104 = bytes_at (q_data q) 0 104"
    unfolding f(2) by (rule disk_bytes(1) [OF big], rule W(1) [of Header 0]) auto
  moreover have "bytes_at (hf_data f) (rt_offset q) (8 * length (q_rt q)) = bytes_at (q_data q) (rt_offset q) (8 * length (q_rt q))"
    unfolding f(2) by (rule disk_bytes(3) [OF big, where E = E], rule W(1)) auto
  ultimately have d1: "disk_synced E q1"
    using C(11) True f(1) by (simp add: disk_synced_def q1_def rt_disk_def same_shape_def)
  have F: "flushed E q q1" by (rule part_flushed [OF q part fits _ q1_def f d1]) (auto simp: whole_def)
  let ?q2 = "q1\<lparr>q_l1_table := mark_clean (q_l1_table q1)\<rparr>"
  note e = l1_entry_masked [OF q]
  have "bytes_at (hf_data f) ?off (8 * length (q_l1 q)) = ?bs" using slice_store [of "q_data q" ?off ?bs] bs f(2) by simp
  then have "l1_disk E ?q2 = q_l1 q"
    using e by (simp add: l1_disk_def q1_def mark_clean_def u64s_pointer_bytes [OF en] mask_entry_def map_idI)
  then have "disk_synced E ?q2" using d1 by (simp add: disk_synced_def mark_clean_def rt_disk_def q1_def)
  then have "flushed E q1 ?q2"
    using flushedD(1) [OF F] by (intro relabelled [where v = "rc_ref_table (q_refcounts q1)"]) (simp_all add: mark_clean_def)
  then show ?thesis using run flushed_trans [OF F] by (auto simp: q1_def mark_clean_def)
qed

lemma flush_table_ok:
  assumes q: "qsafe E q"
  shows "\<exists>b q'. on_refcounts (flush_table E) q = (Ok b, q') \<and> flushed E q q' \<and> q_l2_cache q' = q_l2_cache q \<and>
    q_l1_table q' = q_l1_table q \<and> rc_refblock_cache (q_refcounts q') = rc_refblock_cache (q_refcounts q) \<and>
    \<not> vc_dirty (rc_ref_table (q_refcounts q'))"
proof (cases "vc_dirty (rc_ref_table (q_refcounts q))")
  case False
  then have "on_refcounts (flush_table E) q = (Ok False, q)" by (simp add: flush_table_def on_refcounts_def zoom_def io_defs)
  then show ?thesis using False flushed_refl [OF q] by blast
next
  case True
  have p: "pool E q" and co: "core E q" and en: "codec_ok (qe_be E)" using q env_okD(1) poolD(1) by (auto simp: qsafe_def)
  note C = coreD [OF co] and T = tables_okD [OF rc_okD(5) [OF poolD(3) [OF p]]] and big = qsafe_large [OF q]
  let ?bs = "pointer_bytes (qe_be E) 0 (q_rt q)" and ?off = "rt_offset q"
  have bs: "length ?bs = 8 * length (q_rt q)" using length_pointer_bytes [OF en] .
  define f where "f = at_pos (?off + 8 * length (q_rt q)) ((q_raw_file q)\<lparr>hf_data := store (q_data q) ?off ?bs\<rparr>)"
  have f: "same_shape (q_raw_file q) f" "hf_data f = store (q_data q) ?off ?bs" by (simp_all add: f_def)
  have "write_pointer_table E ?off (q_rt q) 0 (q_raw_file q) = (Ok (), f)"
    unfolding f_def by (rule write_pointers_eq [OF T(1) en C(7) T(2)])
  then have run: "on_refcounts (flush_table E) q = (Ok True, q\<lparr>q_raw_file := f,
      q_refcounts := (q_refcounts q)\<lparr>rc_ref_table := mark_clean (rc_ref_table (q_refcounts q))\<rparr>\<rparr>)"
    using True by (simp add: flush_table_def on_refcounts_def on_file_def on_rc_def zoom_def io_defs)
  have part: "\<forall>k. k * q_cluster_size q < length ?bs \<longrightarrow> slot_at E q (RtPart k) = Some (?off + k * q_cluster_size q)"
    by (simp add: slot_at.simps bs)
  have fits: "?off + length ?bs \<le> q_len q" using C(7) bs by simp
  note W = part_store [OF q part fits]
  define q1 where "q1 = q\<lparr>q_raw_file := f\<rparr>"
  have "bytes_at (hf_data f) 0 104 = bytes_at (q_data q) 0 104"
    unfolding f(2) by (rule disk_bytes(1) [OF big], rule W(1) [of Header 0]) auto
  moreover have "bytes_at (hf_data f) (l1_offset q) (8 * length (q_l1 q)) = bytes_at (q_data q) (l1_offset q) (8 * length (q_l1 q))"
    unfolding f(2) by (rule disk_bytes(2) [OF big, where E = E], rule W(1)) auto
  ultimately have d1: "disk_synced E q1"
    using C(11) True f(1) by (simp add: disk_synced_def q1_def l1_disk_def same_shape_def)
  have F: "flushed E q q1" by (rule part_flushed [OF q part fits _ q1_def f d1]) (auto simp: whole_def)
  let ?q2 = "q1\<lparr>q_refcounts := (q_refcounts q)\<lparr>rc_ref_table := mark_clean (rc_ref_table (q_refcounts q))\<rparr>\<rparr>"
  have e: "unat (of_nat a :: u64) = a" if "a \<in> set (q_rt q)" for a
    using table_entry_less(1) [OF p rc_okD(5) [OF poolD(3) [OF p]] that] by (simp add: unat_of_nat_small)
  have "bytes_at (hf_data f) ?off (8 * length (q_rt q)) = ?bs" using slice_store [of "q_data q" ?off ?bs] bs f(2) by simp
  then have "rt_disk E ?q2 = q_rt q"
    using e by (simp add: rt_disk_def q1_def mark_clean_def u64s_pointer_bytes [OF en] mask_entry_def map_idI)
  then have "disk_synced E ?q2" using d1 by (simp add: disk_synced_def mark_clean_def l1_disk_def q1_def)
  then have "flushed E q1 ?q2"
    using flushedD(1) [OF F] by (intro relabelled [where v = "mark_clean (rc_ref_table (q_refcounts q))"]) (simp_all add: mark_clean_def q1_def)
  then show ?thesis using run flushed_trans [OF F] by (auto simp: q1_def mark_clean_def)
qed


subsection \<open>Flushing\<close>

definition settled :: "qcow_file \<Rightarrow> bool" where
  "settled q \<longleftrightarrow> clean_tables (q_l2_cache q) \<and> clean_tables (rc_refblock_cache (q_refcounts q)) \<and>
     \<not> vc_dirty (q_l1_table q) \<and> \<not> vc_dirty (rc_ref_table (q_refcounts q))"

lemma sync_caches_ok:
  assumes q: "qsafe E q"
  shows "wp (sync_caches E) (\<lambda>_ q'. flushed E q q' \<and> settled q') (\<lambda>_ _. False) q"
  unfolding sync_caches_def wp_seq
proof (rule wp_mono [OF sync_l2_all [OF q]], goal_cases)
  case (1 _ q1)
  then have F1: "flushed E q q1" and c1: "clean_tables (q_l2_cache q1)" using flushed_steady [OF q] by auto
  show ?case
  proof (rule wp_mono [OF flushed_blocks [OF flushedD(1) [OF F1]]], goal_cases)
    case (1 _ q2)
    have q2: "qsafe E q2" using 1 flushedD(1) by blast
    have quiet: "on_raw file_sync q' = (Ok (), q')" if "qsafe E q'" for q'
      using that file_sync_quiet [OF tables_okD(1) [OF coreD(4)], of E q'] by (simp add: qsafe_def on_raw_def zoom_def)
    obtain b q3 where r3: "sync_l1 E q2 = (Ok b, q3)" "flushed E q2 q3" "q_l2_cache q3 = q_l2_cache q2"
      "q_refcounts q3 = q_refcounts q2" "\<not> vc_dirty (q_l1_table q3)" using sync_l1_ok [OF q2] by blast
    have q3: "qsafe E q3" using flushedD(1) [OF r3(2)] .
    obtain b' q4 where r4: "on_refcounts (flush_table E) q3 = (Ok b', q4)" "flushed E q3 q4" "q_l2_cache q4 = q_l2_cache q3"
      "q_l1_table q4 = q_l1_table q3" "rc_refblock_cache (q_refcounts q4) = rc_refblock_cache (q_refcounts q3)"
      "\<not> vc_dirty (rc_ref_table (q_refcounts q4))" using flush_table_ok [OF q3] by blast
    have "flushed E q q4" using 1 F1 r3(2) r4(2) by (blast intro: flushed_trans)
    moreover have "settled q4" using 1 c1 r3 r4 by (simp add: settled_def)
    moreover have "(if b \<or> b' then on_raw file_sync else ret ()) q4 = (Ok (), q4)"
      using quiet [OF flushedD(1) [OF r4(2)]] by (simp add: ret_def)
    ultimately show ?case by (simp add: wp_def seq_def bnd_def quiet [OF q2] r3(1) r4(1))
  qed simp
qed simp

text \<open>Clusters in no use may become available.\<close>

lemma reclaimed:
  assumes q: "qok E q" and q': "q' = q\<lparr>q_avail_clusters := q_avail_clusters q @ cs, q_unref_clusters := u\<rparr>"
    and cs: "distinct cs" "\<And>c. c \<in> set cs \<Longrightarrow> unused E q c"
    and u: "distinct u" "set u \<subseteq> set (q_unref_clusters q)" "set u \<inter> set cs = {}"
  shows "qok E q' \<and> geo q q' \<and> slot_at E q' = slot_at E q \<and> content E q' = content E q"
proof -
  have qs: "qsafe E q" "unref_ok E q" "counted E q" and p: "pool E q" and co: "core E q"
    using q by (simp_all add: qok_def qinv_def qsafe_def)
  have v: "q_raw_file q' = q_raw_file q" "q_header q' = q_header q" "q_l1_table q' = q_l1_table q" "q_l2_entries q' = q_l2_entries q"
    "q_l2_cache q' = q_l2_cache q" "q_refcounts q' = q_refcounts q" "q_current_offset q' = q_current_offset q"
    "q_avail_clusters q' = q_avail_clusters q @ cs" "q_unref_clusters q' = u"
    by (simp_all add: q')
  have s: "q_cluster_size q' = q_cluster_size q" "virtual_size q' = virtual_size q" "l2_view E q' = l2_view E q"
    "l1_table_index q' = l1_table_index q" "l2_table_index q' = l2_table_index q"
    by (simp_all add: v q_cluster_size_def virtual_size_def l2_view_def l1_table_index_def l2_table_index_def fun_eq_iff)
  have "slot_at E q' t = slot_at E q t" for t using s by (cases t) (simp_all add: slot_at.simps mapped_def v)
  then have sl: "slot_at E q' = slot_at E q" by blast
  have fgn: "foreign q' c \<longleftrightarrow> foreign q c \<and> c \<notin> set cs" for c by (auto simp: foreign_def s(1) v)
  have "\<forall>c \<in> set cs. c \<noteq> 0 \<and> q_cluster_size q dvd c \<and> c < q_len q \<and> \<not> table_cluster (q_rt q) c \<and>
      c \<notin> set (q_avail_clusters q)"
    using unused_nonzero [OF cs(2)] cs(2) by (simp add: unused_def foreign_def)
  then have "pool E q'" using p cs(1) unfolding pool_def s(1) by (auto simp: v)
  moreover have "disk_synced E q'" using coreD(11) [OF co] by (simp add: v disk_synced_def l1_disk_def rt_disk_def)
  moreover have "foreign q' c" if "slot_at E q t = Some c" for t c using coreD(8) [OF co that] cs(2) that by (auto simp: fgn unused_def)
  ultimately have safe: "qsafe E q'" using co unfolding qsafe_def core_def sl s by (simp add: v)
  have "q_count E q' = q_count E q" "used E q' = used E q" by (simp_all add: fun_eq_iff q_count_def used_def sl v)
  moreover have "unref_ok E q'" using qs(2) u unfolding unref_ok_def unused_def sl fgn v by blast
  ultimately have "qok E q'" using safe qs(3) by (simp add: qok_def qinv_def counted_but_def)
  moreover have "content E q' = content E q"
    by (simp add: fun_eq_iff content_def data_slot_def s sl v split: option.split)
  moreover have "geo q q'" using s by (simp add: geo_def v)
  ultimately show ?thesis using sl by simp
qed

lemma qcow_flush_ok:
  assumes q: "qok E q"
  shows "wp (qcow_flush E) (\<lambda>_ q'. qok E q' \<and> geo q q' \<and> slot_at E q' = slot_at E q \<and> content E q' = content E q \<and>
    settled q' \<and> q_unref_clusters q' = []) (\<lambda>_ _. False) q"
  unfolding qcow_flush_def wp_seq wp_modify
proof (rule wp_mono [OF sync_caches_ok], goal_cases)
  case (2 _ q1)
  note F = flushedD [OF conjunct1 [OF 2]]
  let ?q2 = "q1\<lparr>q_avail_clusters := q_avail_clusters q1 @ q_unref_clusters q1, q_unref_clusters := []\<rparr>"
  have "settled ?q2" using 2 by (simp add: settled_def)
  moreover have "qok E ?q2 \<and> geo q1 ?q2 \<and> slot_at E ?q2 = slot_at E q1 \<and> content E ?q2 = content E q1"
    by (rule reclaimed [where u = "[]"]) (use flushed_qok [OF q] 2 in \<open>auto simp: qok_def qinv_def unref_ok_def\<close>)
  ultimately show ?case using 2 F(2-4) geo_trans [OF F(2), of ?q2] by simp
qed (use q in \<open>simp_all add: qok_def qinv_def\<close>)


end
