(* ===== verification/Qcow_Run.thy ===== *)
theory Qcow_Run
  imports Qcow_Sync
begin

text \<open>
  The contract of an image towards its user: a flat array of bytes with a cursor.  Every operation on
  an open image is a step of that array, reads return what was last written, and the only failures are
  an invalid seek and a full image, after which the array holds a prefix of the data.  Nothing is said
  about calls after that: the image may then have lost a table (see \<open>Qcow_Contract\<close>).
\<close>

subsection \<open>Operations\<close>

datatype disk_op = DRead nat | DWrite "u8 list" | DSeek seek_from | DPunch nat nat | DZero nat nat | DFlush |
  DData nat | DHole nat

datatype disk_res = Bytes "u8 list" | Count nat | Done | Found "nat option"

fun exec :: "qcow_env \<Rightarrow> disk_op \<Rightarrow> disk_res qcow_io" where
  "exec E (DRead n) = bnd (qcow_read E n) (\<lambda>bs. ret (Bytes bs))"
| "exec E (DWrite buf) = bnd (qcow_write E buf) (\<lambda>n. ret (Count n))"
| "exec E (DSeek pos) = bnd (qcow_seek pos) (\<lambda>n. ret (Count n))"
| "exec E (DPunch a n) = seq (qcow_punch_hole E a n) (ret Done)"
| "exec E (DZero a n) = bnd (qcow_write_zeroes_at E a n) (\<lambda>n. ret (Count n))"
| "exec E DFlush = seq (qcow_flush E) (ret Done)"
| "exec E (DData a) = bnd (seek_data E a) (\<lambda>r. ret (Found r))"
| "exec E (DHole a) = bnd (seek_hole E a) (\<lambda>r. ret (Found r))"

text \<open>A sequence of operations, up to the first that finds the image full.\<close>

fun run_ops :: "qcow_env \<Rightarrow> disk_op list \<Rightarrow> qcow_file \<Rightarrow> (io_err + disk_res) list option \<times> qcow_file" where
  "run_ops E [] q = (Some [], q)"
| "run_ops E (op # ops) q = (case exec E op q of
     (Ok x, q1) \<Rightarrow> (case run_ops E ops q1 of (rs, q') \<Rightarrow> (map_option ((#) (Inr x)) rs, q'))
   | (Err e, q1) \<Rightarrow> if e = OsError ENOSPC then (Some [Inl e], q1)
       else (case run_ops E ops q1 of (rs, q') \<Rightarrow> (map_option ((#) (Inl e)) rs, q'))
   | (_, q1) \<Rightarrow> (None, q1))"

subsection \<open>The flat disk\<close>

definition accessible :: "nat \<Rightarrow> nat \<Rightarrow> nat \<Rightarrow> nat" where
  "accessible n a m = (if a + m \<ge> 2 ^ 64 \<or> a > n then 0 else min m (n - a))"

definition seek_target :: "nat \<Rightarrow> nat \<Rightarrow> seek_from \<Rightarrow> nat option" where
  "seek_target n p pos = (case pos of SeekStart off \<Rightarrow> Some off | SeekEnd off \<Rightarrow> seek_by n off | SeekCurrent off \<Rightarrow> seek_by p off)"

type_synonym flat = "(nat \<Rightarrow> u8) \<times> nat"

inductive flat_step :: "nat \<Rightarrow> flat \<Rightarrow> disk_op \<Rightarrow> io_err + disk_res \<Rightarrow> flat \<Rightarrow> bool" for n where
  do_read: "k = accessible n p m \<Longrightarrow> flat_step n (d, p) (DRead m) (Inr (Bytes (bytes_at d p k))) (d, p + k)"
| do_write: "k = accessible n p (length buf) \<Longrightarrow>
    flat_step n (d, p) (DWrite buf) (Inr (Count k)) (store d p (take k buf), p + k)"
| do_write_full: "k < accessible n p (length buf) \<Longrightarrow>
    flat_step n (d, p) (DWrite buf) (Inl (OsError ENOSPC)) (store d p (take k buf), p)"
| do_seek: "seek_target n p pos = Some a \<Longrightarrow> a \<le> n \<Longrightarrow> flat_step n (d, p) (DSeek pos) (Inr (Count a)) (d, a)"
| do_seek_bad: "seek_target n p pos = None \<or> seek_target n p pos = Some a \<and> n < a \<Longrightarrow>
    flat_step n (d, p) (DSeek pos) (Inl (OsError EINVAL)) (d, p)"
| do_punch: "flat_step n (d, p) (DPunch a m) (Inr Done) (zeroed d a (accessible n a m), p)"
| do_punch_full: "k < accessible n a m \<Longrightarrow> flat_step n (d, p) (DPunch a m) (Inl (OsError ENOSPC)) (zeroed d a k, p)"
| do_zero: "flat_step n (d, p) (DZero a m) (Inr (Count m)) (zeroed d a (accessible n a m), p)"
| do_zero_full: "k < accessible n a m \<Longrightarrow> flat_step n (d, p) (DZero a m) (Inl (OsError ENOSPC)) (zeroed d a k, p)"
| do_flush: "flat_step n (d, p) DFlush (Inr Done) (d, p)"
| do_data: "a \<le> x \<Longrightarrow> x < n \<Longrightarrow> (\<And>y. a \<le> y \<Longrightarrow> y < x \<Longrightarrow> d y = 0) \<Longrightarrow> flat_step n (d, p) (DData a) (Inr (Found (Some x))) (d, x)"
| do_no_data: "(\<And>y. a \<le> y \<Longrightarrow> d y = 0) \<Longrightarrow> flat_step n (d, p) (DData a) (Inr (Found None)) (d, p)"
| do_hole: "a \<le> x \<Longrightarrow> x \<le> n \<Longrightarrow> a < n \<Longrightarrow> d x = 0 \<Longrightarrow> flat_step n (d, p) (DHole a) (Inr (Found (Some x))) (d, x)"
| do_no_hole: "n \<le> a \<Longrightarrow> flat_step n (d, p) (DHole a) (Inr (Found None)) (d, p)"

inductive flat_run :: "nat \<Rightarrow> flat \<Rightarrow> disk_op list \<Rightarrow> (io_err + disk_res) list \<Rightarrow> flat \<Rightarrow> bool" for n where
  finished: "flat_run n s [] [] s"
| disk_full: "flat_step n s op (Inl (OsError ENOSPC)) s' \<Longrightarrow> flat_run n s (op # ops) [Inl (OsError ENOSPC)] s'"
| continue: "flat_step n s op r s1 \<Longrightarrow> r \<noteq> Inl (OsError ENOSPC) \<Longrightarrow> flat_run n s1 ops rs s' \<Longrightarrow>
    flat_run n s (op # ops) (r # rs) s'"

definition flat_of :: "qcow_env \<Rightarrow> qcow_file \<Rightarrow> flat" where
  "flat_of E q = (content E q, q_current_offset q)"

subsection \<open>Every operation is a step of the flat disk\<close>

lemma qok_offset [simp]: "qok E (q\<lparr>q_current_offset := p\<rparr>) = qok E q"
  by (simp add: qok_def counted_but_def used_def q_count_def)

lemma limit_accessible: "limit_range_file q a m = accessible (virtual_size q) a m"
  by (simp add: limit_range_file_def accessible_def)

lemma store_zeroes: "store d a (replicate k 0) = zeroed d a k"
  by (auto simp: fun_eq_iff store_def zeroed_def)

text \<open>What a step of the image has to establish.\<close>

definition stepped :: "qcow_env \<Rightarrow> disk_op \<Rightarrow> qcow_file \<Rightarrow> io_err + disk_res \<Rightarrow> qcow_file \<Rightarrow> bool" where
  "stepped E op q r q' \<longleftrightarrow> flat_step (virtual_size q) (flat_of E q) op r (flat_of E q') \<and>
     virtual_size q' = virtual_size q \<and> (r \<noteq> Inl (OsError ENOSPC) \<longrightarrow> qok E q')"

lemma stepped_write:
  assumes q: "qok E q"
  shows "wp (exec E (DWrite buf)) (\<lambda>x. stepped E (DWrite buf) q (Inr x)) (\<lambda>e. stepped E (DWrite buf) q (Inl e)) q"
proof -
  let ?n = "limit_range_file q (q_current_offset q) (length buf)"
  have ok: "stepped E (DWrite buf) q (Inr (Count ?n)) q'"
    if "written E q (q_current_offset q) (take ?n buf) q1" "q' = q1\<lparr>q_current_offset := q_current_offset q + ?n\<rparr>" for q' q1
    using that flat_step.do_write [of ?n "virtual_size q" "q_current_offset q" buf "content E q"] geoD(1) [of q q1]
    by (simp add: stepped_def written_def flat_of_def limit_accessible)
  have bad: "stepped E (DWrite buf) q (Inl e) q'" if c: "cut_short E q (q_current_offset q) (take ?n buf) e q'" for e q'
  proof -
    obtain k where k: "k < length (take ?n buf)" "content E q' = store (content E q) (q_current_offset q) (take k (take ?n buf))"
      using c unfolding cut_short_def by blast
    then have "k < ?n" "content E q' = store (content E q) (q_current_offset q) (take k buf)" by (simp_all add: min_def split: if_splits)
    then show ?thesis
      using c flat_step.do_write_full [of k "virtual_size q" "q_current_offset q" buf "content E q"] geoD(1,7) [of q q']
      by (simp add: stepped_def cut_short_def flat_of_def limit_accessible)
  qed
  show ?thesis unfolding exec.simps wp_bnd wp_ret
    by (rule wp_mono [OF qcow_write_ok [OF q refl]]) (use ok bad in auto)
qed

lemma stepped_zero:
  assumes "written E q a (replicate (limit_range_file q a m) 0) q'"
  shows "stepped E (DPunch a m) q (Inr Done) q'" "stepped E (DZero a m) q (Inr (Count m)) q'"
  using assms geoD(1,7) [of q q'] flat_step.do_punch [of "virtual_size q" "content E q" "q_current_offset q" a m]
    flat_step.do_zero [of "virtual_size q" "content E q" "q_current_offset q" a m]
  by (auto simp: stepped_def written_def flat_of_def limit_accessible store_zeroes)

lemma stepped_zero_full:
  assumes "cut_short E q a (replicate (limit_range_file q a m) 0) e q'"
  shows "stepped E (DPunch a m) q (Inl e) q'" "stepped E (DZero a m) q (Inl e) q'"
proof -
  obtain k where k: "k < accessible (virtual_size q) a m" "content E q' = zeroed (content E q) a k"
    using assms by (auto simp: cut_short_def store_zeroes limit_accessible min_def)
  then show "stepped E (DPunch a m) q (Inl e) q'" "stepped E (DZero a m) q (Inl e) q'"
    using assms geoD(1,7) [of q q'] flat_step.do_punch_full [OF k(1), of "content E q" "q_current_offset q"]
      flat_step.do_zero_full [OF k(1), of "content E q" "q_current_offset q"]
    by (simp_all add: stepped_def cut_short_def flat_of_def)
qed

lemma stepped_discard:
  assumes q: "qok E q"
  shows "wp (exec E (DPunch a m)) (\<lambda>x. stepped E (DPunch a m) q (Inr x)) (\<lambda>e. stepped E (DPunch a m) q (Inl e)) q"
    "wp (exec E (DZero a m)) (\<lambda>x. stepped E (DZero a m) q (Inr x)) (\<lambda>e. stepped E (DZero a m) q (Inl e)) q"
  unfolding exec.simps wp_bnd wp_seq wp_ret
  by (rule wp_mono [OF qcow_punch_hole_ok [OF q refl]] wp_mono [OF qcow_write_zeroes_ok [OF q refl]],
      auto intro: stepped_zero stepped_zero_full)+

lemma stepped_steady:
  assumes "qok E q" "steady E q q'"
  shows "qok E q'" "virtual_size q' = virtual_size q" "flat_of E q' = flat_of E q" "flat_of E (q'\<lparr>q_current_offset := x\<rparr>) = (content E q, x)"
  using flushed_qok [OF assms(1) flushed_steady] assms steadyD [OF assms(2)] by (simp_all add: qok_def qinv_def flat_of_def)

lemma stepped_read:
  assumes q: "qok E q"
  shows "wp (exec E (DRead m)) (\<lambda>x. stepped E (DRead m) q (Inr x)) (\<lambda>e. stepped E (DRead m) q (Inl e)) q"
proof -
  let ?k = "limit_range_file q (q_current_offset q) m"
  obtain q1 q2 where r: "qcow_read E m q = (Ok (bytes_at (content E q) (q_current_offset q) ?k), q2)" "steady E q q1"
    "q2 = q1\<lparr>q_current_offset := q_current_offset q + ?k\<rparr>"
    using qcow_read_ok [of E q m] q unfolding qok_def qinv_def by blast
  have "stepped E (DRead m) q (Inr (Bytes (bytes_at (content E q) (q_current_offset q) ?k))) q2"
    using stepped_steady [OF q r(2)] flat_step.do_read [of ?k "virtual_size q" "q_current_offset q" m "content E q"] r(3)
    by (simp add: stepped_def flat_of_def limit_accessible)
  then show ?thesis by (simp add: wp_def bnd_def ret_def r(1))
qed

lemma stepped_seek:
  assumes q: "qok E q"
  shows "wp (exec E (DSeek pos)) (\<lambda>x. stepped E (DSeek pos) q (Inr x)) (\<lambda>e. stepped E (DSeek pos) q (Inl e)) q"
proof -
  let ?t = "seek_target (virtual_size q) (q_current_offset q) pos"
  have "stepped E (DSeek pos) q (Inr (Count a)) (q\<lparr>q_current_offset := a\<rparr>)" if "?t = Some a" "a \<le> virtual_size q" for a
    using q flat_step.do_seek [OF that] by (simp add: stepped_def flat_of_def)
  moreover have "stepped E (DSeek pos) q (Inl (OsError EINVAL)) q" if "?t = None \<or> ?t = Some a \<and> virtual_size q < a" for a
    using q flat_step.do_seek_bad [OF that] by (simp add: stepped_def flat_of_def)
  ultimately show ?thesis
    by (simp add: wp_simps qcow_seek_def Let_def flip: seek_target_def split: option.split) (auto simp: wp_simps)
qed

lemma stepped_flush:
  assumes q: "qok E q"
  shows "wp (exec E DFlush) (\<lambda>x. stepped E DFlush q (Inr x)) (\<lambda>e. stepped E DFlush q (Inl e)) q"
  unfolding exec.simps wp_seq wp_ret
  by (rule wp_mono [OF qcow_flush_ok [OF q]]) (auto simp: stepped_def flat_of_def geoD(1,7) intro: flat_step.do_flush)

lemma unallocated_zero: "\<not> allocated_at E q a \<Longrightarrow> content E q a = 0" "virtual_size q \<le> a \<Longrightarrow> content E q a = 0"
  by (simp_all add: allocated_at_def content_def split: option.split)

lemma stepped_data:
  assumes q: "qok E q"
  shows "wp (exec E (DData a)) (\<lambda>x. stepped E (DData a) q (Inr x)) (\<lambda>e. stepped E (DData a) q (Inl e)) q"
proof -
  obtain r q1 where f: "find_allocated_cluster E a True q = (Ok r, q1)" "steady E q q1" "first_such E q True a r"
    using find_allocated_cluster_ok [of E q a True] q by (auto simp: qok_def qinv_def)
  note S = stepped_steady [OF q f(2)]
  show ?thesis
  proof (cases r)
    case None
    then have "\<And>y. a \<le> y \<Longrightarrow> content E q y = 0" using f(3) unallocated_zero by (fastforce simp: first_such_def)
    then have "stepped E (DData a) q (Inr (Found None)) q1"
      using S(1-3) by (simp add: stepped_def) (simp add: flat_of_def flat_step.do_no_data)
    then show ?thesis using None f(1) by (simp add: seek_data_def wp_def io_defs)
  next
    case (Some x)
    then have x: "a \<le> x" "x < virtual_size q" "\<And>y. a \<le> y \<Longrightarrow> y < x \<Longrightarrow> content E q y = 0"
      using f(3) unallocated_zero(1) by (auto simp: first_such_def)
    then have "stepped E (DData a) q (Inr (Found (Some x))) (q1\<lparr>q_current_offset := x\<rparr>)"
      using S(1,2,4) flat_step.do_data [OF x] by (simp add: stepped_def) (simp add: flat_of_def)
    then show ?thesis using Some f(1) x(2) S(2) by (simp add: seek_data_def qcow_seek_def wp_def io_defs)
  qed
qed

lemma stepped_hole:
  assumes q: "qok E q"
  shows "wp (exec E (DHole a)) (\<lambda>x. stepped E (DHole a) q (Inr x)) (\<lambda>e. stepped E (DHole a) q (Inl e)) q"
proof -
  obtain r q1 where f: "find_allocated_cluster E a False q = (Ok r, q1)" "steady E q q1" "first_such E q False a r"
    using find_allocated_cluster_ok [of E q a False] q by (auto simp: qok_def qinv_def)
  note S = stepped_steady [OF q f(2)]
  have step: "stepped E (DHole a) q (Inr (Found (Some x))) (q1\<lparr>q_current_offset := x\<rparr>)"
    if "a \<le> x" "x \<le> virtual_size q" "a < virtual_size q" "content E q x = 0" for x
    using S(1,2,4) flat_step.do_hole [OF that(1-3), of "content E q"] that(4) by (simp add: stepped_def) (simp add: flat_of_def)
  show ?thesis
  proof (cases r)
    case (Some x)
    then have x: "a \<le> x" "x < virtual_size q" "content E q x = 0" using f(3) unallocated_zero(1) by (auto simp: first_such_def)
    then show ?thesis using Some f(1) S(2) step [of x] by (simp add: seek_hole_def qcow_seek_def wp_def io_defs)
  next
    case None
    show ?thesis
    proof (cases "a < virtual_size q")
      case True
      have "virtual_size q < 2 ^ 64" using coreD(2) [of E q] q by (simp add: qok_def qinv_def qsafe_def)
      then show ?thesis using True None f(1) S(2) step [of "virtual_size q"] unallocated_zero(2) [of q "virtual_size q"]
        by (simp add: seek_hole_def qcow_seek_def seek_by_def wp_def io_defs)
    next
      case False
      then have "stepped E (DHole a) q (Inr (Found None)) q1"
        using S(1-3) by (simp add: stepped_def) (simp add: flat_of_def flat_step.do_no_hole)
      then show ?thesis using False None f(1) S(2) by (simp add: seek_hole_def wp_def io_defs)
    qed
  qed
qed

lemma exec_stepped:
  assumes "qok E q"
  shows "wp (exec E op) (\<lambda>x. stepped E op q (Inr x)) (\<lambda>e. stepped E op q (Inl e)) q"
  by (cases op) (simp_all only: stepped_read [OF assms] stepped_write [OF assms] stepped_seek [OF assms]
    stepped_discard [OF assms] stepped_flush [OF assms] stepped_data [OF assms] stepped_hole [OF assms])

lemma run_refines:
  assumes "qok E q"
  shows "\<exists>rs q'. run_ops E ops q = (Some rs, q') \<and> flat_run (virtual_size q) (flat_of E q) ops rs (flat_of E q')"
  using assms
proof (induction ops arbitrary: q)
  case Nil
  then show ?case by (simp add: flat_run.finished)
next
  case (Cons op ops)
  note W = exec_stepped [OF Cons.prems, of op, unfolded wp_def]
  have go: "\<exists>rs q'. (case run_ops E ops q1 of (rs, q') \<Rightarrow> (map_option ((#) r) rs, q')) = (Some rs, q') \<and>
      flat_run (virtual_size q) (flat_of E q) (op # ops) rs (flat_of E q')"
    if "stepped E op q r q1" "r \<noteq> Inl (OsError ENOSPC)" for r q1
    using that Cons.IH [of q1] by (fastforce simp: stepped_def intro: flat_run.continue)
  obtain r q1 where e: "exec E op q = (r, q1)" by fastforce
  show ?case
  proof (cases r)
    case (Ok x)
    then show ?thesis using W e go [of "Inr x" q1] by simp
  next
    case (Err x)
    then show ?thesis using W e go [of "Inl x" q1] by (auto simp: stepped_def intro: flat_run.disk_full)
  qed (use W e in simp_all)
qed


end
