(* ===== verification/Qcow_Contract.thy ===== *)
theory Qcow_Contract
  imports Qcow_Run
begin

text \<open>
  What an open image promises, stated over the operations of the source and instantiated with a small
  image: its header, an L1 table, the table of the reference counts and a block of counts, and in the
  variant that cannot grow any more an L2 table that maps nothing.
\<close>

subsection \<open>A small image\<close>

definition be_impl :: le_codec where
  "be_impl = \<lparr>read_u16 = (\<lambda>bs. le_value (rev (take 2 bs))), read_u32 = (\<lambda>bs. le_value (rev (take 4 bs))),
     read_u64 = (\<lambda>bs. le_value (rev (take 8 bs))), enc_u16 = (\<lambda>v. rev (le_bytes 2 v)), enc_u32 = (\<lambda>v. rev (le_bytes 4 v)),
     enc_u64 = (\<lambda>v. rev (le_bytes 8 v))\<rparr>"

definition small_env :: qcow_env where
  "small_env = \<lparr>qe_be = be_impl, qe_buf = 0, qe_pick = hd,
     qe_zero = (\<lambda>off n (d, l). (Inr n, (zeroed d off n, max l (off + n)))),
     qe_punch = (\<lambda>off n (d, l). (Inr (), (zeroed d off n, l)))\<rparr>"

definition small_header :: qcow_header where
  "small_header = \<lparr>qh_magic = QCOW_MAGIC, qh_version = 3, qh_backing_file_offset = 0, qh_backing_file_size = 0,
     qh_cluster_bits = 9, qh_size = 32768, qh_crypt_method = 0, qh_l1_size = 1, qh_l1_table_offset = 512,
     qh_refcount_table_offset = 1024, qh_refcount_table_clusters = 1, qh_nb_snapshots = 0, qh_snapshots_offset = 0,
     qh_incompatible_features = 0, qh_compatible_features = 0, qh_autoclear_features = 0, qh_refcount_order = 4,
     qh_header_size = 104\<rparr>"

definition small_counts :: "u16 list" where
  "small_counts = replicate 5 1 @ replicate 251 0"

definition small_data :: "nat \<Rightarrow> u8" where
  "small_data = store (store (store (\<lambda>_. 0) 0 (header_bytes be_impl small_header))
     1024 (pointer_bytes be_impl 0 [1536, 0])) 1536 (count_bytes be_impl small_counts)"

definition small_raw :: "bool \<Rightarrow> qcow_raw_file" where
  "small_raw big = \<lparr>hf_data = small_data, hf_len = (if big then 262144 else 2048), hf_pos = 0, hf_script = [], rf_alignment = 0, rf_position = 0,
     qr_cluster_size = 512, qr_cluster_mask = 511\<rparr>"

definition small_image :: "bool \<Rightarrow> qcow_file" where
  "small_image big = \<lparr>q_raw_file = small_raw big, q_header = small_header,
     q_l1_table = (if big then vec_set 0 2048 (vec_cache_from_vec [0]) else vec_cache_from_vec [0]), q_l2_entries = 64,
     q_l2_cache = (if big then cm_put 0 (vec_cache_from_vec (replicate 64 0)) (cache_map_new 100) else cache_map_new 100),
     q_refcounts = \<lparr>rc_ref_table = vec_cache_from_vec [1536, 0], rc_refcount_table_offset = 1024,
       rc_refblock_cache = cache_map_new 50, rc_refcount_block_entries = 256, rc_cluster_size = 512,
       rc_max_valid_cluster_offset = 261632\<rparr>,
     q_current_offset = 0, q_unref_clusters = [], q_avail_clusters = []\<rparr>"

lemma codec_ok_be_impl: "codec_ok be_impl"
  by (simp add: codec_ok_def be_impl_def le_value_bytes take_bit_word_eq_self)

lemma env_ok_small: "env_ok small_env"
  using codec_ok_be_impl by (simp add: env_ok_def small_env_def)

lemma slice_store_other: "off + n \<le> a \<or> a + length bs \<le> off \<Longrightarrow> bytes_at (store d a bs) off n = bytes_at d off n"
  by (rule slice_cong) (auto simp: store_def)

lemma small_lengths: "length (header_bytes be_impl h) = 104" "length (pointer_bytes be_impl fl [a, b]) = 16"
  "length (count_bytes be_impl small_counts) = 512"
  by (simp_all add: length_header_bytes length_pointer_bytes length_count_bytes codec_ok_be_impl small_counts_def)

lemma small_slices:
  "bytes_at small_data 0 104 = header_bytes be_impl small_header"
  "bytes_at small_data 1024 16 = pointer_bytes be_impl 0 [1536, 0]"
  "bytes_at small_data 1536 512 = count_bytes be_impl small_counts"
  "bytes_at small_data 512 8 = replicate 8 0"
proof -
  show "bytes_at small_data 0 104 = header_bytes be_impl small_header"
    using slice_store [of "\<lambda>_. 0" 0 "header_bytes be_impl small_header"]
    by (simp add: small_data_def slice_store_other small_lengths)
  show "bytes_at small_data 1024 16 = pointer_bytes be_impl 0 [1536, 0]"
    using slice_store [of "store (\<lambda>_. 0) 0 (header_bytes be_impl small_header)" 1024 "pointer_bytes be_impl 0 [1536, 0]"]
    by (simp add: small_data_def slice_store_other small_lengths)
  show "bytes_at small_data 1536 512 = count_bytes be_impl small_counts"
    using slice_store [of _ 1536 "count_bytes be_impl small_counts"] by (simp add: small_data_def small_lengths)
  show "bytes_at small_data 512 8 = replicate 8 0"
    by (simp add: small_data_def slice_store_other small_lengths) (rule nth_equalityI, simp_all)
qed

lemma small_fields:
  "q_raw_file (small_image big) = (small_raw big)" "hf_len (small_raw big) = (if big then 262144 else 2048)"
  "q_l1 (small_image big) = (if big then [2048] else [0])" "vc_dirty (q_l1_table (small_image big)) = big"
  "q_rt (small_image big) = [1536, 0]" "rt_offset (small_image big) = 1024" "unat (qh_l1_table_offset small_header) = 512"
  "q_l2_entries (small_image big) = 64" "q_cluster_size (small_image big) = 512" "virtual_size (small_image big) = 32768"
  "q_header (small_image big) = small_header" "q_avail_clusters (small_image big) = []" "q_unref_clusters (small_image big) = []"
  "cm_get (q_l2_cache (small_image big)) i = (if big \<and> i = 0 then Some (vec_cache_from_vec (replicate 64 0)) else None)"
  "hf_data (small_raw big) = small_data" "q_max (small_image big) = 261632" "qr_cluster_mask (small_raw big) = 511"
  by (simp_all add: small_image_def small_raw_def small_header_def vec_cache_from_vec_def vec_set_def q_cluster_size_def virtual_size_def
      cache_map_new_def cm_get_def cm_put_def)

lemma small_image_rc: "rc_ok small_env (q_refcounts (small_image big)) (small_raw big)"
proof -
  have "tables_ok (parse_counts be_impl) valid_counts [1536, 0] (cache_map_new 50) (small_raw big)"
    by (auto simp: tables_ok_def tables_synced_def small_raw_def quiet_def cache_map_new_def cm_get_def less_Suc_eq nth_Cons')
  then show ?thesis using codec_ok_be_impl by (simp add: rc_ok_def small_image_def small_env_def vec_cache_from_vec_def small_raw_def)
qed

lemma small_image_counts: "q_count small_env (small_image big) (k * 512) = (if k < 5 then 1 else 0)" if "k < 256"
proof -
  have "parse_counts be_impl (bytes_at small_data 1536 512) = Some small_counts"
    using rb.parse_image [OF codec_ok_be_impl, of 512 small_counts] by (simp add: small_slices valid_counts_def small_counts_def)
  then show ?thesis using that
    by (simp add: q_count_def count_of_def get_refcount_index_def small_image_def vec_cache_from_vec_def block_view_def view_of_def
        table_view_def cache_map_new_def cm_get_def small_raw_def small_env_def) (simp add: small_counts_def nth_append)
qed

lemma small_image_pool: "pool small_env (small_image big)"
proof -
  have "small_data x = 0" if "2048 \<le> x" for x using that by (simp add: small_data_def store_def small_lengths)
  moreover have "cluster_geom (small_raw big)" unfolding cluster_geom_def small_raw_def by (auto intro!: bexI [of _ 9])
  ultimately show ?thesis using env_ok_small small_image_rc
    by (simp add: pool_def) (simp add: small_image_def small_raw_def q_cluster_size_def vec_cache_from_vec_def dvd_def)
qed

lemma small_slots:
  "slot_at E (small_image big) s = Some c \<longleftrightarrow> s = Header \<and> c = 0 \<or> s = L1Part 0 \<and> c = 512 \<or> s = RtPart 0 \<and> c = 1024 \<or>
     big \<and> s = L2Table 0 \<and> c = 2048"
  by (cases s) (auto simp: slot_at.simps mapped_def small_fields l2_view_def view_of_def table_view_def vec_cache_from_vec_def split: if_splits)

lemma small_table_cluster: "table_cluster [1536, 0] c \<longleftrightarrow> c = 1536"
  by (auto simp: table_cluster_def less_Suc_eq nth_Cons')

lemma small_synced: "disk_synced small_env (small_image big)"
proof -
  have "parse_header be_impl (header_bytes be_impl small_header) = Some (as_version small_header)"
    by (rule parse_header_bytes [OF codec_ok_be_impl]) (simp add: small_header_def)
  moreover have "as_version small_header = small_header" "clear_lazy small_header = small_header"
    by (simp_all add: as_version_def clear_lazy_def small_header_def)
  moreover have "map (mask_entry (Some L1_TABLE_OFFSET_MASK)) (u64s be_impl 1 (replicate 8 0)) = [0]"
    by (simp add: u64s_def mask_entry_def be_impl_def le_value_def numeral_eq_Suc)
  moreover have "map (mask_entry None) (u64s be_impl (Suc (Suc 0)) (pointer_bytes be_impl 0 [1536, 0])) = [1536, 0]"
  proof -
    have "u64s be_impl (Suc (Suc 0)) (pointer_bytes be_impl 0 [1536, 0]) = [1536, 0]"
      using u64s_pointer_bytes [OF codec_ok_be_impl, of "[1536, 0]" 0] by simp
    then show ?thesis by (simp add: mask_entry_def)
  qed
  moreover have "unat (qh_l1_table_offset small_header) = 512" by (simp add: small_header_def)
  ultimately show ?thesis
    by (simp add: disk_synced_def l1_disk_def rt_disk_def small_fields small_env_def small_slices)
qed

lemma small_l2: "parse_l2 be_impl (replicate 512 0) = Some (replicate 64 0)"
proof -
  have "u64s be_impl 64 (replicate 512 0) = replicate 64 0"
    by (rule nth_equalityI) (simp_all add: u64s_def be_impl_def le_value_def numeral_eq_Suc)
  then show ?thesis by (simp add: parse_l2_def Let_def)
qed

lemma small_l2_tables:
  "tables_ok (parse_l2 be_impl) valid_l2 (q_l1 (small_image big)) (q_l2_cache (small_image big)) (small_raw big)"
proof -
  have "bytes_at small_data 2048 512 = replicate 512 0"
    by (simp add: small_data_def slice_store_other small_lengths) (rule nth_equalityI, simp_all)
  moreover have "0 < cm_capacity (q_l2_cache (small_image big))" by (simp add: small_image_def cache_map_new_def)
  moreover have "entry_ok 0" by (simp add: entry_ok_def)
  ultimately show ?thesis using small_l2
    by (auto simp: tables_ok_def tables_synced_def small_fields small_raw_def quiet_def valid_l2_def vec_cache_from_vec_def split: if_splits)
qed

lemma small_core: "core small_env (small_image big)"
proof -
  have "\<exists>t. l2_view small_env (small_image big) i = Some t \<and> valid_l2 512 t" if "big" "i = 0" for i
    using that by (simp add: l2_view_def view_of_def table_view_def small_fields vec_cache_from_vec_def valid_l2_def entry_ok_def)
  moreover have "foreign (small_image big) c \<and> (whole s \<longrightarrow> c + 512 \<le> q_len (small_image big))"
    if "slot_at small_env (small_image big) s = Some c" for s c
    using that unfolding small_slots by (auto simp: foreign_def small_table_cluster whole_def small_fields dvd_def)
  moreover have "s = s'" if "slot_at small_env (small_image big) s = Some c" "slot_at small_env (small_image big) s' = Some c" for s s' c
    using that unfolding small_slots by auto
  moreover have "l1_table_index (small_image big) a = 0" if "a < 32768" for a using that by (simp add: l1_table_index_def small_fields)
  moreover have "qe_be small_env = be_impl" by (simp add: small_env_def)
  ultimately show ?thesis using small_synced small_l2_tables unfolding core_def by (auto simp: small_fields)
qed

lemma small_qok: "qok small_env (small_image big)"
proof -
  have "q_count small_env (small_image big) c \<noteq> 0" if "used small_env (small_image big) c" for c
  proof -
    have "c \<in> {0 * 512, 1 * 512, 2 * 512, 3 * 512, 4 * 512}"
      using that unfolding used_def small_slots small_fields small_table_cluster by auto
    then show ?thesis using small_image_counts [of 0] small_image_counts [of 1] small_image_counts [of 2] small_image_counts [of 3] small_image_counts [of 4]
      by auto
  qed
  then show ?thesis using small_image_pool small_core
    by (simp add: qok_def qinv_def qsafe_def unref_ok_def counted_but_def small_fields)
qed


subsection \<open>A flat disk\<close>

text \<open>C3. Refinement. Every sequence of reads, writes, seeks, hole punches, zeroing, flushes and searches for
  data and holes on a consistent image, up to the first call that finds the image full, runs without
  panicking or hanging, and returns what a flat array of
  bytes of the virtual size with a cursor returns; a seek outside the disk is refused, and the only other
  failure is a full image, with which the sequence ends and the array holds a prefix of the data of the failed call.\<close>

theorem qcow_refines_flat_disk:
  assumes "qok E q"
  shows "\<exists>rs q'. run_ops E ops q = (Some rs, q') \<and>
    flat_run (virtual_size q) (content E q, q_current_offset q) ops rs (content E q', q_current_offset q')"
  using run_refines [OF assms, of ops] by (simp add: flat_of_def)

theorem qcow_refines_flat_disk_witness:
  "\<exists>rs q'. run_ops small_env [DWrite [1, 2, 3], DSeek (SeekStart 0), DRead 3, DPunch 0 512, DFlush] (small_image False) = (Some rs, q') \<and>
    flat_run 32768 (content small_env (small_image False), 0)
      [DWrite [1, 2, 3], DSeek (SeekStart 0), DRead 3, DPunch 0 512, DFlush] rs (content small_env q', q_current_offset q')"
proof -
  have "q_current_offset (small_image False) = 0" by (simp add: small_image_def)
  then show ?thesis
    using qcow_refines_flat_disk [OF small_qok, of "[DWrite [1, 2, 3], DSeek (SeekStart 0), DRead 3, DPunch 0 512, DFlush]" False]
    by (simp only: small_fields)
qed

subsection \<open>Use of clusters\<close>

text \<open>A run that did not find the image full ends in a consistent image.\<close>

lemma run_qok:
  assumes "qok E q" "run_ops E ops q = (Some rs, q')" "Inl (OsError ENOSPC) \<notin> set rs"
  shows "qok E q'"
  using assms
proof (induction ops arbitrary: q rs)
  case (Cons op ops)
  have W: "case exec E op q of (Ok x, q1) \<Rightarrow> qok E q1 | (Err e, q1) \<Rightarrow> e \<noteq> OsError ENOSPC \<longrightarrow> qok E q1 | _ \<Rightarrow> False"
    using exec_stepped [OF Cons.prems(1), of op] by (auto simp: wp_def stepped_def split: prod.splits outcome.splits)
  obtain r q1 where e: "exec E op q = (r, q1)" by fastforce
  show ?case
  proof (cases r)
    case (Ok x)
    then show ?thesis using W e Cons.IH [of q1] Cons.prems(2,3) by (auto split: prod.splits option.splits)
  next
    case (Err x)
    then show ?thesis using W e Cons.IH [of q1] Cons.prems(2,3) by (auto split: prod.splits option.splits if_splits)
  qed (use W e in simp_all)
qed simp

text \<open>C13. Invariant. After any sequence of operations that did not find the image full, no cluster of the
  file has two uses (header, part of the L1 or the reference count table, L2 table, or data of one guest
  cluster), every cluster in use or holding counts has a count above zero, and none of them is waiting to
  be freed or free to be handed out.\<close>

theorem qcow_clusters_exclusive:
  assumes "qok E q"
  shows "case run_ops E ops q of
      (Some rs, q') \<Rightarrow> Inl (OsError ENOSPC) \<in> set rs \<or>
        (\<forall>s s' c. slot_at E q' s = Some c \<and> slot_at E q' s' = Some c \<longrightarrow> s = s') \<and>
        (\<forall>c. used E q' c \<longrightarrow> q_count E q' c \<noteq> 0 \<and> c \<notin> set (q_avail_clusters q') \<and> c \<notin> set (q_unref_clusters q'))
    | (None, _) \<Rightarrow> False"
proof -
  obtain rs q' where r: "run_ops E ops q = (Some rs, q')" using run_refines [OF assms] by blast
  have "(\<forall>s s' c. slot_at E q' s = Some c \<and> slot_at E q' s' = Some c \<longrightarrow> s = s') \<and>
      (\<forall>c. used E q' c \<longrightarrow> q_count E q' c \<noteq> 0 \<and> c \<notin> set (q_avail_clusters q') \<and> c \<notin> set (q_unref_clusters q'))"
    if n: "Inl (OsError ENOSPC) \<notin> set rs"
  proof -
    have q': "qok E q'" using run_qok [OF assms r n] .
    then have co: "core E q'" and p: "pool E q'" and u: "unref_ok E q'" and k: "counted E q'"
      by (simp_all add: qok_def qinv_def qsafe_def)
    have "c \<notin> set (q_avail_clusters q') \<and> c \<notin> set (q_unref_clusters q')" if "used E q' c" for c
      using that coreD(8) [OF co] poolD(11) [OF p, of c] u by (auto simp: used_def foreign_def unref_ok_def unused_def)
    then show ?thesis using coreD(10) [OF co] k unfolding counted_but_def by blast
  qed
  then show ?thesis using r by auto
qed

theorem qcow_clusters_exclusive_witness:
  "case run_ops small_env [DWrite [1, 2, 3], DFlush, DPunch 0 512] (small_image False) of
      (Some rs, q') \<Rightarrow> Inl (OsError ENOSPC) \<in> set rs \<or>
        (\<forall>s s' c. slot_at small_env q' s = Some c \<and> slot_at small_env q' s' = Some c \<longrightarrow> s = s') \<and>
        (\<forall>c. used small_env q' c \<longrightarrow> q_count small_env q' c \<noteq> 0 \<and> c \<notin> set (q_avail_clusters q') \<and> c \<notin> set (q_unref_clusters q'))
    | (None, _) \<Rightarrow> False"
  by (rule qcow_clusters_exclusive [OF small_qok])

subsection \<open>Writing and reading back\<close>

text \<open>C15. Round trip. A write that returns has stored as many bytes as fit before the end of the disk: reading at
  the same position returns them, every other byte of the disk is as before and the image is consistent.  A write
  that fails reports a full image, and the disk then differs from before by a proper prefix of the data.\<close>

theorem qcow_write_read_back:
  assumes "qok E q" "n = limit_range_file q (q_current_offset q) (length buf)"
  shows "case qcow_write E buf q of
      (Ok m, q1) \<Rightarrow> m = n \<and> qok E q1 \<and>
        (\<exists>q2. qcow_read E (length buf) (q1\<lparr>q_current_offset := q_current_offset q\<rparr>) = (Ok (take n buf), q2)) \<and>
        (\<forall>a. a < q_current_offset q \<or> q_current_offset q + n \<le> a \<longrightarrow> content E q1 a = content E q a)
    | (Err e, q1) \<Rightarrow> e = OsError ENOSPC \<and> (\<exists>k < n. content E q1 = store (content E q) (q_current_offset q) (take k buf))
    | _ \<Rightarrow> False"
proof -
  let ?p = "q_current_offset q"
  have n: "n \<le> length buf" using assms(2) by (auto simp: limit_range_file_def)
  have ok: "qok E q1 \<and> (\<exists>q2. qcow_read E (length buf) (q1\<lparr>q_current_offset := ?p\<rparr>) = (Ok (take n buf), q2)) \<and>
      (\<forall>a. a < ?p \<or> ?p + n \<le> a \<longrightarrow> content E q1 a = content E q a)"
    if w: "written E q ?p (take n buf) q'" and q1: "q1 = q'\<lparr>q_current_offset := ?p + n\<rparr>" for q1 q'
  proof -
    have q': "qok E q'" "geo q q'" "content E q' = store (content E q) ?p (take n buf)" using w by (simp_all add: written_def)
    have "limit_range_file (q1\<lparr>q_current_offset := ?p\<rparr>) ?p (length buf) = n"
      using assms(2) geoD(1) [OF q'(2)] by (simp add: q1 limit_range_file_def)
    moreover have "bytes_at (store (content E q) ?p (take n buf)) ?p n = take n buf"
      using slice_store [of "content E q" ?p "take n buf"] n by (simp add: min_absorb2)
    ultimately have "\<exists>q2. qcow_read E (length buf) (q1\<lparr>q_current_offset := ?p\<rparr>) = (Ok (take n buf), q2)"
      using qcow_read_ok [of E "q1\<lparr>q_current_offset := ?p\<rparr>" "length buf"] q'(1,3) by (auto simp: q1 qok_def qinv_def)
    then show ?thesis using q' n by (auto simp: q1 store_def)
  qed
  have bad: "\<exists>k < n. content E q1 = store (content E q) ?p (take k buf)" if "cut_short E q ?p (take n buf) e q1" for e q1
    using that n by (auto simp: cut_short_def min_def split: if_splits)
  show ?thesis
    using qcow_write_ok [OF assms] ok bad by (auto simp: wp_def cut_short_def split: prod.splits outcome.splits)
qed

theorem qcow_write_read_back_witness:
  "case qcow_write small_env [1, 2, 3] (small_image False) of
      (Ok m, q1) \<Rightarrow> m = 3 \<and> qok small_env q1 \<and>
        (\<exists>q2. qcow_read small_env 3 (q1\<lparr>q_current_offset := 0\<rparr>) = (Ok [1, 2, 3], q2)) \<and>
        (\<forall>a. a < 0 \<or> 0 + 3 \<le> a \<longrightarrow> content small_env q1 a = content small_env (small_image False) a)
    | (Err e, q1) \<Rightarrow> e = OsError ENOSPC \<and>
        (\<exists>k < 3. content small_env q1 = store (content small_env (small_image False)) 0 (take k [1, 2, 3]))
    | _ \<Rightarrow> False"
proof -
  have o: "q_current_offset (small_image False) = 0" by (simp add: small_image_def)
  have "3 = limit_range_file (small_image False) (q_current_offset (small_image False)) (length [1 :: u8, 2, 3])"
    by (simp add: limit_range_file_def o small_fields)
  moreover have "length [1 :: u8, 2, 3] = 3" "take 3 [1 :: u8, 2, 3] = [1, 2, 3]" by simp_all
  ultimately show ?thesis using qcow_write_read_back [OF small_qok, of 3 False "[1, 2, 3]"] unfolding o by (simp only:)
qed


subsection \<open>Flushing\<close>

lemma clean_table_disk:
  assumes ok: "tables_ok parse valid ptrs c f" and c: "clean_tables c" and t: "t < length ptrs" "ptrs ! t \<noteq> 0"
  shows "parse (bytes_at (hf_data f) (ptrs ! t) (qr_cluster_size f)) = view_of parse ptrs c f t"
  using tables_okD(6) [OF ok] c
  by (auto simp: view_of_def table_view_def tables_synced_def clean_tables_def split: option.split)

text \<open>C14. Durability. Flushing a consistent image never fails, and afterwards the file alone determines the disk: the
  header, the L1 table, the reference count table, every L2 table and every block of counts read back from the file
  as the image has them, the contents are unchanged, the image is consistent and no cluster waits to be freed.\<close>

theorem qcow_flush_durable:
  assumes "qok E q"
  shows "\<exists>q'. qcow_flush E q = (Ok (), q') \<and> qok E q' \<and> content E q' = content E q \<and> q_unref_clusters q' = [] \<and>
    parse_header (qe_be E) (bytes_at (q_data q') 0 104) = Some (clear_lazy (q_header q)) \<and>
    l1_disk E q' = q_l1 q' \<and> rt_disk E q' = q_rt q' \<and>
    (\<forall>i < length (q_l1 q'). q_l1 q' ! i \<noteq> 0 \<longrightarrow>
       parse_l2 (qe_be E) (bytes_at (q_data q') (q_l1 q' ! i) (q_cluster_size q')) = l2_view E q' i) \<and>
    (\<forall>i < length (q_rt q'). q_rt q' ! i \<noteq> 0 \<longrightarrow>
       parse_counts (qe_be E) (bytes_at (q_data q') (q_rt q' ! i) (q_cluster_size q')) = block_view E (q_refcounts q') (q_raw_file q') i)"
proof -
  obtain q' where r: "qcow_flush E q = (Ok (), q')" "qok E q'" "geo q q'" "content E q' = content E q" "settled q'"
    "q_unref_clusters q' = []"
    using qcow_flush_ok [OF assms] by (auto simp: wp_def split: prod.splits outcome.splits)
  have co: "core E q'" and p: "pool E q'" using r(2) by (simp_all add: qok_def qinv_def qsafe_def)
  note S = r(5) [unfolded settled_def]
  have "parse_l2 (qe_be E) (bytes_at (q_data q') (q_l1 q' ! i) (q_cluster_size q')) = l2_view E q' i"
    if "i < length (q_l1 q')" "q_l1 q' ! i \<noteq> 0" for i
    using clean_table_disk [OF coreD(4) [OF co] _ that] S by (simp add: l2_view_def q_cluster_size_def)
  moreover have "parse_counts (qe_be E) (bytes_at (q_data q') (q_rt q' ! i) (q_cluster_size q')) = block_view E (q_refcounts q') (q_raw_file q') i"
    if "i < length (q_rt q')" "q_rt q' ! i \<noteq> 0" for i
    using clean_table_disk [OF rc_okD(5) [OF poolD(3) [OF p]] _ that] S by (simp add: block_view_def q_cluster_size_def)
  ultimately show ?thesis using r coreD(11) [OF co] S geoD(8) [OF r(3)] by (auto simp: disk_synced_def)
qed

theorem qcow_flush_durable_witness:
  "\<exists>q'. qcow_flush small_env (small_image True) = (Ok (), q') \<and> content small_env q' = content small_env (small_image True) \<and>
    l1_disk small_env q' = q_l1 q'"
  using qcow_flush_durable [OF small_qok, of True] by blast

subsection \<open>A full image\<close>

lemma no_space:
  assumes "q_avail_clusters q = []" "q_max q < next_cluster (q_len q) (q_cluster_size q) (qr_cluster_mask (q_raw_file q))" "q_len q < 2 ^ 63"
  shows "get_new_cluster E q = (Err (OsError ENOSPC), q\<lparr>q_raw_file := at_pos (q_len q) (q_raw_file q)\<rparr>)"
  using assms
  by (simp add: get_new_cluster_def add_cluster_end_def on_raw_def zoom_def raw_seek_end_def raw_seek_eq io_defs q_cluster_size_def Let_def
      flip: at_pos_def)

lemma at_pos_qsafe:
  assumes "qsafe E q"
  shows "qsafe E (q\<lparr>q_raw_file := at_pos p (q_raw_file q)\<rparr>)"
proof -
  let ?q = "q\<lparr>q_raw_file := at_pos p (q_raw_file q)\<rparr>"
  have "disk_synced E ?q" by (rule disk_synced_file [OF assms refl]) simp_all
  moreover have "q_len q \<le> x \<Longrightarrow> q_data q x = 0" for x using poolD(9) [of E q x] assms by (simp add: qsafe_def)
  ultimately show ?thesis using qsafe_data [OF assms refl, of "at_pos p (q_raw_file q)"] by simp
qed

text \<open>C16. Failure. When the image is full at the moment a write has to move an L2 table that is already on disk,
  \<open>update_cluster_addr\<close> fails with \<open>ENOSPC\<close> after it has queued the cluster of that table for release.  The next flush
  succeeds and makes the cluster available, and the next allocation hands out, and overwrites with zeros, the cluster
  in which the L1 table still looks for the L2 table.\<close>

theorem qcow_full_image_frees_table:
  assumes q: "qok E q" and t: "cm_get (q_l2_cache q) i = Some t" "\<not> vc_dirty t"
    and s: "q_avail_clusters q = []" "q_max q < next_cluster (q_len q) (q_cluster_size q) (qr_cluster_mask (q_raw_file q))"
  shows "\<exists>q1 q2 q3. update_cluster_addr E i j a q = (Err (OsError ENOSPC), q1) \<and> qcow_flush E q1 = (Ok (), q2) \<and>
    get_new_cluster E q2 = (Ok (q_l1 q ! i), q3) \<and> q_l1 q3 ! i = q_l1 q ! i \<and> q_l1 q ! i \<noteq> 0 \<and>
    (\<forall>x. within (q_cluster_size q) (q_l1 q ! i) x \<longrightarrow> q_data q3 x = 0)"
proof -
  have qs: "qsafe E q" and p: "pool E q" and co: "core E q" using q by (simp_all add: qok_def qinv_def qsafe_def)
  note T = tables_okD [OF coreD(4) [OF co]]
  have i: "i < length (q_l1 q)" "q_l1 q ! i \<noteq> 0" using T(5) [OF t(1)] by auto
  let ?l = "q_l1 q ! i"
  define q1 where "q1 = q\<lparr>q_unref_clusters := q_unref_clusters q @ [?l], q_raw_file := at_pos (q_len q) (q_raw_file q)\<rparr>"
  have r1: "update_cluster_addr E i j a q = (Err (OsError ENOSPC), q1)"
    using no_space [of "q\<lparr>q_unref_clusters := q_unref_clusters q @ [?l]\<rparr>" E] s T(2) t i
    by (simp add: update_cluster_addr_def unwrap_def index_def add_unref_def io_defs q1_def)
  have q1: "qsafe E q1" using at_pos_qsafe [of E "q\<lparr>q_unref_clusters := q_unref_clusters q @ [?l]\<rparr>" "q_len q"] qs by (simp add: q1_def)
  obtain q' where f: "sync_caches E q1 = (Ok (), q')" "flushed E q1 q'"
    using sync_caches_ok [OF q1] by (auto simp: wp_def split: prod.splits outcome.splits)
  note F = flushedD [OF f(2)]
  define q2 where "q2 = q'\<lparr>q_avail_clusters := q_unref_clusters q @ [?l], q_unref_clusters := []\<rparr>"
  have r2: "qcow_flush E q1 = (Ok (), q2)" using f(1) F(6,7) s(1) by (simp add: qcow_flush_def io_defs q2_def q1_def)
  define q3 where "q3 = q2\<lparr>q_avail_clusters := q_unref_clusters q, q_raw_file := at_pos (?l + q_cluster_size q') ((q_raw_file q')\<lparr>
    hf_data := zeroed (q_data q') ?l (q_cluster_size q'), hf_len := max (q_len q') (?l + q_cluster_size q')\<rparr>)\<rparr>"
  have size: "q_cluster_size q' = q_cluster_size q" using F(2) by (simp add: geo_def q1_def q_cluster_size_def)
  then have "?l + qr_cluster_size (q_raw_file q') < 2 ^ 63" using T(2) T(7) [OF i] by (simp add: q_cluster_size_def)
  then have r3: "get_new_cluster E q2 = (Ok ?l, q3)" using zero_cluster_eq [OF poolD(1) [OF p], of ?l "q_raw_file q'"]
    by (simp add: get_new_cluster_def q2_def on_raw_def zoom_def io_defs q3_def q_cluster_size_def Let_def)
  have "q_l1 q3 ! i = ?l" using F(9) by (simp add: q3_def q2_def q1_def)
  moreover have "\<forall>x. within (q_cluster_size q) ?l x \<longrightarrow> q_data q3 x = 0" using size by (simp add: q3_def within_def zeroed_def)
  ultimately show ?thesis using r1 r2 r3 i(2) by blast
qed

theorem qcow_full_image_frees_table_witness:
  "\<exists>q1 q2 q3. update_cluster_addr small_env 0 0 2560 (small_image True) = (Err (OsError ENOSPC), q1) \<and> qcow_flush small_env q1 = (Ok (), q2) \<and>
    get_new_cluster small_env q2 = (Ok 2048, q3) \<and> q_l1 q3 ! 0 = 2048"
proof -
  have "q_max (small_image True) < next_cluster (q_len (small_image True)) (q_cluster_size (small_image True))
      (qr_cluster_mask (q_raw_file (small_image True)))"
    unfolding small_fields by (simp add: next_cluster_def)
  from qcow_full_image_frees_table [OF small_qok _ _ _ this, of 0 "vec_cache_from_vec (replicate 64 0)" 0 2560] show ?thesis
    by (auto simp: small_fields vec_cache_from_vec_def)
qed


subsection \<open>The header\<close>

text \<open>C38. Round trip. A header written to the start of a file is read back with all its fields, those that version 2
  does not have at their defaults, whenever the byte \<open>write_to\<close> clears to extend the file lies behind the header.\<close>

theorem qcow_header_round_trip:
  fixes f :: raw_file
  assumes "codec_ok (qe_be E)" "quiet f" "hf_len f < 2 ^ 63" "qh_magic h = QCOW_MAGIC"
    "104 \<le> last_table_byte h" "unat (last_table_byte h) < 2 ^ 63 - 1"
  shows "\<exists>g p. qcow_header_write_to E h (at_pos 0 f) = (Ok (), g) \<and> qcow_header_new E g = (Ok (as_version h), at_pos p g)"
proof -
  let ?l = "unat (last_table_byte h)" and ?H = "header_bytes (qe_be E) h"
  define g where "g = at_pos (?l + 1) (put_at ?l [0] (put_at 0 ?H f))"
  have l: "104 \<le> ?l" using assms(5) by (simp add: word_le_nat_alt)
  have w: "qcow_header_write_to E h (at_pos 0 f) = (Ok (), g)"
    unfolding g_def using assms(6) by (intro qcow_header_write_eq [OF assms(2,1)]) simp
  have n: "length ?H = 104" by (rule length_header_bytes [OF assms(1)])
  have "bytes_at (hf_data g) 0 104 = ?H"
    using slice_store [of "hf_data f" 0 ?H] n l by (simp add: g_def slice_store_other)
  then have "parse_header (qe_be E) (bytes_at (hf_data g) 0 104) = Some (as_version h)"
    using parse_header_bytes [OF assms(1,4)] by simp
  then show ?thesis
    using qcow_header_new_eq [of g E] w assms(1-3,6) n l by (force simp: g_def)
qed

theorem qcow_header_round_trip_witness:
  "\<exists>g p. qcow_header_write_to small_env small_header (at_pos 0 (raw_file.truncate (small_raw False))) = (Ok (), g) \<and>
    qcow_header_new small_env g = (Ok small_header, at_pos p g)"
proof -
  have "quiet (raw_file.truncate (small_raw False))" "hf_len (raw_file.truncate (small_raw False)) < 2 ^ 63"
    by (simp_all add: small_raw_def quiet_def raw_file.defs)
  moreover have "last_table_byte small_header = 1534" by (simp add: last_table_byte_def small_header_def)
  moreover have "as_version small_header = small_header" "qh_magic small_header = QCOW_MAGIC" by (simp_all add: as_version_def small_header_def)
  moreover have "codec_ok (qe_be small_env)" using codec_ok_be_impl by (simp add: small_env_def)
  ultimately show ?thesis using qcow_header_round_trip [of small_env "raw_file.truncate (small_raw False)" small_header] by simp
qed


end
