(* ===== verification/Spec2Isabelle.thy ===== *)
theory Spec2Isabelle
  imports Rate_Limiter Vsock_Muxer Pci_Relocation Pci_Caps Pci_Msi Qcow_Contract
begin

text \<open>
  A verification development for the Cloud Hypervisor virtual machine monitor (VMM).

  \<^bold>\<open>The program.\<close>  A VMM process runs one guest.  The guest reaches its devices through port and
  memory accesses; the device buses of \<^verbatim>\<open>src/vm-device\<close> route an access to a device, the PCI bus of
  \<^verbatim>\<open>src/pci\<close> routes configuration accesses to a PCI function, and a function announces its register
  windows (BARs) and interrupts (MSI, MSI-X) in its configuration space.  When a guest moves a BAR
  the device manager of \<^verbatim>\<open>src/vmm\<close> takes the old range back from the address allocators of
  \<^verbatim>\<open>src/vm-allocator\<close>, claims the new one and moves the device on the bus.  Devices move data between
  guest memory and the host: the vsock device of \<^verbatim>\<open>src/virtio-devices/src/vsock\<close> multiplexes
  connections of the guest over Unix sockets, the block device stores to disk images in the formats of
  \<^verbatim>\<open>src/qcow\<close>, and \<^verbatim>\<open>src/rate_limiter\<close> throttles both.

  \<^bold>\<open>How the code is modelled.\<close>  Rust's unsigned integers are words of their width, with the wrapping
  arithmetic of the release profile; the disk image code keeps file offsets as natural numbers, its header
  fields, table entries on disk and counts at their width, and writes out where the source checks for overflow.  Structs are
  records, enums are datatypes, \<open>&mut self\<close> is state passing.  A panic is a value (\<open>None\<close>, or \<open>Panic\<close> of
  \<open>Io_Monad\<close>), and so are errors.  Code that is not in the repository is an argument: clocks,
  file descriptors and sockets as scripts of the outcomes to come, the \<open>byteorder\<close> conversions as a
  codec with the laws \<open>codec_ok\<close>, guest memory, the iteration order of hash maps, and the operations of
  \<open>vmm_sys_util\<close> that zero or punch file ranges (\<open>env_ok\<close> states what is documented of them).

  \<^bold>\<open>Foundations.\<close>  \<open>CH_Prelude\<close>: the integer operations and the lemmas on words.  \<open>Btree_Map\<close>: the ordered
  map of the standard library behind the interface \<open>ordered_map\<close>.  \<open>Byte_Order\<close>: codecs.  \<open>Io_Monad\<close>:
  fallible computations on a state, with a weakest-precondition calculus in which the disk image
  operations are specified.

  \<^bold>\<open>Addresses and buses.\<close>  \<open>Address_Allocator\<close> (\<^verbatim>\<open>vm-allocator/src/address.rs\<close>): the range tree, \<open>allocate\<close>
  and \<open>free\<close>; over every sequence of calls the blocks in use are disjoint and inside the region, an allocation adds exactly
  the block it returns, and one without a requested address fails only when no aligned block is free (alignments fit between
  the end of the region and \<open>2^64\<close>).  \<open>System_Allocator\<close> (\<^verbatim>\<open>gsi.rs\<close>, \<^verbatim>\<open>system.rs\<close>): interrupt numbers are handed
  out once; the three address spaces each implement the interface \<open>range_allocator\<close>.  \<open>Device_Bus\<close>
  (\<^verbatim>\<open>vm-device/src/bus.rs\<close>): an access reaches exactly the device registered there; insertion, removal
  and the outcomes of \<open>update_range\<close>, for ranges that end below \<open>2^64\<close>.

  \<^bold>\<open>PCI.\<close>  \<open>Pci_Configuration\<close> (\<^verbatim>\<open>pci/src/configuration.rs\<close>): the register file, BARs, capabilities; guest
  writes change writable bits only, BAR sizing follows the PCI specification.  \<open>Pci_Caps\<close>: the capability
  list a guest walks, for bodies of every length.  \<open>Pci_Msix\<close> and \<open>Pci_Msi\<close> (\<^verbatim>\<open>msix.rs\<close>, \<^verbatim>\<open>msi.rs\<close>): no
  interrupt is lost or duplicated across masking; table round trips; which guest accesses panic.
  \<open>Pci_Bus\<close> (\<^verbatim>\<open>bus.rs\<close>): slots, both configuration access mechanisms, the configuration accesses of virtio devices
  (\<open>VirtioPciDevice\<close> of \<^verbatim>\<open>virtio-devices/src/transport/pci_device.rs\<close>), and the relocation of a 64-bit BAR by
  two writes in either order.
  \<open>Pci_Relocation\<close> (\<open>AddressManager::move_bar\<close> of \<^verbatim>\<open>vmm/src/device_manager.rs\<close>): composition with the
  allocators, the buses and the device tree.

  \<^bold>\<open>Rate limiting.\<close>  \<open>Rate_Limiter\<close>: tokens granted are bounded by burst, size and elapsed time; from
  its construction on the limiter always returns, and it blocks whenever it refuses.  Both are for refill times that fit
  64 bits in nanoseconds; \<open>refill_time_wraps\<close> shows the panic otherwise.

  \<^bold>\<open>Vsock.\<close>  \<open>Vsock_Packet\<close> (\<^verbatim>\<open>packet.rs\<close>): header accessors refine the documented structure, given by the widths of its
  fields; descriptor chains are checked.  \<open>Vsock_Txbuf\<close> (\<^verbatim>\<open>csm/txbuf.rs\<close>): the ring buffer implements the interface \<open>byte_queue\<close>.
  \<open>Vsock_Connection\<close> (\<^verbatim>\<open>csm/connection.rs\<close>): the byte stream of a connection with the
  acknowledgement a host client gets, the credit of a guest that keeps to the protocol (\<open>credit_life\<close>), resets and the kill timer.
  \<open>Vsock_Queues\<close> and \<open>Vsock_Muxer\<close> (\<^verbatim>\<open>unix/muxer*.rs\<close>): routing, bounded queues that can be rebuilt, and
  safety of every sequence of guest packets, fetches and host events, as long as host clients ask for at most
  \<open>2^30\<close> connections, since refused ones keep their port.

  \<^bold>\<open>Disk images.\<close>  \<open>Raw_File\<close> (\<^verbatim>\<open>qcow/src/raw_file.rs\<close>): host files with short transfers and faults, direct I/O.
  \<open>Qcow_Tables\<close> (\<^verbatim>\<open>qcow_raw_file.rs\<close>, \<^verbatim>\<open>vec_cache.rs\<close>): tables in the file and in the cache; the interface
  \<open>table_format\<close> carries the argument that eviction changes nothing, once for blocks of counts
  (\<open>Qcow_Refcount\<close>, \<^verbatim>\<open>refcount.rs\<close>) and once for L2 tables (\<open>Qcow_File\<close>, \<^verbatim>\<open>qcow.rs\<close>).  \<open>Qcow_Header\<close>: the header
  and its round trip.  \<open>Qcow_Pool\<close>: taking a cluster and setting a count, which may itself need
  clusters.  \<open>Qcow_Disk\<close>: the invariant (\<open>qsafe\<close>, \<open>qok\<close>: every cluster has one use, is counted, and clean
  tables are on disk) and the abstraction \<open>content\<close> from an image to the bytes its user sees;
  reading and the search for allocated clusters.  \<open>Qcow_Write\<close>, \<open>Qcow_Discard\<close>, \<open>Qcow_Sync\<close>: writing,
  discarding and flushing keep the invariant and act on \<open>content\<close> as they should.  \<open>Qcow_Run\<close>: every
  operation is a step of a flat array of bytes.  \<open>Qcow_Contract\<close>: the resulting contract, a small image
  on which it is instantiated, and what happens when an image is full.

  \<^bold>\<open>Bounds.\<close>  Loops are structural recursion, or terminate by a measure.  The loop of the multiplexer that
  fetches a packet is a partial function and is shown to return from every reachable state.  The disk
  image code uses explicit bounds: reading and writing make progress by at least one byte, so the number
  of bytes is enough; \<open>read_exact\<close> and \<open>write_all\<close> consume a byte or an event of the script; the loop
  of \<open>set_cluster_refcount\<close> goes round at most three times (load the block, take a cluster for it, store
  the count) and has a bound of four; its recursion takes a cluster each time, so the clusters left plus one are enough.  That no operation
  on a consistent image gets stuck is part of every specification.

  \<^bold>\<open>Assumptions of the disk image theorems.\<close>  They are proved for files on which the host completes every
  call, without direct I/O (\<open>quiet\<close>), and on which zeroing a range succeeds, while punching a hole may
  fail without effect (\<open>env_ok\<close>); the definitions cover short transfers and faults, and the theorem of
  \<open>Raw_File\<close> direct I/O.  They start from a consistent image (\<open>qok\<close>): a disk of at most \<open>2^44\<close> bytes, which the
  source checks on opening, and clusters below \<open>2^56\<close>, every one with one use and counted, which the
  source does not check.  They end with the first call that finds the image full:
  \<open>qcow_full_image_frees_table\<close> shows that an L2 table in use can be given away after it.

  \<^bold>\<open>Not modelled.\<close>  Opening, creation and conversion of qcow images (\<open>QcowFile::from\<close>, \<open>new\<close>,
  \<open>rebuild_refcounts\<close>, \<open>convert\<close>); the textual connect command of the vsock multiplexer; the calls of
  \<open>move_bar\<close> into the hypervisor; the remaining virtio devices and the rest of their transport, whose state lives
  in guest memory and virtqueues of external crates; the legacy devices; VHD and VHDX images; the
  configuration parser, the REST interface and the command line, which are input and output around
  serialisation libraries; \<^verbatim>\<open>vmm/src/vm.rs\<close>, \<^verbatim>\<open>cpu.rs\<close>, \<^verbatim>\<open>memory_manager.rs\<close> and \<^verbatim>\<open>src/hypervisor\<close>, which
  sequence system calls on hypervisor objects; migration, ACPI tables, VFIO and vhost-user, which
  exchange messages with external programs; generated bindings and test infrastructure.
\<close>

end
